(* ===== verification/Prelude.thy ===== *)
theory Prelude
  imports Main "HOL-Library.Word"
begin

unbundle bit_operations_syntax

text \<open>
  What every component of the engine shares: the machine integers of the Rust
  sources, the little- and big-endian byte codecs (\<open>to_le_bytes\<close>,
  \<open>from_le_bytes\<close> and their big-endian twins), the guest's linear memory
  with the two ways the host reads and writes it, and generic lemmas on lists
  and sums. The host is a 64-bit machine, so \<open>usize\<close> values are natural
  numbers below \<open>2 ^ 64\<close>; the engine is built in release mode, where
  integer overflow wraps.
\<close>

named_theorems codec_simps \<open>evaluation of the byte codecs\<close>
named_theorems mem_simps \<open>lengths and frames of guest memory writes\<close>

type_synonym byte = "8 word"
type_synonym u8 = "8 word"
type_synonym u16 = "16 word"
type_synonym u32 = "32 word"
type_synonym u64 = "64 word"
type_synonym bytes = "8 word list"
type_synonym mem = "8 word list"

subsection \<open>Byte codecs\<close>

primrec to_le :: "nat \<Rightarrow> nat \<Rightarrow> bytes" where
  "to_le 0 v = []"
| "to_le (Suc n) v = word_of_nat v # to_le n (v div 256)"

primrec from_le :: "bytes \<Rightarrow> nat" where
  "from_le [] = 0"
| "from_le (b # bs) = unat b + 256 * from_le bs"

definition to_be :: "nat \<Rightarrow> nat \<Rightarrow> bytes" where
  "to_be n v = rev (to_le n v)"

definition from_be :: "bytes \<Rightarrow> nat" where
  "from_be bs = from_le (rev bs)"

definition u16_le :: "u16 \<Rightarrow> bytes" where "u16_le w = to_le 2 (unat w)"
definition u32_le :: "u32 \<Rightarrow> bytes" where "u32_le w = to_le 4 (unat w)"
definition u64_le :: "u64 \<Rightarrow> bytes" where "u64_le w = to_le 8 (unat w)"
definition u16_be :: "u16 \<Rightarrow> bytes" where "u16_be w = to_be 2 (unat w)"
definition u32_be :: "u32 \<Rightarrow> bytes" where "u32_be w = to_be 4 (unat w)"
definition u64_be :: "u64 \<Rightarrow> bytes" where "u64_be w = to_be 8 (unat w)"

definition bslice :: "nat \<Rightarrow> nat \<Rightarrow> 'a list \<Rightarrow> 'a list" where
  "bslice i n xs = take n (drop i xs)"

definition le16_at :: "nat \<Rightarrow> bytes \<Rightarrow> u16" where
  "le16_at i bs = word_of_nat (from_le (bslice i 2 bs))"
definition le32_at :: "nat \<Rightarrow> bytes \<Rightarrow> u32" where
  "le32_at i bs = word_of_nat (from_le (bslice i 4 bs))"
definition le64_at :: "nat \<Rightarrow> bytes \<Rightarrow> u64" where
  "le64_at i bs = word_of_nat (from_le (bslice i 8 bs))"
definition be16_at :: "nat \<Rightarrow> bytes \<Rightarrow> u16" where
  "be16_at i bs = word_of_nat (from_be (bslice i 2 bs))"
definition be32_at :: "nat \<Rightarrow> bytes \<Rightarrow> u32" where
  "be32_at i bs = word_of_nat (from_be (bslice i 4 bs))"

lemma length_to_le [simp, codec_simps]: "length (to_le n v) = n"
  by (induction n arbitrary: v) auto

lemma length_to_be [simp, codec_simps]: "length (to_be n v) = n"
  by (simp add: to_be_def)

lemma length_uN_bytes [simp, codec_simps]:
  "length (u16_le a) = 2" "length (u32_le b) = 4" "length (u64_le c) = 8"
  "length (u16_be a) = 2" "length (u32_be b) = 4" "length (u64_be c) = 8"
  by (simp_all add: u16_le_def u32_le_def u64_le_def u16_be_def u32_be_def u64_be_def)

lemma from_le_to_le: "from_le (to_le n v) = v mod 256 ^ n"
proof (induction n arbitrary: v)
  case 0
  then show ?case by simp
next
  case (Suc n)
  have "unat (word_of_nat v :: 8 word) = v mod 256"
    by (simp add: unat_of_nat)
  moreover have "v mod 256 + 256 * (v div 256 mod 256 ^ n) = v mod (256 * 256 ^ n)"
    by (simp add: mod_mult2_eq)
  ultimately show ?case by (simp add: Suc)
qed

lemma from_be_to_be: "from_be (to_be n v) = v mod 256 ^ n"
  by (simp add: from_be_def to_be_def from_le_to_le)

lemma byte_bound [simp]: "unat (b :: 8 word) < 256"
  using unsigned_less [of b, where ?'a = nat] by simp

lemma from_le_bound: "from_le bs < 256 ^ length bs"
proof (induction bs)
  case Nil
  then show ?case by simp
next
  case (Cons b bs)
  have digit: "b + 256 * x < 256 * p" if "b < 256" "x < p" for b x p :: nat
    using that by arith
  show ?case using digit [OF byte_bound Cons] by simp
qed

lemma from_be_bound: "from_be bs < 256 ^ length bs"
  using from_le_bound [of "rev bs"] by (simp add: from_be_def)

lemma to_le_from_le: "length bs = n \<Longrightarrow> to_le n (from_le bs) = bs"
proof (induction bs arbitrary: n)
  case Nil
  then show ?case by simp
next
  case (Cons b bs)
  have "unat b < 256" by simp
  then have "(unat b + 256 * from_le bs) div 256 = from_le bs" by simp
  moreover have "unat (word_of_nat (unat b + 256 * from_le bs) :: 8 word) = unat b"
    by (subst unat_of_nat) simp
  then have "(word_of_nat (unat b + 256 * from_le bs) :: 8 word) = b"
    by (simp only: word_unat_eq_iff)
  ultimately show ?case using Cons by auto
qed

lemma uN_roundtrip [simp, codec_simps]:
  "word_of_nat (from_le (u16_le a)) = a"
  "word_of_nat (from_le (u32_le b)) = b"
  "word_of_nat (from_le (u64_le c)) = c"
  "word_of_nat (from_be (u16_be a)) = a"
  "word_of_nat (from_be (u32_be b)) = b"
  "word_of_nat (from_be (u64_be c)) = c"
  using unsigned_less [of a, where ?'a = nat] unsigned_less [of b, where ?'a = nat]
    unsigned_less [of c, where ?'a = nat]
  by (simp_all add: u16_le_def u32_le_def u64_le_def u16_be_def u32_be_def u64_be_def
      from_le_to_le from_be_to_be)

subsection \<open>Slices\<close>

lemma bslice_skip [codec_simps]:
  "length xs \<le> i \<Longrightarrow> bslice i n (xs @ ys) = bslice (i - length xs) n ys"
  by (simp add: bslice_def)

lemma bslice_within [codec_simps]:
  "i + n \<le> length xs \<Longrightarrow> bslice i n (xs @ ys) = bslice i n xs"
  by (simp add: bslice_def)

lemma bslice_first [codec_simps]: "length xs = n \<Longrightarrow> bslice 0 n (xs @ ys) = xs"
  by (simp add: bslice_def)

lemma bslice_whole [codec_simps]: "length xs = n \<Longrightarrow> bslice 0 n xs = xs"
  by (simp add: bslice_def)

lemma length_bslice [simp]: "length (bslice i n xs) = min n (length xs - i)"
  by (simp add: bslice_def)

lemma bslice_cong_nth:
  "\<lbrakk>i + n \<le> length xs; length ys = length xs; \<And>j. i \<le> j \<Longrightarrow> j < i + n \<Longrightarrow> xs ! j = ys ! j\<rbrakk>
   \<Longrightarrow> bslice i n xs = bslice i n ys"
  by (rule nth_equalityI) (auto simp: bslice_def)

lemma bslice_slice [simp]: "j + m \<le> n \<Longrightarrow> bslice j m (bslice i n xs) = bslice (i + j) m xs"
  by (simp add: bslice_def take_drop add.commute min_def)

subsection \<open>The guest's linear memory\<close>

text \<open>
  The shared memory of the WebAssembly guest, at most 4 GiB. Every access of the host is
  checked against its length: \<open>guest_bytes\<close> copies a range out or fails,
  \<open>poke\<close> is the store loop of \<open>write_u16\<close>, \<open>write_u32\<close> and
  \<open>Connected::setup\<close> (a cell outside is skipped), \<open>write_bytes\<close>
  stops at the end and says how much was written.
\<close>

definition guest_bytes :: "mem \<Rightarrow> u32 \<Rightarrow> u32 \<Rightarrow> bytes option" where
  "guest_bytes memory address len =
     (let start = unat address; end = unat address + unat len
      in if end > length memory then None else Some (bslice start (unat len) memory))"

primrec poke :: "mem \<Rightarrow> u64 \<Rightarrow> bytes \<Rightarrow> mem" where
  "poke m at [] = m"
| "poke m at (b # bs) = poke (m[unat at := b]) (at + 1) bs"

definition write_u16 :: "mem \<Rightarrow> u64 \<Rightarrow> u16 \<Rightarrow> mem" where
  "write_u16 m at v = poke m at (u16_le v)"

definition write_u32 :: "mem \<Rightarrow> u64 \<Rightarrow> u32 \<Rightarrow> mem" where
  "write_u32 m at v = poke m at (u32_le v)"

primrec write_bytes :: "mem \<Rightarrow> u64 \<Rightarrow> bytes \<Rightarrow> mem \<times> nat" where
  "write_bytes m at [] = (m, 0)"
| "write_bytes m at (b # bs) =
     (if unat at < length m
      then let (m', n) = write_bytes (m[unat at := b]) (at + 1) bs in (m', Suc n)
      else (m, 0))"

lemma length_poke [simp, mem_simps]: "length (poke m at bs) = length m"
  by (induction bs arbitrary: m at) auto

lemma length_write_bytes [simp, mem_simps]: "length (fst (write_bytes m at bs)) = length m"
  by (induction bs arbitrary: m at) (auto simp: split_beta Let_def)

lemma write_bytes_le: "snd (write_bytes m at bs) \<le> length bs"
  by (induction bs arbitrary: m at) (auto simp: split_beta Let_def)

lemma unat_add_1: "Suc (unat (at :: u64)) < 2 ^ 64 \<Longrightarrow> unat (at + 1) = Suc (unat at)"
  by (simp add: unat_word_ariths)

lemma poke_eq:
  "\<lbrakk>unat at + length bs \<le> length m; length m < 2 ^ 64\<rbrakk>
   \<Longrightarrow> poke m at bs = take (unat at) m @ bs @ drop (unat at + length bs) m"
proof (induction bs arbitrary: m at)
  case Nil
  then show ?case by simp
next
  case (Cons b bs)
  show ?case
  proof (cases bs)
    case Nil
    with Cons.prems show ?thesis by (simp add: upd_conv_take_nth_drop)
  next
    case (Cons c cs)
    with Cons.prems have step: "unat (at + 1) = Suc (unat at)"
      by (intro unat_add_1) simp
    have "poke (m[unat at := b]) (at + 1) bs =
      take (Suc (unat at)) (m[unat at := b]) @ bs @ drop (Suc (unat at) + length bs) (m[unat at := b])"
      using Cons.IH [of "at + 1" "m[unat at := b]"] Cons.prems step by simp
    then show ?thesis
      using Cons.prems by (simp add: take_Suc_conv_app_nth)
  qed
qed

lemma write_bytes_eq:
  "\<lbrakk>unat at + length bs \<le> length m; length m < 2 ^ 64\<rbrakk>
   \<Longrightarrow> write_bytes m at bs = (poke m at bs, length bs)"
proof (induction bs arbitrary: m at)
  case Nil
  then show ?case by simp
next
  case (Cons b bs)
  show ?case
  proof (cases bs)
    case Nil
    with Cons.prems show ?thesis by simp
  next
    case (Cons c cs)
    with Cons.prems have "unat (at + 1) = Suc (unat at)"
      by (intro unat_add_1) simp
    then show ?thesis
      using Cons.IH [of "at + 1" "m[unat at := b]"] Cons.prems by simp
  qed
qed

lemma poke_nth_other:
  "\<lbrakk>unat at + length bs \<le> length m; length m < 2 ^ 64; j < unat at \<or> unat at + length bs \<le> j;
    j < length m\<rbrakk> \<Longrightarrow> poke m at bs ! j = m ! j"
  by (auto simp: poke_eq nth_append min_def)

lemma bslice_poke_other:
  "\<lbrakk>unat at + length bs \<le> length m; length m < 2 ^ 64; i + n \<le> unat at \<or> unat at + length bs \<le> i;
    i + n \<le> length m\<rbrakk>
   \<Longrightarrow> bslice i n (poke m at bs) = bslice i n m"
  by (rule bslice_cong_nth) (auto simp: poke_nth_other)

lemma bslice_poke_same:
  "\<lbrakk>unat at + length bs \<le> length m; length m < 2 ^ 64; i = unat at; n = length bs\<rbrakk>
   \<Longrightarrow> bslice i n (poke m at bs) = bs"
  by (simp add: poke_eq bslice_def)

subsection \<open>Pieces\<close>

function chunks :: "nat \<Rightarrow> bytes \<Rightarrow> bytes list" where
  "chunks n xs = (if n = 0 \<or> xs = [] then [] else take n xs # chunks n (drop n xs))"
  by pat_completeness auto
termination by (relation "measure (\<lambda>(n, xs). length xs)") auto

declare chunks.simps [simp del]

lemma chunks_concat: "0 < n \<Longrightarrow> concat (chunks n xs) = xs"
  by (induction n xs rule: chunks.induct) (simp add: chunks.simps [of n for n])

lemma chunks_small: "c \<in> set (chunks n xs) \<Longrightarrow> c \<noteq> [] \<and> length c \<le> n"
proof (induction n xs rule: chunks.induct)
  case (1 n xs)
  then show ?case by (auto simp: chunks.simps [of n xs] split: if_splits)
qed

end
