(* ===== verification/Virtio.thy ===== *)
theory Virtio
  imports Prelude
begin

unbundle bit_operations_syntax

text \<open>
  The packed virtqueue of \<open>engine/src/virtio.rs\<close>: descriptors in guest memory,
  the device side of the ring (\<open>Queue\<close>), and a device together with the queues
  the guest enabled (\<open>Connected\<close>). An operation that fails half way keeps the
  changes it already made, so every operation returns its state beside its result.
  The ring is then abstracted to a position on a circle of twice its size, which is
  what the packed format's wrap counters encode.
\<close>

subsection \<open>Descriptors\<close>

record descriptor =
  d_address :: u64
  d_length :: u32
  d_id :: u16
  d_flags :: u16

datatype virtio_error =
    DescriptorOutside
  | ChainEnds
  | MalformedIndirect
  | QueueFull
  | DeviceError string
  | OutOfFuel

abbreviation DESCRIPTOR_SIZE :: u64 where "DESCRIPTOR_SIZE \<equiv> 16"
abbreviation FLAG_NEXT :: u16 where "FLAG_NEXT \<equiv> 1"
abbreviation FLAG_WRITE :: u16 where "FLAG_WRITE \<equiv> 2"
abbreviation FLAG_INDIRECT :: u16 where "FLAG_INDIRECT \<equiv> 4"
abbreviation FLAG_AVAIL :: u16 where "FLAG_AVAIL \<equiv> 128"
abbreviation FLAG_USED :: u16 where "FLAG_USED \<equiv> 32768"

definition has :: "descriptor \<Rightarrow> u16 \<Rightarrow> bool" where
  "has d flag \<longleftrightarrow> d_flags d AND flag \<noteq> 0"

definition parse_descriptor :: "bytes \<Rightarrow> descriptor" where
  "parse_descriptor bs =
     \<lparr>d_address = le64_at 0 bs, d_length = le32_at 8 bs, d_id = le16_at 12 bs, d_flags = le16_at 14 bs\<rparr>"

definition read_descriptor :: "mem \<Rightarrow> u64 \<Rightarrow> virtio_error + descriptor" where
  "read_descriptor m at =
     (case guest_bytes m (ucast at) (ucast DESCRIPTOR_SIZE) of
        None \<Rightarrow> Inl DescriptorOutside
      | Some bs \<Rightarrow> Inr (parse_descriptor bs))"

subsection \<open>The queue\<close>

record buffer =
  b_address :: u64
  b_length :: u32
  b_writable :: bool

record chain =
  c_buffers :: "buffer list"
  c_id :: u16
  c_skip :: u16

record queue =
  q_size :: u16
  q_descriptors_at :: u64
  q_irq :: u32
  q_avail_wrap :: bool
  q_used_wrap :: bool
  q_avail_index :: u16
  q_used_index :: u16

definition queue_new :: "u16 \<Rightarrow> u64 \<Rightarrow> u32 \<Rightarrow> queue" where
  "queue_new sz descriptors_at irq =
     \<lparr>q_size = sz, q_descriptors_at = descriptors_at, q_irq = irq,
      q_avail_wrap = True, q_used_wrap = True, q_avail_index = 0, q_used_index = 0\<rparr>"

definition descriptor_at :: "mem \<Rightarrow> queue \<Rightarrow> u16 \<Rightarrow> virtio_error + descriptor" where
  "descriptor_at m q index = read_descriptor m (q_descriptors_at q + DESCRIPTOR_SIZE * ucast index)"

definition advance :: "mem \<Rightarrow> queue \<Rightarrow> queue \<times> (virtio_error + u16 option)" where
  "advance m q =
     (case descriptor_at m q (q_avail_index q) of
        Inl e \<Rightarrow> (q, Inl e)
      | Inr d \<Rightarrow>
          let avail = has d FLAG_AVAIL; used = has d FLAG_USED in
          if avail = used \<or> avail \<noteq> q_avail_wrap q then (q, Inr None)
          else
            let index = q_avail_index q; q1 = q\<lparr>q_avail_index := index + 1\<rparr> in
            (if q_avail_index q1 \<ge> q_size q1
             then q1\<lparr>q_avail_index := 0, q_avail_wrap := \<not> q_avail_wrap q1\<rparr>
             else q1,
             Inr (Some index)))"

fun follow :: "nat \<Rightarrow> mem \<Rightarrow> queue \<Rightarrow> descriptor \<Rightarrow> descriptor list \<Rightarrow> u16
    \<Rightarrow> queue \<times> (virtio_error + descriptor list \<times> u16)" where
  "follow 0 m q d acc skip = (q, Inl OutOfFuel)"
| "follow (Suc fuel) m q d acc skip =
     (if \<not> has d FLAG_NEXT then (q, Inr (acc, skip))
      else case advance m q of
          (q1, Inl e) \<Rightarrow> (q1, Inl e)
        | (q1, Inr None) \<Rightarrow> (q1, Inl ChainEnds)
        | (q1, Inr (Some index)) \<Rightarrow>
            (case descriptor_at m q1 index of
               Inl e \<Rightarrow> (q1, Inl e)
             | Inr d1 \<Rightarrow> follow fuel m q1 d1 (acc @ [d1]) (skip + 1)))"

primrec read_table :: "mem \<Rightarrow> u64 \<Rightarrow> nat \<Rightarrow> virtio_error + descriptor list" where
  "read_table m at 0 = Inr []"
| "read_table m at (Suc n) =
     (case read_descriptor m at of
        Inl e \<Rightarrow> Inl e
      | Inr d \<Rightarrow> map_sum id ((#) d) (read_table m (at + DESCRIPTOR_SIZE) n))"

definition buffer_of :: "descriptor \<Rightarrow> buffer" where
  "buffer_of d = \<lparr>b_address = d_address d, b_length = d_length d, b_writable = has d FLAG_WRITE\<rparr>"

definition gather :: "mem \<Rightarrow> queue \<Rightarrow> descriptor \<Rightarrow> queue \<times> (virtio_error + descriptor list \<times> u16)" where
  "gather m q d =
     (if has d FLAG_NEXT then follow (unat (q_size q) + 2) m q d [d] 1
      else if has d FLAG_INDIRECT then
        (q, if (ucast (d_length d) :: u64) mod DESCRIPTOR_SIZE \<noteq> 0 then Inl MalformedIndirect
            else map_sum id (\<lambda>ds. (ds, 1))
                   (read_table m (d_address d) (unat ((ucast (d_length d) :: u64) div DESCRIPTOR_SIZE))))
      else (q, Inr ([d], 1)))"

definition pop :: "mem \<Rightarrow> queue \<Rightarrow> queue \<times> (virtio_error + chain option)" where
  "pop m q =
     (case advance m q of
        (q1, Inl e) \<Rightarrow> (q1, Inl e)
      | (q1, Inr None) \<Rightarrow> (q1, Inr None)
      | (q1, Inr (Some index)) \<Rightarrow>
          (case descriptor_at m q1 index of
             Inl e \<Rightarrow> (q1, Inl e)
           | Inr d \<Rightarrow>
               (case gather m q1 d of
                  (q2, Inl e) \<Rightarrow> (q2, Inl e)
                | (q2, Inr (ds, skip)) \<Rightarrow>
                    (q2, Inr (Some \<lparr>c_buffers = map buffer_of ds, c_id = d_id d, c_skip = skip\<rparr>)))))"

definition used_flags :: "bool \<Rightarrow> u32 \<Rightarrow> u16" where
  "used_flags used_wrap written =
     (if used_wrap then FLAG_AVAIL OR FLAG_USED else 0) OR (if written > 0 then FLAG_WRITE else 0)"

definition release :: "mem \<Rightarrow> queue \<Rightarrow> chain \<Rightarrow> u32 \<Rightarrow> (queue \<times> mem) \<times> (virtio_error + u32)" where
  "release m q c written =
     (let at = q_descriptors_at q + DESCRIPTOR_SIZE * ucast (q_used_index q) in
      case read_descriptor m at of
        Inl e \<Rightarrow> ((q, m), Inl e)
      | Inr d \<Rightarrow>
          let avail = has d FLAG_AVAIL; used = has d FLAG_USED in
          if avail = used \<or> avail \<noteq> q_used_wrap q then ((q, m), Inl QueueFull)
          else
            let flags = used_flags (q_used_wrap q) written;
                m1 = write_u32 m (at + 8) written;
                m2 = write_u16 m1 (at + 12) (c_id c);
                m3 = write_u16 m2 (at + 14) flags;
                q1 = q\<lparr>q_used_index := q_used_index q + c_skip c\<rparr> in
            ((if q_used_index q1 \<ge> q_size q1
              then q1\<lparr>q_used_index := q_used_index q1 - q_size q1, q_used_wrap := \<not> q_used_wrap q1\<rparr>
              else q1, m3),
             Inr (q_irq q)))"

subsection \<open>Positions on the ring\<close>

text \<open>
  A queue of size 0 behaves as one of size 1 (the index is always reset), so the ring's
  length is \<open>max 1 size\<close>. The index and the wrap counter together are a position on a
  circle of twice that length.
\<close>

definition ring_len :: "queue \<Rightarrow> nat" where
  "ring_len q = max 1 (unat (q_size q))"

definition queue_wf :: "queue \<Rightarrow> bool" where
  "queue_wf q \<longleftrightarrow> unat (q_avail_index q) < ring_len q \<and> unat (q_used_index q) < ring_len q"

definition avail_pos :: "queue \<Rightarrow> nat" where
  "avail_pos q = unat (q_avail_index q) + (if q_avail_wrap q then 0 else ring_len q)"

definition used_pos :: "queue \<Rightarrow> nat" where
  "used_pos q = unat (q_used_index q) + (if q_used_wrap q then 0 else ring_len q)"

definition set_avail :: "queue \<Rightarrow> nat \<Rightarrow> queue" where
  "set_avail q p = q\<lparr>q_avail_index := word_of_nat (p mod ring_len q),
     q_avail_wrap := (p mod (2 * ring_len q) < ring_len q)\<rparr>"

definition set_used :: "queue \<Rightarrow> nat \<Rightarrow> queue" where
  "set_used q p = q\<lparr>q_used_index := word_of_nat (p mod ring_len q),
     q_used_wrap := (p mod (2 * ring_len q) < ring_len q)\<rparr>"

definition slot :: "mem \<Rightarrow> queue \<Rightarrow> nat \<Rightarrow> virtio_error + descriptor" where
  "slot m q p = descriptor_at m q (word_of_nat (p mod ring_len q))"

definition offered :: "descriptor \<Rightarrow> bool \<Rightarrow> bool" where
  "offered d wrap \<longleftrightarrow> has d FLAG_AVAIL \<noteq> has d FLAG_USED \<and> has d FLAG_AVAIL = wrap"

definition open_at :: "mem \<Rightarrow> queue \<Rightarrow> nat \<Rightarrow> descriptor \<Rightarrow> bool" where
  "open_at m q p d \<longleftrightarrow> slot m q p = Inr d \<and> offered d (p mod (2 * ring_len q) < ring_len q)"

lemma ring_len_pos [simp]: "0 < ring_len q" "ring_len q \<noteq> 0" "Suc 0 \<le> ring_len q"
  by (simp_all add: ring_len_def)

lemma unat_u16_bound: "unat (w :: u16) < 65536"
  using unsigned_less [of w, where ?'a = nat] by simp

lemma ring_len_bound: "ring_len q < 65536"
  using unat_u16_bound [of "q_size q"] by (simp add: ring_len_def)

lemma unat_ring_index [simp]: "unat (word_of_nat (p mod ring_len q) :: u16) = p mod ring_len q"
proof -
  have "p mod ring_len q < ring_len q" by simp
  also have "\<dots> < 65536" by (rule ring_len_bound)
  finally show ?thesis by (simp add: unat_of_nat)
qed

lemma set_pos_simps [simp]:
  "q_size (set_avail q p) = q_size q" "q_descriptors_at (set_avail q p) = q_descriptors_at q"
  "q_irq (set_avail q p) = q_irq q" "ring_len (set_avail q p) = ring_len q"
  "q_used_index (set_avail q p) = q_used_index q" "q_used_wrap (set_avail q p) = q_used_wrap q"
  "used_pos (set_avail q p) = used_pos q"
  "q_size (set_used q p) = q_size q" "q_descriptors_at (set_used q p) = q_descriptors_at q"
  "q_irq (set_used q p) = q_irq q" "ring_len (set_used q p) = ring_len q"
  "q_avail_index (set_used q p) = q_avail_index q" "q_avail_wrap (set_used q p) = q_avail_wrap q"
  "avail_pos (set_used q p) = avail_pos q"
  by (simp_all add: set_avail_def set_used_def ring_len_def used_pos_def avail_pos_def)

lemma slot_set [simp]:
  "descriptor_at m (set_avail q p) i = descriptor_at m q i"
  "descriptor_at m (set_used q p) i = descriptor_at m q i"
  "slot m (set_avail q p) n = slot m q n" "slot m (set_used q p) n = slot m q n"
  "open_at m (set_avail q p) n = open_at m q n" "open_at m (set_used q p) n = open_at m q n"
  by (simp_all add: slot_def descriptor_at_def open_at_def fun_eq_iff)

lemma set_avail_twice [simp]: "set_avail (set_avail q p) n = set_avail q n"
  by (simp add: set_avail_def ring_len_def)

lemma set_used_twice [simp]: "set_used (set_used q p) n = set_used q n"
  by (simp add: set_used_def ring_len_def)

lemma set_used_avail: "set_used (set_avail q a) u = set_avail (set_used q u) a"
  by (simp add: set_used_def set_avail_def ring_len_def)

lemma set_pos_index [simp]:
  "unat (q_avail_index (set_avail q p)) = p mod ring_len q"
  "unat (q_used_index (set_used q p)) = p mod ring_len q"
  by (simp_all add: set_avail_def set_used_def)

lemma queue_wf_set [simp]:
  "queue_wf q \<Longrightarrow> queue_wf (set_avail q p)" "queue_wf q \<Longrightarrow> queue_wf (set_used q p)"
  by (simp_all add: queue_wf_def)

lemma queue_wf_new: "queue_wf (queue_new sz at irq)"
  by (simp add: queue_wf_def queue_new_def)

lemma mod_double: "0 < s \<Longrightarrow> p mod (2 * s) = p mod s + (if p mod (2 * s) < s then 0 else s)" for p s :: nat
  using mod_mult2_eq [of p s 2] by (cases "p div s mod 2") (auto simp: mult.commute)

lemma pos_set [simp]:
  "avail_pos (set_avail q p) = p mod (2 * ring_len q)" "used_pos (set_used q p) = p mod (2 * ring_len q)"
  using mod_double [of "ring_len q" p]
  by (simp_all add: avail_pos_def used_pos_def) (auto simp: set_avail_def set_used_def split: if_splits)

lemma set_pos_mod [simp]:
  "set_avail q (p mod (2 * ring_len q)) = set_avail q p" "set_used q (p mod (2 * ring_len q)) = set_used q p"
  by (simp_all add: set_avail_def set_used_def mod_mod_cancel)

lemma slot_mod [simp]:
  "slot m q (p mod (2 * ring_len q)) = slot m q p" "open_at m q (p mod (2 * ring_len q)) = open_at m q p"
  by (simp_all add: slot_def open_at_def mod_mod_cancel fun_eq_iff)

lemma set_pos_self:
  assumes "queue_wf q"
  shows "set_avail q (avail_pos q) = q" "set_used q (used_pos q) = q"
  using assms
  by (cases q; simp add: set_avail_def set_used_def avail_pos_def used_pos_def queue_wf_def ring_len_def)+

lemma next_lap: "0 < s \<Longrightarrow> ((p + s) mod (2 * s) < s) = (\<not> p mod (2 * s) < s)" for p s :: nat
proof -
  assume "0 < s"
  then have b: "p mod (2 * s) < 2 * s" by simp
  have "(p + s) mod (2 * s) = (p mod (2 * s) + s) mod (2 * s)" by (simp add: mod_add_left_eq)
  also have "\<dots> = (if p mod (2 * s) < s then p mod (2 * s) + s else p mod (2 * s) - s)"
    using b by (auto simp: le_mod_geq)
  finally show ?thesis using b by auto
qed

text \<open>No slot is available in two consecutive laps.\<close>

lemma open_at_exclusive: "open_at m q p d \<Longrightarrow> \<not> open_at m q (p + ring_len q) d'"
  using next_lap [of "ring_len q" p] by (auto simp: open_at_def slot_def offered_def)

lemma advance_eq:
  assumes "queue_wf q"
  shows "advance m q =
    (case slot m q (avail_pos q) of
       Inl e \<Rightarrow> (q, Inl e)
     | Inr d \<Rightarrow> if open_at m q (avail_pos q) d
         then (set_avail q (avail_pos q + 1), Inr (Some (q_avail_index q))) else (q, Inr None))"
proof -
  let ?i = "q_avail_index q" and ?s = "ring_len q"
  have i: "unat ?i < ?s" using assms by (simp add: queue_wf_def)
  have inc: "unat (?i + 1) = Suc (unat ?i)"
    using i ring_len_bound [of q] by (simp add: unat_word_ariths)
  have p: "avail_pos q mod ?s = unat ?i" "(avail_pos q mod (2 * ?s) < ?s) = q_avail_wrap q"
    using i by (simp_all add: avail_pos_def)
  have d: "descriptor_at m q ?i = slot m q (avail_pos q)"
    by (simp add: slot_def p(1))
  have ge: "(?i + 1 \<ge> q_size q) = (Suc (unat ?i) = ?s)"
    using i inc by (auto simp: word_le_nat_alt ring_len_def)
  have idx: "(avail_pos q + 1) mod ?s = (if Suc (unat ?i) = ?s then 0 else Suc (unat ?i))"
    and wrp: "((avail_pos q + 1) mod (2 * ?s) < ?s) = (if Suc (unat ?i) = ?s then \<not> q_avail_wrap q else q_avail_wrap q)"
    using i by (auto simp: avail_pos_def mod_Suc)
  have mv: "set_avail q (avail_pos q + 1) =
      (if ?i + 1 \<ge> q_size q then q\<lparr>q_avail_index := 0, q_avail_wrap := \<not> q_avail_wrap q\<rparr>
       else q\<lparr>q_avail_index := ?i + 1\<rparr>)"
    unfolding set_avail_def idx wrp ge by (simp add: add.commute)
  show ?thesis
    unfolding advance_def d mv
    by (auto simp: Let_def open_at_def offered_def p split: sum.splits)
qed

lemma set_avail_Suc_mod: "set_avail q (Suc (p mod (2 * ring_len q))) = set_avail q (Suc p)"
  using set_pos_mod(1) [of q "Suc (p mod (2 * ring_len q))"] set_pos_mod(1) [of q "Suc p"]
  by (simp add: mod_Suc_eq)

lemma avail_index_set: "q_avail_index (set_avail q p) = word_of_nat (p mod ring_len q)"
  by (simp add: set_avail_def)

lemma advance_at:
  assumes "queue_wf q"
  shows "advance m (set_avail q p) =
    (case slot m q p of
       Inl e \<Rightarrow> (set_avail q p, Inl e)
     | Inr d \<Rightarrow> if open_at m q p d
         then (set_avail q (Suc p), Inr (Some (word_of_nat (p mod ring_len q)))) else (set_avail q p, Inr None))"
  using advance_eq [of "set_avail q p" m] assms set_avail_Suc_mod [of q p]
  by (simp add: avail_index_set split: sum.splits)

lemma follow_step:
  assumes "queue_wf q"
  shows "follow (Suc fuel) m (set_avail q p) d acc skip =
    (if \<not> has d FLAG_NEXT then (set_avail q p, Inr (acc, skip))
     else case slot m q p of
         Inl e \<Rightarrow> (set_avail q p, Inl e)
       | Inr d1 \<Rightarrow> if open_at m q p d1
           then follow fuel m (set_avail q (Suc p)) d1 (acc @ [d1]) (skip + 1)
           else (set_avail q p, Inl ChainEnds))"
  by (auto simp: advance_at [OF assms] slot_def split: sum.splits)

declare follow.simps(2) [simp del]

lemma follow_no_fuel:
  assumes "queue_wf q"
  shows "\<lbrakk>\<forall>k<j. \<exists>d. open_at m q (p + k) d; ring_len q < fuel + j\<rbrakk>
    \<Longrightarrow> snd (follow fuel m (set_avail q (p + j)) d acc skip) \<noteq> Inl OutOfFuel"
proof (induction fuel arbitrary: j d acc skip)
  case 0
  then obtain d d' where "open_at m q (p + 0) d" "open_at m q (p + ring_len q) d'"
    by (metis add_0 less_nat_zero_code not_gr_zero)
  then show ?case using open_at_exclusive [of m q p] by simp
next
  case (Suc fuel)
  have "\<forall>k<Suc j. \<exists>d. open_at m q (p + k) d" if "open_at m q (p + j) d" for d
    using Suc.prems that by (auto simp: less_Suc_eq)
  moreover have "slot m q p' \<noteq> Inl OutOfFuel" for p'
    by (auto simp: slot_def descriptor_at_def read_descriptor_def split: option.splits)
  ultimately show ?case
    using Suc.IH [of "Suc j"] Suc.prems by (auto simp: follow_step [OF assms] split: sum.splits)
qed

lemma follow_span:
  assumes "queue_wf q"
  shows "follow fuel m (set_avail q p) d acc skip = (q', r) \<Longrightarrow>
    \<exists>ds. q' = set_avail q (p + length ds) \<and> (\<forall>k<length ds. open_at m q (p + k) (ds ! k)) \<and>
      (\<forall>as sk. r = Inr (as, sk) \<longrightarrow> sk = skip + word_of_nat (length ds) \<and> as = acc @ ds)"
proof (induction fuel arbitrary: p d acc skip)
  case 0
  then show ?case by (intro exI [of _ "[]"]) auto
next
  case (Suc fuel)
  show ?case
  proof (cases "has d FLAG_NEXT \<and> (\<exists>d1. open_at m q p d1)")
    case False
    with Suc.prems show ?thesis
      by (intro exI [of _ "[]"]) (auto simp: follow_step [OF assms] split: if_splits sum.splits)
  next
    case True
    then obtain d1 where d1: "open_at m q p d1" by blast
    with True Suc.prems obtain ds where ds: "q' = set_avail q (Suc p + length ds)"
      "\<forall>k<length ds. open_at m q (Suc p + k) (ds ! k)"
      "\<forall>as sk. r = Inr (as, sk) \<longrightarrow> sk = skip + 1 + word_of_nat (length ds) \<and> as = (acc @ [d1]) @ ds"
      using Suc.IH [of "Suc p" d1 "acc @ [d1]" "skip + 1"]
      by (auto simp: follow_step [OF assms] open_at_def)
    have "\<forall>k<Suc (length ds). open_at m q (p + k) ((d1 # ds) ! k)"
      using ds(2) d1 by (auto simp: less_Suc_eq_0_disj)
    with ds(1,3) show ?thesis by (intro exI [of _ "d1 # ds"]) auto
  qed
qed

lemma follow_chain:
  assumes "queue_wf q"
  shows "\<lbrakk>\<forall>k<length ds. open_at m q (p + k) (ds ! k); has d FLAG_NEXT = (ds \<noteq> []);
     \<forall>k<length ds. has (ds ! k) FLAG_NEXT = (Suc k < length ds); length ds < fuel\<rbrakk>
    \<Longrightarrow> follow fuel m (set_avail q p) d acc skip =
      (set_avail q (p + length ds), Inr (acc @ ds, skip + word_of_nat (length ds)))"
proof (induction ds arbitrary: p d acc skip fuel)
  case Nil
  then show ?case by (cases fuel) (auto simp: follow_step [OF assms])
next
  case (Cons d1 ds)
  obtain f where f: "fuel = Suc f" using Cons.prems by (cases fuel) auto
  have o: "open_at m q p d1" using Cons.prems(1) by force
  have rest: "\<forall>k<length ds. open_at m q (Suc p + k) (ds ! k)"
    "\<forall>k<length ds. has (ds ! k) FLAG_NEXT = (Suc k < length ds)"
    using Cons.prems(1,3) by (simp_all add: All_less_Suc2)
  have "has d1 FLAG_NEXT = (ds \<noteq> [])"
    using Cons.prems(3) by (simp add: All_less_Suc2)
  then show ?case
    using Cons.IH [of "Suc p" d1 f "acc @ [d1]" "skip + 1"] rest o Cons.prems f
    by (simp add: follow_step [OF assms] open_at_def add.assoc)
qed

subsection \<open>Taking a request\<close>

lemma pop_at:
  assumes "queue_wf q"
  shows "pop m q =
    (case slot m q (avail_pos q) of
       Inl e \<Rightarrow> (q, Inl e)
     | Inr d \<Rightarrow> if open_at m q (avail_pos q) d then
         (case gather m (set_avail q (Suc (avail_pos q))) d of
            (q2, Inl e) \<Rightarrow> (q2, Inl e)
          | (q2, Inr (ds, skip)) \<Rightarrow>
              (q2, Inr (Some \<lparr>c_buffers = map buffer_of ds, c_id = d_id d, c_skip = skip\<rparr>)))
         else (q, Inr None))"
proof -
  have "descriptor_at m q (q_avail_index q) = slot m q (avail_pos q)"
    using assms by (simp add: slot_def avail_pos_def queue_wf_def)
  then show ?thesis
    by (auto simp: pop_def advance_eq [OF assms] split: sum.splits prod.splits)
qed

lemma read_descriptor_fuel: "read_descriptor m at \<noteq> Inl OutOfFuel"
  by (auto simp: read_descriptor_def split: option.splits)

lemma read_table_fuel: "read_table m at n \<noteq> Inl OutOfFuel"
  by (induction n arbitrary: at) (auto simp: map_sum_def read_descriptor_fuel split: sum.splits)

lemma length_read_table: "read_table m at n = Inr ds \<Longrightarrow> length ds = n"
  by (induction n arbitrary: at ds) (auto simp: map_sum_def split: sum.splits)

lemma gather_no_fuel:
  assumes "queue_wf q" "open_at m q p d"
  shows "snd (gather m (set_avail q (Suc p)) d) \<noteq> Inl OutOfFuel"
proof -
  have "snd (follow (unat (q_size q) + 2) m (set_avail q (p + 1)) d [d] 1) \<noteq> Inl OutOfFuel"
    using assms by (intro follow_no_fuel) (auto simp: ring_len_def)
  then show ?thesis
    by (auto simp: gather_def map_sum_def read_table_fuel split: sum.splits)
qed

lemma gather_span:
  assumes "queue_wf q" "gather m (set_avail q p) d = (q', r)"
  shows "\<exists>n. q' = set_avail q (p + n) \<and> (\<forall>k<n. \<exists>d. open_at m q (p + k) d) \<and>
    (\<forall>as sk. r = Inr (as, sk) \<longrightarrow> sk = 1 + word_of_nat n)"
proof (cases "has d FLAG_NEXT")
  case True
  then have "follow (unat (q_size q) + 2) m (set_avail q p) d [d] 1 = (q', r)"
    using assms(2) by (simp add: gather_def)
  from follow_span [OF assms(1) this] show ?thesis by blast
next
  case False
  then show ?thesis
    using assms(2) by (intro exI [of _ 0]) (auto simp: gather_def map_sum_def split: if_splits sum.splits)
qed

lemma open_run_bound:
  assumes "\<forall>k<n. \<exists>d. open_at m q (p + k) d"
  shows "n \<le> ring_len q"
proof (rule ccontr)
  assume "\<not> n \<le> ring_len q"
  then obtain d d' where "open_at m q (p + 0) d" "open_at m q (p + ring_len q) d'"
    using assms by (metis le_less_trans not_le le0)
  then show False using open_at_exclusive [of m q p] by simp
qed

lemma slot_fuel: "slot m q p \<noteq> Inl OutOfFuel"
  by (simp add: slot_def descriptor_at_def read_descriptor_fuel)

lemma pop_no_fuel:
  assumes "queue_wf q"
  shows "snd (pop m q) \<noteq> Inl OutOfFuel"
proof (cases "\<exists>d. open_at m q (avail_pos q) d")
  case True
  then obtain d where d: "open_at m q (avail_pos q) d" by blast
  obtain q2 r2 where g: "gather m (set_avail q (Suc (avail_pos q))) d = (q2, r2)" by fastforce
  then have "r2 \<noteq> Inl OutOfFuel" using gather_no_fuel [OF assms d] by simp
  then show ?thesis
    using d g by (auto simp: pop_at [OF assms] open_at_def split: sum.splits)
next
  case False
  then show ?thesis
    using slot_fuel [of m q] by (auto simp: pop_at [OF assms] split: sum.splits)
qed

lemma pop_span:
  assumes "queue_wf q" "pop m q = (q', r)"
  obtains n where "n \<le> ring_len q" "q' = set_avail q (avail_pos q + n)"
    "\<forall>k<n. \<exists>d. open_at m q (avail_pos q + k) d"
    "\<And>c. r = Inr (Some c) \<Longrightarrow> 0 < n \<and> c_skip c = word_of_nat n"
    "r = Inr None \<Longrightarrow> n = 0"
proof (cases "\<exists>d. open_at m q (avail_pos q) d")
  case False
  have "q' = set_avail q (avail_pos q + 0)" "\<And>c. r \<noteq> Inr (Some c)"
    using assms(2) False set_pos_self(1) [OF assms(1)]
    by (auto simp: pop_at [OF assms(1)] split: sum.splits if_splits)
  then show ?thesis using that [of 0] by auto
next
  case True
  then obtain d where d: "open_at m q (avail_pos q) d" by blast
  obtain q2 r2 where g: "gather m (set_avail q (Suc (avail_pos q))) d = (q2, r2)" by fastforce
  from gather_span [OF assms(1) g] obtain n where
    n: "q2 = set_avail q (Suc (avail_pos q) + n)" "\<forall>k<n. \<exists>d. open_at m q (Suc (avail_pos q) + k) d"
      "\<forall>as sk. r2 = Inr (as, sk) \<longrightarrow> sk = 1 + word_of_nat n" by blast
  have run: "\<forall>k<Suc n. \<exists>d. open_at m q (avail_pos q + k) d"
    using n(2) d by (auto simp: All_less_Suc2)
  have "q' = q2" "r \<noteq> Inr None" "\<And>c. r = Inr (Some c) \<Longrightarrow> c_skip c = word_of_nat (Suc n)"
    using assms(2) d g n(3)
    by (auto simp: pop_at [OF assms(1)] open_at_def split: sum.splits)
  then show ?thesis
    using that [of "Suc n"] n(1) run open_run_bound [OF run] by auto
qed

lemma pop_wf: "queue_wf q \<Longrightarrow> queue_wf (fst (pop m q))"
  by (metis pop_span queue_wf_set(1) prod.collapse)

subsection \<open>Completing a request\<close>

text \<open>The driver's ring lies inside the guest's memory (which is at most 4 GiB).\<close>

definition ring_ok :: "mem \<Rightarrow> queue \<Rightarrow> bool" where
  "ring_ok m q \<longleftrightarrow> unat (q_descriptors_at q) + 16 * ring_len q \<le> length m \<and> length m \<le> 2 ^ 32"

definition slot_addr :: "queue \<Rightarrow> nat \<Rightarrow> nat" where
  "slot_addr q p = unat (q_descriptors_at q) + 16 * (p mod ring_len q)"

lemma ring_ok_set [simp]:
  "ring_ok m (set_avail q p) = ring_ok m q" "ring_ok m (set_used q p) = ring_ok m q"
  "slot_addr (set_avail q p) = slot_addr q" "slot_addr (set_used q p) = slot_addr q"
  by (simp_all add: ring_ok_def slot_addr_def fun_eq_iff)

lemma slot_addr_bound: "ring_ok m q \<Longrightarrow> slot_addr q p + 16 \<le> length m"
  using mod_less_divisor [OF ring_len_pos(1), of p q] unfolding ring_ok_def slot_addr_def by linarith

lemma unat_slot_addr:
  assumes "ring_ok m q" "unat i = p mod ring_len q" "k < 16"
  shows "unat (q_descriptors_at q + DESCRIPTOR_SIZE * ucast (i :: u16) + word_of_nat k) = slot_addr q p + k"
proof -
  have sb: "slot_addr q p + 16 \<le> 2 ^ 32"
    using slot_addr_bound [OF assms(1), of p] assms(1) by (simp add: ring_ok_def)
  have "unat (16 * ucast i :: u64) = 16 * unat i"
    using unat_u16_bound [of i] by (simp add: unat_word_ariths unsigned_ucast_eq take_bit_nat_eq_self)
  then have "unat (q_descriptors_at q + 16 * ucast i) = slot_addr q p"
    using sb assms(2) by (simp add: slot_addr_def unat_word_ariths)
  moreover have "unat (word_of_nat k :: u64) = k"
    using assms(3) by (simp add: unat_of_nat)
  ultimately show ?thesis
    using sb assms(3) by (subst unat_word_ariths) simp
qed

lemma unat_ucast_u32: "unat (w :: u64) < 2 ^ 32 \<Longrightarrow> unat (ucast w :: u32) = unat w"
  by (simp add: unsigned_ucast_eq take_bit_nat_eq_self)

lemma read_descriptor_in:
  assumes "unat at + 16 \<le> length m" "length m \<le> 2 ^ 32"
  shows "read_descriptor m at = Inr (parse_descriptor (bslice (unat at) 16 m))"
proof -
  have "unat (ucast at :: u32) = unat at"
    using assms by (intro unat_ucast_u32) simp
  then show ?thesis
    using assms by (simp add: read_descriptor_def guest_bytes_def)
qed

lemma slot_in:
  assumes "ring_ok m q"
  shows "slot m q p = Inr (parse_descriptor (bslice (slot_addr q p) 16 m))"
proof -
  have "unat (q_descriptors_at q + DESCRIPTOR_SIZE * ucast (word_of_nat (p mod ring_len q) :: u16)) = slot_addr q p"
    using unat_slot_addr [OF assms, of "word_of_nat (p mod ring_len q)" p 0] by simp
  then show ?thesis
    using slot_addr_bound [OF assms, of p] assms read_descriptor_in
    by (simp add: slot_def descriptor_at_def ring_ok_def)
qed

definition completed :: "descriptor \<Rightarrow> bool \<Rightarrow> chain \<Rightarrow> u32 \<Rightarrow> descriptor" where
  "completed d wrap c written = d\<lparr>d_length := written, d_id := c_id c, d_flags := used_flags wrap written\<rparr>"

lemma completed_flags:
  "has (completed d wrap c written) FLAG_AVAIL = wrap" "has (completed d wrap c written) FLAG_USED = wrap"
  by (simp_all add: completed_def has_def used_flags_def)

lemma parse_completed:
  assumes "a + 16 \<le> length m" "length m \<le> 2 ^ 32"
    "unat (at + 8) = a + 8" "unat (at + 12) = a + 12" "unat (at + 14) = a + 14"
  shows "parse_descriptor (bslice a 16 (write_u16 (write_u16 (write_u32 m (at + 8) w) (at + 12) i) (at + 14) f)) =
    (parse_descriptor (bslice a 16 m))\<lparr>d_length := w, d_id := i, d_flags := f\<rparr>"
  using assms
  by (simp add: parse_descriptor_def le64_at_def le32_at_def le16_at_def write_u16_def write_u32_def
      bslice_poke_other bslice_poke_same)

lemma slot_write_other:
  assumes "ring_ok m q" "p mod ring_len q \<noteq> u mod ring_len q"
    "unat at = slot_addr q u + k" "k + length bs \<le> 16"
  shows "bslice (slot_addr q p) 16 (poke m at bs) = bslice (slot_addr q p) 16 m"
proof (rule bslice_poke_other)
  show "unat at + length bs \<le> length m"
    using assms(3,4) slot_addr_bound [OF assms(1), of u] by simp
  show "length m < 2 ^ 64" using assms(1) by (simp add: ring_ok_def)
  show "slot_addr q p + 16 \<le> length m" by (rule slot_addr_bound [OF assms(1)])
  have "p mod ring_len q < u mod ring_len q \<or> u mod ring_len q < p mod ring_len q"
    using assms(2) by linarith
  then show "slot_addr q p + 16 \<le> unat at \<or> unat at + length bs \<le> slot_addr q p"
    using assms(3,4) unfolding slot_addr_def by linarith
qed

lemma ring_ok_poke [simp]: "ring_ok (poke m at bs) q = ring_ok m q"
  by (simp add: ring_ok_def)

lemma ring_ok_write [simp]: "ring_ok (write_u16 m at v) q = ring_ok m q" "ring_ok (write_u32 m at w) q = ring_ok m q"
  by (simp_all add: write_u16_def write_u32_def)

lemma used_slot: "queue_wf q \<Longrightarrow> descriptor_at m q (q_used_index q) = slot m q (used_pos q)"
  by (simp add: slot_def used_pos_def queue_wf_def)

definition release_mem :: "mem \<Rightarrow> queue \<Rightarrow> chain \<Rightarrow> u32 \<Rightarrow> mem" where
  "release_mem m q c written =
     (let at = q_descriptors_at q + DESCRIPTOR_SIZE * ucast (q_used_index q) in
      write_u16 (write_u16 (write_u32 m (at + 8) written) (at + 12) (c_id c)) (at + 14)
        (used_flags (q_used_wrap q) written))"

lemma length_release_mem [simp]: "length (release_mem m q c w) = length m"
  by (simp add: release_mem_def Let_def write_u16_def write_u32_def)

lemma ring_ok_release_mem [simp]: "ring_ok (release_mem m q c w) q' = ring_ok m q'"
  by (simp add: release_mem_def Let_def)

lemma slot_release_mem:
  assumes "queue_wf q" "ring_ok m q" "slot m q (used_pos q) = Inr d"
  shows "slot (release_mem m q c w) q p =
    (if p mod ring_len q = used_pos q mod ring_len q then Inr (completed d (q_used_wrap q) c w) else slot m q p)"
proof -
  let ?u = "used_pos q" and ?at = "q_descriptors_at q + DESCRIPTOR_SIZE * ucast (q_used_index q)"
  have len: "length m \<le> 2 ^ 32" using assms(2) by (simp add: ring_ok_def)
  have iu: "unat (q_used_index q) = ?u mod ring_len q"
    using assms(1) by (simp add: used_pos_def queue_wf_def)
  have at: "unat (?at + 8) = slot_addr q ?u + 8" "unat (?at + 12) = slot_addr q ?u + 12"
    "unat (?at + 14) = slot_addr q ?u + 14"
    using unat_slot_addr [OF assms(2) iu, of 8] unat_slot_addr [OF assms(2) iu, of 12]
      unat_slot_addr [OF assms(2) iu, of 14] by simp_all
  show ?thesis
  proof (cases "p mod ring_len q = ?u mod ring_len q")
    case True
    then have "slot_addr q p = slot_addr q ?u" by (simp add: slot_addr_def)
    then show ?thesis
      using parse_completed [OF slot_addr_bound [OF assms(2), of ?u] len at] assms(2,3) True
      by (simp add: slot_in release_mem_def Let_def completed_def)
  next
    case False
    then show ?thesis
      using assms(2) at
      by (simp add: slot_in release_mem_def Let_def write_u16_def write_u32_def slot_write_other)
  qed
qed

lemma release_at:
  assumes "queue_wf q"
  shows "release m q c w =
    (case slot m q (used_pos q) of
       Inl e \<Rightarrow> ((q, m), Inl e)
     | Inr d \<Rightarrow> if open_at m q (used_pos q) d then
         ((let q1 = q\<lparr>q_used_index := q_used_index q + c_skip c\<rparr> in
           if q_used_index q1 \<ge> q_size q1
           then q1\<lparr>q_used_index := q_used_index q1 - q_size q1, q_used_wrap := \<not> q_used_wrap q1\<rparr>
           else q1, release_mem m q c w), Inr (q_irq q))
         else ((q, m), Inl QueueFull))"
proof -
  have "(used_pos q mod (2 * ring_len q) < ring_len q) = q_used_wrap q"
    using assms by (simp add: used_pos_def queue_wf_def)
  then show ?thesis
    using used_slot [OF assms, of m]
    by (auto simp: release_def Let_def open_at_def offered_def descriptor_at_def release_mem_def split: sum.splits)
qed

text \<open>
  The completed chain's slots are skipped on the used side. The 16-bit sum cannot overflow for
  the queue sizes virtio allows (at most 32768).
\<close>

lemma set_used_skip:
  assumes "queue_wf q" "0 < n" "n \<le> ring_len q" "0 < unat (q_size q)" "unat (q_size q) \<le> 32768"
  shows "(let q1 = q\<lparr>q_used_index := q_used_index q + word_of_nat n\<rparr> in
           if q_used_index q1 \<ge> q_size q1
           then q1\<lparr>q_used_index := q_used_index q1 - q_size q1, q_used_wrap := \<not> q_used_wrap q1\<rparr>
           else q1) = set_used q (used_pos q + n)"
proof -
  let ?i = "unat (q_used_index q)" and ?s = "ring_len q"
  have s: "?s = unat (q_size q)" using assms(4) by (simp add: ring_len_def)
  have i: "?i < ?s" using assms(1) by (simp add: queue_wf_def)
  have n16: "n < 65536" using assms(3) ring_len_bound [of q] by linarith
  have sum: "unat (q_used_index q + word_of_nat n) = ?i + n"
    using i n16 assms(3,5) s by (simp add: unat_word_ariths unat_of_nat)
  have ge: "(q_size q \<le> q_used_index q + word_of_nat n) = (?s \<le> ?i + n)"
    by (simp add: word_le_nat_alt sum s)
  have idx: "(used_pos q + n) mod ?s = (if ?s \<le> ?i + n then ?i + n - ?s else ?i + n)"
    using i assms(3) by (auto simp: used_pos_def le_mod_geq)
  have wrp: "((used_pos q + n) mod (2 * ?s) < ?s) = (if ?s \<le> ?i + n then \<not> q_used_wrap q else q_used_wrap q)"
    using i assms(3) by (auto simp: used_pos_def le_mod_geq)
  have "q_used_index q + word_of_nat n - q_size q = word_of_nat (?i + n - ?s)" if "?s \<le> ?i + n"
    using that by (simp add: s of_nat_diff)
  then show ?thesis
    unfolding set_used_def idx wrp by (simp add: Let_def ge)
qed

definition legal :: "queue \<Rightarrow> bool" where
  "legal q \<longleftrightarrow> 0 < unat (q_size q) \<and> unat (q_size q) \<le> 32768"

definition queue_ok :: "mem \<Rightarrow> queue \<Rightarrow> bool" where
  "queue_ok m q \<longleftrightarrow> queue_wf q \<and> ring_ok m q \<and> legal q"

lemma legal_set [simp]: "legal (set_avail q p) = legal q" "legal (set_used q p) = legal q"
  by (simp_all add: legal_def)

lemma queue_ok_set [simp]:
  "queue_ok m q \<Longrightarrow> queue_ok m (set_avail q p)" "queue_ok m q \<Longrightarrow> queue_ok m (set_used q p)"
  by (simp_all add: queue_ok_def)

lemma queue_ok_mem: "queue_ok m q \<Longrightarrow> length m' = length m \<Longrightarrow> queue_ok m' q"
  by (simp add: queue_ok_def ring_ok_def)

lemma release_cases:
  assumes "queue_ok m q" "0 < n" "n \<le> ring_len q" "c_skip c = word_of_nat n"
  obtains (released) d where "open_at m q (used_pos q) d"
      "release m q c w = ((set_used q (used_pos q + n), release_mem m q c w), Inr (q_irq q))"
    | (full) "\<forall>d. \<not> open_at m q (used_pos q) d" "release m q c w = ((q, m), Inl QueueFull)"
proof -
  obtain d where d: "slot m q (used_pos q) = Inr d"
    using slot_in assms(1) by (auto simp: queue_ok_def)
  show ?thesis
  proof (cases "open_at m q (used_pos q) d")
    case True
    then show ?thesis
      using released [OF True] d assms set_used_skip [of q n]
      by (simp add: release_at queue_ok_def legal_def Let_def)
  next
    case False
    moreover have "\<not> open_at m q (used_pos q) d'" for d'
      using d False by (auto simp: open_at_def)
    ultimately show ?thesis
      using full d assms by (simp add: release_at queue_ok_def)
  qed
qed

text \<open>Completing a request never makes a slot available, and takes its own slot out.\<close>

lemma release_mem_closes:
  assumes "queue_ok m q" "open_at m q (used_pos q) d" "open_at (release_mem m q c w) q p d'"
  shows "open_at m q p d' \<and> p mod ring_len q \<noteq> used_pos q mod ring_len q"
  using assms slot_release_mem [of q m d c w p]
  by (auto simp: open_at_def queue_ok_def offered_def completed_flags split: if_splits)

subsection \<open>A device's loop over its queue\<close>

text \<open>
  Every device serves its queue in the same way: while there is something to do, take a
  request, work on it, hand it back with the number of bytes written and note the interrupt.
  \<open>pending\<close> is the condition checked before a request is taken, \<open>lost\<close> what the
  device has already given up when taking one fails.
\<close>

fun drain :: "nat \<Rightarrow> ('d \<Rightarrow> bool) \<Rightarrow> ('d \<Rightarrow> 'd)
    \<Rightarrow> ('d \<Rightarrow> mem \<Rightarrow> chain \<Rightarrow> ('d \<times> mem) \<times> (virtio_error + u32))
    \<Rightarrow> 'd \<Rightarrow> queue \<Rightarrow> mem \<Rightarrow> u32 list \<Rightarrow> ('d \<times> queue \<times> mem) \<times> (virtio_error + u32 list)" where
  "drain 0 pending lost body d q m irqs = ((d, q, m), Inl OutOfFuel)"
| "drain (Suc fuel) pending lost body d q m irqs =
     (if \<not> pending d then ((d, q, m), Inr irqs)
      else case pop m q of
          (q1, Inl e) \<Rightarrow> ((lost d, q1, m), Inl e)
        | (q1, Inr None) \<Rightarrow> ((d, q1, m), Inr irqs)
        | (q1, Inr (Some c)) \<Rightarrow>
            (case body d m c of
               ((d1, m1), Inl e) \<Rightarrow> ((d1, q1, m1), Inl e)
             | ((d1, m1), Inr written) \<Rightarrow>
                 (case release m1 q1 c written of
                    ((q2, m2), Inl e) \<Rightarrow> ((d1, q2, m2), Inl e)
                  | ((q2, m2), Inr irq) \<Rightarrow> drain fuel pending lost body d1 q2 m2 (irqs @ [irq]))))"

declare drain.simps(2) [simp del]

locale ring_client =
  fixes body :: "'d \<Rightarrow> mem \<Rightarrow> chain \<Rightarrow> ('d \<times> mem) \<times> (virtio_error + u32)"
  assumes body_length: "length (snd (fst (body d m c))) = length m"
    and body_fuel: "snd (body d m c) \<noteq> Inl OutOfFuel"
begin

lemma drain_cases:
  assumes ok: "queue_ok m q"
  obtains (stop) d' q' m' r where "drain (Suc fuel) pending lost body d q m irqs = ((d', q', m'), r)"
      "r \<noteq> Inl OutOfFuel" "r = Inr irqs \<or> (\<exists>e. r = Inl e)" "queue_ok m' q'"
    | (again) c d1 m1 w n dd q1 where
      "pop m q = (q1, Inr (Some c))" "body d m c = ((d1, m1), Inr w)"
      "0 < n" "n \<le> ring_len q" "\<forall>k<n. \<exists>d. open_at m q (avail_pos q + k) d"
      "q1 = set_avail q (avail_pos q + n)" "queue_ok m1 q1" "open_at m1 q (used_pos q) dd"
      "queue_ok (release_mem m1 q1 c w) (set_used q1 (used_pos q + n))"
      "drain (Suc fuel) pending lost body d q m irqs =
         drain fuel pending lost body d1 (set_used q1 (used_pos q + n)) (release_mem m1 q1 c w) (irqs @ [q_irq q])"
      "pending d"
proof -
  obtain q1 r where p: "pop m q = (q1, r)" by fastforce
  have wf: "queue_wf q" using ok by (simp add: queue_ok_def)
  obtain n where n: "n \<le> ring_len q" "q1 = set_avail q (avail_pos q + n)"
    "\<forall>k<n. \<exists>d. open_at m q (avail_pos q + k) d"
    "\<And>c. r = Inr (Some c) \<Longrightarrow> 0 < n \<and> c_skip c = word_of_nat n"
    using pop_span [OF wf p] by metis
  have q1: "queue_ok m1 q1" if "length m1 = length m" for m1
    using ok that n(2) by (metis queue_ok_mem queue_ok_set(1))
  have r: "r \<noteq> Inl OutOfFuel" using pop_no_fuel [OF wf, of m] p by simp
  show thesis
  proof (cases "pending d \<and> (\<exists>c. r = Inr (Some c))")
    case False
    then consider "\<not> pending d" | e where "pending d" "r = Inl e" | "pending d" "r = Inr None"
      by (metis not_Some_eq sumE)
    then show thesis
    proof cases
      case 1
      then show thesis using ok by (intro stop) (auto simp: drain.simps(2))
    next
      case (2 e)
      then show thesis using p r q1 [of m] by (intro stop) (auto simp: drain.simps(2))
    next
      case 3
      then show thesis using p q1 [of m] by (intro stop) (auto simp: drain.simps(2))
    qed
  next
    case True
    then obtain c where c: "r = Inr (Some c)" by blast
    obtain d1 m1 w where b: "body d m c = ((d1, m1), w)" by (metis prod.exhaust)
    have m1: "length m1 = length m" and w: "w \<noteq> Inl OutOfFuel"
      using body_length [of d m c] body_fuel [of d m c] b by simp_all
    show thesis
    proof (cases w)
      case (Inl e)
      then show thesis using True p c b w q1 [OF m1] by (intro stop) (auto simp: drain.simps(2))
    next
      case (Inr wr)
      have n1: "n \<le> ring_len q1" using n(1,2) by simp
      show thesis
      proof (rule release_cases [OF q1 [OF m1] conjunct1 [OF n(4) [OF c]] n1 conjunct2 [OF n(4) [OF c]], of wr])
        fix dd
        assume released: "open_at m1 q1 (used_pos q1) dd"
          "release m1 q1 c wr = ((set_used q1 (used_pos q1 + n), release_mem m1 q1 c wr), Inr (q_irq q1))"
        have ok2: "queue_ok (release_mem m1 q1 c wr) (set_used q1 (used_pos q + n))"
          using queue_ok_set(2) [OF q1 [OF m1]] by (rule queue_ok_mem) simp
        show thesis
        proof (rule again)
          show "drain (Suc fuel) pending lost body d q m irqs =
            drain fuel pending lost body d1 (set_used q1 (used_pos q + n)) (release_mem m1 q1 c wr) (irqs @ [q_irq q])"
            using True p c b Inr released(2) n(2) by (simp add: drain.simps(2))
        qed (use p c b Inr n n(4) [OF c] q1 [OF m1] released ok2 True in simp_all)
      next
        assume "release m1 q1 c wr = ((q1, m1), Inl QueueFull)"
        then show thesis using True p c b Inr q1 [OF m1] by (intro stop) (auto simp: drain.simps(2))
      qed
    qed
  qed
qed

lemma drain_measure:
  assumes dec: "\<And>d m c w. pending d \<Longrightarrow> snd (body d m c) = Inr w \<Longrightarrow> \<mu> (fst (fst (body d m c))) < (\<mu> d :: nat)"
  shows "queue_ok m q \<Longrightarrow> \<mu> d < fuel \<Longrightarrow> snd (drain fuel pending lost body d q m irqs) \<noteq> Inl OutOfFuel"
proof (induction fuel arbitrary: d q m irqs)
  case 0
  then show ?case by simp
next
  case (Suc fuel)
  from Suc.prems(1) show ?case
  proof (cases rule: drain_cases [of m q fuel pending lost d irqs])
    case stop
    then show ?thesis by simp
  next
    case (again c d1 m1 w n dd q1)
    have "\<mu> d1 < fuel" using dec [of d m c w] again(2,11) Suc.prems(2) by simp
    then show ?thesis using Suc.IH again(9,10) by simp
  qed
qed

lemma drain_ok:
  "queue_ok m q \<Longrightarrow> drain fuel pending lost body d q m irqs = ((d', q', m'), r) \<Longrightarrow> queue_ok m' q'"
proof (induction fuel arbitrary: d q m irqs)
  case 0
  then show ?case by simp
next
  case (Suc fuel)
  from Suc.prems(1) show ?case
  proof (cases rule: drain_cases [of m q fuel pending lost d irqs])
    case stop
    then show ?thesis using Suc.prems(2) by simp
  next
    case (again c d1 m1 w n dd q1)
    show ?thesis using Suc.IH [OF again(9)] again(10) Suc.prems(2) by simp
  qed
qed

end

text \<open>
  A device whose work on a request either shrinks what it still has to do (\<open>\<mu>\<close>) or
  leaves the guest's memory alone: whatever the driver put into its ring, the loop ends.
\<close>

locale ring_worker = ring_client body
  for body :: "'d \<Rightarrow> mem \<Rightarrow> chain \<Rightarrow> ('d \<times> mem) \<times> (virtio_error + u32)" +
  fixes \<mu> :: "'d \<Rightarrow> nat"
  assumes body_progress: "body d m c = ((d1, m1), Inr w) \<Longrightarrow> \<mu> d1 < \<mu> d \<or> \<mu> d1 \<le> \<mu> d \<and> m1 = m"
begin

lemma drain_lap:
  "\<lbrakk>queue_ok m q; n \<le> ring_len q; avail_pos q = (p + n) mod (2 * ring_len q);
    \<forall>k<n. \<forall>d. \<not> open_at m q (p + k + ring_len q) d;
    ring_len q + \<mu> d * (ring_len q + 1) < fuel + n\<rbrakk>
   \<Longrightarrow> snd (drain fuel pending lost body d q m irqs) \<noteq> Inl OutOfFuel"
proof (induction fuel arbitrary: d q m irqs n p)
  case 0
  then show ?case by simp
next
  case (Suc fuel)
  from Suc.prems(1) show ?case
  proof (cases rule: drain_cases [of m q fuel pending lost d irqs])
    case stop
    then show ?thesis by auto
  next
    case (again c d1 m1 w j dd q1)
    let ?L = "ring_len q" and ?q2 = "set_used q1 (used_pos q + j)" and ?m2 = "release_mem m1 q1 c w"
    have L2: "ring_len ?q2 = ?L" using again(6) by simp
    show ?thesis
    proof (cases "\<mu> d1 < \<mu> d")
      case True
      then have "\<mu> d1 * (?L + 1) + (?L + 1) \<le> \<mu> d * (?L + 1)"
        by (metis Suc_leI add.commute mult_Suc mult_le_mono1)
      then have "ring_len ?q2 + \<mu> d1 * (ring_len ?q2 + 1) < fuel + 0"
        using Suc.prems(2,5) L2 by simp
      moreover have "avail_pos ?q2 = (avail_pos ?q2 + 0) mod (2 * ring_len ?q2)"
        using again(6) by simp
      ultimately show ?thesis
        using Suc.IH [OF again(9), of 0 "avail_pos ?q2"] again(10) by simp
    next
      case False
      then have m1: "m1 = m" and le: "\<mu> d1 \<le> \<mu> d" using body_progress [OF again(2)] by auto
      have run: "\<exists>d. open_at m q (p + n + k) d" if "k < j" for k
        using again(5) that Suc.prems(3) slot_mod(2) [of m q "p + n + k"] slot_mod(2) [of m q "avail_pos q + k"]
        by (simp add: mod_add_left_eq)
      have closed: "\<not> open_at m q (p + k + ?L) d" if "k < n + j" for k d
      proof (cases "k < n")
        case True
        then show ?thesis using Suc.prems(4) by blast
      next
        case False
        then show ?thesis
          using run [of "k - n"] that open_at_exclusive [of m q "p + k"]
          by (auto simp: not_less less_diff_conv2 add.commute)
      qed
      have nj: "n + j \<le> ?L"
      proof (rule ccontr)
        assume "\<not> n + j \<le> ?L"
        then have "\<exists>d. open_at m q (p + 0 + ?L) d" using run [of "?L - n"] Suc.prems(2) by simp
        then show False using closed [of 0] again(3) by simp
      qed
      have closed2: "\<not> open_at ?m2 ?q2 (p + k + ring_len ?q2) d" if "k < n + j" for k d
        using closed [OF that] release_mem_closes [of m1 q1 dd c w "p + k + ?L" d] again(6,7,8) m1 by auto
      have pos: "avail_pos ?q2 = (p + (n + j)) mod (2 * ring_len ?q2)"
        using again(6) Suc.prems(3) by (simp add: mod_add_left_eq add.assoc)
      have "\<mu> d1 * (?L + 1) \<le> \<mu> d * (?L + 1)" using le by (rule mult_le_mono1)
      then have "ring_len ?q2 + \<mu> d1 * (ring_len ?q2 + 1) < fuel + (n + j)"
        using Suc.prems(5) again(3) L2 by simp
      then show ?thesis
        using Suc.IH [OF again(9) _ pos] closed2 nj L2 again(10) by simp
    qed
  qed
qed

lemma drain_terminates:
  assumes "queue_ok m q" "ring_len q + \<mu> d * (ring_len q + 1) < fuel"
  shows "snd (drain fuel pending lost body d q m irqs) \<noteq> Inl OutOfFuel"
proof (rule drain_lap [where n = 0 and p = "avail_pos q"])
  show "avail_pos q = (avail_pos q + 0) mod (2 * ring_len q)"
    using assms(1) by (simp add: queue_ok_def queue_wf_def avail_pos_def)
qed (use assms in simp_all)

end

text \<open>A device that only reads the guest's memory while it works on a request.\<close>

locale ring_reader = ring_client +
  assumes body_reads: "snd (fst (body d m c)) = m"

sublocale ring_reader \<subseteq> ring_worker body "\<lambda>_. 0"
proof unfold_locales
  fix d m c d1 m1 w
  assume "body d m c = ((d1, m1), Inr w)"
  then show "(0::nat) < 0 \<or> (0::nat) \<le> 0 \<and> m1 = m" using body_reads [of d m c] by simp
qed

subsection \<open>A connected device\<close>

record 'd device_ops =
  op_device_id :: u32
  op_features :: u64
  op_config :: "'d \<Rightarrow> bytes"
  op_notify :: "'d \<Rightarrow> u16 \<Rightarrow> queue \<Rightarrow> mem \<Rightarrow> ('d \<times> queue \<times> mem) \<times> (virtio_error + u32 list)"
  op_poll :: "'d \<Rightarrow> queue option list \<Rightarrow> mem \<Rightarrow> ('d \<times> queue option list \<times> mem) \<times> (virtio_error + u32 list)"
  op_reset :: "'d \<Rightarrow> 'd"
  op_console :: "('d \<Rightarrow> bytes \<Rightarrow> queue option \<Rightarrow> mem
    \<Rightarrow> ('d \<times> queue option \<times> mem) \<times> (virtio_error + u32 list)) option"

definition default_poll :: "'d \<Rightarrow> queue option list \<Rightarrow> mem
    \<Rightarrow> ('d \<times> queue option list \<times> mem) \<times> (virtio_error + u32 list)" where
  "default_poll d qs m = ((d, qs, m), Inr [])"

record 'd connected =
  cn_device :: 'd
  cn_queues :: "queue option list"
  cn_config_irq :: u32
  cn_config_at :: u64
  cn_config_len :: u32

definition connected_new :: "'d \<Rightarrow> 'd connected" where
  "connected_new d = \<lparr>cn_device = d, cn_queues = [], cn_config_irq = 0, cn_config_at = 0, cn_config_len = 0\<rparr>"

definition connected_setup :: "'d device_ops \<Rightarrow> 'd connected \<Rightarrow> mem \<Rightarrow> u32 \<Rightarrow> u64 \<Rightarrow> u32 \<Rightarrow> 'd connected \<times> mem" where
  "connected_setup ops cn m config_irq config_at config_len =
     (let cn1 = cn\<lparr>cn_config_irq := config_irq, cn_config_at := config_at, cn_config_len := config_len\<rparr>;
          config = op_config ops (cn_device cn1);
          len = min (length config) (unat config_len)
      in (cn1, poke m config_at (take len config)))"

definition enable_queue :: "'d connected \<Rightarrow> u16 \<Rightarrow> u16 \<Rightarrow> u64 \<Rightarrow> u32 \<Rightarrow> 'd connected" where
  "enable_queue cn index sz descriptors_at irq =
     (let qs = cn_queues cn;
          qs1 = (if length qs \<le> unat index then qs @ replicate (unat index + 1 - length qs) None else qs)
      in cn\<lparr>cn_queues := qs1[unat index := Some (queue_new sz descriptors_at irq)]\<rparr>)"

definition disable_queue :: "'d connected \<Rightarrow> u16 \<Rightarrow> 'd connected" where
  "disable_queue cn index = cn\<lparr>cn_queues := (cn_queues cn)[unat index := None]\<rparr>"

definition connected_reset :: "'d device_ops \<Rightarrow> 'd connected \<Rightarrow> 'd connected" where
  "connected_reset ops cn = cn\<lparr>cn_queues := [], cn_device := op_reset ops (cn_device cn)\<rparr>"

definition queue_get :: "queue option list \<Rightarrow> nat \<Rightarrow> queue option" where
  "queue_get qs i = (if i < length qs then qs ! i else None)"

definition connected_poll :: "'d device_ops \<Rightarrow> 'd connected \<Rightarrow> mem
    \<Rightarrow> ('d connected \<times> mem) \<times> (virtio_error + u32 list)" where
  "connected_poll ops cn m =
     (case op_poll ops (cn_device cn) (cn_queues cn) m of
        ((d, qs, m1), r) \<Rightarrow> ((cn\<lparr>cn_device := d, cn_queues := qs\<rparr>, m1), r))"

definition connected_notify :: "'d device_ops \<Rightarrow> 'd connected \<Rightarrow> mem \<Rightarrow> u16
    \<Rightarrow> ('d connected \<times> mem) \<times> (virtio_error + u32 list)" where
  "connected_notify ops cn m index =
     (let first = (case queue_get (cn_queues cn) (unat index) of
          Some q \<Rightarrow> (case op_notify ops (cn_device cn) index q m of
              ((d, q1, m1), r) \<Rightarrow>
                ((cn\<lparr>cn_device := d, cn_queues := (cn_queues cn)[unat index := Some q1]\<rparr>, m1), r))
        | None \<Rightarrow> ((cn, m), Inr []))
      in case first of
          ((cn1, m1), Inl e) \<Rightarrow> ((cn1, m1), Inl e)
        | ((cn1, m1), Inr irqs) \<Rightarrow>
            (case connected_poll ops cn1 m1 of
               (s, Inl e) \<Rightarrow> (s, Inl e)
             | (s, Inr more_irqs) \<Rightarrow> (s, Inr (irqs @ more_irqs))))"

definition console_input :: "'d device_ops \<Rightarrow> 'd connected \<Rightarrow> bytes \<Rightarrow> mem
    \<Rightarrow> ('d connected \<times> mem) \<times> (virtio_error + u32 list)" where
  "console_input ops cn bs m =
     (case op_console ops of
        None \<Rightarrow> ((cn, m), Inr [])
      | Some write_input \<Rightarrow>
          (case write_input (cn_device cn) bs (queue_get (cn_queues cn) 0) m of
             ((d, q, m1), r) \<Rightarrow>
               ((cn\<lparr>cn_device := d, cn_queues := (case q of None \<Rightarrow> cn_queues cn | Some q1 \<Rightarrow> (cn_queues cn)[0 := Some q1])\<rparr>,
                 m1), r)))"

definition queues_ok :: "mem \<Rightarrow> queue option list \<Rightarrow> bool" where
  "queues_ok m qs \<longleftrightarrow> list_all (\<lambda>s. case s of None \<Rightarrow> True | Some q \<Rightarrow> queue_ok m q) qs"

lemma queues_ok_iff: "queues_ok m qs \<longleftrightarrow> (\<forall>q. Some q \<in> set qs \<longrightarrow> queue_ok m q)"
  by (induction qs) (auto simp: queues_ok_def split: option.splits)

lemma queues_ok_mem: "queues_ok m qs \<Longrightarrow> length m' = length m \<Longrightarrow> queues_ok m' qs"
  using queue_ok_mem by (auto simp: queues_ok_iff)

lemma queues_ok_update: "queues_ok m qs \<Longrightarrow> queue_ok m q \<Longrightarrow> queues_ok m (qs[i := Some q])"
  using set_update_subset_insert [of qs i "Some q"] by (auto simp: queues_ok_iff)

lemma queues_ok_get: "queues_ok m qs \<Longrightarrow> queue_get qs i = Some q \<Longrightarrow> queue_ok m q"
  by (auto simp: queues_ok_iff queue_get_def dest: nth_mem split: if_splits)

text \<open>
  What a device promises: it keeps its own invariant, the guest's memory its size and the
  queues their well-formedness, whether its work succeeds or fails.
\<close>

locale virtio_device =
  fixes ops :: "'d device_ops" and inv :: "'d \<Rightarrow> bool"
  assumes notify_keeps: "\<lbrakk>inv d; queue_ok m q; op_notify ops d i q m = ((d', q', m'), r)\<rbrakk>
      \<Longrightarrow> inv d' \<and> length m' = length m \<and> queue_ok m' q'"
    and poll_keeps: "\<lbrakk>inv d; queues_ok m qs; op_poll ops d qs m = ((d', qs', m'), r)\<rbrakk>
      \<Longrightarrow> inv d' \<and> length m' = length m \<and> queues_ok m' qs'"
    and reset_keeps: "inv d \<Longrightarrow> inv (op_reset ops d)"
begin

definition connected_ok :: "mem \<Rightarrow> 'd connected \<Rightarrow> bool" where
  "connected_ok m cn \<longleftrightarrow> inv (cn_device cn) \<and> queues_ok m (cn_queues cn)"

lemma connected_ok_poll:
  assumes "connected_ok m cn" "connected_poll ops cn m = ((cn', m'), r)"
  shows "connected_ok m' cn' \<and> length m' = length m"
proof -
  obtain d qs m1 r1 where p: "op_poll ops (cn_device cn) (cn_queues cn) m = ((d, qs, m1), r1)"
    by (metis prod.exhaust)
  then show ?thesis
    using poll_keeps [OF _ _ p] assms by (auto simp: connected_poll_def connected_ok_def)
qed

lemma connected_ok_notify:
  assumes "connected_ok m cn" "connected_notify ops cn m i = ((cn', m'), r)"
  shows "connected_ok m' cn' \<and> length m' = length m"
proof (cases "queue_get (cn_queues cn) (unat i)")
  case None
  then have "fst (connected_poll ops cn m) = (cn', m')"
    using assms(2) by (auto simp: connected_notify_def split: prod.splits sum.splits)
  then show ?thesis using connected_ok_poll [OF assms(1)] by (metis prod.collapse)
next
  case (Some q)
  then have q: "queue_ok m q"
    using assms(1) by (auto simp: connected_ok_def intro: queues_ok_get)
  obtain d1 q1 m1 r1 where n: "op_notify ops (cn_device cn) i q m = ((d1, q1, m1), r1)"
    by (metis prod.exhaust)
  let ?cn1 = "cn\<lparr>cn_device := d1, cn_queues := (cn_queues cn)[unat i := Some q1]\<rparr>"
  have k: "inv d1" "length m1 = length m" "queue_ok m1 q1"
    using notify_keeps [OF _ q n] assms(1) by (auto simp: connected_ok_def)
  have "queues_ok m1 (cn_queues cn)"
    using queues_ok_mem assms(1) k(2) by (auto simp: connected_ok_def)
  then have "connected_ok m1 ?cn1"
    using k by (simp add: connected_ok_def queues_ok_update)
  moreover have "(cn', m') = (?cn1, m1) \<or> fst (connected_poll ops ?cn1 m1) = (cn', m')"
    using assms(2) Some n by (auto simp: connected_notify_def split: prod.splits sum.splits)
  ultimately show ?thesis
    using k(2) connected_ok_poll [of m1 ?cn1] by (metis prod.collapse prod.inject)
qed

lemma connected_ok_reset: "connected_ok m cn \<Longrightarrow> connected_ok m (connected_reset ops cn)"
  using reset_keeps by (simp add: connected_ok_def connected_reset_def queues_ok_def)

lemma connected_ok_enable:
  assumes "connected_ok m cn" "legal (queue_new sz at irq)" "ring_ok m (queue_new sz at irq)"
  shows "connected_ok m (enable_queue cn i sz at irq)"
proof -
  have "queue_ok m (queue_new sz at irq)"
    using assms by (simp add: queue_ok_def queue_wf_new)
  moreover have "queues_ok m (cn_queues cn @ replicate k None)" for k
    using assms(1) by (auto simp: connected_ok_def queues_ok_iff)
  ultimately show ?thesis
    using assms(1) by (simp add: connected_ok_def enable_queue_def Let_def queues_ok_update)
qed

end

subsection \<open>Properties of the ring\<close>

lemma pop_chain_aux:
  assumes "queue_wf q" "ds \<noteq> []" "\<forall>k<length ds. open_at m q (avail_pos q + k) (ds ! k)"
    "\<forall>k<length ds. has (ds ! k) FLAG_NEXT = (Suc k < length ds)" "\<not> has (hd ds) FLAG_INDIRECT"
  shows "pop m q = (set_avail q (avail_pos q + length ds),
    Inr (Some \<lparr>c_buffers = map buffer_of ds, c_id = d_id (hd ds), c_skip = word_of_nat (length ds)\<rparr>))"
proof -
  obtain d ds' where ds: "ds = d # ds'" using assms(2) by (cases ds) auto
  have "\<forall>k<length ds. \<exists>d. open_at m q (avail_pos q + k) d" using assms(3) by blast
  then have "length ds \<le> ring_len q" by (rule open_run_bound)
  then have fuel: "length ds' < unat (q_size q) + 2" by (simp add: ds ring_len_def)
  have o: "open_at m q (avail_pos q) d" using assms(3) by (simp add: ds All_less_Suc2)
  have rest: "\<forall>k<length ds'. open_at m q (Suc (avail_pos q) + k) (ds' ! k)"
    "\<forall>k<length ds'. has (ds' ! k) FLAG_NEXT = (Suc k < length ds')" "has d FLAG_NEXT = (ds' \<noteq> [])"
    using assms(3,4) by (simp_all add: ds All_less_Suc2)
  have "gather m (set_avail q (Suc (avail_pos q))) d =
      (set_avail q (Suc (avail_pos q) + length ds'), Inr (d # ds', 1 + word_of_nat (length ds')))"
    using follow_chain [OF assms(1) rest(1) rest(3) rest(2) fuel, of "[d]" 1] assms(5) rest(3)
    by (cases "ds' = []") (auto simp: gather_def ds)
  then show ?thesis
    using o by (simp add: pop_at [OF assms(1)] open_at_def ds)
qed

text \<open>A ring of two slots at address 0 with one chain of two buffers, as a driver lays it out.\<close>

definition sample_mem :: mem where
  "sample_mem = u64_le 40 @ u32_le 4 @ u16_le 7 @ u16_le 129 @ u64_le 44 @ u32_le 8 @ u16_le 7 @ u16_le 130 @ replicate 32 0"

definition sample_queue :: queue where
  "sample_queue = queue_new 2 0 5"

definition sample_chain :: chain where
  "sample_chain = \<lparr>c_buffers = [\<lparr>b_address = 40, b_length = 4, b_writable = False\<rparr>,
     \<lparr>b_address = 44, b_length = 8, b_writable = True\<rparr>], c_id = 7, c_skip = 2\<rparr>"

lemma sample_pop: "pop sample_mem sample_queue = (set_avail sample_queue 2, Inr (Some sample_chain))"
  by code_simp

lemma sample_ok: "queue_ok sample_mem sample_queue"
  by (simp add: queue_ok_def queue_wf_def ring_ok_def legal_def ring_len_def sample_queue_def queue_new_def
      sample_mem_def)

text \<open>C1: Taking a request always ends, whatever the driver wrote into its ring: the chain loop
  follows at most one lap of descriptors. It keeps the queue well-formed, a taken chain says
  how many slots it occupies (at least one, at most the ring's length), and the device's
  position moves on by exactly that many; when nothing is offered nothing changes.\<close>

theorem pop_bounded:
  assumes "queue_wf q" "pop m q = (q', r)"
  shows "r \<noteq> Inl OutOfFuel \<and> queue_wf q' \<and> (r = Inr None \<longrightarrow> q' = q) \<and>
    (\<forall>c. r = Inr (Some c) \<longrightarrow> 1 \<le> unat (c_skip c) \<and> unat (c_skip c) \<le> ring_len q \<and>
       avail_pos q' = (avail_pos q + unat (c_skip c)) mod (2 * ring_len q) \<and> used_pos q' = used_pos q)"
proof -
  obtain n where n: "n \<le> ring_len q" "q' = set_avail q (avail_pos q + n)"
    "\<And>c. r = Inr (Some c) \<Longrightarrow> 0 < n \<and> c_skip c = word_of_nat n" "r = Inr None \<Longrightarrow> n = 0"
    using pop_span [OF assms] by metis
  have "unat (word_of_nat n :: u16) = n"
    using n(1) ring_len_bound [of q] by (simp add: unat_of_nat)
  then show ?thesis
    using n assms pop_no_fuel [OF assms(1), of m] set_pos_self(1) [OF assms(1)] by auto
qed

theorem pop_bounded_witness:
  "queue_wf sample_queue \<and> 1 \<le> unat (c_skip sample_chain) \<and>
   avail_pos (set_avail sample_queue 2) = (avail_pos sample_queue + unat (c_skip sample_chain)) mod (2 * ring_len sample_queue)"
proof -
  have "queue_wf sample_queue" using sample_ok by (simp add: queue_ok_def)
  with pop_bounded [OF this sample_pop] show ?thesis by simp
qed

text \<open>C2: A chain of direct descriptors the driver has made available, each but the last
  pointing on to the next slot, is taken as one request: its buffers are exactly the
  descriptors' windows in order, its id is the first descriptor's, and the device moves past
  all of them.\<close>

theorem pop_offered_chain:
  assumes "queue_wf q" "ds \<noteq> []" "\<forall>k<length ds. open_at m q (avail_pos q + k) (ds ! k)"
    "\<forall>k<length ds. has (ds ! k) FLAG_NEXT = (Suc k < length ds)" "\<not> has (hd ds) FLAG_INDIRECT"
  shows "pop m q = (set_avail q (avail_pos q + length ds),
    Inr (Some \<lparr>c_buffers = map buffer_of ds, c_id = d_id (hd ds), c_skip = word_of_nat (length ds)\<rparr>))"
  using assms by (rule pop_chain_aux)

theorem pop_offered_chain_witness:
  "\<exists>ds. length ds = 2 \<and> pop sample_mem sample_queue = (set_avail sample_queue 2,
     Inr (Some \<lparr>c_buffers = map buffer_of ds, c_id = d_id (hd ds), c_skip = 2\<rparr>))"
proof -
  let ?a = "\<lparr>d_address = 40, d_length = 4, d_id = 7, d_flags = 129\<rparr> :: descriptor"
  let ?b = "\<lparr>d_address = 44, d_length = 8, d_id = 7, d_flags = 130\<rparr> :: descriptor"
  have "avail_pos sample_queue = 0" by code_simp
  moreover have "open_at sample_mem sample_queue 0 ?a" "open_at sample_mem sample_queue 1 ?b"
    by code_simp+
  moreover have "has ?a FLAG_NEXT" "\<not> has ?b FLAG_NEXT" "\<not> has ?a FLAG_INDIRECT"
    by (simp_all add: has_def)
  moreover have "queue_wf sample_queue" using sample_ok by (simp add: queue_ok_def)
  ultimately show ?thesis
    using pop_offered_chain [of sample_queue "[?a, ?b]" sample_mem]
    by (intro exI [of _ "[?a, ?b]"]) (simp add: All_less_Suc2 numeral_2_eq_2)
qed



end
