(* ===== verification/Buffers.thy ===== *)
theory Buffers
  imports Virtio
begin

text \<open>
  How the devices move bytes through the buffers of a request. Console, vsock, network and
  file system each have a copy loop of their own; \<open>place\<close> is what all of them are
  meant to do, and \<open>read_back\<close> what the driver finds in its buffers afterwards.
\<close>

subsection \<open>Filling the writable buffers\<close>

definition b_len :: "buffer \<Rightarrow> nat" where
  "b_len b = unat (b_length b)"

definition b_at :: "buffer \<Rightarrow> nat" where
  "b_at b = unat (b_address b)"

primrec place :: "mem \<Rightarrow> buffer list \<Rightarrow> bytes \<Rightarrow> mem" where
  "place m [] data = m"
| "place m (b # bs) data =
     (if b_writable b then place (poke m (b_address b) (take (b_len b) data)) bs (drop (b_len b) data)
      else place m bs data)"

definition capacity :: "buffer list \<Rightarrow> nat" where
  "capacity bs = sum_list (map b_len (filter b_writable bs))"

definition read_back :: "mem \<Rightarrow> buffer list \<Rightarrow> bytes" where
  "read_back m bs = concat (map (\<lambda>b. bslice (b_at b) (b_len b) m) (filter b_writable bs))"

definition inside :: "mem \<Rightarrow> buffer \<Rightarrow> bool" where
  "inside m b \<longleftrightarrow> b_at b + b_len b \<le> length m"

definition apart :: "buffer \<Rightarrow> buffer \<Rightarrow> bool" where
  "apart b c \<longleftrightarrow> (b_writable b \<and> b_writable c \<longrightarrow> b_at b + b_len b \<le> b_at c \<or> b_at c + b_len c \<le> b_at b)"

definition buffers_ok :: "mem \<Rightarrow> buffer list \<Rightarrow> bool" where
  "buffers_ok m bs \<longleftrightarrow> length m \<le> 2 ^ 32 \<and> list_all (inside m) bs \<and> sorted_wrt apart bs"

lemma capacity_simps [simp]:
  "capacity [] = 0" "capacity (b # bs) = (if b_writable b then b_len b + capacity bs else capacity bs)"
  by (simp_all add: capacity_def)

lemma read_back_simps [simp]:
  "read_back m [] = []"
  "read_back m (b # bs) = (if b_writable b then bslice (b_at b) (b_len b) m @ read_back m bs else read_back m bs)"
  by (simp_all add: read_back_def)

lemma buffers_ok_Cons [simp]:
  "buffers_ok m (b # bs) \<longleftrightarrow> inside m b \<and> (\<forall>c\<in>set bs. apart b c) \<and> buffers_ok m bs"
  by (auto simp: buffers_ok_def)

lemma buffers_ok_Nil [simp]: "buffers_ok m [] \<longleftrightarrow> length m \<le> 2 ^ 32"
  by (simp add: buffers_ok_def)

lemma buffers_ok_mem: "buffers_ok m bs \<Longrightarrow> length m' = length m \<Longrightarrow> buffers_ok m' bs"
  by (simp add: buffers_ok_def inside_def [abs_def])

lemma buffers_ok_small: "buffers_ok m bs \<Longrightarrow> length m < 2 ^ 64"
  by (simp add: buffers_ok_def)

lemma length_place [simp, mem_simps]: "length (place m bs data) = length m"
  by (induction bs arbitrary: m data) auto

lemma place_Nil [simp]: "place m bs [] = m"
  by (induction bs) auto

lemma buffers_ok_poke [simp]: "buffers_ok (poke m at xs) bs = buffers_ok m bs"
  by (rule iffI; erule buffers_ok_mem) simp_all

lemma length_read_back: "buffers_ok m bs \<Longrightarrow> length (read_back m bs) = capacity bs"
  by (induction bs) (auto simp: inside_def)

lemma bslice_place_other:
  "\<lbrakk>buffers_ok m bs; \<forall>c\<in>set bs. b_writable c \<longrightarrow> i + n \<le> b_at c \<or> b_at c + b_len c \<le> i; i + n \<le> length m\<rbrakk>
   \<Longrightarrow> bslice i n (place m bs data) = bslice i n m"
proof (induction bs arbitrary: m data)
  case Nil
  then show ?case by simp
next
  case (Cons b bs)
  have small: "length m < 2 ^ 64" using Cons.prems(1) buffers_ok_small by blast
  show ?case
  proof (cases "b_writable b")
    case True
    let ?m = "poke m (b_address b) (take (b_len b) data)"
    have "bslice i n (place ?m bs (drop (b_len b) data)) = bslice i n ?m"
      using Cons by simp
    also have "\<dots> = bslice i n m"
      using Cons.prems True small by (intro bslice_poke_other) (auto simp: inside_def b_at_def)
    finally show ?thesis using True by simp
  next
    case False
    then show ?thesis using Cons by simp
  qed
qed


lemma place_read_back:
  "buffers_ok m bs \<Longrightarrow>
   read_back (place m bs data) bs = take (capacity bs) data @ drop (length data) (read_back m bs)"
proof (induction bs arbitrary: m data)
  case Nil
  then show ?case by simp
next
  case (Cons b bs)
  have small: "length m < 2 ^ 64" using Cons.prems buffers_ok_small by blast
  show ?case
  proof (cases "b_writable b")
    case True
    let ?l = "b_len b" and ?m = "poke m (b_address b) (take (b_len b) data)"
    have ins: "b_at b + ?l \<le> length m" using Cons.prems by (simp add: inside_def)
    have first: "bslice (b_at b) ?l (place ?m bs (drop ?l data)) = bslice (b_at b) ?l ?m"
      using Cons.prems True ins by (intro bslice_place_other) (auto simp: apart_def)
    have own: "bslice (b_at b) ?l ?m = take ?l data @ drop (length data) (bslice (b_at b) ?l m)"
      using ins small
      by (subst poke_eq) (auto simp: b_at_def [symmetric] bslice_def drop_take min_def add.commute)
    have rest: "read_back ?m bs = read_back m bs"
    proof -
      have "bslice (b_at c) (b_len c) ?m = bslice (b_at c) (b_len c) m" if "c \<in> set bs" "b_writable c" for c
        using that Cons.prems True small ins
        by (intro bslice_poke_other)
          (auto simp: buffers_ok_def inside_def apart_def b_at_def list_all_iff)
      then show ?thesis
        unfolding read_back_def by (intro arg_cong [where f = concat] map_cong) auto
    qed
    show ?thesis
      using Cons.IH [of ?m "drop ?l data"] Cons.prems True first own rest ins
      by (cases "length data \<le> ?l") (auto simp: min_def take_add)
  next
    case False
    then show ?thesis using Cons by simp
  qed
qed

subsection \<open>Invariants across a device's loop\<close>

lemma release_length: "release m q c w = ((q', m'), r) \<Longrightarrow> length m' = length m"
  by (auto simp: release_def Let_def write_u16_def write_u32_def split: sum.splits if_splits)

lemma drain_invariant:
  assumes lost: "\<And>d m. P d m \<Longrightarrow> P (lost d) m"
    and body: "\<And>d m c d1 m1 r. P d m \<Longrightarrow> body d m c = ((d1, m1), r) \<Longrightarrow> P d1 m1"
    and rel: "\<And>d m m1. P d m \<Longrightarrow> length m1 = length m \<Longrightarrow> P d m1"
  shows "P d m \<Longrightarrow> drain fuel pending lost body d q m irqs = ((d', q', m'), r) \<Longrightarrow> P d' m'"
proof (induction fuel arbitrary: d q m irqs)
  case 0
  then show ?case by simp
next
  case (Suc fuel)
  obtain q1 rp where p: "pop m q = (q1, rp)" by fastforce
  show ?case
  proof (cases "pending d \<and> (\<exists>c. rp = Inr (Some c))")
    case False
    then show ?thesis
      using Suc.prems lost p by (auto simp: drain.simps(2) split: if_splits sum.splits option.splits)
  next
    case True
    then obtain c where c: "pending d" "rp = Inr (Some c)" by blast
    obtain d1 m1 rb where b: "body d m c = ((d1, m1), rb)" by (metis prod.exhaust)
    have P1: "P d1 m1" using body [OF Suc.prems(1) b] .
    show ?thesis
    proof (cases rb)
      case (Inl e)
      then show ?thesis using Suc.prems P1 c p b by (simp add: drain.simps(2))
    next
      case (Inr w)
      obtain q2 m2 rr where r: "release m1 q1 c w = ((q2, m2), rr)" by (metis prod.exhaust)
      have "P d1 m2" using rel [OF P1 release_length [OF r]] .
      then show ?thesis
        using Suc c p b Inr r by (auto simp: drain.simps(2) split: sum.splits)
    qed
  qed
qed

context ring_client
begin

lemma drain_length:
  assumes "drain fuel pending lost body d q m irqs = ((d', q', m'), r)"
  shows "length m' = length m"
proof (rule drain_invariant [where P = "\<lambda>_ m'. length m' = length m", OF _ _ _ _ assms])
  show "length m1 = length m" if "length m2 = length m" "body d m2 c = ((d1, m1), r)" for d m2 c d1 m1 r
    using body_length [of d m2 c] that by simp
qed simp_all

lemma drain_keeps:
  "queue_ok m q \<Longrightarrow> drain fuel pending lost body d q m irqs = ((d', q', m'), r) \<Longrightarrow>
   length m' = length m \<and> queue_ok m' q'"
  by (rule conjI, erule drain_length, erule (1) drain_ok)

end

end
