(* ===== verification/Console.thy ===== *)
theory Console
  imports Buffers
begin

text \<open>
  The guest's terminal, \<open>engine/src/console.rs\<close>. Input waits in
  \<open>con_pending_input\<close> until the guest offers a buffer; what the guest writes is handed
  to the output callback, whose calls are recorded in \<open>con_output\<close> in order.
\<close>

record console =
  con_columns :: u16
  con_rows :: u16
  con_pending_input :: bytes
  con_output :: "bytes list"

definition console_new :: "u16 \<Rightarrow> u16 \<Rightarrow> console" where
  "console_new columns rows =
     \<lparr>con_columns = columns, con_rows = rows, con_pending_input = [], con_output = []\<rparr>"

subsection \<open>Input\<close>

fun fill_buffers :: "bytes \<Rightarrow> mem \<Rightarrow> u32 \<Rightarrow> buffer list \<Rightarrow> bytes \<times> mem \<times> u32" where
  "fill_buffers pending m written [] = (pending, m, written)"
| "fill_buffers pending m written (b # bs) =
     (if \<not> b_writable b then fill_buffers pending m written bs
      else
        let tk = min (unat (b_length b)) (length pending) in
        if tk = 0 then (pending, m, written)
        else fill_buffers (drop tk pending) (poke m (b_address b) (take tk pending))
               (written + word_of_nat tk) bs)"

definition deliver_chain :: "console \<Rightarrow> mem \<Rightarrow> chain \<Rightarrow> (console \<times> mem) \<times> (virtio_error + u32)" where
  "deliver_chain con m c =
     (let (pending, m1, written) = fill_buffers (con_pending_input con) m 0 (c_buffers c)
      in ((con\<lparr>con_pending_input := pending\<rparr>, m1), Inr written))"

definition deliver :: "console \<Rightarrow> queue \<Rightarrow> mem \<Rightarrow> (console \<times> queue \<times> mem) \<times> (virtio_error + u32 list)" where
  "deliver con q m =
     drain (Suc (ring_len q + length (con_pending_input con) * (ring_len q + 1)))
       (\<lambda>con. con_pending_input con \<noteq> []) (\<lambda>con. con) deliver_chain con q m []"

definition write_input :: "console \<Rightarrow> bytes \<Rightarrow> queue option \<Rightarrow> mem
    \<Rightarrow> (console \<times> queue option \<times> mem) \<times> (virtio_error + u32 list)" where
  "write_input con bs q m =
     (let con1 = con\<lparr>con_pending_input := con_pending_input con @ bs\<rparr> in
      case q of
        Some q \<Rightarrow> (case deliver con1 q m of ((con2, q2, m2), r) \<Rightarrow> ((con2, Some q2, m2), r))
      | None \<Rightarrow> ((con1, None, m), Inr []))"

subsection \<open>Output and the device\<close>

definition output_parts :: "mem \<Rightarrow> buffer list \<Rightarrow> bytes list" where
  "output_parts m bs =
     List.map_filter (\<lambda>b. if b_writable b then None else guest_bytes m (ucast (b_address b)) (b_length b)) bs"

definition output_chain :: "console \<Rightarrow> mem \<Rightarrow> chain \<Rightarrow> (console \<times> mem) \<times> (virtio_error + u32)" where
  "output_chain con m c =
     ((con\<lparr>con_output := con_output con @ output_parts m (c_buffers c)\<rparr>, m), Inr 0)"

definition console_notify :: "console \<Rightarrow> u16 \<Rightarrow> queue \<Rightarrow> mem
    \<Rightarrow> (console \<times> queue \<times> mem) \<times> (virtio_error + u32 list)" where
  "console_notify con queue_index q m =
     (if queue_index = 0 then deliver con q m
      else drain (Suc (ring_len q)) (\<lambda>_. True) (\<lambda>con. con) output_chain con q m [])"

definition console_config :: "console \<Rightarrow> bytes" where
  "console_config con = u16_le (con_columns con) @ u16_le (con_rows con) @ u32_le 1 @ u32_le 0"

definition console_ops :: "console device_ops" where
  "console_ops =
     \<lparr>op_device_id = 3, op_features = 1, op_config = console_config, op_notify = console_notify,
      op_poll = default_poll, op_reset = (\<lambda>con. con), op_console = Some write_input\<rparr>"

subsection \<open>The loops end\<close>

lemma fill_buffers_length [simp]: "length (fst (snd (fill_buffers pending m w bs))) = length m"
  by (induction pending m w bs rule: fill_buffers.induct) (simp_all add: Let_def)

lemma fill_buffers_progress:
  "fill_buffers pending m w bs = (pending', m', w') \<Longrightarrow>
     length pending' < length pending \<or> pending' = pending \<and> m' = m \<and> w' = w"
  by (induction pending m w bs rule: fill_buffers.induct) (fastforce simp: Let_def split: if_splits)+

interpretation con_in: ring_worker deliver_chain "\<lambda>con. length (con_pending_input con)"
proof unfold_locales
  show "length (snd (fst (deliver_chain d m c))) = length m" for d m c
    using fill_buffers_length [of "con_pending_input d" m 0 "c_buffers c"]
    by (simp add: deliver_chain_def split_beta)
  show "snd (deliver_chain d m c) \<noteq> Inl OutOfFuel" for d m c
    by (simp add: deliver_chain_def split_beta)
  show "length (con_pending_input d1) < length (con_pending_input d) \<or>
      length (con_pending_input d1) \<le> length (con_pending_input d) \<and> m1 = m"
    if "deliver_chain d m c = ((d1, m1), Inr w)" for d m c d1 m1 w
    using that fill_buffers_progress [of "con_pending_input d" m 0 "c_buffers c"]
    by (auto simp: deliver_chain_def split: prod.splits)
qed

interpretation con_out: ring_reader output_chain
  by unfold_locales (simp_all add: output_chain_def)

interpretation con_dev: virtio_device console_ops "\<lambda>_. True"
proof unfold_locales
  fix d :: console and m q i d' q' m' r
  assume ok: "queue_ok m q" and n: "op_notify console_ops d i q m = ((d', q', m'), r)"
  have "console_notify d i q m = ((d', q', m'), r)"
    using n by (simp add: console_ops_def)
  then consider f p where "drain f p (\<lambda>con. con) deliver_chain d q m [] = ((d', q', m'), r)"
    | f p where "drain f p (\<lambda>con. con) output_chain d q m [] = ((d', q', m'), r)"
    unfolding console_notify_def deliver_def by (meson)
  then show "True \<and> length m' = length m \<and> queue_ok m' q'"
  proof cases
    case 1
    then show ?thesis using con_in.drain_keeps [OF ok] by simp
  next
    case 2
    then show ?thesis using con_out.drain_keeps [OF ok] by simp
  qed
qed (auto simp: console_ops_def default_poll_def)

subsection \<open>Delivery in order\<close>

lemma fill_buffers_place:
  "\<lbrakk>length m \<le> 2 ^ 32; \<forall>b\<in>set bs. b_writable b \<longrightarrow> 0 < b_len b\<rbrakk> \<Longrightarrow>
   fill_buffers pending m w bs =
     (drop (capacity bs) pending, place m bs pending, w + word_of_nat (min (capacity bs) (length pending)))"
proof (induction pending m w bs rule: fill_buffers.induct)
  case (1 pending m written)
  then show ?case by simp
next
  case (2 pending m written b bs)
  let ?tk = "min (unat (b_length b)) (length pending)"
  consider "\<not> b_writable b" | "b_writable b" "pending = []" | "b_writable b" "pending \<noteq> []" by blast
  then show ?case
  proof cases
    case 1
    then show ?thesis using 2 by simp
  next
    case 2
    then show ?thesis by simp
  next
    case 3
    have pos: "?tk \<noteq> 0" using 3 "2.prems"(2) by (simp add: b_len_def)
    have cap: "min (capacity (b # bs)) (length pending) = ?tk + min (capacity bs) (length pending - ?tk)"
      using 3 by (simp add: b_len_def)
    have cut: "drop ?tk pending = drop (b_len b) pending" "take ?tk pending = take (b_len b) pending"
      "length pending - ?tk = length pending - b_len b"
      by (simp_all add: b_len_def min_def)
    have "fill_buffers pending m written (b # bs) =
        fill_buffers (drop ?tk pending) (poke m (b_address b) (take ?tk pending)) (written + word_of_nat ?tk) bs"
      by (simp only: fill_buffers.simps(2) Let_def 3(1) pos not_True_eq_False if_False)
    also have "\<dots> = (drop (capacity bs) (drop ?tk pending),
        place (poke m (b_address b) (take ?tk pending)) bs (drop ?tk pending),
        written + word_of_nat ?tk + word_of_nat (min (capacity bs) (length (drop ?tk pending))))"
      using "2.IH"(2) [OF _ refl pos] 3 "2.prems" by simp
    finally show ?thesis
      unfolding cap using 3(1) by (simp add: cut add.commute add.assoc)
  qed
qed

subsection \<open>Properties of the console\<close>

text \<open>Whatever a driver put into its rings, a notification of the console ends: neither the
  input loop nor the output loop runs for ever, and the queue is left well-formed in a memory of
  the same size.\<close>

theorem console_notify_ends:
  assumes "queue_ok m q" "console_notify con i q m = ((con', q', m'), r)"
  shows "r \<noteq> Inl OutOfFuel \<and> queue_ok m' q' \<and> length m' = length m"
proof -
  have "snd (console_notify con i q m) \<noteq> Inl OutOfFuel"
    using con_in.drain_terminates [OF assms(1)] con_out.drain_terminates [OF assms(1)]
    by (simp add: console_notify_def deliver_def)
  moreover have "queue_ok m' q' \<and> length m' = length m"
    using con_dev.notify_keeps [OF TrueI assms(1)] assms(2) by (simp add: console_ops_def)
  ultimately show ?thesis using assms(2) by simp
qed

theorem console_notify_ends_witness:
  "queue_ok sample_mem sample_queue \<and>
   snd (console_notify (console_new 80 25) 1 sample_queue sample_mem) \<noteq> Inl OutOfFuel"
proof -
  obtain con q m r where n: "console_notify (console_new 80 25) 1 sample_queue sample_mem = ((con, q, m), r)"
    by (metis prod.exhaust)
  show ?thesis using sample_ok n console_notify_ends [OF sample_ok n] by simp
qed

text \<open>C32: Input reaches the guest's buffers in order and nothing is lost or repeated: into a
  request whose writable buffers lie apart from each other in the guest's memory, the console puts
  as much of the waiting input as fits, keeps exactly the rest, reports the number of bytes it
  wrote, and leaves the unused tail of the buffers as it was.\<close>

theorem deliver_in_order:
  assumes "buffers_ok m (c_buffers c)" "\<forall>b\<in>set (c_buffers c). b_writable b \<longrightarrow> 0 < b_len b"
    and "deliver_chain con m c = ((con', m'), r)"
  defines "n \<equiv> min (capacity (c_buffers c)) (length (con_pending_input con))"
  shows "r = Inr (word_of_nat n)
    \<and> con_pending_input con = take n (con_pending_input con) @ con_pending_input con'
    \<and> read_back m' (c_buffers c) = take n (con_pending_input con) @ drop n (read_back m (c_buffers c))"
proof -
  have len: "length m \<le> 2 ^ 32" using assms(1) by (simp add: buffers_ok_def)
  have "con_pending_input con' = drop (capacity (c_buffers c)) (con_pending_input con)"
    "m' = place m (c_buffers c) (con_pending_input con)" "r = Inr (word_of_nat n)"
    using assms(3) fill_buffers_place [OF len assms(2)] by (auto simp: deliver_chain_def n_def)
  then show ?thesis
    using place_read_back [OF assms(1)] length_read_back [OF assms(1)]
    by (auto simp: n_def min_def)
qed

theorem deliver_in_order_witness:
  "let con = console_new 80 25\<lparr>con_pending_input := [104, 105, 10]\<rparr>;
       s = deliver_chain con sample_mem sample_chain
   in snd s = Inr 3 \<and> con_pending_input (fst (fst s)) = [] \<and>
      take 3 (read_back (snd (fst s)) (c_buffers sample_chain)) = [104, 105, 10]"
proof -
  let ?con = "console_new 80 25\<lparr>con_pending_input := [104, 105, 10]\<rparr>"
  obtain con' m' r where d: "deliver_chain ?con sample_mem sample_chain = ((con', m'), r)"
    by (metis prod.exhaust)
  have "buffers_ok sample_mem (c_buffers sample_chain)"
    by (simp add: sample_chain_def inside_def b_at_def b_len_def apart_def sample_mem_def)
  moreover have "\<forall>b\<in>set (c_buffers sample_chain). b_writable b \<longrightarrow> 0 < b_len b"
    by (simp add: sample_chain_def b_len_def)
  ultimately have "r = Inr 3 \<and> con_pending_input con' = [] \<and> take 3 (read_back m' (c_buffers sample_chain)) = [104, 105, 10]"
    using deliver_in_order [OF _ _ d] by (simp add: sample_chain_def b_len_def)
  then show ?thesis using d by (simp add: Let_def)
qed

end
