(* ===== verification/Vsock.thy ===== *)
theory Vsock
  imports Buffers "HOL-Library.AList"
begin

text \<open>
  Stream connections between host and guest, \<open>engine/src/vsock.rs\<close>. Connections are
  shared objects: they live in the store \<open>vs_heap\<close> and are named by their index there,
  both in the registry and in the streams the host's threads hold. Every lock region of the
  source is one step on the state; an operation that waits on its condition variable says so
  (\<open>Waiting\<close>) and is run again on a later state, so a schedule of a thread is the list
  of what happened to the connection before each of its attempts.
\<close>

subsection \<open>Packets\<close>

record header =
  h_src_port :: u32
  h_dst_port :: u32
  h_len :: u32
  h_op :: u16
  h_buf_alloc :: u32
  h_fwd_cnt :: u32

record address =
  a_guest_cid :: u64
  a_local_port :: u32
  a_peer_port :: u32

abbreviation HOST_CID :: u64 where "HOST_CID \<equiv> 2"
abbreviation HEADER_SIZE :: nat where "HEADER_SIZE \<equiv> 44"
abbreviation BUF_ALLOC :: u32 where "BUF_ALLOC \<equiv> 262144"
abbreviation MAX_PAYLOAD :: nat where "MAX_PAYLOAD \<equiv> 2048"
abbreviation TYPE_STREAM :: u16 where "TYPE_STREAM \<equiv> 1"
abbreviation OP_REQUEST :: u16 where "OP_REQUEST \<equiv> 1"
abbreviation OP_RESPONSE :: u16 where "OP_RESPONSE \<equiv> 2"
abbreviation OP_RST :: u16 where "OP_RST \<equiv> 3"
abbreviation OP_SHUTDOWN :: u16 where "OP_SHUTDOWN \<equiv> 4"
abbreviation OP_RW :: u16 where "OP_RW \<equiv> 5"
abbreviation OP_CREDIT_UPDATE :: u16 where "OP_CREDIT_UPDATE \<equiv> 6"
abbreviation OP_CREDIT_REQUEST :: u16 where "OP_CREDIT_REQUEST \<equiv> 7"
abbreviation SHUTDOWN_BOTH :: u32 where "SHUTDOWN_BOTH \<equiv> 3"

definition header_parse :: "bytes \<Rightarrow> virtio_error + header" where
  "header_parse bs =
     (if length bs < HEADER_SIZE then Inl (DeviceError ''short vsock header'')
      else Inr \<lparr>h_src_port = le32_at 16 bs, h_dst_port = le32_at 20 bs, h_len = le32_at 24 bs,
                h_op = le16_at 30 bs, h_buf_alloc = le32_at 36 bs, h_fwd_cnt = le32_at 40 bs\<rparr>)"

definition packet :: "address \<Rightarrow> u16 \<Rightarrow> u32 \<Rightarrow> bytes \<Rightarrow> u32 \<Rightarrow> bytes" where
  "packet a op flags payload fwd_cnt =
     u64_le HOST_CID @ u64_le (a_guest_cid a) @ u32_le (a_local_port a) @ u32_le (a_peer_port a) @
     u32_le (word_of_nat (length payload)) @ u16_le TYPE_STREAM @ u16_le op @ u32_le flags @
     u32_le BUF_ALLOC @ u32_le fwd_cnt @ payload"

subsection \<open>Connections\<close>

record connection =
  s_address :: address
  s_incoming :: bytes
  s_connected :: bool
  s_closed :: bool
  s_error :: "string option"
  s_bytes_read :: u32
  s_credited :: u32
  s_bytes_written :: u32
  s_peer_buf_alloc :: u32
  s_peer_fwd_cnt :: u32
  s_deadline :: "nat option"

definition connection_new :: "address \<Rightarrow> bool \<Rightarrow> connection" where
  "connection_new a connected =
     \<lparr>s_address = a, s_incoming = [], s_connected = connected, s_closed = False, s_error = None,
      s_bytes_read = 0, s_credited = 0, s_bytes_written = 0, s_peer_buf_alloc = BUF_ALLOC,
      s_peer_fwd_cnt = 0, s_deadline = None\<rparr>"

definition send :: "connection \<Rightarrow> u16 \<Rightarrow> u32 \<Rightarrow> bytes \<Rightarrow> u32 \<Rightarrow> bytes" where
  "send s op flags payload fwd_cnt = packet (s_address s) op flags payload fwd_cnt"

definition close_from_peer :: "connection \<Rightarrow> string option \<Rightarrow> connection" where
  "close_from_peer s err = s\<lparr>s_closed := True, s_error := (if s_error s = None then err else s_error s)\<rparr>"

definition update_credit :: "connection \<Rightarrow> u32 \<Rightarrow> u32 \<Rightarrow> connection" where
  "update_credit s buf_alloc fwd_cnt = s\<lparr>s_peer_buf_alloc := buf_alloc, s_peer_fwd_cnt := fwd_cnt\<rparr>"

definition enqueue :: "connection \<Rightarrow> bytes \<Rightarrow> connection" where
  "enqueue s payload = (if payload = [] then s else s\<lparr>s_incoming := s_incoming s @ payload\<rparr>)"

definition set_deadline :: "connection \<Rightarrow> nat option \<Rightarrow> connection" where
  "set_deadline s deadline = s\<lparr>s_deadline := deadline\<rparr>"

subsection \<open>Streams\<close>

datatype stream_error = Closed string | ReadTimeout

datatype 'a attempt = Ready 'a | Failed stream_error | Waiting

definition read :: "nat \<Rightarrow> nat \<Rightarrow> connection \<Rightarrow> connection \<times> bytes list \<times> bytes attempt" where
  "read now room s =
     (if s_incoming s \<noteq> [] then
        let tk = min (length (s_incoming s)) room;
            s1 = s\<lparr>s_incoming := drop tk (s_incoming s), s_bytes_read := s_bytes_read s + word_of_nat tk\<rparr>;
            credit = s_bytes_read s1 - s_credited s1 \<ge> BUF_ALLOC div 4;
            s2 = (if credit then s1\<lparr>s_credited := s_bytes_read s1\<rparr> else s1)
        in (s2, if credit then [send s2 OP_CREDIT_UPDATE 0 [] (s_bytes_read s2)] else [],
            Ready (take tk (s_incoming s)))
      else if s_closed s then
        (s, [], case s_error s of Some e \<Rightarrow> Failed (Closed e) | None \<Rightarrow> Ready [])
      else case s_deadline s of
          None \<Rightarrow> (s, [], Waiting)
        | Some deadline \<Rightarrow> (s, [], if deadline - now = 0 then Failed ReadTimeout else Waiting))"

type_synonym schedule = "(nat \<times> (connection \<Rightarrow> connection)) list"

fun read_exact :: "schedule \<Rightarrow> nat \<Rightarrow> bytes \<Rightarrow> connection \<Rightarrow> connection \<times> schedule \<times> bytes list \<times> bytes attempt" where
  "read_exact [] len acc s = (s, [], [], if length acc < len then Waiting else Ready acc)"
| "read_exact ((now, others) # rest) len acc s =
     (if \<not> length acc < len then (s, (now, others) # rest, [], Ready acc)
      else
        case read now (min (len - length acc) (min len (64 * 1024))) (others s) of
          (s1, ps, Failed e) \<Rightarrow> (s1, rest, ps, Failed e)
        | (s1, ps, Waiting) \<Rightarrow> (case read_exact rest len acc s1 of (s2, rest2, qs, r) \<Rightarrow> (s2, rest2, ps @ qs, r))
        | (s1, ps, Ready part) \<Rightarrow>
            if part = [] then (s1, rest, ps, Ready acc)
            else (case read_exact rest len (acc @ part) s1 of (s2, rest2, qs, r) \<Rightarrow> (s2, rest2, ps @ qs, r)))"

definition write_chunk :: "bytes \<Rightarrow> connection \<Rightarrow> connection \<times> nat attempt" where
  "write_chunk data s =
     (if s_closed s then
        (s, Failed (Closed (case s_error s of Some e \<Rightarrow> e | None \<Rightarrow> ''vsock connection is closed'')))
      else
        let used = s_bytes_written s - s_peer_fwd_cnt s;
            available = unat (s_peer_buf_alloc s) - unat used
        in if available > 0 then
             let tk = min (min available MAX_PAYLOAD) (length data)
             in (s\<lparr>s_bytes_written := s_bytes_written s + word_of_nat tk\<rparr>, Ready tk)
           else (s, Waiting))"

fun write_all :: "schedule \<Rightarrow> bytes \<Rightarrow> connection \<Rightarrow> connection \<times> schedule \<times> bytes list \<times> unit attempt" where
  "write_all [] data s = (s, [], [], if data = [] then Ready () else Waiting)"
| "write_all (e # rest) data s =
     (if data = [] then (s, e # rest, [], Ready ())
      else
        case write_chunk data (snd e s) of
          (s1, Failed err) \<Rightarrow> (s1, rest, [], Failed err)
        | (s1, Waiting) \<Rightarrow> write_all rest data s1
        | (s1, Ready tk) \<Rightarrow>
            (case write_all rest (drop tk data) s1 of
               (s2, rest2, ps, r) \<Rightarrow> (s2, rest2, send s1 OP_RW 0 (take tk data) (s_bytes_read s1) # ps, r)))"

definition close :: "connection \<Rightarrow> connection \<times> bytes list" where
  "close s =
     (s\<lparr>s_closed := True\<rparr>,
      if s_closed s then [] else [send s OP_SHUTDOWN SHUTDOWN_BOTH [] (s_bytes_read s)])"

subsection \<open>The registry\<close>

datatype key = Local u32 | Pair u32 u32

record vsock =
  vs_guest_cid :: u64
  vs_packets :: "bytes list"
  vs_heap :: "connection list"
  vs_connections :: "(key \<times> nat) list"
  vs_listeners :: "u32 list"
  vs_next_port :: u32
  vs_closed :: bool
  vs_accepted :: "(u32 \<times> nat) list"

definition vsock_new :: "u64 \<Rightarrow> vsock" where
  "vsock_new guest_cid =
     \<lparr>vs_guest_cid = guest_cid, vs_packets = [], vs_heap = [], vs_connections = [], vs_listeners = [],
      vs_next_port = 49152, vs_closed = False, vs_accepted = []\<rparr>"

definition vs_address :: "vsock \<Rightarrow> u32 \<Rightarrow> u32 \<Rightarrow> address" where
  "vs_address v local_port peer_port =
     \<lparr>a_guest_cid = vs_guest_cid v, a_local_port = local_port, a_peer_port = peer_port\<rparr>"

definition outbox_push :: "vsock \<Rightarrow> bytes \<Rightarrow> vsock" where
  "outbox_push v p = v\<lparr>vs_packets := vs_packets v @ [p]\<rparr>"

definition at_ref :: "vsock \<Rightarrow> nat \<Rightarrow> connection" where
  "at_ref v r = vs_heap v ! r"

definition put_ref :: "vsock \<Rightarrow> nat \<Rightarrow> connection \<Rightarrow> vsock" where
  "put_ref v r s = v\<lparr>vs_heap := (vs_heap v)[r := s]\<rparr>"

definition register :: "vsock \<Rightarrow> key \<Rightarrow> connection \<Rightarrow> vsock \<times> nat" where
  "register v k s =
     (v\<lparr>vs_heap := vs_heap v @ [s], vs_connections := AList.update k (length (vs_heap v)) (vs_connections v)\<rparr>,
      length (vs_heap v))"

primrec allocate_port :: "nat \<Rightarrow> u32 \<Rightarrow> (key \<times> nat) list \<Rightarrow> u32 \<times> u32 option" where
  "allocate_port 0 next_port conns = (next_port, None)"
| "allocate_port (Suc n) next_port conns =
     (let port = next_port; following = (if port = 65535 then 49152 else port + 1) in
      if map_of conns (Local port) = None then (following, Some port)
      else allocate_port n following conns)"

datatype connect_error = DeviceClosed | NoPorts | TimedOut u32 | Refused u32 string

definition connect_start :: "vsock \<Rightarrow> u32 \<Rightarrow> vsock \<times> (connect_error + nat)" where
  "connect_start v port =
     (if vs_closed v then (v, Inl DeviceClosed)
      else case allocate_port 16384 (vs_next_port v) (vs_connections v) of
          (np, None) \<Rightarrow> (v\<lparr>vs_next_port := np\<rparr>, Inl NoPorts)
        | (np, Some local_port) \<Rightarrow>
            let s = connection_new (vs_address v local_port port) False;
                (v1, r) = register (v\<lparr>vs_next_port := np\<rparr>) (Local local_port) s
            in (outbox_push v1 (send s OP_REQUEST 0 [] 0), Inr r))"

definition forget :: "vsock \<Rightarrow> key \<Rightarrow> vsock" where
  "forget v k = v\<lparr>vs_connections := AList.delete k (vs_connections v)\<rparr>"

definition connect_attempt :: "nat \<Rightarrow> nat \<Rightarrow> u32 \<Rightarrow> nat \<Rightarrow> vsock \<Rightarrow> vsock \<times> (connect_error + nat) option" where
  "connect_attempt now deadline port r v =
     (let s = at_ref v r in
      if \<not> s_connected s \<and> \<not> s_closed s then
        if deadline - now = 0 then
          (outbox_push (forget v (Local (a_local_port (s_address s)))) (send s OP_RST 0 [] 0),
           Some (Inl (TimedOut port)))
        else (v, None)
      else if \<not> s_connected s then
        (v, Some (Inl (Refused port
           (case s_error s of Some e \<Rightarrow> e | None \<Rightarrow> ''the guest refused the connection''))))
      else (v, Some (Inr r)))"

primrec connect_wait :: "(nat \<times> (vsock \<Rightarrow> vsock)) list \<Rightarrow> nat \<Rightarrow> u32 \<Rightarrow> nat \<Rightarrow> vsock
    \<Rightarrow> vsock \<times> (connect_error + nat) option" where
  "connect_wait [] deadline port r v = (v, None)"
| "connect_wait (e # rest) deadline port r v =
     (case connect_attempt (fst e) deadline port r (snd e v) of
        (v1, None) \<Rightarrow> connect_wait rest deadline port r v1
      | (v1, Some res) \<Rightarrow> (v1, Some res))"

definition connect :: "(nat \<times> (vsock \<Rightarrow> vsock)) list \<Rightarrow> nat \<Rightarrow> vsock \<Rightarrow> u32 \<Rightarrow> nat
    \<Rightarrow> vsock \<times> (connect_error + nat) option" where
  "connect sched now v port timeout =
     (case connect_start v port of
        (v1, Inl e) \<Rightarrow> (v1, Some (Inl e))
      | (v1, Inr r) \<Rightarrow> connect_wait sched (now + timeout) port r v1)"

definition listen :: "vsock \<Rightarrow> u32 \<Rightarrow> vsock \<times> (string + unit)" where
  "listen v port =
     (if port \<in> set (vs_listeners v) then (v, Inl ''vsock port already has a listener'')
      else (v\<lparr>vs_listeners := port # vs_listeners v\<rparr>, Inr ()))"

definition lookup :: "vsock \<Rightarrow> header \<Rightarrow> nat option" where
  "lookup v h =
     (case map_of (vs_connections v) (Pair (h_dst_port h) (h_src_port h)) of
        Some r \<Rightarrow> Some r
      | None \<Rightarrow> map_of (vs_connections v) (Local (h_dst_port h)))"

definition accept :: "vsock \<Rightarrow> header \<Rightarrow> vsock" where
  "accept v h =
     (let k = Pair (h_dst_port h) (h_src_port h);
          a = vs_address v (h_dst_port h) (h_src_port h) in
      if h_dst_port h \<in> set (vs_listeners v) \<and> \<not> vs_closed v \<and> map_of (vs_connections v) k = None
      then let s = update_credit (connection_new a True) (h_buf_alloc h) (h_fwd_cnt h);
               (v1, r) = register v k s;
               v2 = outbox_push v1 (send s OP_RESPONSE 0 [] 0)
           in v2\<lparr>vs_accepted := vs_accepted v2 @ [(h_dst_port h, r)]\<rparr>
      else outbox_push v (packet a OP_RST 0 [] 0))"

definition handle :: "vsock \<Rightarrow> header \<Rightarrow> bytes \<Rightarrow> vsock" where
  "handle v h payload =
     (if h_op h = OP_REQUEST then accept v h
      else case lookup v h of
          None \<Rightarrow> v
        | Some r \<Rightarrow>
            let s = update_credit (at_ref v r) (h_buf_alloc h) (h_fwd_cnt h);
                v1 = put_ref v r s in
            if h_op h = OP_RESPONSE then put_ref v1 r (s\<lparr>s_connected := True\<rparr>)
            else if h_op h = OP_RW then put_ref v1 r (enqueue s payload)
            else if h_op h = OP_CREDIT_UPDATE then v1
            else if h_op h = OP_CREDIT_REQUEST then
              outbox_push v1 (send s OP_CREDIT_UPDATE 0 [] (s_bytes_read s))
            else if h_op h = OP_SHUTDOWN \<or> h_op h = OP_RST then
              let v2 = (if h_op h = OP_SHUTDOWN then outbox_push v1 (send s OP_RST 0 [] 0) else v1);
                  v3 = put_ref v2 r (close_from_peer s
                         (if s_connected s then None else Some ''the guest reset the connection''));
                  v4 = forget v3 (Pair (h_dst_port h) (h_src_port h))
              in forget v4 (Local (h_dst_port h))
            else v1)"

definition close_all :: "string \<Rightarrow> nat list \<Rightarrow> connection list \<Rightarrow> connection list" where
  "close_all reason rs heap = fold (\<lambda>r heap. heap[r := close_from_peer (heap ! r) (Some reason)]) rs heap"

definition vs_reset :: "vsock \<Rightarrow> string \<Rightarrow> vsock" where
  "vs_reset v reason =
     v\<lparr>vs_heap := close_all reason (map snd (vs_connections v)) (vs_heap v), vs_connections := [], vs_packets := []\<rparr>"

subsection \<open>The device\<close>

fun tx_gather :: "mem \<Rightarrow> bytes \<Rightarrow> buffer list \<Rightarrow> virtio_error + bytes" where
  "tx_gather m acc [] = Inr acc"
| "tx_gather m acc (b # bs) =
     (if b_writable b then Inl (DeviceError ''vsock tx descriptor must be readable'')
      else case guest_bytes m (ucast (b_address b)) (b_length b) of
          None \<Rightarrow> Inl (DeviceError ''vsock tx buffer outside guest memory'')
        | Some part \<Rightarrow> tx_gather m (acc @ part) bs)"

definition tx_chain :: "vsock \<Rightarrow> mem \<Rightarrow> chain \<Rightarrow> (vsock \<times> mem) \<times> (virtio_error + u32)" where
  "tx_chain v m c =
     (case tx_gather m [] (c_buffers c) of
        Inl e \<Rightarrow> ((v, m), Inl e)
      | Inr bs \<Rightarrow>
          (case header_parse bs of
             Inl e \<Rightarrow> ((v, m), Inl e)
           | Inr h \<Rightarrow>
               let end = min (HEADER_SIZE + unat (h_len h)) (length bs);
                   start = min HEADER_SIZE end
               in ((handle v h (bslice start (end - start) bs), m), Inr 0)))"

definition vsock_notify :: "vsock \<Rightarrow> u16 \<Rightarrow> queue \<Rightarrow> mem \<Rightarrow> (vsock \<times> queue \<times> mem) \<times> (virtio_error + u32 list)" where
  "vsock_notify v queue_index q m =
     (if queue_index \<noteq> 1 then ((v, q, m), Inr [])
      else drain (Suc (ring_len q)) (\<lambda>_. True) (\<lambda>v. v) tx_chain v q m [])"

fun rx_fill :: "mem \<Rightarrow> bytes \<Rightarrow> nat \<Rightarrow> buffer list \<Rightarrow> mem \<times> nat" where
  "rx_fill m p written [] = (m, written)"
| "rx_fill m p written (b # bs) =
     (if \<not> b_writable b \<or> written \<ge> length p then rx_fill m p written bs
      else
        let tk = min (unat (b_length b)) (length p - written);
            (m1, dn) = write_bytes m (b_address b) (bslice written tk p)
        in if dn < tk then (m1, written + dn) else rx_fill m1 p (written + dn) bs)"

definition rx_chain :: "vsock \<Rightarrow> mem \<Rightarrow> chain \<Rightarrow> (vsock \<times> mem) \<times> (virtio_error + u32)" where
  "rx_chain v m c =
     (let p = hd (vs_packets v);
          v1 = v\<lparr>vs_packets := tl (vs_packets v)\<rparr>;
          (m1, written) = rx_fill m p 0 (c_buffers c)
      in ((v1, m1), if written < length p then Inl (DeviceError ''vsock rx buffer too small'')
                    else Inr (word_of_nat written)))"

definition vsock_poll :: "vsock \<Rightarrow> queue option list \<Rightarrow> mem
    \<Rightarrow> (vsock \<times> queue option list \<times> mem) \<times> (virtio_error + u32 list)" where
  "vsock_poll v qs m =
     (case queue_get qs 0 of
        None \<Rightarrow> ((v, qs, m), Inr [])
      | Some q \<Rightarrow>
          (case drain (Suc (length (vs_packets v))) (\<lambda>v. vs_packets v \<noteq> [])
                  (\<lambda>v. v\<lparr>vs_packets := tl (vs_packets v)\<rparr>) rx_chain v q m [] of
             ((v1, q1, m1), r) \<Rightarrow> ((v1, qs[0 := Some q1], m1), r)))"

definition vsock_config :: "vsock \<Rightarrow> bytes" where
  "vsock_config v = u64_le (vs_guest_cid v)"

definition vsock_ops :: "vsock device_ops" where
  "vsock_ops =
     \<lparr>op_device_id = 19, op_features = 0, op_config = vsock_config, op_notify = vsock_notify,
      op_poll = vsock_poll, op_reset = (\<lambda>v. vs_reset v ''the vsock device was reset''), op_console = None\<rparr>"

subsection \<open>Packets\<close>

lemma length_packet [simp]: "length (packet a op flags payload fwd_cnt) = HEADER_SIZE + length payload"
  by (simp add: packet_def)

lemma header_parse_packet:
  "header_parse (packet a op flags payload fwd_cnt) =
     Inr \<lparr>h_src_port = a_local_port a, h_dst_port = a_peer_port a, h_len = word_of_nat (length payload),
          h_op = op, h_buf_alloc = BUF_ALLOC, h_fwd_cnt = fwd_cnt\<rparr>"
  by (simp add: header_parse_def) (simp add: packet_def le32_at_def le16_at_def codec_simps)

lemma packet_payload: "drop HEADER_SIZE (packet a op flags payload fwd_cnt) = payload"
  by (simp add: packet_def)

subsection \<open>Reading\<close>

lemma read_ready:
  assumes "read now room s = (s', ps, Ready part)"
  shows "s_incoming s = part @ s_incoming s'" "length part \<le> room"
    "s_bytes_read s' = s_bytes_read s + word_of_nat (length part)"
  using assms by (auto simp: read_def Let_def min_def split: if_splits option.splits)

lemma read_not_ready:
  assumes "read now room s = (s', ps, r)" "\<forall>part. r \<noteq> Ready part"
  shows "s' = s" "s_incoming s = []" "ps = []"
  using assms by (auto simp: read_def Let_def split: if_splits option.splits)

lemma read_credit:
  assumes "read now room s = (s', ps, r)"
    and "unat (s_bytes_read s - s_credited s) < 65536"
  shows "unat (s_bytes_read s' - s_credited s') < 65536"
proof -
  have four: "(BUF_ALLOC div 4 :: u32) = 65536" by simp
  show ?thesis
    using assms by (auto simp: read_def Let_def four word_le_nat_alt not_le split: if_splits option.splits)
qed

subsection \<open>Writing\<close>

lemma write_chunk_ready:
  assumes "write_chunk data s = (s', Ready tk)" "data \<noteq> []"
  shows "0 < tk" "tk \<le> length data" "tk \<le> MAX_PAYLOAD" "\<not> s_closed s"
    "s' = s\<lparr>s_bytes_written := s_bytes_written s + word_of_nat tk\<rparr>"
    "unat (s_bytes_written s - s_peer_fwd_cnt s) + tk \<le> unat (s_peer_buf_alloc s)"
  using assms by (auto simp: write_chunk_def Let_def min_def split: if_splits)

lemma write_chunk_window:
  assumes "write_chunk data s = (s', Ready tk)" "data \<noteq> []"
  shows "s_bytes_written s' - s_peer_fwd_cnt s' \<le> s_peer_buf_alloc s'"
proof -
  note w = write_chunk_ready [OF assms]
  have b: "unat (s_bytes_written s - s_peer_fwd_cnt s) + tk < 2 ^ 32"
    using w(6) unsigned_less [of "s_peer_buf_alloc s", where ?'a = nat] by simp
  have "s_bytes_written s' - s_peer_fwd_cnt s' = (s_bytes_written s - s_peer_fwd_cnt s) + word_of_nat tk"
    by (simp add: w(5))
  also have "unat \<dots> = unat (s_bytes_written s - s_peer_fwd_cnt s) + tk"
    using b by (simp add: unat_word_ariths unat_of_nat)
  finally show ?thesis
    using w(6) by (simp add: word_le_nat_alt w(5))
qed

lemma write_all_sends:
  "write_all sched data s = (s', rs, ps, r) \<Longrightarrow>
   \<exists>rest. data = concat (map (drop HEADER_SIZE) ps) @ rest \<and> (r = Ready () \<longrightarrow> rest = []) \<and>
     (r = Waiting \<longrightarrow> rest \<noteq> [])"
proof (induction sched data s arbitrary: s' rs ps r rule: write_all.induct)
  case (1 data s)
  then show ?case by (auto split: if_splits)
next
  case (2 e sched data s)
  show ?case
  proof (cases "data = []")
    case True
    then show ?thesis using "2.prems"(1) by auto
  next
    case False
    obtain s1 a where w: "write_chunk data (snd e s) = (s1, a)" by fastforce
    show ?thesis
    proof (cases a)
      case (Ready tk)
      obtain ps' where ps: "write_all sched (drop tk data) s1 = (s', rs, ps', r)"
        "ps = send s1 OP_RW 0 (take tk data) (s_bytes_read s1) # ps'"
        using "2.prems" False w Ready by (auto split: prod.splits)
      obtain rest where rest: "drop tk data = concat (map (drop HEADER_SIZE) ps') @ rest"
          "r = Ready () \<longrightarrow> rest = []" "r = Waiting \<longrightarrow> rest \<noteq> []"
        using "2.IH"(1) [OF False w [symmetric] Ready ps(1)] by blast
      have "data = take tk data @ concat (map (drop HEADER_SIZE) ps') @ rest"
        using append_take_drop_id [of tk data] rest(1) by simp
      then show ?thesis
        using ps(2) rest(2,3) by (intro exI [of _ rest]) (simp add: send_def packet_payload)
    next
      case (Failed e)
      then show ?thesis using "2.prems"(1) False w by auto
    next
      case Waiting
      then show ?thesis using "2.IH"(2) [OF False w [symmetric] Waiting] "2.prems"(1) False w by auto
    qed
  qed
qed

lemma write_all_chunks:
  "write_all sched data s = (s', rs, ps, r) \<Longrightarrow>
   \<forall>e\<in>set sched. \<forall>s. s_address (snd e s) = s_address s \<Longrightarrow>
   \<forall>p\<in>set ps. HEADER_SIZE < length p \<and> length p \<le> HEADER_SIZE + MAX_PAYLOAD \<and>
     (\<exists>h. header_parse p = Inr h \<and> h_op h = OP_RW \<and> h_src_port h = a_local_port (s_address s) \<and>
        h_dst_port h = a_peer_port (s_address s) \<and> unat (h_len h) = length p - HEADER_SIZE)"
proof (induction sched data s arbitrary: s' rs ps r rule: write_all.induct)
  case (1 data s)
  then show ?case by (auto split: if_splits)
next
  case (2 e sched data s)
  show ?case
  proof (cases "data = []")
    case True
    then show ?thesis using "2.prems"(1) by auto
  next
    case False
    obtain s1 a where w: "write_chunk data (snd e s) = (s1, a)" by fastforce
    have a0: "s_address (snd e s) = s_address s" using "2.prems"(2) by simp
    show ?thesis
    proof (cases a)
      case (Ready tk)
      obtain ps' where ps: "write_all sched (drop tk data) s1 = (s', rs, ps', r)"
        "ps = send s1 OP_RW 0 (take tk data) (s_bytes_read s1) # ps'"
        using "2.prems"(1) False w Ready by (auto split: prod.splits)
      note k = write_chunk_ready [OF w [unfolded Ready] False]
      have s1: "s_address s1 = s_address s" using k(5) a0 by simp
      have len: "unat (word_of_nat tk :: u32) = tk" using k(3) by (simp add: unat_of_nat)
      show ?thesis
        using "2.IH"(1) [OF False w [symmetric] Ready ps(1)] "2.prems"(2) ps(2) k s1 len
        by (simp add: send_def header_parse_packet min_def)
    next
      case (Failed e)
      then show ?thesis using "2.prems"(1) False w by auto
    next
      case Waiting
      have "s_address s1 = s_address s"
        using w Waiting a0 by (auto simp: write_chunk_def Let_def split: if_splits)
      then show ?thesis
        using "2.IH"(2) [OF False w [symmetric] Waiting] "2.prems" False w Waiting by auto
    qed
  qed
qed

text \<open>A writer that finds the window open at every attempt finishes.\<close>

definition window_open :: "connection \<Rightarrow> bool" where
  "window_open s \<longleftrightarrow> \<not> s_closed s \<and> s_bytes_written s - s_peer_fwd_cnt s < s_peer_buf_alloc s"

lemma write_all_finishes:
  "\<lbrakk>length data \<le> length sched; \<not> s_closed s;
    \<forall>e\<in>set sched. \<forall>s. \<not> s_closed s \<longrightarrow> window_open (snd e s)\<rbrakk>
   \<Longrightarrow> snd (snd (snd (write_all sched data s))) = Ready ()"
proof (induction sched data s rule: write_all.induct)
  case (1 data s)
  then show ?case by simp
next
  case (2 e sched data s)
  show ?case
  proof (cases "data = []")
    case True
    then show ?thesis by simp
  next
    case False
    have o: "window_open (snd e s)" using "2.prems"(2,3) by simp
    then obtain s1 tk where w: "write_chunk data (snd e s) = (s1, Ready tk)"
      by (auto simp: window_open_def write_chunk_def Let_def word_less_nat_alt)
    have "0 < tk" "\<not> s_closed s1"
      using write_chunk_ready(1,4,5) [OF w False] by simp_all
    then have "snd (snd (snd (write_all sched (drop tk data) s1))) = Ready ()"
      using "2.IH"(1) [OF False w [symmetric] refl] "2.prems" by simp
    then show ?thesis using False w by (auto split: prod.splits)
  qed
qed

subsection \<open>Local ports\<close>

definition port_next :: "u32 \<Rightarrow> u32" where
  "port_next port = (if port = 65535 then 49152 else port + 1)"

definition dynamic :: "u32 \<Rightarrow> bool" where
  "dynamic port \<longleftrightarrow> 49152 \<le> unat port \<and> unat port \<le> 65535"

lemma unat_port_next:
  assumes "dynamic port"
  shows "unat (port_next port) = 49152 + (unat port - 49152 + 1) mod 16384"
proof (cases "port = 65535")
  case True
  then show ?thesis by (simp add: port_next_def)
next
  case False
  then have "unat port \<noteq> 65535" using word_unat_eq_iff [of port 65535] by simp
  with assms have "unat (port + 1) = unat port + 1" "unat port - 49152 + 1 < 16384"
    by (auto simp: dynamic_def unat_word_ariths)
  then show ?thesis using False assms by (simp add: port_next_def dynamic_def)
qed

lemma dynamic_port_next: "dynamic port \<Longrightarrow> dynamic (port_next port)"
  using mod_less_divisor [of 16384 "unat port - 49152 + 1"] by (simp add: dynamic_def unat_port_next)

lemma port_orbit:
  "dynamic port \<Longrightarrow> dynamic ((port_next ^^ k) port) \<and> unat ((port_next ^^ k) port) = 49152 + (unat port - 49152 + k) mod 16384"
proof (induction k)
  case 0
  then show ?case by (auto simp: dynamic_def)
next
  case (Suc k)
  then show ?case
    using dynamic_port_next unat_port_next [of "(port_next ^^ k) port"]
    by (auto simp: mod_Suc_eq)
qed

lemma allocate_port_cases:
  assumes "dynamic port" "allocate_port n port conns = (np, r)"
  shows "dynamic np" "r = Some p \<Longrightarrow> dynamic p \<and> map_of conns (Local p) = None"
    "r = None \<Longrightarrow> \<forall>k<n. map_of conns (Local ((port_next ^^ k) port)) \<noteq> None"
  using assms
proof (induction n arbitrary: port)
  case 0
  { case 1 then show ?case by simp }
  { case 2 then show ?case by simp }
  { case 3 then show ?case by simp }
next
  case (Suc n)
  have step: "allocate_port (Suc n) port conns =
      (if map_of conns (Local port) = None then (port_next port, Some port) else allocate_port n (port_next port) conns)"
    for port by (simp add: port_next_def Let_def)
  { case 1 then show ?case
      using Suc(1) [of "port_next port"] dynamic_port_next by (auto simp: step simp del: allocate_port.simps split: if_splits) }
  { case 2 then show ?case
      using Suc(2) [of "port_next port"] dynamic_port_next by (auto simp: step simp del: allocate_port.simps split: if_splits) }
  { case 3 then show ?case
      using Suc(3) [of "port_next port"] dynamic_port_next
      by (auto simp: step All_less_Suc2 funpow_Suc_right simp del: allocate_port.simps funpow.simps split: if_splits) }
qed

lemma allocate_port_none:
  assumes "dynamic port" "allocate_port 16384 port conns = (np, None)" "dynamic p"
  shows "map_of conns (Local p) \<noteq> None"
proof -
  let ?k = "(unat p + 16384 - unat port) mod 16384"
  have "(unat port - 49152 + ?k) mod 16384 = (16384 + (unat p - 49152)) mod 16384"
    using assms(1,3) by (subst mod_add_right_eq) (auto simp: dynamic_def intro: arg_cong [where f = "\<lambda>x. x mod 16384"])
  also have "\<dots> = (unat p - 49152) mod 16384" by (rule mod_add_self1)
  also have "\<dots> = unat p - 49152" using assms(3) by (intro mod_less) (auto simp: dynamic_def)
  finally have "unat ((port_next ^^ ?k) port) = unat p"
    using port_orbit [OF assms(1), of ?k] assms(3) by (simp add: dynamic_def)
  then have "(port_next ^^ ?k) port = p" by (simp add: word_unat_eq_iff)
  then show ?thesis
    using allocate_port_cases(3) [OF assms(1,2) refl] mod_less_divisor [of 16384] by (metis zero_less_numeral)
qed

subsection \<open>The life of the device\<close>

text \<open>
  One step of the device and of the host threads that share it: opening and accepting
  connections, packets from the guest, one attempt of a stream operation, delivery to the
  guest and a reset.
\<close>

definition stream_read :: "nat \<Rightarrow> nat \<Rightarrow> nat \<Rightarrow> vsock \<Rightarrow> vsock" where
  "stream_read now room r v =
     (case read now room (at_ref v r) of (s, ps, _) \<Rightarrow> fold (\<lambda>p v. outbox_push v p) ps (put_ref v r s))"

definition stream_write :: "bytes \<Rightarrow> nat \<Rightarrow> vsock \<Rightarrow> vsock" where
  "stream_write data r v =
     (case write_chunk data (at_ref v r) of
        (s, Ready tk) \<Rightarrow> outbox_push (put_ref v r s) (send s OP_RW 0 (take tk data) (s_bytes_read s))
      | (s, _) \<Rightarrow> put_ref v r s)"

definition stream_close :: "nat \<Rightarrow> vsock \<Rightarrow> vsock" where
  "stream_close r v =
     (case close (at_ref v r) of (s, ps) \<Rightarrow> fold (\<lambda>p v. outbox_push v p) ps (put_ref v r s))"

inductive vs_step :: "vsock \<Rightarrow> vsock \<Rightarrow> bool" where
  step_connect: "vs_step v (fst (connect_start v port))"
| step_attempt: "r < length (vs_heap v) \<Longrightarrow> vs_step v (fst (connect_attempt now deadline port r v))"
| step_listen: "vs_step v (fst (listen v port))"
| step_handle: "vs_step v (handle v h payload)"
| step_read: "r < length (vs_heap v) \<Longrightarrow> vs_step v (stream_read now room r v)"
| step_write: "r < length (vs_heap v) \<Longrightarrow> vs_step v (stream_write data r v)"
| step_close: "r < length (vs_heap v) \<Longrightarrow> vs_step v (stream_close r v)"
| step_deadline: "r < length (vs_heap v) \<Longrightarrow> vs_step v (put_ref v r (set_deadline (at_ref v r) deadline))"
| step_deliver: "vs_step v (v\<lparr>vs_packets := tl (vs_packets v)\<rparr>)"
| step_reset: "vs_step v (vs_reset v reason)"

definition key_fits :: "key \<Rightarrow> connection \<Rightarrow> bool" where
  "key_fits k s \<longleftrightarrow> (case k of
     Local p \<Rightarrow> a_local_port (s_address s) = p \<and> dynamic p
   | Pair l p \<Rightarrow> a_local_port (s_address s) = l \<and> a_peer_port (s_address s) = p)"

definition credit_ok :: "connection \<Rightarrow> bool" where
  "credit_ok s \<longleftrightarrow> unat (s_bytes_read s - s_credited s) < 65536"

definition vs_inv :: "vsock \<Rightarrow> bool" where
  "vs_inv v \<longleftrightarrow> dynamic (vs_next_port v) \<and> distinct (map fst (vs_connections v)) \<and>
     distinct (map snd (vs_connections v)) \<and> list_all credit_ok (vs_heap v) \<and>
     list_all (\<lambda>(k, r). r < length (vs_heap v) \<and> key_fits k (vs_heap v ! r)) (vs_connections v)"

lemma push_all: "fold (\<lambda>p v. outbox_push v p) ps v = v\<lparr>vs_packets := vs_packets v @ ps\<rparr>"
  by (induction ps arbitrary: v) (simp_all add: outbox_push_def)

lemma vs_inv_packets [simp]: "vs_inv (v\<lparr>vs_packets := ps\<rparr>) = vs_inv v" "vs_inv (outbox_push v p) = vs_inv v"
  "vs_inv (v\<lparr>vs_accepted := as\<rparr>) = vs_inv v" "vs_inv (v\<lparr>vs_listeners := ls\<rparr>) = vs_inv v"
  by (simp_all add: vs_inv_def outbox_push_def)

lemma vs_inv_put_ref:
  assumes "vs_inv v" "r < length (vs_heap v)" "s_address s = s_address (at_ref v r)" "credit_ok s"
  shows "vs_inv (put_ref v r s)"
  using assms
  by (auto simp: vs_inv_def put_ref_def at_ref_def list_all_iff key_fits_def nth_list_update
      dest!: subsetD [OF set_update_subset_insert] split: key.splits)

lemma vs_inv_forget: "vs_inv v \<Longrightarrow> vs_inv (forget v k)"
  using distinct_map_filter [of snd "vs_connections v"] distinct_map_filter [of fst "vs_connections v"]
  by (auto simp: vs_inv_def forget_def AList.delete_eq list_all_iff)

lemma update_fresh: "map_of xs k = None \<Longrightarrow> AList.update k v xs = xs @ [(k, v)]"
  by (induction xs) (auto split: if_splits)

lemma vs_inv_register:
  assumes "vs_inv v" "map_of (vs_connections v) k = None" "key_fits k s" "credit_ok s"
  shows "vs_inv (fst (register v k s))"
  using assms
  by (auto simp: vs_inv_def register_def update_fresh list_all_iff nth_append map_of_eq_None_iff split_beta)

lemma vs_inv_ref: "vs_inv v \<Longrightarrow> lookup v h = Some r \<Longrightarrow> r < length (vs_heap v)"
  by (auto simp: vs_inv_def lookup_def list_all_iff dest!: map_of_SomeD split: option.splits)

lemma vs_inv_credit: "vs_inv v \<Longrightarrow> r < length (vs_heap v) \<Longrightarrow> credit_ok (at_ref v r)"
  by (auto simp: vs_inv_def at_ref_def list_all_iff)

lemma credit_ok_new [simp]: "credit_ok (connection_new a b)"
  by (simp add: credit_ok_def connection_new_def)

lemma credit_ok_updates [simp]:
  "credit_ok (update_credit s b f) = credit_ok s" "credit_ok (close_from_peer s e) = credit_ok s"
  "credit_ok (enqueue s p) = credit_ok s" "credit_ok (set_deadline s d) = credit_ok s"
  "credit_ok (s\<lparr>s_connected := c\<rparr>) = credit_ok s" "credit_ok (s\<lparr>s_closed := c\<rparr>) = credit_ok s"
  "credit_ok (s\<lparr>s_bytes_written := w\<rparr>) = credit_ok s"
  by (simp_all add: credit_ok_def update_credit_def close_from_peer_def enqueue_def set_deadline_def)

lemma address_updates [simp]:
  "s_address (update_credit s b f) = s_address s" "s_address (close_from_peer s e) = s_address s"
  "s_address (enqueue s p) = s_address s" "s_address (set_deadline s d) = s_address s"
  "s_address (connection_new a c) = a"
  by (simp_all add: update_credit_def close_from_peer_def enqueue_def set_deadline_def connection_new_def)

lemma put_ref_simps [simp]:
  "length (vs_heap (put_ref v r s)) = length (vs_heap v)" "vs_heap (outbox_push v p) = vs_heap v"
  "vs_heap (forget v k) = vs_heap v" "put_ref (put_ref v r s) r t = put_ref v r t"
  "put_ref (outbox_push v p) r s = outbox_push (put_ref v r s) p"
  by (simp_all add: put_ref_def outbox_push_def forget_def)

lemma forget_outbox [simp]: "forget (outbox_push v p) k = outbox_push (forget v k) p"
  by (simp add: forget_def outbox_push_def)

lemma vs_inv_connect_start:
  assumes "vs_inv v"
  shows "vs_inv (fst (connect_start v port))"
proof -
  obtain np r where a: "allocate_port 16384 (vs_next_port v) (vs_connections v) = (np, r)" by fastforce
  have d: "dynamic (vs_next_port v)" using assms by (simp add: vs_inv_def)
  have inv: "vs_inv (v\<lparr>vs_next_port := np\<rparr>)"
    using assms allocate_port_cases(1) [OF d a] by (simp add: vs_inv_def)
  show ?thesis
  proof (cases r)
    case None
    then show ?thesis using assms a inv by (simp add: connect_start_def)
  next
    case (Some p)
    have p: "dynamic p" "map_of (vs_connections v) (Local p) = None"
      using allocate_port_cases(2) [OF d a Some] by simp_all
    let ?s = "connection_new (vs_address v p port) False"
    have "vs_inv (fst (register (v\<lparr>vs_next_port := np\<rparr>) (Local p) ?s))"
      using inv p by (intro vs_inv_register) (simp_all add: key_fits_def vs_address_def)
    then show ?thesis
      using assms a Some by (simp add: connect_start_def Let_def register_def vs_address_def)
  qed
qed

lemma vs_inv_accept: "vs_inv v \<Longrightarrow> vs_inv (accept v h)"
  using vs_inv_register [of v "Pair (h_dst_port h) (h_src_port h)"
      "update_credit (connection_new (vs_address v (h_dst_port h) (h_src_port h)) True) (h_buf_alloc h) (h_fwd_cnt h)"]
  by (auto simp: accept_def Let_def key_fits_def vs_address_def split: prod.splits)

lemma vs_inv_handle:
  assumes "vs_inv v"
  shows "vs_inv (handle v h payload)"
proof (cases "h_op h = OP_REQUEST \<or> lookup v h = None")
  case True
  then show ?thesis using assms vs_inv_accept by (auto simp: handle_def)
next
  case False
  then obtain r where r: "lookup v h = Some r" by auto
  let ?s = "update_credit (at_ref v r) (h_buf_alloc h) (h_fwd_cnt h)"
  have put: "vs_inv (put_ref v r s)" if "s_address s = s_address (at_ref v r)" "credit_ok s" for s
    using vs_inv_put_ref [OF assms vs_inv_ref [OF assms r] that] .
  have c: "credit_ok (at_ref v r)" using vs_inv_credit [OF assms vs_inv_ref [OF assms r]] .
  show ?thesis
    using False r put c by (auto simp: handle_def Let_def intro!: vs_inv_forget)
qed

lemma close_all_length [simp]: "length (close_all reason rs heap) = length heap"
  unfolding close_all_def by (induction rs arbitrary: heap) simp_all

lemma close_all_nth:
  "\<lbrakk>distinct rs; i < length heap\<rbrakk> \<Longrightarrow>
   close_all reason rs heap ! i = (if i \<in> set rs then close_from_peer (heap ! i) (Some reason) else heap ! i)"
  unfolding close_all_def
  by (induction rs arbitrary: heap) (auto simp: nth_list_update, metis nth_list_update_neq)

lemma vs_inv_reset: "vs_inv v \<Longrightarrow> vs_inv (vs_reset v reason)"
  by (auto simp: vs_inv_def vs_reset_def list_all_length close_all_nth)

lemma vs_inv_read:
  assumes "vs_inv v" "r < length (vs_heap v)"
  shows "vs_inv (stream_read now room r v)"
proof -
  obtain s ps a where rd: "read now room (at_ref v r) = (s, ps, a)" by (metis prod.exhaust)
  have "credit_ok s"
    using read_credit [OF rd] vs_inv_credit [OF assms] by (simp add: credit_ok_def)
  moreover have "s_address s = s_address (at_ref v r)"
    using rd by (auto simp: read_def Let_def split: if_splits option.splits)
  ultimately show ?thesis
    using vs_inv_put_ref [OF assms] rd by (simp add: stream_read_def push_all)
qed

lemma vs_inv_write:
  assumes "vs_inv v" "r < length (vs_heap v)"
  shows "vs_inv (stream_write data r v)"
proof -
  obtain s a where w: "write_chunk data (at_ref v r) = (s, a)" by fastforce
  have "s_address s = s_address (at_ref v r)" "credit_ok s"
    using w vs_inv_credit [OF assms] by (auto simp: write_chunk_def Let_def split: if_splits)
  then show ?thesis
    using vs_inv_put_ref [OF assms] w by (auto simp: stream_write_def split: attempt.splits)
qed

lemma vs_inv_step: "vs_step v v' \<Longrightarrow> vs_inv v \<Longrightarrow> vs_inv v'"
proof (induction rule: vs_step.induct)
  case (step_attempt r v now deadline port)
  then show ?case by (auto simp: connect_attempt_def Let_def vs_inv_forget)
next
  case (step_close r v)
  then show ?case
    using vs_inv_put_ref [OF step_close(2,1)] vs_inv_credit [OF step_close(2,1)]
    by (simp add: stream_close_def close_def push_all)
next
  case (step_deadline r v deadline)
  then show ?case using vs_inv_credit by (intro vs_inv_put_ref) simp_all
qed (simp_all add: vs_inv_connect_start listen_def vs_inv_handle vs_inv_read vs_inv_write vs_inv_reset)

lemma vs_inv_new: "vs_inv (vsock_new cid)"
  by (simp add: vs_inv_def vsock_new_def dynamic_def)

lemma vs_inv_reachable: "vs_step\<^sup>*\<^sup>* (vsock_new cid) v \<Longrightarrow> vs_inv v"
  by (induction rule: rtranclp_induct) (auto intro: vs_inv_new vs_inv_step)

subsection \<open>The device's loops\<close>

lemma tx_gather_fuel: "tx_gather m acc bs \<noteq> Inl OutOfFuel"
  by (induction m acc bs rule: tx_gather.induct) (auto split: option.splits)

lemma tx_chain_cases:
  obtains (bad) e where "tx_chain v m c = ((v, m), Inl e)" "e \<noteq> OutOfFuel"
    | (good) bs h payload where "tx_gather m [] (c_buffers c) = Inr bs" "header_parse bs = Inr h"
      "tx_chain v m c = ((handle v h payload, m), Inr 0)"
proof (cases "tx_gather m [] (c_buffers c)")
  case (Inl e)
  then show thesis using bad tx_gather_fuel [of m "[]" "c_buffers c"] by (simp add: tx_chain_def)
next
  case (Inr bs)
  show thesis
  proof (cases "header_parse bs")
    case (Inl e)
    then have "e \<noteq> OutOfFuel" by (auto simp: header_parse_def split: if_splits)
    then show thesis using bad Inl Inr by (simp add: tx_chain_def)
  next
    case (Inr h)
    then show thesis
      using good [OF \<open>tx_gather m [] (c_buffers c) = Inr bs\<close> Inr] \<open>tx_gather m [] (c_buffers c) = Inr bs\<close>
      by (simp add: tx_chain_def Let_def)
  qed
qed

interpretation vs_tx: ring_reader tx_chain
proof unfold_locales
  fix d m c
  show "length (snd (fst (tx_chain d m c))) = length m"
    "snd (tx_chain d m c) \<noteq> Inl OutOfFuel" "snd (fst (tx_chain d m c)) = m"
    by (cases rule: tx_chain_cases [of d m c]; simp)+
qed

lemma rx_fill_length: "length (fst (rx_fill m p w bs)) = length m"
  by (induction m p w bs rule: rx_fill.induct) (auto simp: Let_def split_beta)

interpretation vs_rx: ring_client rx_chain
  using rx_fill_length by unfold_locales (auto simp: rx_chain_def Let_def split_beta)

lemma vs_poll_drain:
  assumes "vsock_poll v qs m = ((v', qs', m'), r)" "queue_get qs 0 = Some q"
  obtains q' where "qs' = qs[0 := Some q']"
    "drain (Suc (length (vs_packets v))) (\<lambda>v. vs_packets v \<noteq> [])
       (\<lambda>v. v\<lparr>vs_packets := tl (vs_packets v)\<rparr>) rx_chain v q m [] = ((v', q', m'), r)"
  using assms by (auto simp: vsock_poll_def split: prod.splits)

lemma rx_chain_inv: "vs_inv v \<Longrightarrow> rx_chain v m c = ((v1, m1), r) \<Longrightarrow> vs_inv v1"
  by (auto simp: rx_chain_def Let_def split: prod.splits)

lemma tx_chain_inv: "vs_inv v \<Longrightarrow> tx_chain v m c = ((v1, m1), r) \<Longrightarrow> vs_inv v1"
  by (cases rule: tx_chain_cases [of v m c]) (auto intro: vs_inv_handle)

interpretation vs_dev: virtio_device vsock_ops vs_inv
proof unfold_locales
  fix d m q i d' q' m' r
  assume inv: "vs_inv d" and ok: "queue_ok m q" and n: "op_notify vsock_ops d i q m = ((d', q', m'), r)"
  show "vs_inv d' \<and> length m' = length m \<and> queue_ok m' q'"
  proof (cases "i = 1")
    case True
    then have dr: "drain (Suc (ring_len q)) (\<lambda>_. True) (\<lambda>v. v) tx_chain d q m [] = ((d', q', m'), r)"
      using n by (simp add: vsock_ops_def vsock_notify_def)
    have "vs_inv d'"
      by (rule drain_invariant [where P = "\<lambda>v _. vs_inv v", OF _ _ _ inv dr]) (simp_all add: tx_chain_inv)
    then show ?thesis using vs_tx.drain_keeps [OF ok dr] by simp
  next
    case False
    then show ?thesis using n inv ok by (auto simp: vsock_ops_def vsock_notify_def)
  qed
next
  fix d m qs d' qs' m' r
  assume inv: "vs_inv d" and ok: "queues_ok m qs" and p: "op_poll vsock_ops d qs m = ((d', qs', m'), r)"
  have poll: "vsock_poll d qs m = ((d', qs', m'), r)" using p by (simp add: vsock_ops_def)
  show "vs_inv d' \<and> length m' = length m \<and> queues_ok m' qs'"
  proof (cases "queue_get qs 0")
    case None
    then show ?thesis using poll inv ok by (auto simp: vsock_poll_def)
  next
    case (Some q)
    obtain q' where q': "qs' = qs[0 := Some q']" and dr: "drain (Suc (length (vs_packets d))) (\<lambda>v. vs_packets v \<noteq> [])
       (\<lambda>v. v\<lparr>vs_packets := tl (vs_packets v)\<rparr>) rx_chain d q m [] = ((d', q', m'), r)"
      using vs_poll_drain [OF poll Some] .
    have "vs_inv d'"
      by (rule drain_invariant [where P = "\<lambda>v _. vs_inv v", OF _ _ _ inv dr]) (simp_all add: rx_chain_inv)
    moreover have "length m' = length m \<and> queue_ok m' q'"
      using vs_rx.drain_keeps [OF queues_ok_get [OF ok Some] dr] .
    ultimately show ?thesis
      using q' queues_ok_update queues_ok_mem [OF ok] by simp
  qed
next
  fix d
  assume "vs_inv d"
  then show "vs_inv (op_reset vsock_ops d)" by (simp add: vsock_ops_def vs_inv_reset)
qed

lemma vsock_notify_ends: "queue_ok m q \<Longrightarrow> snd (vsock_notify v i q m) \<noteq> Inl OutOfFuel"
  using vs_tx.drain_terminates [of m q] by (simp add: vsock_notify_def)

lemma vsock_poll_ends:
  assumes "queues_ok m qs"
  shows "snd (vsock_poll v qs m) \<noteq> Inl OutOfFuel"
proof (cases "queue_get qs 0")
  case None
  then show ?thesis by (simp add: vsock_poll_def)
next
  case (Some q)
  have dec: "length (vs_packets (fst (fst (rx_chain d m c)))) < length (vs_packets d)"
    if "vs_packets d \<noteq> []" "snd (rx_chain d m c) = Inr w" for d m c w
    using that by (auto simp: rx_chain_def Let_def split: prod.splits)
  have "snd (drain (Suc (length (vs_packets v))) (\<lambda>v. vs_packets v \<noteq> [])
      (\<lambda>v. v\<lparr>vs_packets := tl (vs_packets v)\<rparr>) rx_chain v q m []) \<noteq> Inl OutOfFuel"
    by (rule vs_rx.drain_measure [where \<mu> = "\<lambda>v. length (vs_packets v)"])
      (use dec queues_ok_get [OF assms Some] in auto)
  then show ?thesis using Some by (auto simp: vsock_poll_def split: prod.splits)
qed

lemma rx_fill_place:
  "\<lbrakk>buffers_ok m bs; w \<le> length p\<rbrakk> \<Longrightarrow>
   rx_fill m p w bs = (place m bs (drop w p), w + min (capacity bs) (length p - w))"
proof (induction m p w bs rule: rx_fill.induct)
  case (1 m p written)
  then show ?case by simp
next
  case (2 m p written b bs)
  show ?case
  proof (cases "\<not> b_writable b \<or> written \<ge> length p")
    case True
    then show ?thesis using "2.IH"(1) [OF True] "2.prems" by (cases "b_writable b") simp_all
  next
    case False
    let ?tk = "min (unat (b_length b)) (length p - written)"
    have part: "bslice written ?tk p = take (b_len b) (drop written p)"
      by (simp add: bslice_def b_len_def min_def)
    have wb: "write_bytes m (b_address b) (bslice written ?tk p) =
        (poke m (b_address b) (take (b_len b) (drop written p)), ?tk)"
      using "2.prems" buffers_ok_small [of m bs] unfolding part
      by (subst write_bytes_eq) (auto simp: inside_def b_at_def b_len_def)
    have "rx_fill m p written (b # bs) =
        rx_fill (poke m (b_address b) (take (b_len b) (drop written p))) p (written + ?tk) bs"
      using False wb by (simp add: Let_def del: min_less_iff_conj)
    also have "\<dots> = (place (poke m (b_address b) (take (b_len b) (drop written p))) bs (drop (written + ?tk) p),
        written + ?tk + min (capacity bs) (length p - (written + ?tk)))"
      using "2.IH"(2) [OF False refl wb [symmetric] refl] "2.prems" False by simp
    also have "drop (written + ?tk) p = drop (b_len b) (drop written p)"
      by (simp add: b_len_def min_def add.commute)
    also have "written + ?tk + min (capacity bs) (length p - (written + ?tk)) =
        written + min (capacity (b # bs)) (length p - written)"
      using False by (simp add: b_len_def min_def) arith
    finally show ?thesis using False by simp
  qed
qed

lemma rx_chain_intact_aux:
  assumes "buffers_ok m (c_buffers c)" "vs_packets v = p # ps" "length p \<le> capacity (c_buffers c)"
  shows "rx_chain v m c = ((v\<lparr>vs_packets := ps\<rparr>, place m (c_buffers c) p), Inr (word_of_nat (length p)))"
  using assms by (simp add: rx_chain_def rx_fill_place)

lemma read_progress:
  "\<lbrakk>read now room s = (s', ps, Ready part); \<not> s_closed s; 0 < room\<rbrakk> \<Longrightarrow> part \<noteq> []"
  by (auto simp: read_def Let_def min_def split: if_splits option.splits)

text \<open>
  The data packets of a schedule: when one comes, its window and credit are noted and its
  payload queued, as \<open>handle\<close> does.
\<close>

record arrival =
  ar_time :: nat
  ar_buf_alloc :: u32
  ar_fwd_cnt :: u32
  ar_payload :: bytes

definition arrive :: "arrival \<Rightarrow> connection \<Rightarrow> connection" where
  "arrive e s = enqueue (update_credit s (ar_buf_alloc e) (ar_fwd_cnt e)) (ar_payload e)"

definition arriving :: "arrival list \<Rightarrow> schedule" where
  "arriving arrivals = map (\<lambda>e. (ar_time e, arrive e)) arrivals"

definition payloads :: "arrival list \<Rightarrow> bytes" where
  "payloads arrivals = concat (map ar_payload arrivals)"

lemma arriving_simps [simp]:
  "arriving [] = []" "arriving (e # arrivals) = (ar_time e, arrive e) # arriving arrivals"
  "length (arriving arrivals) = length arrivals"
  by (simp_all add: arriving_def)

lemma payloads_simps [simp]: "payloads [] = []" "payloads (e # arrivals) = ar_payload e @ payloads arrivals"
  by (simp_all add: payloads_def)

lemma arrive_simps [simp]:
  "s_incoming (arrive e s) = s_incoming s @ ar_payload e" "s_closed (arrive e s) = s_closed s"
  "s_deadline (arrive e s) = s_deadline s" "s_address (arrive e s) = s_address s"
  by (simp_all add: arrive_def enqueue_def update_credit_def)

text \<open>A read that finished while packets arrived: what it returned, and what is left of them.\<close>

definition read_outcome :: "nat \<Rightarrow> bytes \<Rightarrow> arrival list \<Rightarrow> connection \<Rightarrow> connection \<times> schedule \<times> bytes \<Rightarrow> bool" where
  "read_outcome len acc arrivals s res \<longleftrightarrow> (case res of (s', rest, out) \<Rightarrow>
     length out = len \<and> (\<exists>k\<le>length arrivals. rest = arriving (drop k arrivals) \<and>
       out @ s_incoming s' = acc @ s_incoming s @ payloads (take k arrivals)))"

lemma read_outcome_step:
  assumes "read_outcome len (acc @ part) arrivals s1 res" "s_incoming s @ ar_payload e = part @ s_incoming s1"
  shows "read_outcome len acc (e # arrivals) s res"
proof -
  obtain s' rest out where res: "res = (s', rest, out)" by (metis prod.exhaust)
  obtain k where k: "k \<le> length arrivals" "rest = arriving (drop k arrivals)" "length out = len"
    "out @ s_incoming s' = (acc @ part) @ s_incoming s1 @ payloads (take k arrivals)"
    using assms(1) by (auto simp: read_outcome_def res)
  have "out @ s_incoming s' = acc @ (part @ s_incoming s1) @ payloads (take k arrivals)"
    using k(4) by simp
  then have "out @ s_incoming s' = acc @ s_incoming s @ payloads (take (Suc k) (e # arrivals))"
    using assms(2) by (metis append.assoc payloads_simps(2) take_Suc_Cons)
  then show ?thesis
    unfolding read_outcome_def res using k(1-3) by (auto intro!: exI [of _ "Suc k"])
qed

lemma read_exact_in_order_aux:
  "\<lbrakk>read_exact (arriving arrivals) len acc s = (s', rest, ps, Ready out); \<not> s_closed s; length acc \<le> len\<rbrakk>
   \<Longrightarrow> read_outcome len acc arrivals s (s', rest, out)"
proof (induction arrivals arbitrary: acc s ps)
  case Nil
  then show ?case by (auto simp: read_outcome_def split: if_splits)
next
  case (Cons e arrivals)
  show ?case
  proof (cases "length acc < len")
    case False
    then show ?thesis using Cons.prems by (auto simp: read_outcome_def intro!: exI [of _ 0])
  next
    case True
    let ?room = "min (len - length acc) (min len (64 * 1024))" and ?s = "arrive e s"
    have enq: "s_incoming ?s = s_incoming s @ ar_payload e" "\<not> s_closed ?s"
      using Cons.prems(2) by simp_all
    have "0 < ?room" using True by simp
    obtain s1 qs a where r: "read (ar_time e) ?room ?s = (s1, qs, a)" by (metis prod.exhaust)
    have s1: "\<not> s_closed s1" using r enq(2) by (auto simp: read_def Let_def split: if_splits option.splits)
    show ?thesis
    proof (cases a)
      case (Ready part)
      note rr = read_ready [OF r [unfolded Ready]]
      have len: "length (acc @ part) \<le> len" using rr(2) True by auto
      have ne: "part \<noteq> []"
        using read_progress [OF r [unfolded Ready] enq(2) \<open>0 < ?room\<close>] .
      obtain ps' where "read_exact (arriving arrivals) len (acc @ part) s1 = (s', rest, ps', Ready out)"
        using Cons.prems(1) True r Ready ne by (auto split: prod.splits)
      from Cons.IH [OF this s1 len] show ?thesis
        by (rule read_outcome_step) (use rr(1) enq(1) in simp)
    next
      case (Failed x)
      then show ?thesis using Cons.prems(1) True r by simp
    next
      case Waiting
      have s1e: "s1 = ?s" using read_not_ready(1) [OF r] Waiting by simp
      obtain ps' where "read_exact (arriving arrivals) len acc s1 = (s', rest, ps', Ready out)"
        using Cons.prems(1) True r Waiting by (auto split: prod.splits)
      from Cons.IH [OF this s1 Cons.prems(3)] show ?thesis
        using read_outcome_step [of len acc "[]" arrivals s1 _ s e] s1e enq(1) by simp
    qed
  qed
qed

subsection \<open>Properties of vsock\<close>

text \<open>A packet the host builds reads back as it was meant: parsing its header gives the
  ports, operation, window and credit it was built with, the announced length is the payload's,
  and the bytes after the header are the payload.\<close>

theorem packet_roundtrip:
  "header_parse (packet a op flags payload fwd_cnt) =
     Inr \<lparr>h_src_port = a_local_port a, h_dst_port = a_peer_port a, h_len = word_of_nat (length payload),
          h_op = op, h_buf_alloc = 262144, h_fwd_cnt = fwd_cnt\<rparr>
   \<and> drop 44 (packet a op flags payload fwd_cnt) = payload"
  using header_parse_packet packet_payload by simp

text \<open>A writer never overruns the window the guest advertised: whenever a chunk is taken for
  sending, the bytes in flight (in the wrapping counters of the protocol) stay within the guest's
  announced buffer, the chunk is not empty and at most one packet long; with no room the writer
  waits and nothing changes, and on a closed connection it fails.\<close>

theorem write_respects_window:
  assumes "data \<noteq> []" "write_chunk data s = (s', r)"
  shows "(s_closed s \<longrightarrow> s' = s \<and> (\<exists>e. r = Failed (Closed e))) \<and>
    (\<not> s_closed s \<and> \<not> window_open s \<longrightarrow> s' = s \<and> r = Waiting) \<and>
    (window_open s \<longrightarrow> (\<exists>k. r = Ready k \<and> 0 < k \<and> k \<le> min 2048 (length data) \<and>
       s_bytes_written s' = s_bytes_written s + word_of_nat k \<and>
       s_bytes_written s' - s_peer_fwd_cnt s' \<le> s_peer_buf_alloc s'))"
proof -
  have "\<exists>k. r = Ready k" if "window_open s"
    using that assms(2) by (auto simp: window_open_def write_chunk_def Let_def word_less_nat_alt split: if_splits)
  moreover have "s' = s \<and> r = Waiting" if "\<not> s_closed s" "\<not> window_open s"
    using that assms(2) by (auto simp: window_open_def write_chunk_def Let_def word_less_nat_alt split: if_splits)
  moreover have "s' = s \<and> (\<exists>e. r = Failed (Closed e))" if "s_closed s"
    using that assms(2) by (auto simp: write_chunk_def)
  moreover have "0 < k \<and> k \<le> min 2048 (length data) \<and> s_bytes_written s' = s_bytes_written s + word_of_nat k \<and>
      s_bytes_written s' - s_peer_fwd_cnt s' \<le> s_peer_buf_alloc s'" if "r = Ready k" for k
    using write_chunk_ready [of data s s' k] write_chunk_window [of data s s' k] assms that by simp
  ultimately show ?thesis by blast
qed

theorem write_respects_window_witness:
  "\<exists>s' k. write_chunk [1, 2, 3] (connection_new \<lparr>a_guest_cid = 3, a_local_port = 9, a_peer_port = 5\<rparr> True) = (s', Ready k)
     \<and> 0 < k \<and> s_bytes_written s' - s_peer_fwd_cnt s' \<le> s_peer_buf_alloc s'"
proof -
  let ?s = "connection_new \<lparr>a_guest_cid = 3, a_local_port = 9, a_peer_port = 5\<rparr> True"
  obtain s' r where w: "write_chunk [1, 2, 3 :: byte] ?s = (s', r)" by fastforce
  have "window_open ?s" by (simp add: window_open_def connection_new_def)
  then show ?thesis using write_respects_window [OF _ w] w by auto
qed

text \<open>C13: Writing a block sends it whole and in order, whatever the other threads do to the
  connection between the attempts (short of changing its address): the payloads of the packets sent,
  joined, are a prefix of the data, all of it when the call returns; each packet carries the
  connection's ports, announces its own length and is at most 2048 bytes of payload; and if the
  guest's window is open at every attempt of a long enough schedule, the call does return.\<close>

theorem write_all_whole:
  assumes "write_all sched data s = (s', rs, ps, r)"
    and "\<forall>e\<in>set sched. \<forall>s. s_address (snd e s) = s_address s"
  shows "(\<exists>rest. data = concat (map (drop 44) ps) @ rest \<and> (r = Ready () \<longrightarrow> rest = [])) \<and>
    (\<forall>p\<in>set ps. 44 < length p \<and> length p \<le> 44 + 2048 \<and>
       (\<exists>h. header_parse p = Inr h \<and> h_op h = OP_RW \<and> h_src_port h = a_local_port (s_address s) \<and>
          h_dst_port h = a_peer_port (s_address s) \<and> unat (h_len h) = length p - 44)) \<and>
    (length data \<le> length sched \<longrightarrow> \<not> s_closed s \<longrightarrow>
       (\<forall>e\<in>set sched. \<forall>s. \<not> s_closed s \<longrightarrow> window_open (snd e s)) \<longrightarrow> r = Ready ())"
proof (intro conjI impI)
  show "\<exists>rest. data = concat (map (drop 44) ps) @ rest \<and> (r = Ready () \<longrightarrow> rest = [])"
    using write_all_sends [OF assms(1)] by blast
  show "\<forall>p\<in>set ps. 44 < length p \<and> length p \<le> 44 + 2048 \<and>
       (\<exists>h. header_parse p = Inr h \<and> h_op h = OP_RW \<and> h_src_port h = a_local_port (s_address s) \<and>
          h_dst_port h = a_peer_port (s_address s) \<and> unat (h_len h) = length p - 44)"
    using write_all_chunks [OF assms] .
  assume "length data \<le> length sched" "\<not> s_closed s" "\<forall>e\<in>set sched. \<forall>s. \<not> s_closed s \<longrightarrow> window_open (snd e s)"
  then show "r = Ready ()" using write_all_finishes [of data sched s] assms(1) by simp
qed

theorem write_all_whole_witness:
  "let s = connection_new \<lparr>a_guest_cid = 3, a_local_port = 9, a_peer_port = 5\<rparr> True;
       credit = (\<lambda>s. update_credit s 262144 (s_bytes_written s));
       w = write_all [(0, credit), (1, credit), (2, credit)] [1, 2, 3] s
   in concat (map (drop 44) (fst (snd (snd w)))) = [1, 2, 3] \<and> snd (snd (snd w)) = Ready ()"
proof -
  let ?s = "connection_new \<lparr>a_guest_cid = 3, a_local_port = 9, a_peer_port = 5\<rparr> True"
  let ?c = "\<lambda>s. update_credit s 262144 (s_bytes_written s)"
  obtain s' rs ps r where w: "write_all [(0 :: nat, ?c), (1, ?c), (2, ?c)] [1, 2, 3] ?s = (s', rs, ps, r)" by (rule prod_cases4)
  have "window_open (?c s)" if "\<not> s_closed s" for s
    using that by (simp add: window_open_def update_credit_def)
  then have op: "\<forall>e\<in>set [(0 :: nat, ?c), (1, ?c), (2, ?c)]. \<forall>s. \<not> s_closed s \<longrightarrow> window_open (snd e s)"
    by simp
  have addr: "\<forall>e\<in>set [(0 :: nat, ?c), (1, ?c), (2, ?c)]. \<forall>s. s_address (snd e s) = s_address s" by simp
  have len: "length [1, 2, 3 :: byte] \<le> length [(0 :: nat, ?c), (1, ?c), (2, ?c)]" "\<not> s_closed ?s"
    by (simp_all add: connection_new_def)
  note whole = write_all_whole [OF w addr]
  have fin: "r = Ready ()" using whole [THEN conjunct2, THEN conjunct2] len op by blast
  then have "concat (map (drop 44) ps) = [1, 2, 3]"
    using whole [THEN conjunct1] by (metis append.right_neutral)
  with fin show ?thesis by (simp only: Let_def w fst_conv snd_conv simp_thms)
qed

text \<open>C14: Reading is a stream: a reader that asks for \<open>len\<close> bytes while packets keep
  arriving gets exactly the next \<open>len\<close> bytes in the order they arrived, and what was not
  read stays queued; nothing is lost, repeated or reordered.\<close>

theorem read_exact_in_order:
  assumes "read_exact (arriving arrivals) len [] s = (s', rest, ps, Ready out)" and "\<not> s_closed s"
  shows "length out = len \<and> (\<exists>k\<le>length arrivals. rest = arriving (drop k arrivals) \<and>
    out @ s_incoming s' = s_incoming s @ payloads (take k arrivals))"
  using read_exact_in_order_aux [OF assms] by (simp add: read_outcome_def)

theorem read_exact_in_order_witness:
  "\<exists>s' ps rest k. read_exact (arriving [\<lparr>ar_time = 0, ar_buf_alloc = 4096, ar_fwd_cnt = 0, ar_payload = [7, 8]\<rparr>,
         \<lparr>ar_time = 1, ar_buf_alloc = 4096, ar_fwd_cnt = 0, ar_payload = [9]\<rparr>]) 3 []
       (connection_new \<lparr>a_guest_cid = 3, a_local_port = 9, a_peer_port = 5\<rparr> True) = (s', rest, ps, Ready [7, 8, 9])
     \<and> [7, 8, 9] @ s_incoming s' = take k [7, 8, 9]"
proof -
  let ?s = "connection_new \<lparr>a_guest_cid = 3, a_local_port = 9, a_peer_port = 5\<rparr> True"
  let ?arr = "[\<lparr>ar_time = 0, ar_buf_alloc = 4096, ar_fwd_cnt = 0, ar_payload = [7, 8]\<rparr>,
         \<lparr>ar_time = 1, ar_buf_alloc = 4096, ar_fwd_cnt = 0, ar_payload = [9]\<rparr>]"
  obtain s' rest ps where r: "read_exact (arriving ?arr) 3 [] ?s = (s', rest, ps, Ready [7, 8, 9])"
    by (simp add: read_def arrive_def enqueue_def update_credit_def connection_new_def Let_def)
  have "s_incoming s' = []"
    using r by (auto simp: read_def arrive_def enqueue_def update_credit_def connection_new_def Let_def)
  then have "[7, 8, 9] @ s_incoming s' = take 3 [7, 8, 9]"
    using read_exact_in_order [OF r] by (simp add: connection_new_def)
  then show ?thesis using r by blast
qed



text \<open>Opening a connection fails for want of a port only when all 16384 local ports are in
  use. Otherwise it takes a free port between 49152 and 65535, registers a new connection under
  it that is not yet connected, leaves every other registration alone and queues exactly one
  packet: the request to the guest's port.\<close>

theorem connect_start_port:
  assumes "vs_inv v" "\<not> vs_closed v" "connect_start v port = (v', r)"
  shows "(r = Inl NoPorts \<longleftrightarrow> (\<forall>p. dynamic p \<longrightarrow> map_of (vs_connections v) (Local p) \<noteq> None)) \<and>
    (r \<noteq> Inl NoPorts \<longrightarrow> (\<exists>p c. r = Inr c \<and> dynamic p \<and> map_of (vs_connections v) (Local p) = None \<and>
       map_of (vs_connections v') = (map_of (vs_connections v))(Local p \<mapsto> c) \<and>
       at_ref v' c = connection_new (vs_address v p port) False \<and>
       vs_packets v' = vs_packets v @ [packet (vs_address v p port) OP_REQUEST 0 [] 0]))"
proof -
  obtain np a where al: "allocate_port 16384 (vs_next_port v) (vs_connections v) = (np, a)" by fastforce
  have d: "dynamic (vs_next_port v)" using assms(1) by (simp add: vs_inv_def)
  show ?thesis
  proof (cases a)
    case None
    then have "r = Inl NoPorts" using assms(2,3) al by (simp add: connect_start_def)
    then show ?thesis using allocate_port_none [OF d al [unfolded None]] by blast
  next
    case (Some p)
    have p: "dynamic p" "map_of (vs_connections v) (Local p) = None"
      using allocate_port_cases(2) [OF d al Some] by simp_all
    let ?c = "length (vs_heap v)"
    have "r = Inr ?c" "map_of (vs_connections v') = (map_of (vs_connections v))(Local p \<mapsto> ?c)"
      "at_ref v' ?c = connection_new (vs_address v p port) False"
      "vs_packets v' = vs_packets v @ [packet (vs_address v p port) OP_REQUEST 0 [] 0]"
      using assms(2,3) al Some
      by (auto simp: connect_start_def register_def outbox_push_def at_ref_def send_def update_conv' Let_def
          vs_address_def)
    then show ?thesis using p by auto
  qed
qed

theorem connect_start_port_witness:
  "\<exists>v' p c. connect_start (vsock_new 3) 5 = (v', Inr c) \<and> dynamic p \<and>
     map_of (vs_connections v') = [Local p \<mapsto> c]"
proof -
  obtain v' r where s: "connect_start (vsock_new 3) 5 = (v', r)" by fastforce
  have free: "\<not> (\<forall>p. dynamic p \<longrightarrow> map_of (vs_connections (vsock_new 3)) (Local p) \<noteq> None)"
    by (auto simp: vsock_new_def dynamic_def intro: exI [of _ 50000])
  have "\<not> vs_closed (vsock_new 3)" "map_of (vs_connections (vsock_new 3)) = Map.empty"
    by (simp_all add: vsock_new_def)
  then show ?thesis
    using connect_start_port [OF vs_inv_new _ s] free s by auto
qed

text \<open>A request to a port nobody listens on is answered at once: exactly one reset packet
  goes back, from that port to the asking one, and nothing else changes. A request to a port
  with a listener, on a fresh pair of ports, is accepted: the connection is registered under that
  pair, connected and with the guest's window, the listener is given it, and one response goes
  back.\<close>

theorem request_answered:
  fixes v :: vsock
  assumes "h_op h = OP_REQUEST"
  defines "a \<equiv> vs_address v (h_dst_port h) (h_src_port h)"
  defines "k \<equiv> Pair (h_dst_port h) (h_src_port h)"
  shows "(h_dst_port h \<notin> set (vs_listeners v) \<longrightarrow>
      handle v h payload = v\<lparr>vs_packets := vs_packets v @ [packet a OP_RST 0 [] 0]\<rparr>) \<and>
    (h_dst_port h \<in> set (vs_listeners v) \<longrightarrow> \<not> vs_closed v \<longrightarrow> map_of (vs_connections v) k = None \<longrightarrow>
      (let v' = handle v h payload; c = length (vs_heap v) in
       map_of (vs_connections v') = (map_of (vs_connections v))(k \<mapsto> c) \<and>
       s_connected (at_ref v' c) \<and> s_address (at_ref v' c) = a \<and>
       s_peer_buf_alloc (at_ref v' c) = h_buf_alloc h \<and> s_peer_fwd_cnt (at_ref v' c) = h_fwd_cnt h \<and>
       vs_accepted v' = vs_accepted v @ [(h_dst_port h, c)] \<and>
       vs_packets v' = vs_packets v @ [packet a OP_RESPONSE 0 [] 0]))"
  using assms(1)
  by (simp add: handle_def accept_def a_def k_def outbox_push_def register_def at_ref_def send_def update_conv'
      Let_def update_credit_def connection_new_def)

theorem request_answered_witness:
  "vs_packets (handle (vsock_new 3) \<lparr>h_src_port = 1000, h_dst_port = 80, h_len = 0, h_op = 1,
      h_buf_alloc = 4096, h_fwd_cnt = 0\<rparr> []) =
     [packet \<lparr>a_guest_cid = 3, a_local_port = 80, a_peer_port = 1000\<rparr> OP_RST 0 [] 0]"
  using request_answered [of "\<lparr>h_src_port = 1000, h_dst_port = 80, h_len = 0, h_op = 1,
      h_buf_alloc = 4096, h_fwd_cnt = 0\<rparr>" "vsock_new 3" "[]"]
  by (simp add: vsock_new_def vs_address_def)

text \<open>A reset ends everything the old driver had: no connection stays registered, no packet
  stays queued, every connection that was registered is closed and says why unless it already had a
  reason, and no other connection is touched.\<close>

theorem reset_closes_all:
  assumes "vs_inv v"
  shows "vs_connections (vs_reset v reason) = [] \<and> vs_packets (vs_reset v reason) = [] \<and>
    length (vs_heap (vs_reset v reason)) = length (vs_heap v) \<and>
    (\<forall>r<length (vs_heap v). at_ref (vs_reset v reason) r =
       (if \<exists>k. map_of (vs_connections v) k = Some r
        then (at_ref v r)\<lparr>s_closed := True, s_error := (case s_error (at_ref v r) of None \<Rightarrow> Some reason | Some e \<Rightarrow> Some e)\<rparr>
        else at_ref v r))"
proof -
  have d: "distinct (map fst (vs_connections v))" "distinct (map snd (vs_connections v))"
    using assms by (simp_all add: vs_inv_def)
  have "r \<in> snd ` set (vs_connections v) \<longleftrightarrow> (\<exists>k. map_of (vs_connections v) k = Some r)" for r
    using d(1) by (force simp: map_of_eq_Some_iff)
  then show ?thesis
    using close_all_nth [OF d(2)]
    by (auto simp: vs_reset_def at_ref_def close_from_peer_def split: option.splits)
qed

theorem reset_closes_all_witness:
  "let v = fst (connect_start (vsock_new 3) 5) in vs_inv v \<and> vs_packets (vs_reset v ''gone'') = []"
  using reset_closes_all [OF vs_inv_connect_start [OF vs_inv_new], of 3 5 "''gone''"]
    vs_inv_connect_start [OF vs_inv_new, of 3 5] by (simp add: Let_def)

text \<open>Whatever the guest put into its rings, both directions of the device end: a kick of any
  queue and a delivery both return in a memory of the same size with well-formed queues and a
  sound registry.\<close>

theorem vsock_device_ends:
  assumes "vs_inv v" "queue_ok m q" "queues_ok m qs"
    and "vsock_notify v i q m = ((v1, q1, m1), r1)" "vsock_poll v qs m = ((v2, qs2, m2), r2)"
  shows "r1 \<noteq> Inl OutOfFuel \<and> vs_inv v1 \<and> length m1 = length m \<and> queue_ok m1 q1 \<and>
    r2 \<noteq> Inl OutOfFuel \<and> vs_inv v2 \<and> length m2 = length m \<and> queues_ok m2 qs2"
  using vsock_notify_ends [OF assms(2), of v i] vsock_poll_ends [OF assms(3), of v]
    vs_dev.notify_keeps [OF assms(1,2), of i] vs_dev.poll_keeps [OF assms(1,3)] assms(4,5)
  by (simp add: vsock_ops_def)

theorem vsock_device_ends_witness:
  "queue_ok sample_mem sample_queue \<and> snd (vsock_notify (vsock_new 3) 1 sample_queue sample_mem) \<noteq> Inl OutOfFuel \<and>
   snd (vsock_poll (vsock_new 3) [Some sample_queue] sample_mem) \<noteq> Inl OutOfFuel"
proof -
  have qs: "queues_ok sample_mem [Some sample_queue]" using sample_ok by (simp add: queues_ok_def)
  obtain v1 q1 m1 r1 where n: "vsock_notify (vsock_new 3) 1 sample_queue sample_mem = ((v1, q1, m1), r1)"
    by (metis prod.exhaust)
  obtain v2 q2 m2 r2 where p: "vsock_poll (vsock_new 3) [Some sample_queue] sample_mem = ((v2, q2, m2), r2)"
    by (metis prod.exhaust)
  show ?thesis using vsock_device_ends [OF vs_inv_new sample_ok qs n p] n p sample_ok by simp
qed

text \<open>A packet reaches the guest intact: put into a request whose writable buffers lie apart
  in the guest's memory and are large enough, the first packet of the outbox is found there byte
  for byte, is taken off the outbox, and the completion announces its length. When the buffers
  are too small the delivery fails.\<close>

theorem rx_packet_intact:
  assumes "buffers_ok m (c_buffers c)" "vs_packets v = p # ps" "rx_chain v m c = ((v', m'), r)"
  shows "vs_packets v' = ps \<and>
    (length p \<le> capacity (c_buffers c) \<longrightarrow>
       take (length p) (read_back m' (c_buffers c)) = p \<and> r = Inr (word_of_nat (length p))) \<and>
    (capacity (c_buffers c) < length p \<longrightarrow> r = Inl (DeviceError ''vsock rx buffer too small''))"
  using assms(2,3) rx_fill_place [OF assms(1), of 0 p] place_read_back [OF assms(1), of p]
  by (auto simp: rx_chain_def)

theorem rx_packet_intact_witness:
  "let v = vsock_new 3\<lparr>vs_packets := [[1, 2, 3]]\<rparr>
   in take 3 (read_back (snd (fst (rx_chain v sample_mem sample_chain))) (c_buffers sample_chain)) = [1, 2, 3]"
proof -
  let ?v = "vsock_new 3\<lparr>vs_packets := [[1, 2, 3]]\<rparr>"
  obtain v' m' r where d: "rx_chain ?v sample_mem sample_chain = ((v', m'), r)"
    by (metis prod.exhaust)
  have "buffers_ok sample_mem (c_buffers sample_chain)"
    by (simp add: sample_chain_def inside_def b_at_def b_len_def apart_def sample_mem_def)
  moreover have "length [1, 2, 3 :: byte] \<le> capacity (c_buffers sample_chain)"
    by (simp add: sample_chain_def b_len_def)
  ultimately show ?thesis using rx_packet_intact [OF _ _ d, of "[1, 2, 3]" "[]"] d by (simp add: numeral_3_eq_3)
qed

end
