(* ===== verification/Streams.thy ===== *)
theory Streams
  imports Vsock
begin

text \<open>
  The byte stream the guest-facing services (\<open>agent.rs\<close>, \<open>http.rs\<close>) work
  on: the methods of \<open>VsockStream\<close> as they call them, the laws they rely on, and the
  vsock stream as the provider of those laws.
\<close>

subsection \<open>A stream of the host\<close>

record 's stream_ops =
  st_read :: "'s \<Rightarrow> nat \<Rightarrow> 's \<times> bytes attempt"
  st_read_exact :: "'s \<Rightarrow> nat \<Rightarrow> 's \<times> bytes attempt"
  st_write_all :: "'s \<Rightarrow> bytes \<Rightarrow> 's \<times> unit attempt"
  st_set_deadline :: "'s \<Rightarrow> nat option \<Rightarrow> 's"
  st_now :: "'s \<Rightarrow> nat"
  st_close :: "'s \<Rightarrow> 's"

record vstream =
  vt_conn :: connection
  vt_arrivals :: "arrival list"
  vt_sent :: "bytes list"

fun read_wait :: "schedule \<Rightarrow> nat \<Rightarrow> connection \<Rightarrow> connection \<times> schedule \<times> bytes list \<times> bytes attempt" where
  "read_wait [] room s = (s, [], [], Waiting)"
| "read_wait ((now, others) # rest) room s =
     (case read now room (others s) of
        (s1, ps, Waiting) \<Rightarrow> (case read_wait rest room s1 of (s2, rest2, qs, r) \<Rightarrow> (s2, rest2, ps @ qs, r))
      | (s1, ps, r) \<Rightarrow> (s1, rest, ps, r))"

definition vt_update :: "vstream \<Rightarrow> connection \<times> schedule \<times> bytes list \<times> 'a attempt \<Rightarrow> vstream \<times> 'a attempt" where
  "vt_update st res = (case res of (s, rest, ps, r) \<Rightarrow>
     (\<lparr>vt_conn = s, vt_arrivals = drop (length (vt_arrivals st) - length rest) (vt_arrivals st),
       vt_sent = vt_sent st @ ps\<rparr>, r))"

definition vsock_stream :: "vstream stream_ops" where
  "vsock_stream =
     \<lparr>st_read = (\<lambda>st room. vt_update st (read_wait (arriving (vt_arrivals st)) room (vt_conn st))),
      st_read_exact = (\<lambda>st len. vt_update st (read_exact (arriving (vt_arrivals st)) len [] (vt_conn st))),
      st_write_all = (\<lambda>st data. vt_update st (write_all (arriving (vt_arrivals st)) data (vt_conn st))),
      st_set_deadline = (\<lambda>st d. st\<lparr>vt_conn := set_deadline (vt_conn st) d\<rparr>),
      st_now = (\<lambda>st. case vt_arrivals st of [] \<Rightarrow> 0 | e # _ \<Rightarrow> ar_time e),
      st_close = (\<lambda>st. case close (vt_conn st) of (s, ps) \<Rightarrow> st\<lparr>vt_conn := s, vt_sent := vt_sent st @ ps\<rparr>)\<rparr>"

subsection \<open>What a client relies on\<close>

text \<open>
  \<open>coming\<close> is everything the peer will send, \<open>sent\<close> everything it was sent: a
  read takes a prefix of the one, a write appends to the other, and neither touches the other
  side.
\<close>

locale byte_stream =
  fixes ops :: "'s stream_ops" and coming sent :: "'s \<Rightarrow> bytes" and live :: "'s \<Rightarrow> bool"
  assumes read_takes: "\<lbrakk>live s; st_read ops s room = (s', Ready part)\<rbrakk> \<Longrightarrow>
      live s' \<and> coming s = part @ coming s' \<and> length part \<le> room \<and> (0 < room \<longrightarrow> part \<noteq> []) \<and> sent s' = sent s"
    and exact_takes: "\<lbrakk>live s; st_read_exact ops s len = (s', Ready out)\<rbrakk> \<Longrightarrow>
      live s' \<and> coming s = out @ coming s' \<and> length out = len \<and> sent s' = sent s"
    and exact_fails: "\<lbrakk>live s; st_read_exact ops s len = (s', Failed e)\<rbrakk> \<Longrightarrow>
      live s' \<and> length (coming s') \<le> length (coming s)"
    and write_sends: "\<lbrakk>live s; st_write_all ops s data = (s', Ready ())\<rbrakk> \<Longrightarrow>
      live s' \<and> coming s' = coming s \<and> sent s' = sent s @ data"
    and deadline_keeps: "live s \<Longrightarrow> live (st_set_deadline ops s d) \<and>
      coming (st_set_deadline ops s d) = coming s \<and> sent (st_set_deadline ops s d) = sent s"

subsection \<open>The vsock stream provides it\<close>

definition vt_coming :: "vstream \<Rightarrow> bytes" where
  "vt_coming st = s_incoming (vt_conn st) @ payloads (vt_arrivals st)"

definition data_of :: "bytes \<Rightarrow> bytes" where
  "data_of p = (if le16_at 30 p = OP_RW then drop HEADER_SIZE p else [])"

definition vt_data :: "vstream \<Rightarrow> bytes" where
  "vt_data st = concat (map data_of (vt_sent st))"

definition vt_live :: "vstream \<Rightarrow> bool" where
  "vt_live st \<longleftrightarrow> \<not> s_closed (vt_conn st)"

lemma data_of_send [simp]: "data_of (send s op flags payload f) = (if op = OP_RW then payload else [])"
proof -
  have "le16_at 30 (packet (s_address s) op flags payload f) = op"
    by (simp add: packet_def le16_at_def codec_simps)
  then show ?thesis by (simp add: data_of_def send_def packet_payload)
qed

lemma read_packets: "read now room s = (s', ps, r) \<Longrightarrow> concat (map data_of ps) = []"
  by (auto simp: read_def Let_def split: if_splits option.splits)

lemma read_closed: "read now room s = (s', ps, r) \<Longrightarrow> s_closed s' = s_closed s"
  by (auto simp: read_def Let_def split: if_splits option.splits)

lemma read_exact_packets:
  "read_exact sched len acc s = (s', rest, ps, r) \<Longrightarrow> concat (map data_of ps) = []"
proof (induction sched len acc s arbitrary: s' rest ps r rule: read_exact.induct)
  case (2 now others rest len acc s)
  obtain s1 qs a where rd: "read now (min (len - length acc) (min len (64 * 1024))) (others s) = (s1, qs, a)"
    by (metis prod.exhaust)
  have q: "concat (map data_of qs) = []" using read_packets [OF rd] .
  show ?case
    using "2.prems" "2.IH"(1) [OF _ rd [symmetric] refl] "2.IH"(2) [OF _ rd [symmetric] refl] rd q
    by (cases a) (auto split: if_splits prod.splits)
qed simp

lemma read_exact_closed:
  "read_exact (arriving arrivals) len acc s = (s', rest, ps, r) \<Longrightarrow> s_closed s' = s_closed s"
proof (induction arrivals arbitrary: acc s ps rest)
  case Nil
  then show ?case by simp
next
  case (Cons e arrivals)
  obtain s1 qs a where rd: "read (ar_time e) (min (len - length acc) (min len (64 * 1024))) (arrive e s) = (s1, qs, a)"
    by (metis prod.exhaust)
  have "s_closed s1 = s_closed s" using read_closed [OF rd] by simp
  then show ?case
    using Cons.prems Cons.IH [of _ s1] rd
    by (cases a) (auto split: if_splits prod.splits)
qed

lemma read_rest: "read now room s = (s', ps, r) \<Longrightarrow> \<exists>part. s_incoming s = part @ s_incoming s'"
  by (metis attempt.exhaust read_not_ready(1) attempt.distinct(1,3) read_ready(1) append_Nil)

lemma read_exact_rest:
  "read_exact (arriving arrivals) len acc s = (s', rest, ps, r) \<Longrightarrow>
   \<exists>k\<le>length arrivals. rest = arriving (drop k arrivals) \<and>
     length (s_incoming s') \<le> length (s_incoming s) + length (payloads (take k arrivals))"
proof (induction arrivals arbitrary: acc s ps)
  case Nil
  then show ?case by simp
next
  case (Cons e arrivals)
  show ?case
  proof (cases "length acc < len")
    case False
    then show ?thesis using Cons.prems by (auto intro!: exI [of _ 0])
  next
    case True
    obtain s1 qs a where rd: "read (ar_time e) (min (len - length acc) (min len (64 * 1024))) (arrive e s) = (s1, qs, a)"
      by (metis prod.exhaust)
    have l1: "length (s_incoming s1) \<le> length (s_incoming s) + length (ar_payload e)"
      using read_rest [OF rd] by (metis arrive_simps(1) le_add2 length_append)
    consider "s' = s1" "rest = arriving arrivals"
      | acc' ps' where "read_exact (arriving arrivals) len acc' s1 = (s', rest, ps', r)"
      using Cons.prems True rd by (cases a) (auto split: if_splits prod.splits)
    then show ?thesis
    proof cases
      case 1
      then show ?thesis using l1 by (intro exI [of _ 1]) simp
    next
      case (2 acc' ps')
      from Cons.IH [OF this] obtain k where "k \<le> length arrivals" "rest = arriving (drop k arrivals)"
        "length (s_incoming s') \<le> length (s_incoming s1) + length (payloads (take k arrivals))" by blast
      then show ?thesis using l1 by (intro exI [of _ "Suc k"]) simp
    qed
  qed
qed

lemma read_wait_takes:
  "\<lbrakk>read_wait (arriving arrivals) room s = (s', rest, ps, Ready part); \<not> s_closed s\<rbrakk> \<Longrightarrow>
   \<not> s_closed s' \<and> concat (map data_of ps) = [] \<and> length part \<le> room \<and> (0 < room \<longrightarrow> part \<noteq> []) \<and>
   (\<exists>k\<le>length arrivals. rest = arriving (drop k arrivals) \<and>
     part @ s_incoming s' = s_incoming s @ payloads (take k arrivals))"
proof (induction arrivals arbitrary: s ps)
  case Nil
  then show ?case by simp
next
  case (Cons e arrivals)
  obtain s1 qs a where rd: "read (ar_time e) room (arrive e s) = (s1, qs, a)" by (metis prod.exhaust)
  have s1: "\<not> s_closed s1" using read_closed [OF rd] Cons.prems(2) by simp
  show ?case
  proof (cases a)
    case (Ready p)
    then have eq: "s' = s1" "rest = arriving arrivals" "ps = qs" "part = p"
      using Cons.prems(1) rd by simp_all
    have "room > 0 \<longrightarrow> part \<noteq> []"
      using read_progress [OF rd [unfolded Ready]] Cons.prems(2) eq(4) by auto
    then show ?thesis
      using read_ready [OF rd [unfolded Ready]] read_packets [OF rd] s1 eq by (intro conjI exI [of _ 1]) simp_all
  next
    case (Failed x)
    then show ?thesis using Cons.prems(1) rd by simp
  next
    case Waiting
    then have s1e: "s1 = arrive e s" "qs = []" using read_not_ready [OF rd] by simp_all
    have "read_wait (arriving arrivals) room s1 = (s', rest, ps, Ready part)"
      using Cons.prems(1) rd Waiting s1e(2) by (auto split: prod.splits)
    from Cons.IH [OF this s1] obtain k where "k \<le> length arrivals" "rest = arriving (drop k arrivals)"
        "part @ s_incoming s' = s_incoming s1 @ payloads (take k arrivals)"
        "\<not> s_closed s' \<and> concat (map data_of ps) = [] \<and> length part \<le> room \<and> (0 < room \<longrightarrow> part \<noteq> [])" by auto
    then show ?thesis
      using s1e(1) by (auto intro!: exI [of _ "Suc k"])
  qed
qed

lemma write_all_keeps:
  "write_all (arriving arrivals) data s = (s', rest, ps, Ready ()) \<Longrightarrow> \<not> s_closed s \<Longrightarrow>
   \<not> s_closed s' \<and> concat (map data_of ps) = data \<and>
   (\<exists>k\<le>length arrivals. rest = arriving (drop k arrivals) \<and> s_incoming s' = s_incoming s @ payloads (take k arrivals))"
proof (induction arrivals arbitrary: data s ps)
  case Nil
  then show ?case by (auto split: if_splits)
next
  case (Cons e arrivals)
  show ?case
  proof (cases "data = []")
    case True
    then show ?thesis using Cons.prems by (auto intro!: exI [of _ 0])
  next
    case False
    obtain s1 a where w: "write_chunk data (arrive e s) = (s1, a)" by fastforce
    have s1: "\<not> s_closed s1" "s_incoming s1 = s_incoming s @ ar_payload e"
      using w Cons.prems(2) by (auto simp: write_chunk_def Let_def split: if_splits)
    show ?thesis
    proof (cases a)
      case (Ready tk)
      obtain qs where qs: "write_all (arriving arrivals) (drop tk data) s1 = (s', rest, qs, Ready ())"
        "ps = send s1 OP_RW 0 (take tk data) (s_bytes_read s1) # qs"
        using Cons.prems(1) False w Ready by (auto split: prod.splits)
      from Cons.IH [OF qs(1) s1(1)] obtain k where "k \<le> length arrivals" "rest = arriving (drop k arrivals)"
        "s_incoming s' = s_incoming s1 @ payloads (take k arrivals)" by auto
      then show ?thesis
        using Cons.IH [OF qs(1) s1(1)] qs(2) s1(2) by (auto intro!: exI [of _ "Suc k"])
    next
      case (Failed x)
      then show ?thesis using Cons.prems(1) False w by simp
    next
      case Waiting
      then have "write_all (arriving arrivals) data s1 = (s', rest, ps, Ready ())"
        using Cons.prems(1) False w by simp
      from Cons.IH [OF this s1(1)] obtain k where "k \<le> length arrivals" "rest = arriving (drop k arrivals)"
        "s_incoming s' = s_incoming s1 @ payloads (take k arrivals)"
        "\<not> s_closed s' \<and> concat (map data_of ps) = data" by auto
      then show ?thesis using s1(2) by (auto intro!: exI [of _ "Suc k"])
    qed
  qed
qed

lemma payloads_split: "payloads (take k arrivals) @ payloads (drop k arrivals) = payloads arrivals"
  by (simp add: payloads_def flip: concat_append map_append)

interpretation vs_stream: byte_stream vsock_stream vt_coming vt_data vt_live
proof unfold_locales
  fix s :: vstream and room s' part
  assume l: "vt_live s" and r: "st_read vsock_stream s room = (s', Ready part)"
  obtain c rest ps where w: "read_wait (arriving (vt_arrivals s)) room (vt_conn s) = (c, rest, ps, Ready part)"
    and s': "s' = \<lparr>vt_conn = c, vt_arrivals = drop (length (vt_arrivals s) - length rest) (vt_arrivals s), vt_sent = vt_sent s @ ps\<rparr>"
    using r by (auto simp: vsock_stream_def vt_update_def split: prod.splits)
  have "\<not> s_closed (vt_conn s)" using l by (simp add: vt_live_def)
  from read_wait_takes [OF w this] obtain k where k: "\<not> s_closed c" "concat (map data_of ps) = []" "length part \<le> room"
    "0 < room \<longrightarrow> part \<noteq> []" "k \<le> length (vt_arrivals s)" "rest = arriving (drop k (vt_arrivals s))"
    "part @ s_incoming c = s_incoming (vt_conn s) @ payloads (take k (vt_arrivals s))"
    by auto
  have "vt_coming s = part @ vt_coming s'"
    using k(5-7) payloads_split [of k "vt_arrivals s"] by (simp add: vt_coming_def s' flip: append.assoc)
  then show "vt_live s' \<and> vt_coming s = part @ vt_coming s' \<and> length part \<le> room \<and> (0 < room \<longrightarrow> part \<noteq> []) \<and> vt_data s' = vt_data s"
    using k by (simp add: vt_live_def vt_data_def s')
next
  fix s :: vstream and len s' out
  assume l: "vt_live s" and r: "st_read_exact vsock_stream s len = (s', Ready out)"
  obtain c rest ps where w: "read_exact (arriving (vt_arrivals s)) len [] (vt_conn s) = (c, rest, ps, Ready out)"
    and s': "s' = \<lparr>vt_conn = c, vt_arrivals = drop (length (vt_arrivals s) - length rest) (vt_arrivals s), vt_sent = vt_sent s @ ps\<rparr>"
    using r by (auto simp: vsock_stream_def vt_update_def split: prod.splits)
  have cl: "\<not> s_closed (vt_conn s)" using l by (simp add: vt_live_def)
  obtain k where k: "k \<le> length (vt_arrivals s)" "rest = arriving (drop k (vt_arrivals s))" "length out = len"
    "out @ s_incoming c = s_incoming (vt_conn s) @ payloads (take k (vt_arrivals s))"
    using read_exact_in_order_aux [OF w cl] by (auto simp: read_outcome_def)
  have "vt_coming s = out @ vt_coming s'"
    using k payloads_split [of k "vt_arrivals s"] by (simp add: vt_coming_def s' flip: append.assoc)
  then show "vt_live s' \<and> vt_coming s = out @ vt_coming s' \<and> length out = len \<and> vt_data s' = vt_data s"
    using k(3) read_exact_closed [OF w] read_exact_packets [OF w] cl by (simp add: vt_live_def vt_data_def s')
next
  fix s :: vstream and len s' e
  assume l: "vt_live s" and r: "st_read_exact vsock_stream s len = (s', Failed e)"
  obtain c rest ps where w: "read_exact (arriving (vt_arrivals s)) len [] (vt_conn s) = (c, rest, ps, Failed e)"
    and s': "s' = \<lparr>vt_conn = c, vt_arrivals = drop (length (vt_arrivals s) - length rest) (vt_arrivals s), vt_sent = vt_sent s @ ps\<rparr>"
    using r by (auto simp: vsock_stream_def vt_update_def split: prod.splits)
  obtain k where k: "k \<le> length (vt_arrivals s)" "rest = arriving (drop k (vt_arrivals s))"
    "length (s_incoming c) \<le> length (s_incoming (vt_conn s)) + length (payloads (take k (vt_arrivals s)))"
    using read_exact_rest [OF w] by blast
  have "length (vt_coming s') \<le> length (vt_coming s)"
    using k arg_cong [OF payloads_split [of k "vt_arrivals s"], of length] by (simp add: vt_coming_def s')
  then show "vt_live s' \<and> length (vt_coming s') \<le> length (vt_coming s)"
    using read_exact_closed [OF w] l by (simp add: vt_live_def s')
next
  fix s :: vstream and data s'
  assume l: "vt_live s" and r: "st_write_all vsock_stream s data = (s', Ready ())"
  obtain c rest ps where w: "write_all (arriving (vt_arrivals s)) data (vt_conn s) = (c, rest, ps, Ready ())"
    and s': "s' = \<lparr>vt_conn = c, vt_arrivals = drop (length (vt_arrivals s) - length rest) (vt_arrivals s), vt_sent = vt_sent s @ ps\<rparr>"
    using r by (auto simp: vsock_stream_def vt_update_def split: prod.splits)
  have "\<not> s_closed (vt_conn s)" using l by (simp add: vt_live_def)
  from write_all_keeps [OF w this] obtain k where k: "\<not> s_closed c" "concat (map data_of ps) = data"
    "k \<le> length (vt_arrivals s)" "rest = arriving (drop k (vt_arrivals s))"
    "s_incoming c = s_incoming (vt_conn s) @ payloads (take k (vt_arrivals s))"
    by auto
  have "vt_coming s' = vt_coming s"
    using k(3-5) payloads_split [of k "vt_arrivals s"] by (simp add: vt_coming_def s')
  then show "vt_live s' \<and> vt_coming s' = vt_coming s \<and> vt_data s' = vt_data s @ data"
    using k(1,2) by (simp add: vt_live_def vt_data_def s')
next
  fix s :: vstream and d
  assume "vt_live s"
  then show "vt_live (st_set_deadline vsock_stream s d) \<and> vt_coming (st_set_deadline vsock_stream s d) = vt_coming s \<and>
      vt_data (st_set_deadline vsock_stream s d) = vt_data s"
    by (simp add: vsock_stream_def vt_live_def vt_coming_def vt_data_def set_deadline_def)
qed

end
