(* ===== verification/Agent.thy ===== *)
theory Agent
  imports Streams
begin

text \<open>
  The host side of the guest's agent, \<open>engine/src/agent.rs\<close>: one command over one stream,
  sent as frames, its output read back as frames until the exit frame. The stream is the
  interface \<open>stream_ops\<close>; a read that would block for ever is a run that is still waiting.
\<close>

abbreviation AGENT_PORT :: u32 where "AGENT_PORT \<equiv> 1024"

record command =
  cmd_argv :: "bytes list"
  cmd_env :: "(bytes \<times> bytes) list"
  cmd_cwd :: "bytes option"
  cmd_stdin :: bytes

datatype exit = Code u32 | Signal u32

definition exit_status :: "exit \<Rightarrow> u32" where
  "exit_status e = (case e of Code code \<Rightarrow> code | Signal sig \<Rightarrow> 128 + sig)"

definition byte_of :: "char \<Rightarrow> byte" where
  "byte_of c = of_char c"

definition frame :: "byte \<Rightarrow> bytes \<Rightarrow> bytes" where
  "frame kind payload = [kind] @ u32_le (word_of_nat (length payload)) @ payload"

subsection \<open>Connecting\<close>

fun agent_connect :: "(nat \<times> nat \<times> (nat \<times> (vsock \<Rightarrow> vsock)) list) list \<Rightarrow> nat \<Rightarrow> connect_error option \<Rightarrow> vsock
    \<Rightarrow> vsock \<times> (connect_error option + nat) option" where
  "agent_connect [] deadline last_error v = (v, None)"
| "agent_connect ((now, start, sched) # tries) deadline last_error v =
     (if now < deadline then
        case Vsock.connect sched start v AGENT_PORT 500 of
          (v1, Some (Inr r)) \<Rightarrow> (v1, Some (Inr r))
        | (v1, Some (Inl e)) \<Rightarrow> agent_connect tries deadline (Some e) v1
        | (v1, None) \<Rightarrow> (v1, None)
      else (v, Some (Inl last_error)))"

subsection \<open>Running a command\<close>

definition request_frames :: "command \<Rightarrow> bytes list" where
  "request_frames cmd =
     map (\<lambda>a. frame (byte_of CHR ''A'') a) (cmd_argv cmd) @
     map (\<lambda>(name, v). frame (byte_of CHR ''E'') (name @ [byte_of CHR ''=''] @ v)) (cmd_env cmd) @
     (case cmd_cwd cmd of None \<Rightarrow> [] | Some cwd \<Rightarrow> [frame (byte_of CHR ''C'') cwd]) @
     [frame (byte_of CHR ''S'') []] @
     map (\<lambda>chunk. frame (byte_of CHR ''I'') chunk) (chunks (32 * 1024) (cmd_stdin cmd)) @
     [frame (byte_of CHR ''I'') []]"

primrec write_frames :: "'s stream_ops \<Rightarrow> bytes list \<Rightarrow> 's \<Rightarrow> 's \<times> unit attempt" where
  "write_frames ops [] s = (s, Ready ())"
| "write_frames ops (f # fs) s =
     (case st_write_all ops s f of
        (s1, Ready _) \<Rightarrow> write_frames ops fs s1
      | (s1, r) \<Rightarrow> (s1, r))"

datatype agent_error =
    NoProgram
  | StreamFailed stream_error
  | ClosedEarly
  | ClosedMidFrame
  | CommandFailed bytes
  | UnknownFrame byte

datatype 'a agent_result = Finished 'a | AgentFailed agent_error | StillWaiting | NoFuel

definition exit_of :: "bytes \<Rightarrow> exit" where
  "exit_of payload =
     (let status = (if 4 \<le> length payload then le32_at 0 payload else 0)
      in if sint status < 0 then Signal (- status) else Code status)"

fun run_loop :: "nat \<Rightarrow> 's stream_ops \<Rightarrow> bool \<Rightarrow> (byte \<times> bytes) list \<Rightarrow> 's
    \<Rightarrow> 's \<times> (byte \<times> bytes) list \<times> (exit \<times> bool) agent_result" where
  "run_loop 0 ops killed out s = (s, out, NoFuel)"
| "run_loop (Suc fuel) ops killed out s =
     (case st_read_exact ops s 5 of
        (s1, Waiting) \<Rightarrow> (s1, out, StillWaiting)
      | (s1, Failed e) \<Rightarrow>
          if e = ReadTimeout \<and> \<not> killed then
            let s2 = st_set_deadline ops s1 (Some (st_now ops s1 + 5000)) in
            (case st_write_all ops s2 (frame (byte_of CHR ''K'') (u32_le 9)) of
               (s3, Ready _) \<Rightarrow> run_loop fuel ops True out s3
             | (s3, Failed e) \<Rightarrow> (s3, out, AgentFailed (StreamFailed e))
             | (s3, Waiting) \<Rightarrow> (s3, out, StillWaiting))
          else (s1, out, AgentFailed (StreamFailed e))
      | (s1, Ready header) \<Rightarrow>
          if length header < 5 then (s1, out, AgentFailed ClosedEarly)
          else
            let len = unat (le32_at 1 header) in
            (case st_read_exact ops s1 len of
               (s2, Waiting) \<Rightarrow> (s2, out, StillWaiting)
             | (s2, Failed e) \<Rightarrow> (s2, out, AgentFailed (StreamFailed e))
             | (s2, Ready payload) \<Rightarrow>
                 if length payload < len then (s2, out, AgentFailed ClosedMidFrame)
                 else if header ! 0 = byte_of CHR ''1'' \<or> header ! 0 = byte_of CHR ''2'' then
                   run_loop fuel ops killed (out @ [(header ! 0, payload)]) s2
                 else if header ! 0 = byte_of CHR ''X'' then (s2, out, Finished (exit_of payload, killed))
                 else if header ! 0 = byte_of CHR ''F'' then (s2, out, AgentFailed (CommandFailed payload))
                 else (s2, out, AgentFailed (UnknownFrame (header ! 0)))))"

definition run :: "nat \<Rightarrow> 's stream_ops \<Rightarrow> command \<Rightarrow> nat option \<Rightarrow> 's
    \<Rightarrow> 's \<times> (byte \<times> bytes) list \<times> (exit \<times> bool) agent_result" where
  "run fuel ops cmd timeout s =
     (if cmd_argv cmd = [] then (s, [], AgentFailed NoProgram)
      else case write_frames ops (request_frames cmd) s of
          (s1, Failed e) \<Rightarrow> (s1, [], AgentFailed (StreamFailed e))
        | (s1, Waiting) \<Rightarrow> (s1, [], StillWaiting)
        | (s1, Ready _) \<Rightarrow>
            run_loop fuel ops False []
              (st_set_deadline ops s1 (map_option (\<lambda>t. st_now ops s1 + t) timeout)))"

declare run_loop.simps(2) [simp del]

subsection \<open>The run over any stream\<close>

lemma frame_inverse:
  assumes "length header = 5" "length payload = unat (le32_at 1 header)"
  shows "frame (header ! 0) payload = header @ payload"
proof -
  obtain k rest where h: "header = k # rest" "length rest = 4"
    using assms(1) by (cases header) auto
  have "u32_le (word_of_nat (length payload)) = to_le 4 (unat (le32_at 1 header))"
    using assms(2) by (simp add: u32_le_def)
  also have "unat (le32_at 1 header) = from_le rest"
    using from_le_bound [of rest] h by (simp add: le32_at_def bslice_def unat_of_nat)
  finally show ?thesis using h to_le_from_le [of rest 4] by (simp add: frame_def)
qed

lemma run_loop_killed: "run_loop fuel ops True out s = (s', out', Finished (e, k)) \<Longrightarrow> k"
proof (induction fuel arbitrary: out s)
  case 0
  then show ?case by simp
next
  case (Suc fuel)
  then show ?case
    by (auto simp: run_loop.simps(2) Let_def split: prod.splits attempt.splits if_splits)
qed

text \<open>One round of the loop that does not end it without the kill: an output frame was read.\<close>

lemma run_loop_round:
  assumes "run_loop (Suc fuel) ops False out s = (s', out', Finished (e, False))"
  obtains header s1 payload s2 where "st_read_exact ops s 5 = (s1, Ready header)" "\<not> length header < 5"
      "st_read_exact ops s1 (unat (le32_at 1 header)) = (s2, Ready payload)" "\<not> length payload < unat (le32_at 1 header)"
      "header ! 0 = byte_of CHR ''X'' \<and> s' = s2 \<and> out' = out \<and> e = exit_of payload \<or>
       (header ! 0 = byte_of CHR ''1'' \<or> header ! 0 = byte_of CHR ''2'') \<and>
       run_loop fuel ops False (out @ [(header ! 0, payload)]) s2 = (s', out', Finished (e, False))"
  using assms
  by (auto simp: run_loop.simps(2) Let_def split: prod.splits attempt.splits if_splits dest: run_loop_killed)

context byte_stream
begin

lemma write_frames_sends:
  "\<lbrakk>live s; write_frames ops fs s = (s', Ready ())\<rbrakk> \<Longrightarrow>
   live s' \<and> coming s' = coming s \<and> sent s' = sent s @ concat fs"
proof (induction fs arbitrary: s)
  case Nil
  then show ?case by simp
next
  case (Cons f fs)
  obtain s1 r where w: "st_write_all ops s f = (s1, r)" by fastforce
  then have "r = Ready ()" using Cons.prems(2) by (cases r) auto
  then show ?case
    using Cons.IH [of s1] Cons.prems write_sends [OF Cons.prems(1)] w by auto
qed

lemma run_loop_frames:
  "\<lbrakk>live s; run_loop fuel ops False out s = (s', out', Finished (e, False))\<rbrakk> \<Longrightarrow>
   \<exists>outs payload. out' = out @ outs \<and> (\<forall>(k, p)\<in>set outs. k = byte_of CHR ''1'' \<or> k = byte_of CHR ''2'') \<and>
     coming s = concat (map (\<lambda>(k, p). frame k p) outs) @ frame (byte_of CHR ''X'') payload @ coming s' \<and>
     e = exit_of payload \<and> sent s' = sent s"
proof (induction fuel arbitrary: s out)
  case 0
  then show ?case by simp
next
  case (Suc fuel)
  obtain header s1 payload s2 where r: "st_read_exact ops s 5 = (s1, Ready header)" "\<not> length header < 5"
      "st_read_exact ops s1 (unat (le32_at 1 header)) = (s2, Ready payload)"
    and cont: "header ! 0 = byte_of CHR ''X'' \<and> s' = s2 \<and> out' = out \<and> e = exit_of payload \<or>
       (header ! 0 = byte_of CHR ''1'' \<or> header ! 0 = byte_of CHR ''2'') \<and>
       run_loop fuel ops False (out @ [(header ! 0, payload)]) s2 = (s', out', Finished (e, False))"
    using run_loop_round [OF Suc.prems(2)] by metis
  have l1: "live s1" "coming s = header @ coming s1" "length header = 5" "sent s1 = sent s"
    using exact_takes [OF Suc.prems(1) r(1)] by simp_all
  have l2: "live s2" "coming s1 = payload @ coming s2" "length payload = unat (le32_at 1 header)" "sent s2 = sent s1"
    using exact_takes [OF l1(1) r(3)] by simp_all
  have fr: "coming s = frame (header ! 0) payload @ coming s2"
    using frame_inverse [OF l1(3) l2(3)] l1(2) l2(2) by simp
  from cont show ?case
  proof
    assume "header ! 0 = byte_of CHR ''X'' \<and> s' = s2 \<and> out' = out \<and> e = exit_of payload"
    then show ?case using fr l1(4) l2(4) by (intro exI [of _ "[]"] exI [of _ payload]) simp
  next
    assume k: "(header ! 0 = byte_of CHR ''1'' \<or> header ! 0 = byte_of CHR ''2'') \<and>
       run_loop fuel ops False (out @ [(header ! 0, payload)]) s2 = (s', out', Finished (e, False))"
    obtain outs p where "out' = (out @ [(header ! 0, payload)]) @ outs"
      "\<forall>(k, p)\<in>set outs. k = byte_of CHR ''1'' \<or> k = byte_of CHR ''2''"
      "coming s2 = concat (map (\<lambda>(k, p). frame k p) outs) @ frame (byte_of CHR ''X'') p @ coming s'"
      "e = exit_of p" "sent s' = sent s2"
      using Suc.IH [OF l2(1) conjunct2 [OF k]] by blast
    then show ?case
      using fr k l1(4) l2(4) by (intro exI [of _ "(header ! 0, payload) # outs"] exI [of _ p]) auto
  qed
qed

text \<open>
  A round that goes on has consumed a whole frame or sent the one kill, so a finite stream is
  enough fuel.
\<close>

lemma run_loop_ends:
  "\<lbrakk>live s; length (coming s) + (if killed then 0 else 1) < fuel; run_loop fuel ops killed out s = (s', out', r)\<rbrakk>
   \<Longrightarrow> r \<noteq> NoFuel"
proof (induction fuel arbitrary: s out killed)
  case 0
  then show ?case by simp
next
  case (Suc fuel)
  obtain s1 h where r: "st_read_exact ops s 5 = (s1, h)" by fastforce
  show ?case
  proof (cases h)
    case (Ready header)
    have l1: "live s1" "coming s = header @ coming s1" "length header = 5"
      using exact_takes [OF Suc.prems(1) r [unfolded Ready]] by simp_all
    obtain s2 p where r2: "st_read_exact ops s1 (unat (le32_at 1 header)) = (s2, p)" by fastforce
    show ?thesis
    proof (cases p)
      case P: (Ready payload)
      have l2: "live s2" "coming s1 = payload @ coming s2"
        using exact_takes [OF l1(1) r2 [unfolded P]] by simp_all
      have "length (coming s2) + (if killed then 0 else 1) < fuel"
        using Suc.prems(2) l1(2,3) l2(2) by simp
      then show ?thesis
        using Suc.IH [OF l2(1), of killed] Suc.prems(3) r r2 Ready P
        by (auto simp: run_loop.simps(2) Let_def split: if_splits)
    qed (use Suc.prems(3) r r2 Ready in \<open>auto simp: run_loop.simps(2) Let_def split: if_splits\<close>)
  next
    case (Failed e)
    show ?thesis
    proof (cases "e = ReadTimeout \<and> \<not> killed")
      case True
      let ?s2 = "st_set_deadline ops s1 (Some (st_now ops s1 + 5000))"
      have l1: "live s1" "length (coming s1) \<le> length (coming s)"
        using exact_fails [OF Suc.prems(1) r [unfolded Failed]] by simp_all
      have l2: "live ?s2" "coming ?s2 = coming s1" using deadline_keeps [OF l1(1)] by simp_all
      obtain s3 w where w: "st_write_all ops ?s2 (frame (byte_of CHR ''K'') (u32_le 9)) = (s3, w)" by fastforce
      show ?thesis
      proof (cases w)
        case (Ready u)
        have l3: "live s3" "coming s3 = coming ?s2"
          using write_sends [OF l2(1)] w Ready by (simp_all)
        have "length (coming s3) + (if True then 0 else 1) < fuel"
          using Suc.prems(2) True l1(2) l2(2) l3(2) by simp
        then show ?thesis
          using Suc.IH [OF l3(1), of True] Suc.prems(3) r Failed True w Ready
          by (simp add: run_loop.simps(2) Let_def)
      qed (use Suc.prems(3) r Failed True w in \<open>auto simp: run_loop.simps(2) Let_def\<close>)
    next
      case False
      then show ?thesis using Suc.prems(3) r Failed by (auto simp: run_loop.simps(2))
    qed
  qed (use Suc.prems(3) r in \<open>auto simp: run_loop.simps(2)\<close>)
qed

lemma run_whole:
  assumes "live s" "run fuel ops cmd timeout s = (s', out, Finished (e, False))"
  shows "sent s' = sent s @ concat (request_frames cmd)"
    "\<exists>payload. coming s = concat (map (\<lambda>(k, p). frame k p) out) @ frame (byte_of CHR ''X'') payload @ coming s' \<and>
       e = exit_of payload \<and> (\<forall>(k, p)\<in>set out. k = byte_of CHR ''1'' \<or> k = byte_of CHR ''2'')"
proof -
  obtain s1 r where w: "write_frames ops (request_frames cmd) s = (s1, r)" by fastforce
  have ne: "cmd_argv cmd \<noteq> []" using assms(2) by (auto simp: run_def split: if_splits)
  have r: "r = Ready ()" using assms(2) w ne by (cases r) (auto simp: run_def)
  let ?s2 = "st_set_deadline ops s1 (map_option (\<lambda>t. st_now ops s1 + t) timeout)"
  have l1: "live s1" "coming s1 = coming s" "sent s1 = sent s @ concat (request_frames cmd)"
    using write_frames_sends [OF assms(1) w [unfolded r]] by simp_all
  have l2: "live ?s2" "coming ?s2 = coming s1" "sent ?s2 = sent s1" using deadline_keeps [OF l1(1)] by simp_all
  have loop: "run_loop fuel ops False [] ?s2 = (s', out, Finished (e, False))"
    using assms(2) w r ne by (simp add: run_def)
  obtain payload where "\<forall>(k, p)\<in>set out. k = byte_of CHR ''1'' \<or> k = byte_of CHR ''2''"
      "coming ?s2 = concat (map (\<lambda>(k, p). frame k p) out) @ frame (byte_of CHR ''X'') payload @ coming s'"
      "e = exit_of payload" "sent s' = sent ?s2"
    using run_loop_frames [OF l2(1) loop] by auto
  then show "sent s' = sent s @ concat (request_frames cmd)"
    "\<exists>payload. coming s = concat (map (\<lambda>(k, p). frame k p) out) @ frame (byte_of CHR ''X'') payload @ coming s' \<and>
       e = exit_of payload \<and> (\<forall>(k, p)\<in>set out. k = byte_of CHR ''1'' \<or> k = byte_of CHR ''2'')"
    using l1 l2 by auto
qed

lemma run_ends:
  assumes "live s" "Suc (length (coming s)) < fuel"
  shows "snd (snd (run fuel ops cmd timeout s)) \<noteq> NoFuel"
proof -
  obtain s1 r where w: "write_frames ops (request_frames cmd) s = (s1, r)" by fastforce
  let ?s2 = "st_set_deadline ops s1 (map_option (\<lambda>t. st_now ops s1 + t) timeout)"
  show ?thesis
  proof (cases r)
    case (Ready u)
    have l1: "live s1" "coming s1 = coming s"
      using write_frames_sends [OF assms(1)] w Ready by simp_all
    have l2: "live ?s2" "coming ?s2 = coming s1" using deadline_keeps [OF l1(1)] by simp_all
    then have "length (coming ?s2) + (if False then 0 else 1) < fuel" using l1(2) assms(2) by simp
    from run_loop_ends [OF l2(1) this, of "[]"] show ?thesis
      using w Ready by (auto simp: run_def) (metis prod.collapse)
  qed (use w in \<open>auto simp: run_def\<close>)
qed

end

subsection \<open>Properties of the agent's host side\<close>

text \<open>C21: A run over a vsock stream that ends in time is one exact exchange: the guest was sent
  the command's frames (arguments, environment, directory, start, input in blocks of 32 KiB, end
  of input) in that order and nothing else; what the guest sent is exactly the output frames handed to
  the callbacks, in order and whole, then the exit frame, whose status is the result; and what
  follows the exit frame is left unread.\<close>

theorem agent_exchange:
  assumes "vt_live st" "run fuel vsock_stream cmd timeout st = (st', out, Finished (e, False))"
  shows "vt_data st' = vt_data st @ concat (request_frames cmd) \<and>
    (\<exists>payload. vt_coming st = concat (map (\<lambda>(k, p). frame k p) out) @ frame (byte_of CHR ''X'') payload @ vt_coming st'
       \<and> e = exit_of payload) \<and>
    (\<forall>(k, p)\<in>set out. k = byte_of CHR ''1'' \<or> k = byte_of CHR ''2'')"
  using vs_stream.run_whole [OF assms] by auto

definition sample_command :: command where
  "sample_command = \<lparr>cmd_argv = [[108, 115]], cmd_env = [], cmd_cwd = None, cmd_stdin = []\<rparr>"

definition credit :: arrival where
  "credit = \<lparr>ar_time = 0, ar_buf_alloc = 4096, ar_fwd_cnt = 0, ar_payload = []\<rparr>"

definition sample_conn :: connection where
  "sample_conn = connection_new \<lparr>a_guest_cid = 3, a_local_port = 49152, a_peer_port = 1024\<rparr> True
     \<lparr>s_incoming := [49, 2, 0, 0, 0, 104, 105] @ [88, 4, 0, 0, 0, 2, 0, 0, 0]\<rparr>"

definition sample_stream :: vstream where
  "sample_stream = \<lparr>vt_conn = sample_conn, vt_arrivals = [credit, credit, credit, credit, credit, credit, credit], vt_sent = []\<rparr>"

lemma vs_exact_ready:
  assumes "s_incoming s = data @ rest" "length data = n" "0 < n" "n \<le> 65536" "ar_payload e = []"
    and "s_bytes_read s + word_of_nat n - s_credited s < 65536"
  shows "st_read_exact vsock_stream \<lparr>vt_conn = s, vt_arrivals = e # es, vt_sent = ps\<rparr> n =
    (\<lparr>vt_conn = (arrive e s)\<lparr>s_incoming := rest, s_bytes_read := s_bytes_read s + word_of_nat n\<rparr>,
      vt_arrivals = es, vt_sent = ps\<rparr>, Ready data)"
proof -
  have r: "read (ar_time e) n (arrive e s) =
      ((arrive e s)\<lparr>s_incoming := rest, s_bytes_read := s_bytes_read s + word_of_nat n\<rparr>, [], Ready data)"
    using assms by (auto simp: read_def Let_def arrive_def enqueue_def update_credit_def not_le)
  have len: "min (n - 0) (min n (64 * 1024)) = n" using assms(4) by simp
  have end': "read_exact (arriving es) n data s1 = (s1, arriving es, [], Ready data)" for s1
    using assms(2) by (cases es) auto
  show ?thesis
    using r len assms(3) end' by (auto simp: vsock_stream_def vt_update_def)
qed

lemma u32_le_small: "u32_le 0 = [0, 0, 0, 0]" "u32_le 1 = [1, 0, 0, 0]" "u32_le 2 = [2, 0, 0, 0]" "u32_le 4 = [4, 0, 0, 0]"
  by code_simp+

lemma sample_sent:
  "\<exists>ps. write_frames vsock_stream (request_frames sample_command) sample_stream =
     (\<lparr>vt_conn = sample_conn\<lparr>s_peer_buf_alloc := 4096, s_bytes_written := 17\<rparr>,
        vt_arrivals = [credit, credit, credit, credit], vt_sent = ps\<rparr>, Ready ())"
  by (simp add: sample_command_def request_frames_def chunks.simps sample_stream_def vsock_stream_def vt_update_def
      write_chunk_def arrive_def enqueue_def update_credit_def connection_new_def frame_def u32_le_small Let_def
      credit_def sample_conn_def)

lemma sample_lengths: "le32_at (Suc 0) [49, 2, 0, 0, 0] = 2" "le32_at (Suc 0) [88, 4, 0, 0, 0] = 4" "exit_of [2, 0, 0, 0] = Code 2"
  "byte_of CHR ''1'' = 49" "byte_of CHR ''2'' = 50" "byte_of CHR ''X'' = 88"
  by code_simp+

lemma sample_run:
  "snd (run (Suc (Suc 0)) vsock_stream sample_command None sample_stream) = ([(49, [104, 105])], Finished (Code 2, False))"
proof -
  obtain ps where w: "write_frames vsock_stream (request_frames sample_command) sample_stream =
     (\<lparr>vt_conn = sample_conn\<lparr>s_peer_buf_alloc := 4096, s_bytes_written := 17\<rparr>,
        vt_arrivals = [credit, credit, credit, credit], vt_sent = ps\<rparr>, Ready ())"
    using sample_sent by blast
  let ?c0 = "set_deadline (sample_conn\<lparr>s_peer_buf_alloc := 4096, s_bytes_written := 17\<rparr>) None"
  let ?c1 = "(arrive credit ?c0)\<lparr>s_incoming := [104, 105, 88, 4, 0, 0, 0, 2, 0, 0, 0], s_bytes_read := 5\<rparr>"
  let ?c2 = "(arrive credit ?c1)\<lparr>s_incoming := [88, 4, 0, 0, 0, 2, 0, 0, 0], s_bytes_read := 7\<rparr>"
  let ?c3 = "(arrive credit ?c2)\<lparr>s_incoming := [2, 0, 0, 0], s_bytes_read := 12\<rparr>"
  let ?st = "\<lambda>c es. \<lparr>vt_conn = c, vt_arrivals = es, vt_sent = ps\<rparr>"
  note rd = vs_exact_ready [where e = credit and ps = ps]
  have 1: "st_read_exact vsock_stream (?st ?c0 [credit, credit, credit, credit]) 5 = (?st ?c1 [credit, credit, credit], Ready [49, 2, 0, 0, 0])"
    using rd [of ?c0 "[49, 2, 0, 0, 0]" "[104, 105] @ [88, 4, 0, 0, 0, 2, 0, 0, 0]" 5 "[credit, credit, credit]"]
    by (simp add: sample_conn_def connection_new_def set_deadline_def credit_def)
  have 2: "st_read_exact vsock_stream (?st ?c1 [credit, credit, credit]) 2 = (?st ?c2 [credit, credit], Ready [104, 105])"
    using rd [of ?c1 "[104, 105]" "[88, 4, 0, 0, 0, 2, 0, 0, 0]" 2 "[credit, credit]"]
    by (simp add: sample_conn_def connection_new_def set_deadline_def credit_def arrive_def enqueue_def update_credit_def)
  have 3: "st_read_exact vsock_stream (?st ?c2 [credit, credit]) 5 = (?st ?c3 [credit], Ready [88, 4, 0, 0, 0])"
    using rd [of ?c2 "[88, 4, 0, 0, 0]" "[2, 0, 0, 0]" 5 "[credit]"]
    by (simp add: sample_conn_def connection_new_def set_deadline_def credit_def arrive_def enqueue_def update_credit_def)
  obtain c4 where 4: "st_read_exact vsock_stream (?st ?c3 [credit]) 4 = (?st c4 [], Ready [2, 0, 0, 0])"
    using rd [of ?c3 "[2, 0, 0, 0]" "[]" 4 "[]"]
    by (simp add: sample_conn_def connection_new_def set_deadline_def credit_def arrive_def enqueue_def update_credit_def)
  have d: "st_set_deadline vsock_stream (\<lparr>vt_conn = c, vt_arrivals = es, vt_sent = ps\<rparr>) None = ?st (set_deadline c None) es" for c es
    by (simp add: vsock_stream_def)
  have "cmd_argv sample_command \<noteq> []" by (simp add: sample_command_def)
  then show ?thesis
    unfolding run_def w by (simp add: d 1 2 3 4 run_loop.simps(2) sample_lengths Let_def)
qed

theorem agent_exchange_witness:
  "\<exists>st'. run (Suc (Suc 0)) vsock_stream sample_command None sample_stream = (st', [(49, [104, 105])], Finished (Code 2, False)) \<and>
     vt_data st' = concat (request_frames sample_command)"
proof -
  obtain st' where r: "run (Suc (Suc 0)) vsock_stream sample_command None sample_stream = (st', [(49, [104, 105])], Finished (Code 2, False))"
    using sample_run by (metis prod.collapse)
  have "vt_live sample_stream" "vt_data sample_stream = []"
    by (simp_all add: vt_live_def vt_data_def sample_stream_def sample_conn_def connection_new_def)
  then show ?thesis using agent_exchange [OF _ r] r by simp
qed

text \<open>A run ends: as many rounds as the guest sends bytes, and two more, are always enough
  for the run over a vsock stream to finish, fail or wait for the guest; it never goes round
  without consuming a frame, and it kills the command at most once.\<close>

theorem agent_run_ends:
  assumes "vt_live st" "length (vt_coming st) + 2 \<le> fuel"
  shows "snd (snd (run fuel vsock_stream cmd timeout st)) \<noteq> NoFuel"
  using vs_stream.run_ends [OF assms(1), of fuel] assms(2) by simp

theorem agent_run_ends_witness:
  "vt_live sample_stream \<and> snd (snd (run 18 vsock_stream sample_command (Some 9) sample_stream)) \<noteq> NoFuel"
proof -
  have l: "vt_live sample_stream"
    by (simp add: vt_live_def sample_stream_def sample_conn_def connection_new_def)
  moreover have "length (vt_coming sample_stream) + 2 \<le> 18"
    by (simp add: vt_coming_def sample_stream_def sample_conn_def credit_def)
  ultimately show ?thesis using agent_run_ends by blast
qed

text \<open>
  A deadline that passes while the payload of a frame is still on its way ends the run with the
  time-out itself: the command is not killed and the caller is not told that it timed out.
\<close>

lemma timeout_inside_frame:
  assumes "st_read_exact ops s 5 = (s1, Ready header)" "length header = 5"
    "st_read_exact ops s1 (unat (le32_at 1 header)) = (s2, Failed ReadTimeout)"
  shows "run_loop (Suc fuel) ops False out s = (s2, out, AgentFailed (StreamFailed ReadTimeout))"
  using assms by (simp add: run_loop.simps(2))

end
