(* ===== verification/Texts.thy ===== *)
theory Texts
  imports Prelude
begin

text \<open>
  The strings of the sources. A Rust \<open>str\<close> is its UTF-8 bytes, one \<open>char\<close> each,
  so the ASCII patterns and delimiters the engine looks for are single elements and every byte
  offset of the code is an index here. The string methods used by the policy, the request API and
  the network stack follow.
\<close>

subsection \<open>Characters\<close>

definition ascii :: "char \<Rightarrow> bool" where
  "ascii c \<longleftrightarrow> (of_char c :: nat) < 128"

definition ascii_lower :: "char \<Rightarrow> char" where
  "ascii_lower c = (if (65 :: nat) \<le> of_char c \<and> of_char c \<le> (90 :: nat) then char_of (of_char c + (32 :: nat)) else c)"

definition ascii_digit :: "char \<Rightarrow> bool" where
  "ascii_digit c \<longleftrightarrow> (48 :: nat) \<le> of_char c \<and> of_char c \<le> (57 :: nat)"

definition ascii_alphabetic :: "char \<Rightarrow> bool" where
  "ascii_alphabetic c \<longleftrightarrow> (65 :: nat) \<le> of_char c \<and> of_char c \<le> (90 :: nat) \<or> (97 :: nat) \<le> of_char c \<and> of_char c \<le> (122 :: nat)"

definition ascii_alnum :: "char \<Rightarrow> bool" where
  "ascii_alnum c \<longleftrightarrow> ascii_digit c \<or> ascii_alphabetic c"

definition LF :: char where "LF = CHR 0x0A"
definition CR :: char where "CR = CHR 0x0D"
definition NUL :: char where "NUL = CHR 0x00"
definition TAB :: char where "TAB = CHR 0x09"

definition bytes_of :: "string \<Rightarrow> bytes" where
  "bytes_of s = map of_char s"

definition string_of :: "bytes \<Rightarrow> string" where
  "string_of bs = map (\<lambda>b. char_of (unat b)) bs"

lemma unat_of_char: "unat (of_char c :: 8 word) = of_char c"
proof -
  have "unat (of_nat (of_char c) :: 8 word) = of_char c mod 256" by (simp add: unat_of_nat)
  then show ?thesis by (simp add: of_nat_of_char)
qed

lemma string_of_bytes_of [simp]: "string_of (bytes_of s) = s"
  by (simp add: string_of_def bytes_of_def comp_def unat_of_char)

lemma bytes_of_string_of [simp]: "bytes_of (string_of bs) = bs"
proof -
  have "(of_char (char_of (unat b)) :: 8 word) = b" for b :: "8 word"
  proof -
    have "(of_char (char_of (unat b)) :: 8 word) = of_nat (of_char (char_of (unat b)))"
      by (simp add: of_nat_of_char del: of_char_of)
    also have "\<dots> = b" by simp
    finally show ?thesis .
  qed
  then show ?thesis by (simp add: string_of_def bytes_of_def comp_def)
qed

lemma length_bytes_of [simp]: "length (bytes_of s) = length s" "length (string_of bs) = length bs"
  by (simp_all add: bytes_of_def string_of_def)

subsection \<open>String methods\<close>

definition trim_end_matches :: "(char \<Rightarrow> bool) \<Rightarrow> string \<Rightarrow> string" where
  "trim_end_matches p s = rev (dropWhile p (rev s))"

definition trim_matches :: "(char \<Rightarrow> bool) \<Rightarrow> string \<Rightarrow> string" where
  "trim_matches p s = trim_end_matches p (dropWhile p s)"

fun split_by :: "(char \<Rightarrow> bool) \<Rightarrow> string \<Rightarrow> string list" where
  "split_by p [] = [[]]"
| "split_by p (c # cs) =
     (if p c then [] # split_by p cs
      else case split_by p cs of part # parts \<Rightarrow> (c # part) # parts | [] \<Rightarrow> [[c]])"

abbreviation split_on :: "char \<Rightarrow> string \<Rightarrow> string list" where
  "split_on c \<equiv> split_by (\<lambda>d. d = c)"

definition starts_with :: "string \<Rightarrow> string \<Rightarrow> bool" where
  "starts_with pat s \<longleftrightarrow> take (length pat) s = pat"

definition ends_with :: "string \<Rightarrow> string \<Rightarrow> bool" where
  "ends_with pat s \<longleftrightarrow> length pat \<le> length s \<and> drop (length s - length pat) s = pat"

definition strip_prefix :: "string \<Rightarrow> string \<Rightarrow> string option" where
  "strip_prefix pat s = (if starts_with pat s then Some (drop (length pat) s) else None)"

fun split_once :: "string \<Rightarrow> string \<Rightarrow> (string \<times> string) option" where
  "split_once pat [] = (if pat = [] then Some ([], []) else None)"
| "split_once pat (c # cs) =
     (if starts_with pat (c # cs) then Some ([], drop (length pat) (c # cs))
      else map_option (\<lambda>(a, b). (c # a, b)) (split_once pat cs))"

function (sequential) replace_all :: "string \<Rightarrow> string \<Rightarrow> string \<Rightarrow> string" where
  "replace_all pat by_text [] = []"
| "replace_all pat by_text (c # cs) =
     (if pat \<noteq> [] \<and> starts_with pat (c # cs) then by_text @ replace_all pat by_text (drop (length pat) (c # cs))
      else c # replace_all pat by_text cs)"
  by pat_completeness auto
termination by (relation "measure (\<lambda>(_, _, s). length s)") auto

fun join_with :: "string \<Rightarrow> string list \<Rightarrow> string" where
  "join_with sep [] = []"
| "join_with sep [s] = s"
| "join_with sep (s # t # rest) = s @ sep @ join_with sep (t # rest)"

fun contains :: "string \<Rightarrow> string \<Rightarrow> bool" where
  "contains pat [] = (pat = [])"
| "contains pat (c # cs) = (starts_with pat (c # cs) \<or> contains pat cs)"

subsection \<open>Numbers\<close>

fun decimal :: "nat \<Rightarrow> string" where
  "decimal n = (if n < 10 then [char_of (48 + n)] else decimal (n div 10) @ [char_of (48 + n mod 10)])"

declare decimal.simps [simp del]

fun hex :: "nat \<Rightarrow> string" where
  "hex n = (let digit = (\<lambda>d. char_of (if d < 10 then 48 + d else 87 + d)) in
     if n < 16 then [digit n] else hex (n div 16) @ [digit (n mod 16)])"

declare hex.simps [simp del]

definition digits_value :: "string \<Rightarrow> nat" where
  "digits_value s = foldl (\<lambda>v c. 10 * v + (of_char c - 48)) 0 s"

definition parse_uint :: "nat \<Rightarrow> string \<Rightarrow> nat option" where
  "parse_uint limit s =
     (let digits = (case s of c # cs \<Rightarrow> if c = CHR ''+'' then cs else s | [] \<Rightarrow> s) in
      if digits \<noteq> [] \<and> list_all ascii_digit digits \<and> digits_value digits \<le> limit
      then Some (digits_value digits) else None)"

definition hex_digit :: "char \<Rightarrow> nat option" where
  "hex_digit c =
     (let n = of_char c in
      if 48 \<le> n \<and> n \<le> 57 then Some (n - 48)
      else if 97 \<le> n \<and> n \<le> 102 then Some (n - 87)
      else if 65 \<le> n \<and> n \<le> 70 then Some (n - 55)
      else None)"

fun hex_value :: "nat \<Rightarrow> string \<Rightarrow> nat option" where
  "hex_value acc [] = Some acc"
| "hex_value acc (c # cs) = (case hex_digit c of None \<Rightarrow> None | Some d \<Rightarrow> hex_value (16 * acc + d) cs)"

definition parse_hex :: "string \<Rightarrow> nat option" where
  "parse_hex s =
     (let digits = (case s of c # cs \<Rightarrow> if c = CHR ''+'' \<and> cs \<noteq> [] then cs else s | [] \<Rightarrow> [])
      in if digits = [] then None else hex_value 0 digits)"

definition dotted :: "u32 \<Rightarrow> string" where
  "dotted ip = join_with ''.'' (map (\<lambda>b. decimal (unat b)) (u32_be ip))"

subsection \<open>UTF-8\<close>

text \<open>
  One step of decoding: whether the bytes at the front are a character, and how many of them
  belong to it or, when they are not, to the longest broken prefix (which \<open>from_utf8_lossy\<close>
  replaces by one U+FFFD).
\<close>

definition utf8_width :: "nat \<Rightarrow> nat" where
  "utf8_width b = (if b < 0x80 then 1 else if 0xC2 \<le> b \<and> b \<le> 0xDF then 2 else if 0xE0 \<le> b \<and> b \<le> 0xEF then 3
     else if 0xF0 \<le> b \<and> b \<le> 0xF4 then 4 else 0)"

definition utf8_second :: "nat \<Rightarrow> nat \<Rightarrow> bool" where
  "utf8_second b c \<longleftrightarrow>
     (if b = 0xE0 then 0xA0 else if b = 0xF0 then 0x90 else 0x80) \<le> c \<and>
     c \<le> (if b = 0xED then 0x9F else if b = 0xF4 then 0x8F else 0xBF)"

definition utf8_cont :: "nat \<Rightarrow> bool" where
  "utf8_cont c \<longleftrightarrow> 0x80 \<le> c \<and> c \<le> 0xBF"

definition utf8_next :: "nat list \<Rightarrow> bool \<times> nat" where
  "utf8_next bs =
     (let b = bs ! 0; w = utf8_width b in
      if w \<le> 1 then (w = 1, 1)
      else if length bs < 2 \<or> \<not> utf8_second b (bs ! 1) then (False, 1)
      else if w = 2 then (True, 2)
      else if length bs < 3 \<or> \<not> utf8_cont (bs ! 2) then (False, 2)
      else if w = 3 then (True, 3)
      else if length bs < 4 \<or> \<not> utf8_cont (bs ! 3) then (False, 3)
      else (True, 4))"

lemma utf8_next_pos: "0 < snd (utf8_next bs)"
  by (simp add: utf8_next_def Let_def)

function from_utf8_lossy :: "string \<Rightarrow> string" where
  "from_utf8_lossy s =
     (if s = [] then []
      else let step = utf8_next (map of_char s) in
        (if fst step then take (snd step) s else [CHR 0xEF, CHR 0xBF, CHR 0xBD]) @ from_utf8_lossy (drop (snd step) s))"
  by pat_completeness auto
termination by (relation "measure length") (auto simp: utf8_next_pos)

function from_utf8_ok :: "string \<Rightarrow> bool" where
  "from_utf8_ok s =
     (if s = [] then True
      else let step = utf8_next (map of_char s) in if fst step then from_utf8_ok (drop (snd step) s) else False)"
  by pat_completeness auto
termination by (relation "measure length") (auto simp: utf8_next_pos)

function utf8_chars :: "string \<Rightarrow> string list" where
  "utf8_chars s = (if s = [] then [] else let w = snd (utf8_next (map of_char s)) in take w s # utf8_chars (drop w s))"
  by pat_completeness auto
termination by (relation "measure length") (auto simp: utf8_next_pos)

declare utf8_chars.simps [simp del]

definition code_point :: "string \<Rightarrow> nat" where
  "code_point c =
     (case map of_char c of
        [a] \<Rightarrow> a
      | [a, b] \<Rightarrow> (a - 0xC0) * 64 + (b - 0x80)
      | [a, b, d] \<Rightarrow> (a - 0xE0) * 4096 + (b - 0x80) * 64 + (d - 0x80)
      | [a, b, d, e] \<Rightarrow> (a - 0xF0) * 262144 + (b - 0x80) * 4096 + (d - 0x80) * 64 + (e - 0x80)
      | _ \<Rightarrow> 0)"

definition white_space :: "string \<Rightarrow> bool" where
  "white_space c =
     (let p = code_point c in
      9 \<le> p \<and> p \<le> 13 \<or> p = 32 \<or> p = 0x85 \<or> p = 0xA0 \<or> p = 0x1680 \<or> 0x2000 \<le> p \<and> p \<le> 0x200A \<or>
      p = 0x2028 \<or> p = 0x2029 \<or> p = 0x202F \<or> p = 0x205F \<or> p = 0x3000)"

definition trim :: "string \<Rightarrow> string" where
  "trim s = concat (rev (dropWhile white_space (rev (dropWhile white_space (utf8_chars s)))))"

declare from_utf8_lossy.simps [simp del] from_utf8_ok.simps [simp del]

lemma lossy_of_valid: "from_utf8_ok s \<Longrightarrow> from_utf8_lossy s = s"
proof (induction s rule: from_utf8_lossy.induct)
  case (1 s)
  then show ?case
    using from_utf8_ok.simps [of s] from_utf8_lossy.simps [of s] by (cases "s = []") (auto simp: Let_def split: if_splits)
qed

lemma ascii_step: "ascii c \<Longrightarrow> utf8_next (map of_char (c # cs)) = (True, 1)"
proof -
  assume "ascii c"
  then have "utf8_width (of_char c) = 1" by (simp add: utf8_width_def ascii_def)
  then show ?thesis by (simp only: utf8_next_def list.map nth_Cons_0 Let_def) simp
qed

lemma ascii_valid: "list_all ascii s \<Longrightarrow> from_utf8_ok s"
proof (induction s)
  case Nil
  then show ?case by (simp add: from_utf8_ok.simps)
next
  case (Cons c cs)
  then show ?case using ascii_step [of c cs] from_utf8_ok.simps [of "c # cs"] by (simp add: Let_def)
qed

lemma ascii_chars: "list_all ascii s \<Longrightarrow> utf8_chars s = map (\<lambda>c. [c]) s"
proof (induction s)
  case (Cons c s)
  then have "utf8_next (map of_char (c # s)) = (True, 1)" by (intro ascii_step) simp
  then show ?case using Cons by (simp add: utf8_chars.simps [of "c # s"] Let_def)
qed (simp add: utf8_chars.simps)

lemma hex_value_append:
  "hex_value acc (s @ u) = (case hex_value acc s of None \<Rightarrow> None | Some a \<Rightarrow> hex_value a u)"
  by (induction acc s rule: hex_value.induct) (auto split: option.splits)

subsection \<open>Lemmas\<close>

lemma split_by_nonempty [simp]: "split_by p s \<noteq> []"
  by (induction s) (auto split: list.splits)

lemma split_by_parts: "part \<in> set (split_by p s) \<Longrightarrow> \<forall>c\<in>set part. \<not> p c"
  by (induction s arbitrary: part) (fastforce split: if_splits list.splits)+

lemma join_split: "join_with [c] (split_on c s) = s"
  by (induction s) (auto split: list.splits elim: join_with.elims)

lemma split_once_some: "split_once pat s = Some (a, b) \<Longrightarrow> s = a @ pat @ b"
proof (induction s arbitrary: a)
  case Nil
  then show ?case by (simp split: if_splits)
next
  case (Cons c cs)
  show ?case
  proof (cases "starts_with pat (c # cs)")
    case True
    then have "a = []" "b = drop (length pat) (c # cs)" using Cons.prems by auto
    then show ?thesis using True by (metis append_Nil append_take_drop_id starts_with_def)
  next
    case False
    then show ?thesis using Cons by auto
  qed
qed

lemma ends_with_iff: "ends_with pat s \<longleftrightarrow> (\<exists>p. s = p @ pat)"
  by (metis append_take_drop_id ends_with_def append_eq_conv_conj diff_add_inverse2 le_add2 length_append)

lemma starts_with_iff: "starts_with pat s \<longleftrightarrow> (\<exists>r. s = pat @ r)"
  by (metis append_eq_conv_conj append_take_drop_id starts_with_def)

lemma contains_iff: "contains pat s \<longleftrightarrow> (\<exists>a b. s = a @ pat @ b)"
proof (induction s)
  case (Cons c s)
  have "(\<exists>a b. c # s = a @ pat @ b) \<longleftrightarrow> (\<exists>b. c # s = pat @ b) \<or> (\<exists>a b. s = a @ pat @ b)"
    by (metis append_Cons append_Nil list.inject list.exhaust)
  moreover have "starts_with pat (c # s) \<longleftrightarrow> (\<exists>b. c # s = pat @ b)"
    unfolding starts_with_def by (metis append_eq_conv_conj append_take_drop_id)
  ultimately show ?case using Cons by simp
qed simp

lemma decimal_digits: "list_all ascii_digit (decimal n)"
proof (induction n rule: decimal.induct)
  case (1 n)
  have d: "ascii_digit (char_of (48 + k))" if "k < 10" for k :: nat
    using that by (simp add: ascii_digit_def)
  show ?case
  proof (cases "n < 10")
    case True
    then show ?thesis using d [of n] by (simp add: decimal.simps [of n])
  next
    case False
    then show ?thesis using 1 d [of "n mod 10"] by (simp add: decimal.simps [of n])
  qed
qed

lemma digits_value_snoc: "digits_value (s @ [c]) = 10 * digits_value s + (of_char c - 48)"
  by (simp add: digits_value_def)

lemma digits_value_decimal: "digits_value (decimal n) = n"
proof (induction n rule: decimal.induct)
  case (1 n)
  have d: "of_char (char_of (48 + k) :: char) - (48 :: nat) = k" if "k < 10" for k :: nat
    using that by simp
  show ?case
  proof (cases "n < 10")
    case True
    then show ?thesis using d [of n] by (simp add: decimal.simps [of n] digits_value_def del: of_char_of)
  next
    case False
    then show ?thesis
      using 1 d [of "n mod 10"] by (simp add: decimal.simps [of n] digits_value_snoc del: of_char_of)
  qed
qed

lemma decimal_nonempty: "decimal n \<noteq> []"
  by (simp add: decimal.simps [of n])

lemma parse_decimal: "n \<le> limit \<Longrightarrow> parse_uint limit (decimal n) = Some n"
proof -
  assume n: "n \<le> limit"
  obtain c cs where c: "decimal n = c # cs" using decimal_nonempty by (cases "decimal n") auto
  then have "c \<noteq> CHR ''+''" using decimal_digits [of n] by (auto simp: ascii_digit_def)
  then show ?thesis
    using n c decimal_digits [of n] digits_value_decimal [of n] by (simp add: parse_uint_def)
qed

subsection \<open>Numbers of a fixed width\<close>

definition hex_char :: "nat \<Rightarrow> char" where
  "hex_char d = char_of (if d < 10 then 48 + d else 87 + d)"

primrec hexn :: "nat \<Rightarrow> nat \<Rightarrow> string" where
  "hexn 0 v = []"
| "hexn (Suc n) v = hexn n (v div 16) @ [hex_char (v mod 16)]"

lemma of_hex_char: "d < 16 \<Longrightarrow> (of_char (hex_char d) :: nat) = (if d < 10 then 48 + d else 87 + d)"
  by (simp add: hex_char_def)

lemma hex_digit_char: "d < 16 \<Longrightarrow> hex_digit (hex_char d) = Some d"
  by (simp add: hex_digit_def of_hex_char Let_def)

lemma hex_value_hexn: "hex_value 0 (hexn n v) = Some (v mod 16 ^ n)"
proof (induction n arbitrary: v)
  case (Suc n)
  have "16 * (v div 16 mod 16 ^ n) + v mod 16 = v mod 16 ^ Suc n"
    using mod_mult2_eq [of v 16 "16 ^ n"] by simp
  then show ?case by (simp add: Suc hex_value_append hex_digit_char)
qed simp

lemma hexn_length [simp]: "length (hexn n v) = n"
  by (induction n arbitrary: v) simp_all

lemma hexn_chars: "c \<in> set (hexn n v) \<Longrightarrow> \<exists>d<16. c = hex_char d"
proof (induction n arbitrary: v)
  case (Suc n)
  have "\<exists>d<16. hex_char (v mod 16) = hex_char d" by (rule exI [of _ "v mod 16"]) simp
  then show ?case using Suc by auto
qed simp

lemma hex_char_plain: "d < 16 \<Longrightarrow> ascii (hex_char d) \<and> hex_char d \<noteq> CHR ''+''"
proof -
  assume d: "d < 16"
  have "(of_char (hex_char d) :: nat) \<noteq> of_char (CHR ''+'')" using d by (simp add: of_hex_char)
  then have "hex_char d \<noteq> CHR ''+''" by metis
  then show ?thesis using d by (simp add: ascii_def of_hex_char)
qed

lemma parse_hex_hexn: "parse_hex (hexn (Suc n) v) = Some (v mod 16 ^ Suc n)"
proof -
  obtain c cs where h: "hexn (Suc n) v = c # cs" by (metis hexn_length length_Suc_conv)
  have "c \<noteq> CHR ''+''" using hexn_chars [of c "Suc n" v] hex_char_plain unfolding h by (metis list.set_intros(1))
  then show ?thesis using hex_value_hexn [of "Suc n" v] h by (simp add: parse_hex_def Let_def)
qed

lemma hex_char_hex: "hex n = (if n < 16 then [hex_char n] else hex (n div 16) @ [hex_char (n mod 16)])"
  by (subst hex.simps) (simp add: hex_char_def Let_def)

lemma hexn_zero: "hexn m 0 = replicate m CHR ''0''"
proof (induction m)
  case (Suc m)
  have "hex_char 0 = CHR ''0''" by code_simp
  then show ?case using Suc by (simp add: replicate_append_same)
qed simp

lemma hexn_hex: "\<lbrakk>n < 16 ^ m; 0 < m\<rbrakk> \<Longrightarrow> hexn m n = replicate (m - length (hex n)) CHR ''0'' @ hex n"
proof (induction m arbitrary: n)
  case (Suc m)
  show ?case
  proof (cases "n < 16")
    case True
    then show ?thesis by (simp add: hex_char_hex [of n] hexn_zero)
  next
    case False
    then have "0 < m" using Suc.prems(1) by (cases m) auto
    moreover have "n div 16 < 16 ^ m" using Suc.prems(1) by (simp add: less_mult_imp_div_less mult.commute)
    ultimately show ?thesis using Suc.IH False by (simp add: hex_char_hex [of n])
  qed
qed simp

subsection \<open>Pieces of a text\<close>

lemma split_on_hd: "split_once [c] s = Some (a, b) \<Longrightarrow> hd (split_on c s) = a"
proof (induction s arbitrary: a)
  case (Cons x s)
  then show ?case by (auto simp: starts_with_def split: if_splits option.splits list.splits)
qed (simp split: if_splits)

lemma split_on_none: "c \<notin> set s \<Longrightarrow> split_on c s = [s]"
  by (induction s) auto

end
