(* ===== verification/Policy.thy ===== *)
theory Policy
  imports Texts
begin

text \<open>
  The network policy and the request heads it is applied to, the first half of
  \<open>engine/src/http.rs\<close>. \<open>str::to_lowercase\<close> maps by the Unicode tables, which are
  data of the standard library: it is the parameter \<open>lc\<close> of the definitions, and what is
  relied on is that it maps an ASCII string letter by letter (\<open>lowercases\<close>).
\<close>

definition lowercases :: "(string \<Rightarrow> string) \<Rightarrow> bool" where
  "lowercases lc \<longleftrightarrow> (\<forall>s. list_all ascii s \<longrightarrow> lc s = map ascii_lower s)"

lemma lowercases_ascii: "lowercases (map ascii_lower)"
  by (simp add: lowercases_def)

subsection \<open>The policy\<close>

record secret =
  sec_host :: string
  sec_header :: string
  sec_value :: string

record policy =
  p_allow :: "string list"
  p_deny :: "string list"
  p_allow_loopback :: bool
  p_secrets :: "secret list"
  p_extra_headers :: "string list"
  p_addon_headers :: "string list"
  p_addon_secrets :: "secret list"
  p_ask :: bool
  p_skip_tls_verify :: bool

definition policy_default :: policy where
  "policy_default =
     \<lparr>p_allow = [''*''], p_deny = [], p_allow_loopback = False, p_secrets = [], p_extra_headers = [],
      p_addon_headers = [], p_addon_secrets = [], p_ask = False, p_skip_tls_verify = False\<rparr>"

definition DEFAULT_ALLOWED_HEADERS :: "string list" where
  "DEFAULT_ALLOWED_HEADERS = [''accept'', ''content-type'', ''authorization'', ''x-api-key'']"

definition TLS_VERIFY_HEADER :: string where "TLS_VERIFY_HEADER = ''x-collabo-tls-verify''"

definition METHODS :: "string list" where
  "METHODS = [''GET'', ''HEAD'', ''POST'', ''PUT'', ''PATCH'', ''DELETE'', ''OPTIONS'']"

abbreviation MAX_HEAD_BYTES :: nat where "MAX_HEAD_BYTES \<equiv> 16384"
abbreviation MAX_REQUEST_BODY :: nat where "MAX_REQUEST_BODY \<equiv> 33554432"

definition host_matches :: "(string \<Rightarrow> string) \<Rightarrow> string \<Rightarrow> string \<Rightarrow> bool" where
  "host_matches lc pattern h =
     (let host = lc (trim_end_matches (\<lambda>c. c = CHR ''.'') h) in
      if pattern = ''*'' then True
      else case strip_prefix ''*.'' pattern of
          Some suffix \<Rightarrow> length host > length suffix \<and> ends_with (''.'' @ suffix) host
        | None \<Rightarrow> host = pattern)"

definition is_loopback :: "(string \<Rightarrow> string) \<Rightarrow> string \<Rightarrow> bool" where
  "is_loopback lc h =
     (let host = lc (trim_end_matches (\<lambda>c. c = CHR ''.'') (trim_matches (\<lambda>c. c = CHR ''['' \<or> c = CHR '']'') h)) in
      host = ''localhost'' \<or> ends_with ''.localhost'' host \<or> host = ''::1'' \<or> host = ''::'' \<or> host = ''0.0.0.0'' \<or>
      hd (split_on CHR ''.'' host) = ''127'' \<and> length (split_on CHR ''.'' host) = 4 \<and>
      list_all (\<lambda>part. parse_uint 255 part \<noteq> None) (split_on CHR ''.'' host))"

definition quoted :: "string \<Rightarrow> string" where
  "quoted s = CHR 0x22 # s @ [CHR 0x22]"

definition refuses_host :: "(string \<Rightarrow> string) \<Rightarrow> policy \<Rightarrow> string \<Rightarrow> string option" where
  "refuses_host lc p host =
     (case find (\<lambda>rule. host_matches lc rule host) (p_deny p) of
        Some rule \<Rightarrow> Some (quoted host @ '' matches the deny rule '' @ quoted rule)
      | None \<Rightarrow>
          if list_ex (\<lambda>rule. host_matches lc rule host) (p_allow p) then None
          else Some (quoted host @ '' is not in the allow list''))"

definition unlisted :: "(string \<Rightarrow> string) \<Rightarrow> policy \<Rightarrow> string \<Rightarrow> bool" where
  "unlisted lc p host \<longleftrightarrow> \<not> is_loopback lc host \<and>
     \<not> list_ex (\<lambda>rule. host_matches lc rule host) (p_deny p) \<and>
     \<not> list_ex (\<lambda>rule. host_matches lc rule host) (p_allow p)"

definition refuses :: "(string \<Rightarrow> string) \<Rightarrow> policy \<Rightarrow> string \<Rightarrow> string option" where
  "refuses lc p host =
     map_option (\<lambda>reason. ''blocked by the network policy: '' @ reason)
      (if is_loopback lc host \<and> \<not> p_allow_loopback p
       then Some (quoted host @ '' is this computer (allowHostLoopback is off)'')
       else case find (\<lambda>rule. host_matches lc rule host) (p_deny p) of
           Some rule \<Rightarrow> Some (quoted host @ '' matches the deny rule '' @ quoted rule)
         | None \<Rightarrow>
             if \<not> list_ex (\<lambda>rule. host_matches lc rule host) (p_allow p)
             then Some (quoted host @ '' is not in the allow list'') else None)"

definition secrets_for :: "(string \<Rightarrow> string) \<Rightarrow> policy \<Rightarrow> bool \<Rightarrow> string \<Rightarrow> secret list" where
  "secrets_for lc p https host =
     (if \<not> https then []
      else let matching = filter (\<lambda>s. host_matches lc (sec_host s) host) (p_secrets p);
               addon = filter (\<lambda>s. host_matches lc (sec_host s) host) (p_addon_secrets p)
           in matching @ filter (\<lambda>s. \<not> list_ex (\<lambda>own. sec_header own = sec_header s) matching) addon)"

definition has_secret_for :: "(string \<Rightarrow> string) \<Rightarrow> policy \<Rightarrow> string \<Rightarrow> bool" where
  "has_secret_for lc p host \<longleftrightarrow>
     list_ex (\<lambda>s. host_matches lc (sec_host s) host) (p_secrets p @ p_addon_secrets p)"

definition allows_header :: "policy \<Rightarrow> string \<Rightarrow> bool" where
  "allows_header p name \<longleftrightarrow> name \<in> set DEFAULT_ALLOWED_HEADERS \<or>
     list_ex (\<lambda>allowed. allowed = name) (p_extra_headers p @ p_addon_headers p)"

definition redact :: "policy \<Rightarrow> string \<Rightarrow> string" where
  "redact p text =
     fold (\<lambda>s out. if 4 \<le> length (sec_value s) then replace_all (sec_value s) ''[secret]'' out else out)
       (p_secrets p @ p_addon_secrets p) text"

subsection \<open>Request heads\<close>

type_synonym bridge_error = "string \<times> string"

record request =
  rq_method :: string
  rq_url :: string
  rq_host :: string
  rq_https :: bool
  rq_headers :: "(string \<times> string) list"
  rq_content_length :: nat
  rq_verify_tls :: bool

fun take_chars :: "nat \<Rightarrow> string \<Rightarrow> string" where
  "take_chars 0 s = []"
| "take_chars (Suc n) s =
     (if s = [] then []
      else let w = snd (utf8_next (map of_char s)) in take w s @ take_chars n (drop w s))"

definition one_line :: "string \<Rightarrow> string" where
  "one_line text = take_chars 500 (map (\<lambda>c. if c = CR \<or> c = LF \<or> c = NUL then CHR '' '' else c) text)"

definition token_char :: "char \<Rightarrow> bool" where
  "token_char c \<longleftrightarrow> ascii_alnum c \<or> c \<in> set ''!#$%&*+.^_`|~-'' \<or> c = CHR 0x27"

definition is_token :: "string \<Rightarrow> bool" where
  "is_token name \<longleftrightarrow> name \<noteq> [] \<and> list_all token_char name"

definition split_url :: "(string \<Rightarrow> string) \<Rightarrow> string \<Rightarrow> bridge_error + (string \<times> bool)" where
  "split_url lc url =
     (case split_once ''://'' url of
        None \<Rightarrow> Inl (''bad-request'', ''invalid URL: '' @ one_line url)
      | Some (scheme, rest) \<Rightarrow>
          let scheme = lc scheme in
          if scheme \<noteq> ''https'' \<and> scheme \<noteq> ''http'' then
            Inl (''scheme-not-allowed'', ''only http: and https: URLs are allowed, not '' @ scheme @ '':'')
          else
            let https = (scheme = ''https'');
                authority = hd (split_by (\<lambda>c. c \<in> set ''/?#'') rest) in
            if CHR ''@'' \<in> set authority then
              Inl (''bad-request'', ''credentials in the URL are not allowed; use the authorization header'')
            else
              let host =
                (case strip_prefix ''['' authority of
                   Some rest \<Rightarrow>
                     (case split_once '']'' rest of
                        Some (inside, _) \<Rightarrow> Inr inside
                      | None \<Rightarrow> Inl (''bad-request'', ''invalid IPv6 host''))
                 | None \<Rightarrow> Inr (hd (split_on CHR '':'' authority))) in
              case host of
                Inl e \<Rightarrow> Inl e
              | Inr host \<Rightarrow>
                  if host = [] then Inl (''bad-request'', ''invalid URL: '' @ one_line url)
                  else Inr (host, https))"

record head_state =
  hs_headers :: "(string \<times> string) list"
  hs_content_length :: nat
  hs_saw_length :: bool
  hs_verify_tls :: bool

definition parse_line :: "(string \<Rightarrow> string) \<Rightarrow> policy \<Rightarrow> head_state \<Rightarrow> string \<Rightarrow> bridge_error + head_state" where
  "parse_line lc p st line =
     (if line = [] then Inr st
      else case split_once '':'' line of
          None \<Rightarrow> Inl (''bad-request'', ''malformed header line: '' @ one_line line)
        | Some (name0, value0) \<Rightarrow>
            let name = lc name0; v = trim_matches (\<lambda>c. c = CHR '' '' \<or> c = TAB) value0 in
            if \<not> is_token name then Inl (''bad-request'', ''invalid header name: '' @ one_line name)
            else if NUL \<in> set v then Inl (''bad-request'', ''invalid header value for '' @ name)
            else if name = ''content-length'' then
              (if hs_saw_length st then Inl (''bad-request'', ''duplicate content-length'')
               else case parse_uint (2 ^ 64 - 1) v of
                   Some len \<Rightarrow>
                     if length v \<le> 15 then Inr (st\<lparr>hs_saw_length := True, hs_content_length := len\<rparr>)
                     else Inl (''bad-request'', ''invalid content-length'')
                 | None \<Rightarrow> Inl (''bad-request'', ''invalid content-length''))
            else if name = TLS_VERIFY_HEADER then
              (if v = ''true'' then Inr (st\<lparr>hs_verify_tls := True\<rparr>)
               else if v = ''false'' then Inr (st\<lparr>hs_verify_tls := False\<rparr>)
               else Inl (''bad-request'', TLS_VERIFY_HEADER @ '' is true or false, not '' @ one_line v))
            else if \<not> allows_header p name then
              Inl (''header-not-allowed'', ''request header '' @ quoted name @ '' is not allowed'')
            else Inr (st\<lparr>hs_headers := hs_headers st @ [(name, v)]\<rparr>))"

fun parse_lines :: "(string \<Rightarrow> string) \<Rightarrow> policy \<Rightarrow> head_state \<Rightarrow> string list \<Rightarrow> bridge_error + head_state" where
  "parse_lines lc p st [] = Inr st"
| "parse_lines lc p st (line # rest) =
     (case parse_line lc p st line of Inl e \<Rightarrow> Inl e | Inr st1 \<Rightarrow> parse_lines lc p st1 rest)"

definition parse_head :: "(string \<Rightarrow> string) \<Rightarrow> string \<Rightarrow> policy \<Rightarrow> bridge_error + request" where
  "parse_head lc text p =
     (if CR \<in> set text then Inl (''bad-request'', ''lines must end with LF, not CRLF'')
      else
        let parts = split_on LF text; first = hd parts; rest = tl parts in
        case split_once '' '' first of
          None \<Rightarrow> Inl (''bad-request'', ''first line must be: METHOD URL'')
        | Some (method, target) \<Rightarrow>
            if method \<notin> set METHODS then
              Inl (''bad-request'', ''method '' @ one_line method @ '' is not supported ('' @ join_with '', '' METHODS @ '')'')
            else
              case split_url lc target of
                Inl e \<Rightarrow> Inl e
              | Inr (host, https) \<Rightarrow>
                  (case parse_lines lc p \<lparr>hs_headers = [], hs_content_length = 0, hs_saw_length = False, hs_verify_tls = True\<rparr> rest of
                     Inl e \<Rightarrow> Inl e
                   | Inr st \<Rightarrow>
                       if (method = ''GET'' \<or> method = ''HEAD'') \<and> hs_content_length st > 0 then
                         Inl (''bad-request'', method @ '' requests cannot have a body'')
                       else if hs_content_length st > MAX_REQUEST_BODY then
                         Inl (''request-too-large'', ''request body of '' @ decimal (hs_content_length st) @ '' bytes exceeds the limit'')
                       else Inr \<lparr>rq_method = method, rq_url = target, rq_host = host, rq_https = https,
                                 rq_headers = hs_headers st, rq_content_length = hs_content_length st,
                                 rq_verify_tls = hs_verify_tls st\<rparr>))"

definition parse_secret :: "(string \<Rightarrow> string) \<Rightarrow> string \<Rightarrow> string + secret" where
  "parse_secret lc spec =
     (case split_once '':'' spec of
        None \<Rightarrow> Inl (''a secret looks like HOST:HEADER=VALUE, got '' @ spec)
      | Some (host, rest) \<Rightarrow>
          (case split_once ''='' rest of
             None \<Rightarrow> Inl (''a secret looks like HOST:HEADER=VALUE, got '' @ spec)
           | Some (header0, v) \<Rightarrow>
               let header = lc header0 in
               if \<not> is_token header \<or> CR \<in> set v \<or> LF \<in> set v
               then Inl (header @ '' is not a valid header name for a secret'')
               else Inr \<lparr>sec_host = lc host, sec_header = header, sec_value = v\<rparr>))"

subsection \<open>Replacement and redaction\<close>

lemma replace_all_set: "set (replace_all pat t s) \<subseteq> set s \<union> set t"
proof (induction pat t s rule: replace_all.induct)
  case (2 pat t c cs)
  have "set (drop (length pat) (c # cs)) \<subseteq> set (c # cs)" by (rule set_drop_subset)
  then show ?case using 2 by auto
qed simp

lemma redact_fold_set:
  "set (fold (\<lambda>s out. if 4 \<le> length (sec_value s) then replace_all (sec_value s) ''[secret]'' out else out) ss t)
     \<subseteq> set t \<union> set ''[secret]''"
proof (induction ss arbitrary: t)
  case (Cons s ss)
  have "set (if 4 \<le> length (sec_value s) then replace_all (sec_value s) ''[secret]'' t else t) \<subseteq> set t \<union> set ''[secret]''"
    using replace_all_set [of "sec_value s" "''[secret]''" t] by auto
  then show ?case using Cons [of "if 4 \<le> length (sec_value s) then replace_all (sec_value s) ''[secret]'' t else t"]
    by auto
qed auto

lemma redact_set: "set (redact p t) \<subseteq> set t \<union> set ''[secret]''"
  unfolding redact_def by (rule redact_fold_set)

lemma take_chars_set: "c \<in> set (take_chars n s) \<Longrightarrow> c \<in> set s"
proof (induction n s rule: take_chars.induct)
  case (2 n s)
  then show ?case by (auto simp: Let_def split: if_splits dest: in_set_takeD in_set_dropD)
qed simp

definition unbreak :: "char \<Rightarrow> char" where
  "unbreak c = (if c = CR \<or> c = LF \<or> c = NUL then CHR '' '' else c)"

lemma unbreak_clean: "unbreak c \<noteq> CR \<and> unbreak c \<noteq> LF \<and> unbreak c \<noteq> NUL"
  by (simp add: unbreak_def CR_def LF_def NUL_def)

lemma one_line_clean: "CR \<notin> set (one_line t) \<and> LF \<notin> set (one_line t) \<and> NUL \<notin> set (one_line t)"
proof -
  have "one_line t = take_chars 500 (map unbreak t)"
    by (simp add: one_line_def unbreak_def [abs_def])
  then have "c \<in> unbreak ` set t" if "c \<in> set (one_line t)" for c
    using that take_chars_set [of c 500 "map unbreak t"] by simp
  then show ?thesis using unbreak_clean by (metis imageE)
qed

lemma message_clean:
  "CR \<notin> set (redact p (one_line t)) \<and> LF \<notin> set (redact p (one_line t)) \<and> NUL \<notin> set (redact p (one_line t))"
  using redact_set [of p "one_line t"] one_line_clean [of t] by (auto simp: CR_def LF_def NUL_def)

text \<open>Does a text occur in another one?\<close>

definition occurs :: "string \<Rightarrow> string \<Rightarrow> bool" where
  "occurs pat s \<longleftrightarrow> (\<exists>a b. s = a @ pat @ b)"

lemma occurs_Cons: "pat \<noteq> [] \<Longrightarrow> occurs pat (c # s) \<longleftrightarrow> starts_with pat (c # s) \<or> occurs pat s"
  unfolding occurs_def starts_with_iff by (metis append_Cons append_Nil list.sel(3) neq_Nil_conv tl_append2)

lemma occurs_barrier:
  "\<lbrakk>pat \<noteq> []; z \<notin> set pat; occurs pat (m @ z # s)\<rbrakk> \<Longrightarrow> occurs pat m \<or> occurs pat s"
proof (induction m)
  case Nil
  have "\<not> starts_with pat (z # s)" using Nil.prems(1,2) by (cases pat) (auto simp: starts_with_def)
  then show ?case using Nil occurs_Cons [of pat z s] by simp
next
  case (Cons x m)
  show ?case
  proof (cases "starts_with pat (x # m @ z # s)")
    case True
    then obtain r where r: "(x # m) @ z # s = pat @ r" by (auto simp: starts_with_iff)
    obtain u where "x # m = pat @ u"
      using r Cons.prems(2) by (auto simp: append_eq_append_conv2 Cons_eq_append_conv)
    then show ?thesis unfolding occurs_def by (metis append_Nil)
  next
    case False
    then have "occurs pat m \<or> occurs pat s" using Cons occurs_Cons [of pat x "m @ z # s"] by simp
    then show ?thesis using occurs_Cons [OF Cons.prems(1)] by blast
  qed
qed

text \<open>A replacement delimited by two characters that the text sought has not, and that does not contain it.\<close>

definition marks :: "string \<Rightarrow> string \<Rightarrow> bool" where
  "marks t pat \<longleftrightarrow> (\<exists>a m z. t = a # m @ [z] \<and> a \<notin> set pat \<and> z \<notin> set pat \<and> \<not> occurs pat m)"

lemma occurs_skip:
  assumes "pat \<noteq> []" "marks t pat" "occurs pat (t @ s)"
  shows "occurs pat s"
proof -
  obtain a m z where t: "t = a # m @ [z]" "a \<notin> set pat" "z \<notin> set pat" "\<not> occurs pat m"
    using assms(2) by (auto simp: marks_def)
  have "occurs pat [] \<or> occurs pat (m @ z # s)"
    using occurs_barrier [OF assms(1) t(2), of "[]" "m @ z # s"] assms(3) t(1) by simp
  then show ?thesis
    using occurs_barrier [OF assms(1) t(3), of m s] t(4) assms(1) by (auto simp: occurs_def)
qed

lemma replace_all_prefix:
  "\<lbrakk>replace_all pat t s = w @ r; t \<noteq> []; hd t \<notin> set w\<rbrakk> \<Longrightarrow> \<exists>r'. s = w @ r'"
proof (induction pat t s arbitrary: w rule: replace_all.induct)
  case (1 pat t)
  then show ?case by simp
next
  case (2 pat t c cs)
  show ?case
  proof (cases w)
    case Nil
    then show ?thesis by simp
  next
    case (Cons d w')
    obtain a t' where t: "t = a # t'" using "2.prems"(2) by (cases t) auto
    then have not: "\<not> (pat \<noteq> [] \<and> starts_with pat (c # cs))"
      using "2.prems"(1,3) Cons by auto
    then have eq: "c # replace_all pat t cs = w @ r"
      using "2.prems"(1) by (simp only: replace_all.simps if_False)
    then have "\<exists>r'. cs = w' @ r'"
      using "2.IH"(2) [OF not, of w'] "2.prems"(2,3) Cons by auto
    then show ?thesis using eq Cons by auto
  qed
qed

lemma replace_all_occurs:
  "\<lbrakk>pat \<noteq> []; marks t pat; occurs pat (replace_all v t s)\<rbrakk> \<Longrightarrow> occurs pat s \<and> (v = pat \<longrightarrow> False)"
proof (induction v t s rule: replace_all.induct)
  case (1 v t)
  then show ?case by (simp add: occurs_def)
next
  case (2 v t c cs)
  show ?case
  proof (cases "v \<noteq> [] \<and> starts_with v (c # cs)")
    case True
    let ?rest = "drop (length v) (c # cs)"
    have "replace_all v t (c # cs) = t @ replace_all v t ?rest"
      using True by (simp only: replace_all.simps simp_thms if_True)
    then have "occurs pat (replace_all v t ?rest)" using occurs_skip "2.prems" by metis
    then have "occurs pat ?rest \<and> (v = pat \<longrightarrow> False)" using "2.IH"(1) [OF True] "2.prems" by blast
    then show ?thesis unfolding occurs_def by (metis append.assoc append_take_drop_id)
  next
    case False
    have eq: "replace_all v t (c # cs) = c # replace_all v t cs"
      using False by (simp only: replace_all.simps if_False)
    show ?thesis
    proof (cases "starts_with pat (c # replace_all v t cs)")
      case True
      then obtain pat' r where p: "pat = c # pat'" "replace_all v t cs = pat' @ r"
        using "2.prems"(1) by (cases pat) (auto simp: starts_with_iff)
      have t: "t \<noteq> []" "hd t \<notin> set pat'" using "2.prems"(2) p(1) by (auto simp: marks_def)
      obtain r' where "cs = pat' @ r'" using replace_all_prefix [OF p(2) t] by blast
      then have st: "starts_with pat (c # cs)" using p(1) by (auto simp: starts_with_iff)
      then have "occurs pat (c # cs)" using occurs_Cons [OF "2.prems"(1)] by blast
      then show ?thesis using False st "2.prems"(1) by auto
    next
      case ns: False
      then have "occurs pat (replace_all v t cs)" using "2.prems"(3) eq occurs_Cons [OF "2.prems"(1)] by simp
      then show ?thesis using "2.IH"(2) [OF False "2.prems"(1,2)] occurs_Cons [OF "2.prems"(1)] by blast
    qed
  qed
qed

lemma redact_gone:
  assumes "s \<in> set (p_secrets p @ p_addon_secrets p)" "4 \<le> length (sec_value s)" "marks ''[secret]'' (sec_value s)"
  shows "\<not> occurs (sec_value s) (redact p text)"
proof -
  let ?step = "\<lambda>s out. if 4 \<le> length (sec_value s) then replace_all (sec_value s) ''[secret]'' out else out"
  have ne: "sec_value s \<noteq> []" using assms(2) by auto
  have keep: "\<not> occurs (sec_value s) out \<Longrightarrow> \<not> occurs (sec_value s) (fold ?step ss out)" for ss out
  proof (induction ss arbitrary: out)
    case (Cons s' ss)
    have "\<not> occurs (sec_value s) (?step s' out)"
      using replace_all_occurs [OF ne assms(3), of "sec_value s'" out] Cons.prems by auto
    then show ?case using Cons.IH by simp
  qed simp
  have "s \<in> set ss \<Longrightarrow> \<not> occurs (sec_value s) (fold ?step ss out)" for ss out
  proof (induction ss arbitrary: out)
    case (Cons s' ss)
    show ?case
    proof (cases "s' = s")
      case True
      have "\<not> occurs (sec_value s) (?step s out)"
        using replace_all_occurs [OF ne assms(3), of "sec_value s" out] assms(2) by auto
      then show ?thesis using keep [of "?step s out" ss] True by simp
    next
      case False
      then show ?thesis using Cons by simp
    qed
  qed simp
  then show ?thesis using assms(1) unfolding redact_def by blast
qed

subsection \<open>Addresses as text\<close>

lemma split_join:
  "\<lbrakk>parts \<noteq> []; \<forall>part\<in>set parts. c \<notin> set part\<rbrakk> \<Longrightarrow> split_on c (join_with [c] parts) = parts"
proof (induction "[c]" parts rule: join_with.induct)
  case (2 s)
  then have "c \<notin> set s" by simp
  then show ?case by (induction s) auto
next
  case (3 s t rest)
  have tail: "split_on c (join_with [c] (t # rest)) = t # rest" using 3 by simp
  have "split_on c (s @ [c] @ join_with [c] (t # rest)) = s # split_on c (join_with [c] (t # rest))"
    using 3(3) by (induction s) auto
  then show ?case using tail by simp
qed simp

lemma digit_not_dot: "ascii_digit c \<Longrightarrow> c \<noteq> CHR ''.'' \<and> c \<noteq> CHR ''['' \<and> c \<noteq> CHR '']'' \<and> ascii_lower c = c \<and> ascii c"
  by (auto simp: ascii_digit_def ascii_lower_def ascii_def)

lemma decimal_chars: "c \<in> set (decimal n) \<Longrightarrow> ascii_digit c"
  using decimal_digits [of n] by (auto simp: list_all_iff)

definition octets :: "u32 \<Rightarrow> nat list" where
  "octets ip = map unat (u32_be ip)"

lemma octets_four: "length (octets ip) = 4" "\<forall>n\<in>set (octets ip). n < 256"
  by (auto simp: octets_def)

lemma dotted_octets: "dotted ip = join_with ''.'' (map decimal (octets ip))"
  by (simp add: dotted_def octets_def comp_def)

lemma split_dotted: "split_on CHR ''.'' (dotted ip) = map decimal (octets ip)"
  unfolding dotted_octets
  by (rule split_join) (use octets_four(1) [of ip] decimal_chars digit_not_dot in \<open>auto dest!: arg_cong [where f = length]\<close>)

lemma four: "length xs = 4 \<Longrightarrow> \<exists>a b c d. xs = [a, b, c, d]"
  by (auto simp: numeral_eq_Suc length_Suc_conv)

lemma dotted_four: "\<exists>a b c d. octets ip = [a, b, c, d] \<and> dotted ip = decimal a @ ''.'' @ decimal b @ ''.'' @ decimal c @ ''.'' @ decimal d"
  using four [OF octets_four(1) [of ip]] by (auto simp: dotted_octets)

lemma dotted_chars: "c \<in> set (dotted ip) \<Longrightarrow> ascii_digit c \<or> c = CHR ''.''"
  using dotted_four [of ip] decimal_chars by auto

lemma trim_end_digit: "ascii_digit (last s) \<Longrightarrow> s \<noteq> [] \<Longrightarrow> trim_end_matches (\<lambda>c. c = CHR ''.'') s = s"
  by (cases s rule: rev_cases) (auto simp: trim_end_matches_def dest: digit_not_dot)

lemma dropWhile_none: "\<forall>c\<in>set s. \<not> P c \<Longrightarrow> dropWhile P s = s"
  by (cases s) auto

lemma normal_dotted:
  assumes "lowercases lc"
  shows "lc (trim_end_matches (\<lambda>c. c = CHR ''.'') (dotted ip)) = dotted ip"
    "lc (trim_end_matches (\<lambda>c. c = CHR ''.'') (trim_matches (\<lambda>c. c = CHR ''['' \<or> c = CHR '']'') (dotted ip))) = dotted ip"
proof -
  obtain a b c d where o: "dotted ip = decimal a @ ''.'' @ decimal b @ ''.'' @ decimal c @ ''.'' @ decimal d"
    using dotted_four by blast
  have last: "ascii_digit (last (dotted ip))" "dotted ip \<noteq> []"
    using decimal_nonempty [of d] decimal_chars [of "last (decimal d)" d] by (auto simp: o)
  have nb: "\<forall>c\<in>set (dotted ip). \<not> (c = CHR ''['' \<or> c = CHR '']'')"
    using dotted_chars digit_not_dot by fastforce
  have tm: "trim_matches (\<lambda>c. c = CHR ''['' \<or> c = CHR '']'') (dotted ip) = dotted ip"
    using dropWhile_none [OF nb] dropWhile_none [of "rev (dotted ip)" "\<lambda>c. c = CHR ''['' \<or> c = CHR '']''"] nb
    by (simp add: trim_matches_def trim_end_matches_def)
  have "list_all ascii (dotted ip)" "map ascii_lower (dotted ip) = dotted ip"
    using dotted_chars digit_not_dot
    by (fastforce simp: list_all_iff ascii_def, intro map_idI) (fastforce simp: ascii_lower_def)
  then have "lc (dotted ip) = dotted ip" using assms by (simp add: lowercases_def)
  then show "lc (trim_end_matches (\<lambda>c. c = CHR ''.'') (dotted ip)) = dotted ip"
    "lc (trim_end_matches (\<lambda>c. c = CHR ''.'') (trim_matches (\<lambda>c. c = CHR ''['' \<or> c = CHR '']'') (dotted ip))) = dotted ip"
    using trim_end_digit [OF last] tm by simp_all
qed

lemma decimal_inject: "decimal m = decimal n \<longleftrightarrow> m = n"
  by (metis digits_value_decimal)

lemma loopback_dotted:
  assumes "lowercases lc"
  shows "is_loopback lc (dotted ip) \<longleftrightarrow> hd (octets ip) = 127 \<or> octets ip = [0, 0, 0, 0]"
proof -
  obtain a b c d where o: "octets ip = [a, b, c, d]" "dotted ip = decimal a @ ''.'' @ decimal b @ ''.'' @ decimal c @ ''.'' @ decimal d"
    using dotted_four by blast
  have lt: "a \<le> 255" "b \<le> 255" "c \<le> 255" "d \<le> 255" using octets_four(2) [of ip] o(1) by auto
  have first: "ascii_digit (hd (dotted ip))" "ascii_digit (last (dotted ip))" "dotted ip \<noteq> []"
    using decimal_nonempty [of a] decimal_nonempty [of d] decimal_chars [of "hd (decimal a)" a] decimal_chars [of "last (decimal d)" d]
    by (auto simp: o(2))
  have "dotted ip \<noteq> ''localhost''" "dotted ip \<noteq> ''::1''" "dotted ip \<noteq> ''::''"
    using first by (auto simp: ascii_digit_def)
  moreover have "\<not> ends_with ''.localhost'' (dotted ip)"
    using first(2) by (auto simp: ends_with_iff ascii_digit_def)
  moreover have "dotted ip = ''0.0.0.0'' \<longleftrightarrow> octets ip = [0, 0, 0, 0]"
  proof
    assume "dotted ip = ''0.0.0.0''"
    moreover have "decimal 0 = ''0''" by code_simp
    moreover have "split_on CHR ''.'' ''0.0.0.0'' = [''0'', ''0'', ''0'', ''0'']" by simp
    ultimately have "decimal a = decimal 0 \<and> decimal b = decimal 0 \<and> decimal c = decimal 0 \<and> decimal d = decimal 0"
      using split_dotted [of ip] o(1) by auto
    then show "octets ip = [0, 0, 0, 0]" using o(1) by (simp add: decimal_inject)
  next
    assume "octets ip = [0, 0, 0, 0]"
    moreover have "decimal 0 = ''0''" by code_simp
    ultimately show "dotted ip = ''0.0.0.0''" by (simp add: dotted_octets)
  qed
  moreover have "decimal a = ''127'' \<longleftrightarrow> a = 127"
  proof -
    have "decimal 127 = ''127''" by code_simp
    then show ?thesis by (metis decimal_inject)
  qed
  ultimately show ?thesis
    using lt by (simp add: is_loopback_def normal_dotted [OF assms] split_dotted o(1) parse_decimal) blast
qed

subsection \<open>Accepted heads\<close>

definition head_ok :: "policy \<Rightarrow> head_state \<Rightarrow> bool" where
  "head_ok p st \<longleftrightarrow> list_all (\<lambda>(name, v). is_token name \<and> allows_header p name \<and> NUL \<notin> set v) (hs_headers st)"

lemma parse_line_ok: "parse_line lc p st line = Inr st' \<Longrightarrow> head_ok p st \<Longrightarrow> head_ok p st'"
  by (auto simp: parse_line_def head_ok_def Let_def split: if_splits option.splits)

lemma trim_matches_set: "c \<in> set (trim_matches P s) \<Longrightarrow> c \<in> set s"
  by (metis set_dropWhileD set_rev trim_end_matches_def trim_matches_def)

lemma parse_line_values:
  assumes "parse_line lc p st line = Inr st'" "C \<notin> set line" "\<forall>(name, v)\<in>set (hs_headers st). C \<notin> set v"
  shows "\<forall>(name, v)\<in>set (hs_headers st'). C \<notin> set v"
proof (cases "line = []")
  case True
  then show ?thesis using assms by (simp add: parse_line_def)
next
  case False
  then obtain n v where s: "split_once '':'' line = Some (n, v)"
    using assms(1) by (auto simp: parse_line_def split: option.splits)
  have "C \<notin> set v" using split_once_some [OF s] assms(2) by auto
  then have "C \<notin> set (trim_matches P v)" for P using trim_matches_set by blast
  then show ?thesis
    using assms(1,3) False s by (auto simp: parse_line_def Let_def split: if_splits option.splits)
qed

lemma parse_lines_ok:
  "\<lbrakk>parse_lines lc p st lines = Inr st'; head_ok p st; \<forall>line\<in>set lines. C \<notin> set line;
    \<forall>(name, v)\<in>set (hs_headers st). C \<notin> set v\<rbrakk>
   \<Longrightarrow> head_ok p st' \<and> (\<forall>(name, v)\<in>set (hs_headers st'). C \<notin> set v)"
proof (induction lines arbitrary: st)
  case (Cons line lines)
  obtain st1 where l: "parse_line lc p st line = Inr st1" "parse_lines lc p st1 lines = Inr st'"
    using Cons.prems(1) by (auto split: sum.splits)
  have "C \<notin> set line" using Cons.prems(3) by simp
  from parse_line_values [OF l(1) this Cons.prems(4)] show ?case
    using Cons.IH [OF l(2) parse_line_ok [OF l(1) Cons.prems(2)]] Cons.prems(3) by simp
qed simp

lemma split_by_chars: "\<lbrakk>part \<in> set (split_by P t); c \<in> set part\<rbrakk> \<Longrightarrow> c \<in> set t"
  by (induction t arbitrary: part) (fastforce split: if_splits list.splits)+

lemma split_by_hd: "\<exists>rest. t = hd (split_by P t) @ rest"
  by (induction t) (auto split: list.splits)

lemma split_url_host:
  assumes "split_url lc url = Inr (host, https)"
  shows "host \<noteq> [] \<and> (\<exists>scheme authority rest. url = scheme @ ''://'' @ authority @ rest \<and>
    lc scheme = (if https then ''https'' else ''http'') \<and> CHR ''@'' \<notin> set authority \<and>
    (\<forall>c\<in>set authority. c \<notin> set ''/?#'') \<and> (\<exists>b a. authority = b @ host @ a))"
proof -
  obtain scheme rest where s: "split_once ''://'' url = Some (scheme, rest)"
    using assms by (auto simp: split_url_def split: option.splits)
  define authority where "authority = hd (split_by (\<lambda>c. c \<in> set ''/?#'') rest)"
  have "authority \<in> set (split_by (\<lambda>c. c \<in> set ''/?#'') rest)"
    unfolding authority_def by (rule hd_in_set) (rule split_by_nonempty)
  then have a: "\<forall>c\<in>set authority. c \<notin> set ''/?#''" by (rule split_by_parts)
  obtain rest' where r: "rest = authority @ rest'"
    using split_by_hd [of rest "\<lambda>c. c \<in> set ''/?#''"] unfolding authority_def by (elim exE)
  define found :: "bridge_error + string" where "found = (case strip_prefix ''['' authority of
      Some rest \<Rightarrow> (case split_once '']'' rest of Some (inside, _) \<Rightarrow> Inr inside | None \<Rightarrow> Inl (''bad-request'', ''invalid IPv6 host''))
    | None \<Rightarrow> Inr (hd (split_on CHR '':'' authority)))"
  have eq: "split_url lc url =
     (if lc scheme \<noteq> ''https'' \<and> lc scheme \<noteq> ''http'' then
        Inl (''scheme-not-allowed'', ''only http: and https: URLs are allowed, not '' @ lc scheme @ '':'')
      else if CHR ''@'' \<in> set authority then
        Inl (''bad-request'', ''credentials in the URL are not allowed; use the authorization header'')
      else case found of
          Inl e \<Rightarrow> Inl e
        | Inr host \<Rightarrow>
            if host = [] then Inl (''bad-request'', ''invalid URL: '' @ one_line url) else Inr (host, lc scheme = ''https''))"
    unfolding split_url_def s option.case prod.case Let_def authority_def found_def by (rule refl)
  have sch: "lc scheme = (if https then ''https'' else ''http'')" "CHR ''@'' \<notin> set authority" "host \<noteq> []" "found = Inr host"
  proof -
    have "lc scheme = ''https'' \<or> lc scheme = ''http''" "CHR ''@'' \<notin> set authority"
      using assms unfolding eq by (metis Inr_not_Inl)+
    then have c: "(case found of Inl e \<Rightarrow> Inl e | Inr host \<Rightarrow>
        if host = [] then Inl (''bad-request'', ''invalid URL: '' @ one_line url) else Inr (host, lc scheme = ''https'')) = Inr (host, https)"
      using assms unfolding eq by argo
    show "CHR ''@'' \<notin> set authority" by fact
    obtain h where h: "found = Inr h" using c by (cases found) auto
    have "h \<noteq> []" "(h, lc scheme = ''https'') = (host, https)" using c unfolding h by (auto split: if_splits)
    then show "lc scheme = (if https then ''https'' else ''http'')" "host \<noteq> []" "found = Inr host"
      using h \<open>lc scheme = ''https'' \<or> lc scheme = ''http''\<close> by auto
  qed
  have "\<exists>b a. authority = b @ host @ a"
  proof (cases "strip_prefix ''['' authority")
    case None
    then have "host = hd (split_on CHR '':'' authority)" using sch(4) by (simp add: found_def)
    then show ?thesis using split_by_hd [of authority] by (metis append_Nil)
  next
    case (Some r1)
    then obtain inside r2 where i: "split_once '']'' r1 = Some (inside, r2)" "host = inside"
      using sch(4) by (auto simp: found_def split: option.splits prod.splits)
    have "authority = ''['' @ r1"
      using Some by (auto simp: strip_prefix_def starts_with_iff split: if_splits)
    then show ?thesis using split_once_some [OF i(1)] i(2) by blast
  qed
  then show ?thesis using split_once_some [OF s] a r sch by blast
qed

subsection \<open>Properties of the policy\<close>

lemma find_none: "find P xs = None \<longleftrightarrow> \<not> list_ex P xs"
  by (induction xs) auto



text \<open>What a host pattern covers, for ASCII host names: case and trailing dots do not matter;
  \<open>*.example.com\<close> covers exactly the names that end in \<open>.example.com\<close>, so not
  \<open>example.com\<close> itself and not \<open>badexample.com\<close>; any other pattern only itself.\<close>

theorem host_pattern:
  assumes "lowercases lc" "list_all ascii host"
  defines "name \<equiv> map ascii_lower (trim_end_matches (\<lambda>c. c = CHR ''.'') host)"
  shows "host_matches lc ''*'' host \<and>
    (\<forall>suffix. host_matches lc (''*.'' @ suffix) host \<longleftrightarrow> (\<exists>label. name = label @ ''.'' @ suffix)) \<and>
    (\<forall>suffix. name = suffix \<longrightarrow> \<not> host_matches lc (''*.'' @ suffix) host) \<and>
    (\<forall>pattern. \<not> starts_with ''*'' pattern \<longrightarrow> (host_matches lc pattern host \<longleftrightarrow> name = pattern))"
proof -
  have "list_all ascii (trim_end_matches (\<lambda>c. c = CHR ''.'') host)"
    using assms(2) by (auto simp: list_all_iff trim_end_matches_def dest!: set_dropWhileD)
  then have n: "lc (trim_end_matches (\<lambda>c. c = CHR ''.'') host) = name"
    using assms(1) by (simp add: lowercases_def name_def)
  have "host_matches lc (''*.'' @ suffix) host \<longleftrightarrow> (\<exists>label. name = label @ ''.'' @ suffix)" for suffix
    by (auto simp: host_matches_def n strip_prefix_def starts_with_def ends_with_iff)
  moreover have "host_matches lc pattern host \<longleftrightarrow> name = pattern" if "\<not> starts_with ''*'' pattern" for pattern
  proof -
    have "\<not> starts_with ''*.'' pattern" "pattern \<noteq> ''*''" using that by (auto simp: starts_with_iff)
    then show ?thesis by (simp add: host_matches_def n strip_prefix_def)
  qed
  moreover have "host_matches lc ''*'' host" by (simp add: host_matches_def)
  ultimately show ?thesis by auto
qed

theorem host_pattern_witness:
  "host_matches (map ascii_lower) ''*.example.com'' ''WWW.Example.com.'' \<and>
   \<not> host_matches (map ascii_lower) ''*.example.com'' ''example.com''"
proof -
  have h: "list_all ascii ''WWW.Example.com.''" "list_all ascii ''example.com''"
    by code_simp+
  have n: "map ascii_lower (trim_end_matches (\<lambda>c. c = CHR ''.'') ''WWW.Example.com.'') = ''www'' @ ''.'' @ ''example.com''"
    "map ascii_lower (trim_end_matches (\<lambda>c. c = CHR ''.'') ''example.com'') = ''example.com''"
    by code_simp+
  have "host_matches (map ascii_lower) (''*.'' @ ''example.com'') ''WWW.Example.com.''"
    using host_pattern [OF lowercases_ascii h(1), THEN conjunct2, THEN conjunct1, THEN spec, of "''example.com''"] n(1)
    by (metis (no_types))
  moreover have "\<not> host_matches (map ascii_lower) (''*.'' @ ''example.com'') ''example.com''"
    using host_pattern [OF lowercases_ascii h(2), THEN conjunct2, THEN conjunct2, THEN conjunct1, THEN spec, of "''example.com''"] n(2)
    by (metis (no_types))
  ultimately show ?thesis by simp
qed

lemma to_le_four: "to_le 4 v = [word_of_nat v, word_of_nat (v div 256), word_of_nat (v div 65536), word_of_nat (v div 16777216)]"
proof -
  have "(4 :: nat) = Suc (Suc (Suc (Suc 0)))" by simp
  then show ?thesis by (simp only: to_le.simps div_mult2_eq [symmetric]) simp
qed

lemma octets_eq:
  "octets ip = [unat ip div 16777216, unat ip div 65536 mod 256, unat ip div 256 mod 256, unat ip mod 256]"
proof -
  have "unat ip < 2 ^ 32" using unsigned_less [of ip, where ?'a = nat] by simp
  then have "unat ip div 16777216 < 256" by (simp add: less_mult_imp_div_less)
  then show ?thesis by (simp add: octets_def u32_be_def to_be_def to_le_four unat_of_nat unsigned_ucast_eq take_bit_eq_mod)
qed

lemma octets_zero: "octets ip = [0, 0, 0, 0] \<longleftrightarrow> ip = 0"
proof
  assume "octets ip = [0, 0, 0, 0]"
  then have o: "unat ip div 16777216 = 0" "unat ip div 65536 mod 256 = 0" "unat ip div 256 mod 256 = 0" "unat ip mod 256 = 0"
    by (simp_all add: octets_eq)
  have digit: "x = 0" if "x mod 256 = 0" "x div 256 = 0" for x :: nat
    using that div_mult_mod_eq [of x 256] by simp
  have "unat ip div 65536 = 0" using digit o(1,2) by (simp add: div_mult2_eq [symmetric])
  then have "unat ip div 256 = 0" using digit [of "unat ip div 256"] o(3) by (simp add: div_mult2_eq [symmetric])
  then have "unat ip = 0" by (rule digit [OF o(4)])
  then show "ip = 0" by (simp add: unat_eq_zero)
qed (simp add: octets_eq)

text \<open>Every written form of an IPv4 address of this computer that the network stack produces is
  recognised: a dotted address is taken for this computer exactly when it is in 127.0.0.0/8 or is
  0.0.0.0.\<close>

theorem loopback_addresses:
  assumes "lowercases lc"
  shows "is_loopback lc (dotted ip) \<longleftrightarrow> ip div 2 ^ 24 = 127 \<or> ip = 0"
proof -
  have "hd (octets ip) = unat (ip div 2 ^ 24)" by (simp add: octets_eq unat_div)
  moreover have "unat (ip div 2 ^ 24) = 127 \<longleftrightarrow> ip div 2 ^ 24 = 127"
    using word_unat_eq_iff [of "ip div 2 ^ 24" 127] by simp
  ultimately show ?thesis using loopback_dotted [OF assms, of ip] octets_zero [of ip] by simp
qed

theorem loopback_addresses_witness:
  "is_loopback (map ascii_lower) (dotted 2130706433) \<and> \<not> is_loopback (map ascii_lower) (dotted 3221225985)"
  using loopback_addresses [OF lowercases_ascii, of 2130706433] loopback_addresses [OF lowercases_ascii, of 3221225985]
  by simp

text \<open>The app's keys: nothing is added to a request that is not https; over https exactly the
  app's own secrets whose host pattern matches, and of the add-ons' matching ones those whose header
  no matching app secret claims, so an app's key always wins.\<close>

theorem secrets_added:
  "s \<in> set (secrets_for lc p https host) \<longleftrightarrow>
     https \<and> host_matches lc (sec_host s) host \<and>
     (s \<in> set (p_secrets p) \<or>
      s \<in> set (p_addon_secrets p) \<and>
      (\<forall>own\<in>set (p_secrets p). host_matches lc (sec_host own) host \<longrightarrow> sec_header own \<noteq> sec_header s))"
  by (auto simp: secrets_for_def Let_def list_ex_iff)

theorem secrets_added_witness:
  "let s = \<lparr>sec_host = ''api.test'', sec_header = ''x-api-key'', sec_value = ''k1''\<rparr>;
       t = \<lparr>sec_host = ''*'', sec_header = ''x-api-key'', sec_value = ''k2''\<rparr>;
       p = policy_default\<lparr>p_secrets := [s], p_addon_secrets := [t]\<rparr>
   in s \<in> set (secrets_for (map ascii_lower) p True ''api.test'') \<and>
      t \<notin> set (secrets_for (map ascii_lower) p True ''api.test'') \<and>
      s \<notin> set (secrets_for (map ascii_lower) p False ''api.test'')"
proof -
  have "host_matches (map ascii_lower) ''api.test'' ''api.test''" by code_simp
  then show ?thesis by (simp add: secrets_added Let_def policy_default_def)
qed

text \<open>A message for the guest never shows a key: after redaction no secret value of four bytes or
  more occurs in it, for a value without square brackets that is not itself part of the word
  "secret" (the mark that replaces it).\<close>

theorem redact_hides:
  assumes "s \<in> set (p_secrets p @ p_addon_secrets p)" "4 \<le> length (sec_value s)"
    and "CHR ''['' \<notin> set (sec_value s)" "CHR '']'' \<notin> set (sec_value s)" "\<not> occurs (sec_value s) ''secret''"
  shows "\<not> (\<exists>before after. redact p message = before @ sec_value s @ after)"
proof -
  have "marks ''[secret]'' (sec_value s)"
    using assms(3-5) unfolding marks_def
    by (intro exI [of _ "CHR ''[''"] exI [of _ "''secret''"] exI [of _ "CHR '']''"]) simp
  from redact_gone [OF assms(1,2) this] show ?thesis by (simp add: occurs_def)
qed

theorem redact_hides_witness:
  "let s = \<lparr>sec_host = ''*'', sec_header = ''x-api-key'', sec_value = ''sk-1''\<rparr>;
       p = policy_default\<lparr>p_secrets := [s]\<rparr>
   in \<not> (\<exists>before after. redact p ''the key is sk-1 today'' = before @ ''sk-1'' @ after)"
proof -
  let ?s = "\<lparr>sec_host = ''*'', sec_header = ''x-api-key'', sec_value = ''sk-1''\<rparr>"
  let ?p = "policy_default\<lparr>p_secrets := [?s]\<rparr>"
  have "\<not> occurs ''sk-1'' ''secret''"
  proof
    assume "occurs ''sk-1'' ''secret''"
    then obtain a b where "''secret'' = a @ ''sk-1'' @ b" unfolding occurs_def by (elim exE)
    then have "CHR ''1'' \<in> set ''secret''" by (metis UnCI in_set_conv_decomp set_append append_Cons append_Nil)
    then show False by simp
  qed
  then show ?thesis using redact_hides [of ?s ?p "''the key is sk-1 today''"] by (simp add: Let_def)
qed

lemma parse_head_parts:
  assumes "parse_head lc head p = Inr rq"
  obtains verb url0 host https st where "CR \<notin> set head" "verb \<in> set METHODS" "split_url lc url0 = Inr (host, https)"
    "parse_lines lc p \<lparr>hs_headers = [], hs_content_length = 0, hs_saw_length = False, hs_verify_tls = True\<rparr> (tl (split_on LF head)) = Inr st"
    "\<not> ((verb = ''GET'' \<or> verb = ''HEAD'') \<and> hs_content_length st > 0)" "\<not> hs_content_length st > MAX_REQUEST_BODY"
    "rq = \<lparr>rq_method = verb, rq_url = url0, rq_host = host, rq_https = https, rq_headers = hs_headers st,
       rq_content_length = hs_content_length st, rq_verify_tls = hs_verify_tls st\<rparr>"
proof -
  let ?st0 = "\<lparr>hs_headers = [], hs_content_length = 0, hs_saw_length = False, hs_verify_tls = True\<rparr> :: head_state"
  have cr: "CR \<notin> set head"
  proof
    assume "CR \<in> set head"
    then show False using assms by (simp add: parse_head_def)
  qed
  obtain verb url0 where m: "split_once '' '' (hd (split_on LF head)) = Some (verb, url0)"
  proof (cases "split_once '' '' (hd (split_on LF head))")
    case None
    then show thesis using assms cr by (simp add: parse_head_def)
  qed auto
  have meth: "verb \<in> set METHODS"
  proof (rule ccontr)
    assume "verb \<notin> set METHODS"
    then show False using assms cr m by (simp add: parse_head_def)
  qed
  obtain host https where u: "split_url lc url0 = Inr (host, https)"
  proof (cases "split_url lc url0")
    case (Inl e)
    then show thesis using assms cr m meth by (simp add: parse_head_def)
  qed auto
  obtain st where l: "parse_lines lc p ?st0 (tl (split_on LF head)) = Inr st"
  proof (cases "parse_lines lc p ?st0 (tl (split_on LF head))")
    case (Inl e)
    then show thesis using assms cr m meth u by (simp add: parse_head_def)
  qed auto
  have "(if (verb = ''GET'' \<or> verb = ''HEAD'') \<and> hs_content_length st > 0 then
           Inl (''bad-request'', verb @ '' requests cannot have a body'')
         else if hs_content_length st > MAX_REQUEST_BODY then
           Inl (''request-too-large'', ''request body of '' @ decimal (hs_content_length st) @ '' bytes exceeds the limit'')
         else Inr \<lparr>rq_method = verb, rq_url = url0, rq_host = host, rq_https = https,
                   rq_headers = hs_headers st, rq_content_length = hs_content_length st,
                   rq_verify_tls = hs_verify_tls st\<rparr>) = Inr rq"
    using assms cr m meth u l by (simp only: parse_head_def Let_def if_False option.case prod.case sum.case simp_thms)
  then have rq: "\<not> ((verb = ''GET'' \<or> verb = ''HEAD'') \<and> hs_content_length st > 0)" "\<not> hs_content_length st > MAX_REQUEST_BODY"
      "rq = \<lparr>rq_method = verb, rq_url = url0, rq_host = host, rq_https = https, rq_headers = hs_headers st,
              rq_content_length = hs_content_length st, rq_verify_tls = hs_verify_tls st\<rparr>"
    by (simp_all only: split: if_splits) simp_all
  show thesis using that [OF cr meth u l rq] .
qed

text \<open>What a request must be to get past the head: a known method, an http or https URL with a
  host and no credentials, only headers the policy allows, whose names are tokens and whose values
  hold no NUL and no line break (so no header can be smuggled into another), a body only where the
  method has one and of at most 32 MiB. The host the policy will judge is taken from the URL's
  authority.\<close>

theorem accepted_head:
  assumes "parse_head lc head p = Inr rq"
  shows "rq_method rq \<in> set METHODS \<and> rq_host rq \<noteq> [] \<and>
    (\<exists>scheme authority rest. rq_url rq = scheme @ ''://'' @ authority @ rest \<and>
       lc scheme = (if rq_https rq then ''https'' else ''http'') \<and> CHR ''@'' \<notin> set authority \<and>
       (\<forall>c\<in>set authority. c \<notin> set ''/?#'') \<and> (\<exists>b a. authority = b @ rq_host rq @ a)) \<and>
    (\<forall>(name, v)\<in>set (rq_headers rq). is_token name \<and> allows_header p name \<and> NUL \<notin> set v \<and> LF \<notin> set v \<and> CR \<notin> set v) \<and>
    rq_content_length rq \<le> 33554432 \<and>
    (rq_method rq = ''GET'' \<or> rq_method rq = ''HEAD'' \<longrightarrow> rq_content_length rq = 0)"
proof -
  let ?st0 = "\<lparr>hs_headers = [], hs_content_length = 0, hs_saw_length = False, hs_verify_tls = True\<rparr> :: head_state"
  obtain verb url0 host https st where cr: "CR \<notin> set head" and meth: "verb \<in> set METHODS"
    and u: "split_url lc url0 = Inr (host, https)" and l: "parse_lines lc p ?st0 (tl (split_on LF head)) = Inr st"
    and rq: "\<not> ((verb = ''GET'' \<or> verb = ''HEAD'') \<and> hs_content_length st > 0)" "\<not> hs_content_length st > MAX_REQUEST_BODY"
      "rq = \<lparr>rq_method = verb, rq_url = url0, rq_host = host, rq_https = https, rq_headers = hs_headers st,
         rq_content_length = hs_content_length st, rq_verify_tls = hs_verify_tls st\<rparr>"
    using parse_head_parts [OF assms] .
  have part: "LF \<notin> set line \<and> CR \<notin> set line" if "line \<in> set (tl (split_on LF head))" for line
    using that split_by_parts [of line "\<lambda>c. c = LF" head] split_by_chars [of line "\<lambda>c. c = LF" head CR] cr list.set_sel(2)
    by (metis split_by_nonempty)
  have ok: "head_ok p ?st0" by (simp add: head_ok_def)
  have v: "head_ok p st" "\<forall>(name, v)\<in>set (hs_headers st). LF \<notin> set v" "\<forall>(name, v)\<in>set (hs_headers st). CR \<notin> set v"
  proof -
    have none: "\<forall>(name, v)\<in>set (hs_headers ?st0). C \<notin> set v" for C by simp
    have lf: "\<forall>line\<in>set (tl (split_on LF head)). LF \<notin> set line" and crs: "\<forall>line\<in>set (tl (split_on LF head)). CR \<notin> set line"
      using part by blast+
    show "head_ok p st" "\<forall>(name, v)\<in>set (hs_headers st). LF \<notin> set v" "\<forall>(name, v)\<in>set (hs_headers st). CR \<notin> set v"
      using parse_lines_ok [OF l ok lf none] parse_lines_ok [OF l ok crs none] by blast+
  qed
  have "\<forall>(name, v)\<in>set (hs_headers st). is_token name \<and> allows_header p name \<and> NUL \<notin> set v \<and> LF \<notin> set v \<and> CR \<notin> set v"
    using v by (fastforce simp: head_ok_def list_all_iff)
  moreover have "hs_content_length st \<le> 33554432" "verb = ''GET'' \<or> verb = ''HEAD'' \<longrightarrow> hs_content_length st = 0"
    using rq(1,2) by (simp_all only: not_less de_Morgan_conj le_zero_eq) blast
  ultimately show ?thesis
    unfolding rq(3) request.simps using split_url_host [OF u] meth by (intro conjI; elim conjE)
qed

theorem accepted_head_witness:
  "\<exists>rq. parse_head (map ascii_lower) (''GET https://example.com/v1'' @ [LF] @ ''accept: text/html'') policy_default = Inr rq \<and>
     rq_host rq = ''example.com'' \<and> rq_method rq \<in> set METHODS"
proof -
  let ?r = "parse_head (map ascii_lower) (''GET https://example.com/v1'' @ [LF] @ ''accept: text/html'') policy_default"
  have "?r = Inr \<lparr>rq_method = ''GET'', rq_url = ''https://example.com/v1'', rq_host = ''example.com'', rq_https = True,
      rq_headers = [(''accept'', ''text/html'')], rq_content_length = 0, rq_verify_tls = True\<rparr>"
  proof -
    have s: "split_on LF (''GET https://example.com/v1'' @ [LF] @ ''accept: text/html'') = [''GET https://example.com/v1'', ''accept: text/html'']"
      "CR \<notin> set (''GET https://example.com/v1'' @ [LF] @ ''accept: text/html'')"
      by code_simp+
    have f: "split_once '' '' ''GET https://example.com/v1'' = Some (''GET'', ''https://example.com/v1'')"
      "split_url (map ascii_lower) ''https://example.com/v1'' = Inr (''example.com'', True)"
      by code_simp+
    have l: "parse_lines (map ascii_lower) policy_default
        \<lparr>hs_headers = [], hs_content_length = 0, hs_saw_length = False, hs_verify_tls = True\<rparr> [''accept: text/html''] =
        Inr \<lparr>hs_headers = [(''accept'', ''text/html'')], hs_content_length = 0, hs_saw_length = False, hs_verify_tls = True\<rparr>"
      by code_simp
    have m: "''GET'' \<in> set METHODS" by code_simp
    show ?thesis
      unfolding parse_head_def s(1) Let_def list.sel f option.case prod.case sum.case l using s(2) m by simp
  qed
  from accepted_head [OF this] this show ?thesis by auto
qed

end
