(* ===== verification/Http.thy ===== *)
theory Http
  imports Policy Streams
begin

text \<open>
  The guest's HTTP request API, the second half of \<open>engine/src/http.rs\<close>: one request per
  stream. The HTTP client (ureq) is a library: building a request and running it are the parameters
  \<open>client\<close>, and what is handed to it is recorded in \<open>h_sent\<close>; the app's permission
  question is the parameter \<open>asker\<close>, and what the observer is told is \<open>h_events\<close>.
\<close>

record http_event =
  ev_method :: string
  ev_url :: string
  ev_status :: "nat option"
  ev_error :: "string option"
  ev_blocked :: bool
  ev_unverified :: bool

record outgoing =
  og_method :: string
  og_url :: string
  og_headers :: "(string \<times> string) list"
  og_body :: bytes

record response =
  rs_status :: nat
  rs_reason :: "string option"
  rs_headers :: "(string \<times> string option) list"
  rs_body :: "(string + bytes) list"

datatype client_result = TimedOutIn string | ClientError string | Answered response

record client =
  cl_build :: "outgoing \<Rightarrow> string + unit"
  cl_run :: "bool \<Rightarrow> outgoing \<Rightarrow> client_result"

record 's bridge =
  h_stream :: 's
  h_events :: "http_event list"
  h_sent :: "(bool \<times> outgoing) list"
  h_asked :: "string list"
  h_head_sent :: bool
  h_blocked :: bool
  h_unverified :: bool
  h_seen :: "(string \<times> string) option"

datatype stop = Bridge string string | WaitingFor

type_synonym ('s, 'a) handler = "'s bridge \<Rightarrow> 's bridge \<times> (stop + 'a)"

definition andThen :: "('s, 'a) handler \<Rightarrow> ('a \<Rightarrow> ('s, 'b) handler) \<Rightarrow> ('s, 'b) handler" where
  "andThen f g = (\<lambda>s. case f s of (s1, Inl e) \<Rightarrow> (s1, Inl e) | (s1, Inr a) \<Rightarrow> g a s1)"

definition fail :: "string \<Rightarrow> string \<Rightarrow> ('s, 'a) handler" where
  "fail kind message s = (s, Inl (Bridge kind message))"

definition give :: "'a \<Rightarrow> ('s, 'a) handler" where
  "give a s = (s, Inr a)"

definition stream_message :: "stream_error \<Rightarrow> string" where
  "stream_message e = (case e of Closed reason \<Rightarrow> reason | ReadTimeout \<Rightarrow> ''the guest did not answer in time'')"

subsection \<open>Reading the request\<close>

fun find_blank :: "bytes \<Rightarrow> nat option" where
  "find_blank (a # b # rest) = (if a = 10 \<and> b = 10 then Some 0 else map_option Suc (find_blank (b # rest)))"
| "find_blank _ = None"

function read_head :: "'s stream_ops \<Rightarrow> bytes \<Rightarrow> 's \<Rightarrow> 's \<times> (stop + (string \<times> bytes))" where
  "read_head ops buf s =
     (case find_blank buf of
        Some at \<Rightarrow>
          (s, if from_utf8_ok (string_of (take at buf)) then Inr (string_of (take at buf), drop (at + 2) buf)
              else Inl (Bridge ''bad-request'' ''request head is not valid UTF-8''))
      | None \<Rightarrow>
          if length buf > MAX_HEAD_BYTES then (s, Inl (Bridge ''bad-request'' ''request head too large''))
          else case st_read ops s 4096 of
              (s1, Waiting) \<Rightarrow> (s1, Inl WaitingFor)
            | (s1, Failed e) \<Rightarrow> (s1, Inl (Bridge ''network'' (''reading the request: '' @ stream_message e)))
            | (s1, Ready part) \<Rightarrow>
                if part = [] then (s1, Inl (Bridge ''bad-request'' ''connection closed before the request head ended''))
                else read_head ops (buf @ part) s1)"
  by pat_completeness auto
termination
  by (relation "measure (\<lambda>(ops, buf, s). Suc MAX_HEAD_BYTES - length buf)")
    (auto simp flip: length_greater_0_conv)

function read_more :: "'s stream_ops \<Rightarrow> nat \<Rightarrow> bytes \<Rightarrow> 's \<Rightarrow> 's \<times> (stop + bytes)" where
  "read_more ops len body s =
     (if length body < len then
        (case st_read ops s (min (len - length body) (64 * 1024)) of
           (s1, Waiting) \<Rightarrow> (s1, Inl WaitingFor)
         | (s1, Failed e) \<Rightarrow> (s1, Inl (Bridge ''network'' (''reading the request body: '' @ stream_message e)))
         | (s1, Ready part) \<Rightarrow>
             if part = [] then (s1, Inl (Bridge ''bad-request'' ''connection closed before the request body ended''))
             else read_more ops len (body @ part) s1)
      else (s, Inr body))"
  by pat_completeness auto
termination by (relation "measure (\<lambda>(ops, len, body, s). len - length body)")
    (auto simp flip: length_greater_0_conv)

declare read_head.simps [simp del] read_more.simps [simp del]

definition read_body :: "'s stream_ops \<Rightarrow> bytes \<Rightarrow> nat \<Rightarrow> 's \<Rightarrow> 's \<times> (stop + bytes)" where
  "read_body ops rest len s =
     (if length rest > len then (s, Inl (Bridge ''bad-request'' ''data after the request body''))
      else read_more ops len rest s)"

definition on_stream :: "('s \<Rightarrow> 's \<times> (stop + 'a)) \<Rightarrow> ('s, 'a) handler" where
  "on_stream f b = (case f (h_stream b) of (s, r) \<Rightarrow> (b\<lparr>h_stream := s\<rparr>, r))"

definition bridge_write :: "'s stream_ops \<Rightarrow> bytes \<Rightarrow> ('s, unit) handler" where
  "bridge_write ops data b =
     (case st_write_all ops (h_stream b) data of
        (s, Ready _) \<Rightarrow> (b\<lparr>h_stream := s\<rparr>, Inr ())
      | (s, Failed e) \<Rightarrow> (b\<lparr>h_stream := s\<rparr>, Inl (Bridge ''network'' (''writing to the guest: '' @ stream_message e)))
      | (s, Waiting) \<Rightarrow> (b\<lparr>h_stream := s\<rparr>, Inl WaitingFor))"

subsection \<open>Serving one connection\<close>

definition DROPPED_RESPONSE_HEADERS :: "string list" where
  "DROPPED_RESPONSE_HEADERS = [''content-encoding'', ''content-length'', ''transfer-encoding'', ''connection'']"

definition observe :: "http_event \<Rightarrow> ('s, unit) handler" where
  "observe e b = (b\<lparr>h_events := h_events b @ [e]\<rparr>, Inr ())"

definition ask_policy :: "(string \<Rightarrow> string) \<Rightarrow> policy \<Rightarrow> (string \<Rightarrow> bool) option \<Rightarrow> request \<Rightarrow> ('s, string option) handler" where
  "ask_policy lc p asker rq b =
     (case refuses lc p (rq_host rq) of
        None \<Rightarrow> (b, Inr None)
      | Some reason \<Rightarrow>
          (case asker of
             Some ask \<Rightarrow>
               if p_ask p \<and> unlisted lc p (rq_host rq) then
                 let target = rq_host rq @ '':'' @ decimal (if rq_https rq then 443 else 80);
                     b1 = b\<lparr>h_asked := h_asked b @ [target]\<rparr>
                 in (b1, Inr (if ask target then None
                       else Some (''blocked by the network policy: the app did not allow '' @ quoted target)))
               else (b, Inr (Some reason))
           | None \<Rightarrow> (b, Inr (Some reason))))"

definition merged_headers :: "secret list \<Rightarrow> (string \<times> string) list \<Rightarrow> (string \<times> string) list" where
  "merged_headers secrets headers =
     filter (\<lambda>(name, _). \<not> list_ex (\<lambda>s. sec_header s = name) secrets) headers @
     map (\<lambda>s. (sec_header s, sec_value s)) secrets"

definition run_client :: "client \<Rightarrow> policy \<Rightarrow> outgoing \<Rightarrow> ('s, response) handler" where
  "run_client cl p og b =
     (case cl_build cl og of
        Inl e \<Rightarrow> (b, Inl (Bridge ''bad-request'' (redact p e)))
      | Inr _ \<Rightarrow>
          let b1 = b\<lparr>h_sent := h_sent b @ [(\<not> h_unverified b, og)]\<rparr> in
          (case cl_run cl (\<not> h_unverified b) og of
             Answered rs \<Rightarrow> (b1, Inr rs)
           | TimedOutIn phase \<Rightarrow> (b1, Inl (Bridge ''timeout'' (''timed out ('' @ phase @ '')'')))
           | ClientError e \<Rightarrow> (b1, Inl (Bridge ''network'' (redact p e)))))"

definition response_head :: "(string \<Rightarrow> string) \<Rightarrow> response \<Rightarrow> string" where
  "response_head lc rs =
     decimal (rs_status rs) @ '' '' @ (case rs_reason rs of Some r \<Rightarrow> r | None \<Rightarrow> []) @ [LF] @
     concat (map (\<lambda>(name, v). lc name @ '': '' @ one_line (case v of Some t \<Rightarrow> t | None \<Rightarrow> []) @ [LF])
       (filter (\<lambda>(name, v). lc name \<notin> set DROPPED_RESPONSE_HEADERS) (rs_headers rs))) @ [LF]"

fun send_body :: "'s stream_ops \<Rightarrow> (string + bytes) list \<Rightarrow> ('s, unit) handler" where
  "send_body ops [] b = (b, Inr ())"
| "send_body ops (Inl e # rest) b = fail ''network'' (''response body interrupted: '' @ e) b"
| "send_body ops (Inr chunk # rest) b =
     (if chunk = [] then (b, Inr ())
      else andThen (bridge_write ops (bytes_of (hex (length chunk) @ [LF]))) (\<lambda>_.
           andThen (bridge_write ops chunk) (\<lambda>_. send_body ops rest)) b)"

definition refuse_request :: "request \<Rightarrow> string \<Rightarrow> ('s, unit) handler" where
  "refuse_request rq reason = (\<lambda>b.
     andThen (observe \<lparr>ev_method = rq_method rq, ev_url = rq_url rq, ev_status = None, ev_error = Some reason,
                       ev_blocked = True, ev_unverified = h_unverified b\<rparr>) (\<lambda>_.
     andThen (\<lambda>b. (b\<lparr>h_blocked := True\<rparr>, Inr ())) (\<lambda>_. fail ''denied'' reason)) b)"

definition deliver_response :: "(string \<Rightarrow> string) \<Rightarrow> 's stream_ops \<Rightarrow> request \<Rightarrow> response \<Rightarrow> ('s, unit) handler" where
  "deliver_response lc ops rq rs = (\<lambda>b.
     andThen (observe \<lparr>ev_method = rq_method rq, ev_url = rq_url rq, ev_status = Some (rs_status rs), ev_error = None,
                       ev_blocked = False, ev_unverified = h_unverified b\<rparr>) (\<lambda>_.
     andThen (bridge_write ops (bytes_of (response_head lc rs))) (\<lambda>_.
     andThen (\<lambda>b. (b\<lparr>h_head_sent := True\<rparr>, Inr ())) (\<lambda>_.
     andThen (if rq_method rq \<noteq> ''HEAD'' then send_body ops (rs_body rs) else give ()) (\<lambda>_.
     bridge_write ops (bytes_of (''0'' @ [LF] @ ''OK'' @ [LF])))))) b)"

definition perform :: "(string \<Rightarrow> string) \<Rightarrow> 's stream_ops \<Rightarrow> policy \<Rightarrow> client \<Rightarrow> request \<Rightarrow> bytes \<Rightarrow> ('s, unit) handler" where
  "perform lc ops p cl rq body =
     (let secrets = secrets_for lc p (rq_https rq) (rq_host rq) in
      if rq_https rq \<and> \<not> rq_verify_tls rq \<and> \<not> p_skip_tls_verify p \<and> secrets \<noteq> [] then
        fail ''denied'' (''the app's key for '' @ quoted (rq_host rq) @
          '' is only sent to a server whose certificate is checked; for a private CA give the engine COLLABO_CORE_CA_FILE instead of '' @
          TLS_VERIFY_HEADER @ '': false'')
      else
        andThen (run_client cl p \<lparr>og_method = rq_method rq, og_url = rq_url rq,
                  og_headers = merged_headers secrets (rq_headers rq), og_body = body\<rparr>) (deliver_response lc ops rq))"

definition note_request :: "policy \<Rightarrow> request \<Rightarrow> ('s, unit) handler" where
  "note_request p rq b =
     (b\<lparr>h_seen := Some (rq_method rq, rq_url rq),
        h_unverified := rq_https rq \<and> (p_skip_tls_verify p \<or> \<not> rq_verify_tls rq)\<rparr>, Inr ())"

definition decide_request :: "(string \<Rightarrow> string) \<Rightarrow> 's stream_ops \<Rightarrow> policy \<Rightarrow> client \<Rightarrow> (string \<Rightarrow> bool) option \<Rightarrow> bytes \<Rightarrow> request
    \<Rightarrow> ('s, unit) handler" where
  "decide_request lc ops p cl asker rest rq =
     andThen (note_request p rq) (\<lambda>_.
     andThen (on_stream (read_body ops rest (rq_content_length rq))) (\<lambda>body.
     andThen (ask_policy lc p asker rq) (\<lambda>refused.
     case refused of Some reason \<Rightarrow> refuse_request rq reason | None \<Rightarrow> perform lc ops p cl rq body)))"

definition exchange :: "(string \<Rightarrow> string) \<Rightarrow> 's stream_ops \<Rightarrow> policy \<Rightarrow> client \<Rightarrow> (string \<Rightarrow> bool) option \<Rightarrow> ('s, unit) handler" where
  "exchange lc ops p cl asker =
     andThen (on_stream (read_head ops [])) (\<lambda>(head, rest).
     case parse_head lc head p of
       Inl (kind, message) \<Rightarrow> fail kind message
     | Inr rq \<Rightarrow> decide_request lc ops p cl asker rest rq)"

definition bridge_start :: "'s \<Rightarrow> 's bridge" where
  "bridge_start s = \<lparr>h_stream = s, h_events = [], h_sent = [], h_asked = [], h_head_sent = False, h_blocked = False,
     h_unverified = False, h_seen = None\<rparr>"

definition handle :: "(string \<Rightarrow> string) \<Rightarrow> 's stream_ops \<Rightarrow> policy \<Rightarrow> client \<Rightarrow> (string \<Rightarrow> bool) option \<Rightarrow> 's
    \<Rightarrow> 's bridge \<times> bool" where
  "handle lc ops p cl asker s =
     (case exchange lc ops p cl asker (bridge_start s) of
        (b, Inl WaitingFor) \<Rightarrow> (b, False)
      | (b, Inr _) \<Rightarrow> (b\<lparr>h_stream := st_close ops (h_stream b)\<rparr>, True)
      | (b, Inl (Bridge kind message0)) \<Rightarrow>
          let message = redact p (one_line message0);
              b1 = (case h_seen b of
                  Some (method, url) \<Rightarrow>
                    if h_blocked b then b
                    else b\<lparr>h_events := h_events b @ [\<lparr>ev_method = method, ev_url = url, ev_status = None,
                           ev_error = Some message, ev_blocked = False, ev_unverified = h_unverified b\<rparr>]\<rparr>
                | None \<Rightarrow> b);
              line = ''ERROR '' @ kind @ '': '' @ message @ [LF];
              reply = (if h_head_sent b1 then ''0'' @ [LF] @ line else line);
              w = st_write_all ops (h_stream b1) (bytes_of reply)
          in if snd w = Waiting then (b1\<lparr>h_stream := fst w\<rparr>, False)
             else (b1\<lparr>h_stream := st_close ops (fst w)\<rparr>, True))"

subsection \<open>What leaves the host\<close>

lemma andThen_cases:
  assumes "andThen f g b = (b', r)"
  obtains (stopped) e where "f b = (b', Inl e)" "r = Inl e"
    | (goes_on) b1 a where "f b = (b1, Inr a)" "g a b1 = (b', r)"
  using assms by (auto simp: andThen_def split: prod.splits sum.splits)

definition quiet :: "('s, 'a) handler \<Rightarrow> bool" where
  "quiet f \<longleftrightarrow> (\<forall>b. h_sent (fst (f b)) = h_sent b \<and> h_unverified (fst (f b)) = h_unverified b)"

lemma quietD: "quiet f \<Longrightarrow> f b = (b', r) \<Longrightarrow> h_sent b' = h_sent b \<and> h_unverified b' = h_unverified b"
  unfolding quiet_def by (metis fst_conv)

lemma quiet_andThen:
  assumes "quiet f" "\<And>a. quiet (g a)"
  shows "quiet (andThen f g)"
  unfolding quiet_def
proof
  fix b
  obtain b' r where eq: "andThen f g b = (b', r)" by fastforce
  then have "h_sent b' = h_sent b \<and> h_unverified b' = h_unverified b"
  proof (cases rule: andThen_cases)
    case (stopped e)
    then show ?thesis using quietD [OF assms(1)] by simp
  next
    case (goes_on b1 a)
    then show ?thesis using quietD [OF assms(1) goes_on(1)] quietD [OF assms(2) goes_on(2)] by simp
  qed
  then show "h_sent (fst (andThen f g b)) = h_sent b \<and> h_unverified (fst (andThen f g b)) = h_unverified b"
    by (simp add: eq)
qed

lemma quiet_basic:
  "quiet (fail k m)" "quiet (give a)" "quiet (on_stream f)" "quiet (bridge_write ops data)" "quiet (observe e)"
  "quiet (ask_policy lc p asker rq)" "quiet (\<lambda>b. (b\<lparr>h_blocked := True\<rparr>, Inr ()))" "quiet (\<lambda>b. (b\<lparr>h_head_sent := True\<rparr>, Inr ()))"
  by (auto simp: quiet_def fail_def give_def on_stream_def bridge_write_def observe_def ask_policy_def Let_def
      split: prod.splits attempt.splits option.splits)

lemma quiet_send_body: "quiet (send_body ops pieces)"
proof (induction pieces)
  case Nil
  then show ?case by (simp add: quiet_def)
next
  case (Cons c pieces)
  show ?case
  proof (cases c)
    case (Inl e)
    then show ?thesis by (simp add: quiet_def fail_def)
  next
    case (Inr chunk)
    have "quiet (andThen (bridge_write ops (bytes_of (hex (length chunk) @ [LF])))
        (\<lambda>_. andThen (bridge_write ops chunk) (\<lambda>_. send_body ops pieces)))"
      by (intro quiet_andThen quiet_basic Cons)
    then show ?thesis using Inr by (simp add: quiet_def)
  qed
qed

text \<open>What the policy and the head of a request allow to be sent.\<close>

definition permitted :: "(string \<Rightarrow> string) \<Rightarrow> policy \<Rightarrow> (string \<Rightarrow> bool) option \<Rightarrow> request \<Rightarrow> bool" where
  "permitted lc p asker rq \<longleftrightarrow> refuses lc p (rq_host rq) = None \<or>
     (\<exists>ask. asker = Some ask \<and> p_ask p \<and> unlisted lc p (rq_host rq) \<and>
        ask (rq_host rq @ '':'' @ decimal (if rq_https rq then 443 else 80)))"

definition faithful :: "(string \<Rightarrow> string) \<Rightarrow> policy \<Rightarrow> request \<Rightarrow> bool \<times> outgoing \<Rightarrow> bool" where
  "faithful lc p rq sent \<longleftrightarrow> (case sent of (verified, og) \<Rightarrow>
     verified = (\<not> (rq_https rq \<and> (p_skip_tls_verify p \<or> \<not> rq_verify_tls rq))) \<and>
     og_method og = rq_method rq \<and> og_url og = rq_url rq \<and>
     og_headers og = merged_headers (secrets_for lc p (rq_https rq) (rq_host rq)) (rq_headers rq) \<and>
     (secrets_for lc p (rq_https rq) (rq_host rq) \<noteq> [] \<longrightarrow> rq_https rq \<and> (verified \<or> p_skip_tls_verify p)))"

lemma ask_policy_permits:
  "ask_policy lc p asker rq b = (b', Inr None) \<Longrightarrow> permitted lc p asker rq"
  by (auto simp: ask_policy_def permitted_def Let_def split: option.splits if_splits)

lemma run_client_sends:
  assumes "run_client cl p og b = (b', r)"
  shows "h_sent b' = h_sent b \<or> h_sent b' = h_sent b @ [(\<not> h_unverified b, og)]"
  using assms by (auto simp: run_client_def Let_def split: sum.splits client_result.splits)

lemma quiet_deliver: "quiet (deliver_response lc ops rq rs)"
proof -
  have "quiet (if rq_method rq \<noteq> ''HEAD'' then send_body ops (rs_body rs) else give ())"
    using quiet_send_body quiet_basic(2) by (cases "rq_method rq \<noteq> ''HEAD''") simp_all
  then have "quiet (\<lambda>b. andThen (observe e) (\<lambda>_.
     andThen (bridge_write ops (bytes_of (response_head lc rs))) (\<lambda>_.
     andThen (\<lambda>b. (b\<lparr>h_head_sent := True\<rparr>, Inr ())) (\<lambda>_.
     andThen (if rq_method rq \<noteq> ''HEAD'' then send_body ops (rs_body rs) else give ()) (\<lambda>_.
     bridge_write ops (bytes_of (''0'' @ [LF] @ ''OK'' @ [LF])))))) b)" for e
    by (intro quiet_andThen quiet_basic)
  then show ?thesis unfolding quiet_def deliver_response_def by blast
qed

lemma quiet_refuse: "quiet (refuse_request rq reason)"
proof -
  have "quiet (andThen (observe e) (\<lambda>_. andThen (\<lambda>b. (b\<lparr>h_blocked := True\<rparr>, Inr ())) (\<lambda>_. fail ''denied'' reason)))" for e
    by (intro quiet_andThen quiet_basic)
  then show ?thesis unfolding quiet_def refuse_request_def by blast
qed

lemma perform_sends:
  assumes "perform lc ops p cl rq body b = (b', r)" "h_sent b = []"
    and u: "h_unverified b = (rq_https rq \<and> (p_skip_tls_verify p \<or> \<not> rq_verify_tls rq))"
  shows "h_sent b' = [] \<or> (\<exists>sent. h_sent b' = [sent] \<and> faithful lc p rq sent)"
proof -
  let ?secrets = "secrets_for lc p (rq_https rq) (rq_host rq)"
  let ?og = "\<lparr>og_method = rq_method rq, og_url = rq_url rq, og_headers = merged_headers ?secrets (rq_headers rq), og_body = body\<rparr>"
  show ?thesis
  proof (cases "rq_https rq \<and> \<not> rq_verify_tls rq \<and> \<not> p_skip_tls_verify p \<and> ?secrets \<noteq> []")
    case True
    then show ?thesis using assms(1,2) by (auto simp: perform_def Let_def fail_def)
  next
    case False
    have https: "?secrets \<noteq> [] \<longrightarrow> rq_https rq" by (simp add: secrets_for_def)
    have ok: "faithful lc p rq (\<not> h_unverified b, ?og)"
      unfolding faithful_def using False https u by auto
    from assms(1) False have "andThen (run_client cl p ?og) (deliver_response lc ops rq) b = (b', r)"
      unfolding perform_def Let_def by (simp only: if_False)
    then show ?thesis
    proof (cases rule: andThen_cases)
      case (stopped e)
      then show ?thesis using run_client_sends [OF stopped(1)] assms(2) ok by auto
    next
      case (goes_on b1 rs)
      then show ?thesis
        using run_client_sends [OF goes_on(1)] quietD [OF quiet_deliver goes_on(2)] assms(2) ok by auto
    qed
  qed
qed

lemma decide_request_sends:
  assumes "decide_request lc ops p cl asker rest rq b = (b', r)" "h_sent b = []"
  shows "h_sent b' = [] \<or> (\<exists>sent. h_sent b' = [sent] \<and> permitted lc p asker rq \<and> faithful lc p rq sent)"
proof -
  let ?u = "rq_https rq \<and> (p_skip_tls_verify p \<or> \<not> rq_verify_tls rq)"
  let ?b1 = "b\<lparr>h_seen := Some (rq_method rq, rq_url rq), h_unverified := ?u\<rparr>"
  have b1: "h_sent ?b1 = []" "h_unverified ?b1 = ?u" using assms(2) by simp_all
  from assms(1) have "andThen (on_stream (read_body ops rest (rq_content_length rq))) (\<lambda>body.
     andThen (ask_policy lc p asker rq) (\<lambda>refused.
     case refused of Some reason \<Rightarrow> refuse_request rq reason | None \<Rightarrow> perform lc ops p cl rq body)) ?b1 = (b', r)"
    by (simp add: decide_request_def andThen_def [of "note_request p rq"] note_request_def)
  then show ?thesis
  proof (cases rule: andThen_cases)
    case (stopped e)
    then show ?thesis using quietD [OF quiet_basic(3) stopped(1)] b1 by simp
  next
    case (goes_on b2 body)
    have b2: "h_sent b2 = []" "h_unverified b2 = ?u" using quietD [OF quiet_basic(3) goes_on(1)] b1 by simp_all
    from goes_on(2) show ?thesis
    proof (cases rule: andThen_cases)
      case (stopped e)
      then show ?thesis using quietD [OF quiet_basic(6) stopped(1)] b2 by simp
    next
      case (goes_on b3 refused)
      have b3: "h_sent b3 = []" "h_unverified b3 = ?u" using quietD [OF quiet_basic(6) goes_on(1)] b2 by simp_all
      show ?thesis
      proof (cases refused)
        case None
        then show ?thesis
          using perform_sends [of lc ops p cl rq body b3 b' r] goes_on ask_policy_permits [of lc p asker rq b2 b3] b3 by auto
      next
        case (Some reason)
        then show ?thesis using goes_on(2) quietD [OF quiet_refuse] b3 by fastforce
      qed
    qed
  qed
qed

lemma exchange_sends:
  assumes "exchange lc ops p cl asker (bridge_start s) = (b, r)"
  shows "h_sent b = [] \<or> (\<exists>head rq sent. parse_head lc head p = Inr rq \<and> h_sent b = [sent] \<and>
    permitted lc p asker rq \<and> faithful lc p rq sent)"
  using assms unfolding exchange_def
proof (cases rule: andThen_cases)
  case (stopped e)
  then show ?thesis using quietD [OF quiet_basic(3) stopped(1)] by (simp add: bridge_start_def)
next
  case (goes_on b1 hr)
  obtain head rest where h: "hr = (head, rest)" by fastforce
  have b1: "h_sent b1 = []" using quietD [OF quiet_basic(3) goes_on(1)] by (simp add: bridge_start_def)
  show ?thesis
  proof (cases "parse_head lc head p")
    case (Inl e)
    then show ?thesis using goes_on(2) b1 h by (cases e) (auto simp: fail_def)
  next
    case (Inr rq)
    then have "decide_request lc ops p cl asker rest rq b1 = (b, r)" using goes_on(2) h by simp
    from decide_request_sends [OF this b1] show ?thesis using Inr by blast
  qed
qed

lemma handle_sends: "h_sent (fst (handle lc ops p cl asker s)) = h_sent (fst (exchange lc ops p cl asker (bridge_start s)))"
  by (auto simp: handle_def Let_def split: prod.splits sum.splits stop.splits option.splits if_splits)

subsection \<open>Framing of the request\<close>

lemma find_blank_some: "find_blank buf = Some at \<Longrightarrow> buf = take at buf @ [10, 10] @ drop (at + 2) buf"
proof (induction buf arbitrary: at rule: find_blank.induct)
  case (1 a b rest)
  then show ?case by (auto split: if_splits)
qed simp_all

lemma find_blank_at: "find_blank buf = Some at \<Longrightarrow> at < length buf \<and> buf ! at = 10"
proof (induction buf arbitrary: at rule: find_blank.induct)
  case (1 a b rest)
  then show ?case by (auto split: if_splits)
qed simp_all

lemma find_blank_first: "find_blank buf = Some at \<Longrightarrow> find_blank (take (Suc at) buf) = None"
proof (induction buf arbitrary: at rule: find_blank.induct)
  case (1 a b rest)
  show ?case
  proof (cases "a = 10 \<and> b = 10")
    case True
    then show ?thesis using 1 by simp
  next
    case False
    then obtain k where k: "find_blank (b # rest) = Some k" "at = Suc k" using 1(2) by auto
    then have "find_blank (b # take k rest) = None" using 1(1) [OF False k(1)] by simp
    then show ?thesis using False k(2) by (cases "take k rest") (auto split: if_splits)
  qed
qed simp_all

context byte_stream
begin

lemma read_head_takes:
  "\<lbrakk>read_head ops buf s = (s', Inr (head, rest)); live s\<rbrakk> \<Longrightarrow>
   live s' \<and> sent s' = sent s \<and> from_utf8_ok head \<and> find_blank (bytes_of head @ [10]) = None \<and>
   buf @ coming s = bytes_of head @ [10, 10] @ rest @ coming s'"
proof (induction "Suc MAX_HEAD_BYTES - length buf" arbitrary: buf s rule: less_induct)
  case less
  show ?case
  proof (cases "find_blank buf")
    case (Some at)
    let ?h = "string_of (take at buf)"
    have eq: "s' = s" "head = ?h" "rest = drop (at + 2) buf" "from_utf8_ok ?h"
      using less.prems(1) Some by (auto simp: read_head.simps [of ops buf s] split: if_splits)
    have lt: "take (Suc at) buf = take at buf @ [10]"
      using find_blank_at [OF Some] by (simp add: take_Suc_conv_app_nth)
    show ?thesis
      using eq less.prems(2) find_blank_some [OF Some] find_blank_first [OF Some] lt by simp
  next
    case None
    obtain s1 r where rd: "st_read ops s 4096 = (s1, r)" by fastforce
    have small: "\<not> length buf > MAX_HEAD_BYTES"
      using less.prems(1) None by (auto simp: read_head.simps [of ops buf s])
    obtain part where part: "r = Ready part" "part \<noteq> []"
      using less.prems(1) None small rd
      by (cases r) (auto simp: read_head.simps [of ops buf s] split: if_splits)
    have rec: "read_head ops (buf @ part) s1 = (s', Inr (head, rest))"
      using less.prems(1) None small rd part by (simp add: read_head.simps [of ops buf s])
    have t: "live s1" "coming s = part @ coming s1" "sent s1 = sent s"
      using read_takes [OF less.prems(2) rd [unfolded part(1)]] by simp_all
    have "Suc MAX_HEAD_BYTES - length (buf @ part) < Suc MAX_HEAD_BYTES - length buf"
      using small part(2) by (simp flip: length_greater_0_conv)
    from less.hyps [OF this rec t(1)] show ?thesis using t(2,3) by simp
  qed
qed

lemma read_more_takes:
  "\<lbrakk>read_more ops len body s = (s', Inr out); live s; length body \<le> len\<rbrakk> \<Longrightarrow>
   live s' \<and> sent s' = sent s \<and> length out = len \<and> body @ coming s = out @ coming s'"
proof (induction "len - length body" arbitrary: body s rule: less_induct)
  case less
  show ?case
  proof (cases "length body < len")
    case False
    then show ?thesis using less.prems by (auto simp: read_more.simps [of ops len body s])
  next
    case True
    let ?room = "min (len - length body) (64 * 1024)"
    obtain s1 r where rd: "st_read ops s ?room = (s1, r)" by fastforce
    obtain part where part: "r = Ready part" "part \<noteq> []"
      using less.prems(1) True rd by (cases r) (auto simp: read_more.simps [of ops len body s] split: if_splits)
    have rec: "read_more ops len (body @ part) s1 = (s', Inr out)"
      using less.prems(1) True rd part by (simp add: read_more.simps [of ops len body s])
    have t: "live s1" "coming s = part @ coming s1" "sent s1 = sent s" "length part \<le> ?room"
      using read_takes [OF less.prems(2) rd [unfolded part(1)]] by simp_all
    have "len - length (body @ part) < len - length body" "length (body @ part) \<le> len"
      using True part(2) t(4) by (auto simp flip: length_greater_0_conv)
    from less.hyps [OF this(1) rec t(1) this(2)] show ?thesis using t(2,3) by simp
  qed
qed

end

subsection \<open>Properties of the request API\<close>


text \<open>The guest cannot make the host forge a protocol line: an error message, whatever text it
  was built from (a URL, a header, a server's reason), goes out without a line break, carriage
  return or NUL, also after keys were blanked out in it.\<close>

theorem error_stays_on_its_line:
  "LF \<notin> set (redact p (one_line message)) \<and> CR \<notin> set (redact p (one_line message)) \<and>
   NUL \<notin> set (redact p (one_line message))"
  using message_clean [of p message] by simp

text \<open>A request is framed by its first blank line and its content-length: over a vsock stream, the
  head is exactly what the guest sent before the first blank line and is valid UTF-8, the body the
  bytes that follow, as many as announced, and what comes after is not read.\<close>

theorem request_framing:
  assumes "vt_live st" "read_head vsock_stream [] st = (st1, Inr (head, rest))"
    and "read_body vsock_stream rest len st1 = (st2, Inr body)"
  shows "vt_coming st = bytes_of head @ [10, 10] @ body @ vt_coming st2 \<and> length body = len \<and>
    find_blank (bytes_of head @ [10]) = None \<and> from_utf8_ok head \<and> vt_data st2 = vt_data st"
proof -
  have h: "vt_live st1" "vt_data st1 = vt_data st" "from_utf8_ok head" "find_blank (bytes_of head @ [10]) = None"
    "vt_coming st = bytes_of head @ [10, 10] @ rest @ vt_coming st1"
    using vs_stream.read_head_takes [OF assms(2,1)] by simp_all
  have "length rest \<le> len" "read_more vsock_stream len rest st1 = (st2, Inr body)"
    using assms(3) by (auto simp: read_body_def split: if_splits)
  from vs_stream.read_more_takes [OF this(2) h(1) this(1)] show ?thesis using h by simp
qed

definition sample_request :: vstream where
  "sample_request =
     \<lparr>vt_conn = connection_new \<lparr>a_guest_cid = 3, a_local_port = 1080, a_peer_port = 40000\<rparr> True
        \<lparr>s_incoming := [71, 69, 84, 10, 10, 104, 105]\<rparr>,
      vt_arrivals = [\<lparr>ar_time = 0, ar_buf_alloc = 4096, ar_fwd_cnt = 0, ar_payload = []\<rparr>], vt_sent = []\<rparr>"

lemma sample_read: "\<exists>st. st_read vsock_stream sample_request 4096 = (st, Ready [71, 69, 84, 10, 10, 104, 105])"
  by (simp add: sample_request_def vsock_stream_def vt_update_def read_def arrive_def enqueue_def update_credit_def
      connection_new_def Let_def)

theorem request_framing_witness:
  "vt_live sample_request \<and> (\<exists>st2. vt_coming sample_request = bytes_of ''GET'' @ [10, 10] @ [104, 105] @ vt_coming st2)"
proof -
  obtain st where rd: "st_read vsock_stream sample_request 4096 = (st, Ready [71, 69, 84, 10, 10, 104, 105])"
    using sample_read by blast
  have blank: "find_blank [71, 69, 84, 10, 10, 104, 105 :: byte] = Some 3" by simp
  have get: "string_of (take 3 [71, 69, 84, 10, 10, 104, 105]) = ''GET''" by code_simp
  have utf: "from_utf8_ok ''GET''" by (rule ascii_valid) code_simp
  have h: "read_head vsock_stream [] sample_request = (st, Inr (''GET'', [104, 105]))"
    using rd blank get utf by (simp add: read_head.simps)
  have b: "read_body vsock_stream [104, 105] 2 st = (st, Inr [104, 105])"
    by (simp add: read_body_def read_more.simps)
  have l: "vt_live sample_request" by (simp add: vt_live_def sample_request_def connection_new_def)
  show ?thesis using request_framing [OF l h b] l by auto
qed

end
