(* ===== verification/Packets.thy ===== *)
theory Packets
  imports Texts
begin

unbundle bit_operations_syntax

text \<open>
  The packets of \<open>engine/src/net.rs\<close> (and the checksum of \<open>engine/src/icmp.rs\<close>): the Internet
  checksum, the Ethernet, IPv4, TCP and ICMP frames the host's end of the link builds, and the
  reader of DNS names. An \<open>Ipv4Addr\<close> is the 32-bit number of its octets, most significant first.
\<close>

type_synonym ipv4_addr = u32
type_synonym eth_frame = bytes

abbreviation GATEWAY :: ipv4_addr where "GATEWAY \<equiv> 0xC0000201"
abbreviation GUEST :: ipv4_addr where "GUEST \<equiv> 0xC0000202"
abbreviation LOCALHOST :: ipv4_addr where "LOCALHOST \<equiv> 0x7F000001"

definition GATEWAY_MAC :: bytes where "GATEWAY_MAC = [0x52, 0x54, 0x00, 0x00, 0x00, 0x01]"
definition GUEST_MAC :: bytes where "GUEST_MAC = [0x52, 0x54, 0x00, 0x12, 0x34, 0x56]"

abbreviation ETHERTYPE_IPV4 :: u16 where "ETHERTYPE_IPV4 \<equiv> 0x0800"
abbreviation ETHERTYPE_ARP :: u16 where "ETHERTYPE_ARP \<equiv> 0x0806"
abbreviation PROTO_ICMP :: u8 where "PROTO_ICMP \<equiv> 1"
abbreviation PROTO_TCP :: u8 where "PROTO_TCP \<equiv> 6"
abbreviation PROTO_UDP :: u8 where "PROTO_UDP \<equiv> 17"

abbreviation TCP_FIN :: u8 where "TCP_FIN \<equiv> 1"
abbreviation TCP_SYN :: u8 where "TCP_SYN \<equiv> 2"
abbreviation TCP_RST :: u8 where "TCP_RST \<equiv> 4"
abbreviation TCP_PSH :: u8 where "TCP_PSH \<equiv> 8"
abbreviation TCP_ACK :: u8 where "TCP_ACK \<equiv> 16"

abbreviation WINDOW :: u32 where "WINDOW \<equiv> 65536"
abbreviation MAX_SEGMENT :: nat where "MAX_SEGMENT \<equiv> 1400"

subsection \<open>The checksum\<close>

definition be_pair :: "byte \<Rightarrow> byte \<Rightarrow> u32" where
  "be_pair a b = word_of_nat (unat a * 256 + unat b)"

fun add_pairs :: "u32 \<Rightarrow> bytes \<Rightarrow> u32 \<times> byte option" where
  "add_pairs s (a # b # rest) = add_pairs (s + be_pair a b) rest"
| "add_pairs s [a] = (s, Some a)"
| "add_pairs s [] = (s, None)"

fun sum_parts :: "u32 \<Rightarrow> byte option \<Rightarrow> bytes list \<Rightarrow> u32 \<times> byte option" where
  "sum_parts s left [] = (s, left)"
| "sum_parts s None (part # parts) = (case add_pairs s part of (s1, left1) \<Rightarrow> sum_parts s1 left1 parts)"
| "sum_parts s (Some a) ([] # parts) = sum_parts s (Some a) parts"
| "sum_parts s (Some a) ((b # rest) # parts) =
     (case add_pairs (s + be_pair a b) rest of (s1, left1) \<Rightarrow> sum_parts s1 left1 parts)"

lemma carry_parts:
  "unat (s AND 0xffff) = unat (s :: u32) mod 65536" "unat (drop_bit 16 s) = unat s div 65536"
proof -
  have "s AND 0xffff = take_bit 16 s" by (simp add: take_bit_eq_mask mask_eq_exp_minus_1)
  then have "unat (s AND 0xffff) = take_bit 16 (unat s)" by (simp only: unsigned_take_bit_eq)
  then show "unat (s AND 0xffff) = unat s mod 65536" by (simp add: take_bit_eq_mod)
  show "unat (drop_bit 16 s) = unat s div 65536"
    by (simp only: unat_drop_bit_eq) (simp add: drop_bit_eq_div)
qed

lemma carry_sum: "unat ((s AND 0xffff) + drop_bit 16 s) = unat (s :: u32) mod 65536 + unat s div 65536"
proof -
  have "unat s < 2 ^ 32" using unsigned_less [of s, where ?'a = nat] by simp
  then show ?thesis by (simp add: unat_word_ariths(1) carry_parts)
qed

lemma carry_decreases:
  assumes "drop_bit 16 s \<noteq> 0"
  shows "unat ((s AND 0xffff) + drop_bit 16 s) < unat (s :: u32)"
proof -
  have "0 < unat s div 65536"
    using assms carry_parts(2) [of s] by (metis bot_nat_0.not_eq_extremum unat_eq_zero)
  then show ?thesis
    unfolding carry_sum using div_mult_mod_eq [of "unat s" 65536] by linarith
qed

function fold_carry :: "u32 \<Rightarrow> u32" where
  "fold_carry s = (if drop_bit 16 s \<noteq> 0 then fold_carry ((s AND 0xffff) + drop_bit 16 s) else s)"
  by pat_completeness auto
termination by (relation "measure unat") (use carry_decreases in auto)

declare fold_carry.simps [simp del]

definition checksum :: "bytes list \<Rightarrow> u16" where
  "checksum parts =
     (case sum_parts 0 None parts of
        (s, left) \<Rightarrow> NOT (ucast (fold_carry (case left of Some a \<Rightarrow> s + be_pair a 0 | None \<Rightarrow> s))))"

fun icmp_sum :: "u32 \<Rightarrow> bytes \<Rightarrow> u32" where
  "icmp_sum s [] = s"
| "icmp_sum s [a] = s + be_pair a 0"
| "icmp_sum s (a # b # rest) = icmp_sum (s + be_pair a b) rest"

definition icmp_checksum :: "bytes \<Rightarrow> u16" where
  "icmp_checksum bs = NOT (ucast (fold_carry (icmp_sum 0 bs)))"

subsection \<open>Frames to the guest\<close>

definition ethernet :: "u16 \<Rightarrow> bytes \<Rightarrow> eth_frame" where
  "ethernet payload_type payload = GUEST_MAC @ GATEWAY_MAC @ u16_be payload_type @ payload"

definition put16 :: "nat \<Rightarrow> u16 \<Rightarrow> bytes \<Rightarrow> bytes" where
  "put16 at v bs = take at bs @ u16_be v @ drop (at + 2) bs"

definition ipv4_header :: "u8 \<Rightarrow> ipv4_addr \<Rightarrow> nat \<Rightarrow> bytes" where
  "ipv4_header protocol source total_len =
     [0x45, 0] @ u16_be (word_of_nat total_len) @ u16_be 0 @ u16_be 0x4000 @ [64, protocol] @ u16_be 0 @
     u32_be source @ u32_be GUEST"

definition ipv4 :: "u8 \<Rightarrow> ipv4_addr \<Rightarrow> bytes \<Rightarrow> eth_frame" where
  "ipv4 protocol source payload =
     (let header = ipv4_header protocol source (20 + length payload);
          sum = checksum [header]
      in ethernet ETHERTYPE_IPV4 (put16 10 sum header @ payload))"

definition pseudo_header :: "u8 \<Rightarrow> ipv4_addr \<Rightarrow> ipv4_addr \<Rightarrow> nat \<Rightarrow> bytes" where
  "pseudo_header protocol source destination len =
     u32_be source @ u32_be destination @ [0, protocol] @ u16_be (word_of_nat len)"

definition transport_checksum :: "u8 \<Rightarrow> ipv4_addr \<Rightarrow> ipv4_addr \<Rightarrow> bytes \<Rightarrow> u16" where
  "transport_checksum protocol source destination segment =
     checksum [pseudo_header protocol source destination (length segment), segment]"

definition echo_reply :: "ipv4_addr \<Rightarrow> bytes \<Rightarrow> eth_frame" where
  "echo_reply source req =
     (let reply = put16 2 0 (req[0 := 0]); sum = checksum [reply]
      in ipv4 PROTO_ICMP source (put16 2 sum reply))"

definition tcp_header :: "u16 \<Rightarrow> u16 \<Rightarrow> u32 \<Rightarrow> u32 \<Rightarrow> u8 \<Rightarrow> u32 \<Rightarrow> bytes" where
  "tcp_header guest_port port sequence acknowledged flags window =
     u16_be port @ u16_be guest_port @ u32_be sequence @ u32_be acknowledged @ [push_bit 4 5, flags] @
     u16_be (ucast (min window 0xffff)) @ u16_be 0 @ u16_be 0"

definition tcp_segment :: "ipv4_addr \<Rightarrow> u16 \<Rightarrow> u16 \<Rightarrow> u32 \<Rightarrow> u32 \<Rightarrow> u8 \<Rightarrow> u32 \<Rightarrow> bytes \<Rightarrow> eth_frame" where
  "tcp_segment source guest_port port sequence acknowledged flags window data =
     (let segment = tcp_header guest_port port sequence acknowledged flags window @ data;
          sum = transport_checksum PROTO_TCP source GUEST segment
      in ipv4 PROTO_TCP source (put16 16 sum segment))"

definition arp_reply :: "bytes \<Rightarrow> bytes \<Rightarrow> eth_frame" where
  "arp_reply sender_mac sender_ip =
     ethernet ETHERTYPE_ARP
       ([0, 1] @ u16_be ETHERTYPE_IPV4 @ [6, 4, 0, 2] @ GATEWAY_MAC @ u32_be GATEWAY @ sender_mac @ sender_ip)"

subsection \<open>DNS names\<close>

fun read_name_loop :: "nat \<Rightarrow> bytes \<Rightarrow> nat \<Rightarrow> string \<Rightarrow> (string \<times> nat) option" where
  "read_name_loop 0 message at name = None"
| "read_name_loop (Suc n) message at name =
     (if length message \<le> at then None
      else
        let len = unat (message ! at) in
        if len = 0 then Some (name, at + 1)
        else if and len 0xc0 = 0xc0 then Some (name, at + 2)
        else if length message < at + 1 + len then None
        else
          let label = string_of (bslice (at + 1) len message);
              name1 = (if name \<noteq> [] then name @ ''.'' else name) @ from_utf8_lossy label
          in read_name_loop n message (at + 1 + len) name1)"

definition read_name :: "bytes \<Rightarrow> nat \<Rightarrow> (string \<times> nat) option" where
  "read_name message at = read_name_loop 128 message at []"

subsection \<open>What the checksum computes\<close>

fun pair_sum :: "bytes \<Rightarrow> nat" where
  "pair_sum (a # b # rest) = unat a * 256 + unat b + pair_sum rest"
| "pair_sum [a] = unat a * 256"
| "pair_sum [] = 0"

definition finish_pairs :: "u32 \<times> byte option \<Rightarrow> u32" where
  "finish_pairs r = (case r of (s, Some a) \<Rightarrow> s + be_pair a 0 | (s, None) \<Rightarrow> s)"

definition carried :: "byte option \<Rightarrow> bytes" where
  "carried left = (case left of None \<Rightarrow> [] | Some a \<Rightarrow> [a])"

lemma icmp_sum_eq: "icmp_sum s bs = s + word_of_nat (pair_sum bs)"
  by (induction s bs rule: icmp_sum.induct) (simp_all add: be_pair_def add.assoc)

lemma add_pairs_append:
  "add_pairs s xs = (s1, left) \<Longrightarrow> icmp_sum s (xs @ ys) = icmp_sum s1 (carried left @ ys)"
  by (induction s xs rule: add_pairs.induct) (auto simp: carried_def)

lemma sum_parts_eq: "finish_pairs (sum_parts s left parts) = icmp_sum s (carried left @ concat parts)"
proof (induction s left parts rule: sum_parts.induct)
  case (1 s left)
  then show ?case by (simp add: finish_pairs_def carried_def split: option.splits)
next
  case (2 s part parts)
  then show ?case
    using add_pairs_append [of s part _ _ "concat parts"] by (simp add: carried_def split: prod.splits)
next
  case (3 s a parts)
  then show ?case by simp
next
  case (4 s a b rest parts)
  then show ?case
    using add_pairs_append [of "s + be_pair a b" rest _ _ "concat parts"] by (simp add: carried_def split: prod.splits)
qed

lemma checksum_eq: "checksum parts = NOT (ucast (fold_carry (finish_pairs (sum_parts 0 None parts))))"
  by (simp add: checksum_def finish_pairs_def split: prod.splits option.splits)

lemma fold_carry_spec:
  "unat (fold_carry s) < 65536 \<and> unat (fold_carry s) mod 65535 = unat s mod 65535 \<and> (fold_carry s = 0 \<longleftrightarrow> s = 0)"
proof (induction s rule: fold_carry.induct)
  case (1 s)
  let ?t = "(s AND 0xffff) + drop_bit 16 s"
  show ?case
  proof (cases "drop_bit 16 s = 0")
    case True
    then have "unat s div 65536 = 0" using carry_parts(2) [of s] by simp
    then show ?thesis using True by (simp add: fold_carry.simps [of s] div_eq_0_iff)
  next
    case False
    have "unat s = unat s mod 65536 + unat s div 65536 + 65535 * (unat s div 65536)"
      using div_mult_mod_eq [of "unat s" 65536] by linarith
    then have "unat ?t mod 65535 = unat s mod 65535"
      unfolding carry_sum by (metis mod_mult_self2)
    moreover have "?t = 0 \<longleftrightarrow> s = 0"
      using False carry_sum [of s] carry_parts(2) [of s] by (metis add_is_0 drop_bit_of_0 unat_eq_zero)
    ultimately show ?thesis using 1 False by (simp add: fold_carry.simps [of s])
  qed
qed

lemma pair_sum_bound: "pair_sum bs \<le> 65535 * ((length bs + 1) div 2)"
proof (induction bs rule: pair_sum.induct)
  case (1 a b rest)
  have "unat a \<le> 255" "unat b \<le> 255" using byte_bound [of a] byte_bound [of b] by linarith+
  with 1 show ?case by simp
next
  case (2 a)
  have "unat a \<le> 255" using byte_bound [of a] by linarith
  then show ?case by simp
qed simp

lemma pair_sum_append: "even (length xs) \<Longrightarrow> pair_sum (xs @ ys) = pair_sum xs + pair_sum ys"
  by (induction xs rule: pair_sum.induct) auto

lemma unat_not16: "unat (NOT w :: u16) = 65535 - unat w"
proof -
  have "NOT w = 65535 - w" by (simp add: not_eq_complement)
  moreover have "w \<le> 65535" using unsigned_less [of w, where ?'a = nat] by (simp add: word_le_nat_alt)
  ultimately show ?thesis by (simp add: unat_sub)
qed

lemma unat_checksum: "unat (icmp_checksum bs) = 65535 - unat (fold_carry (icmp_sum 0 bs))"
proof -
  have "unat (ucast (fold_carry (icmp_sum 0 bs)) :: u16) = unat (fold_carry (icmp_sum 0 bs))"
    using fold_carry_spec [of "icmp_sum 0 bs"] by (simp add: unsigned_ucast_eq take_bit_eq_mod)
  then show ?thesis by (simp add: icmp_checksum_def unat_not16)
qed

text \<open>A message that carries its own checksum in an aligned field sums to nothing.\<close>

lemma checksum_fills:
  assumes "even at" "at + 2 \<le> length bs" "bslice at 2 bs = [0, 0]" "length bs < 100000"
  shows "icmp_checksum (put16 at (icmp_checksum bs) bs) = 0"
proof -
  define c where "c = icmp_checksum bs"
  define S where "S = pair_sum bs"
  let ?f = "\<lambda>n. unat (fold_carry (word_of_nat n))"
  have parts: "bs = take at bs @ [0, 0] @ drop (at + 2) bs"
    using assms(3) append_take_drop_id [of at bs] append_take_drop_id [of 2 "drop at bs"]
    by (simp add: bslice_def add.commute)
  have even: "even (length (take at bs))" using assms(1,2) by simp
  have c2: "pair_sum (u16_be c @ xs) = unat c + pair_sum xs" for xs
  proof -
    have "u16_be c = [word_of_nat (unat c div 256), word_of_nat (unat c)]"
      by (simp add: u16_be_def to_be_def numeral_2_eq_2)
    moreover have "unat c < 65536" using unsigned_less [of c, where ?'a = nat] by simp
    then have "unat c div 256 mod 256 = unat c div 256" by (simp add: div_less_dividend less_mult_imp_div_less)
    ultimately show ?thesis by (simp add: unat_of_nat unsigned_ucast_eq take_bit_eq_mod)
  qed
  have "S = pair_sum (take at bs) + pair_sum (drop (at + 2) bs)"
    unfolding S_def by (rule trans [OF arg_cong [OF parts, of pair_sum]]) (simp add: pair_sum_append [OF even])
  then have filled: "pair_sum (put16 at c bs) = S + unat c"
    by (simp add: put16_def pair_sum_append [OF even] c2)
  have bound: "S + 65535 < 2 ^ 32"
    using pair_sum_bound [of bs] assms(4) by (simp add: S_def)
  have cv: "unat c = 65535 - ?f S" by (simp add: c_def unat_checksum icmp_sum_eq S_def)
  have "S + unat c < 2 ^ 32" using bound cv by linarith
  then have S: "unat (word_of_nat S :: u32) = S" "unat (word_of_nat (S + unat c) :: u32) = S + unat c"
    by (simp_all add: unat_of_nat del: of_nat_add)
  have f: "?f S < 65536" "?f S mod 65535 = S mod 65535" "?f S = 0 \<longleftrightarrow> S = 0"
    using fold_carry_spec [of "word_of_nat S"] S(1) by (auto simp flip: unat_eq_zero)
  have g: "?f (S + unat c) < 65536" "?f (S + unat c) mod 65535 = (S + unat c) mod 65535"
    "?f (S + unat c) = 0 \<longleftrightarrow> S + unat c = 0"
    using fold_carry_spec [of "word_of_nat (S + unat c)"] S(2) by (auto simp del: of_nat_add simp flip: unat_eq_zero)
  have "(?f S + unat c) mod 65535 = 0" using f(1) cv by simp
  then have "(S + unat c) mod 65535 = 0" using f(2) by (metis mod_add_left_eq)
  moreover have "S + unat c \<noteq> 0" using f(3) cv by (cases "S = 0") simp_all
  ultimately have "?f (S + unat c) = 65535" using g by (cases "?f (S + unat c) = 65535") auto
  then show ?thesis
    unfolding c_def [symmetric] using unat_checksum [of "put16 at c bs"] by (simp add: icmp_sum_eq filled unat_eq_zero)
qed

subsection \<open>Frames read back\<close>

lemma put16_header:
  "put16 10 v (ipv4_header protocol source n) =
     [0x45, 0] @ u16_be (word_of_nat n) @ u16_be 0 @ u16_be 0x4000 @ [64, protocol] @ u16_be v @
     u32_be source @ u32_be GUEST"
  by (simp add: put16_def ipv4_header_def)

lemma put16_segment:
  "put16 16 v (tcp_header guest_port port sequence acknowledged flags window @ data) =
     u16_be port @ u16_be guest_port @ u32_be sequence @ u32_be acknowledged @ [push_bit 4 5, flags] @
     u16_be (ucast (min window 0xffff)) @ u16_be v @ u16_be 0 @ data"
  by (simp add: put16_def tcp_header_def)

lemma length_header [simp]: "length (ipv4_header protocol source n) = 20"
  "length (tcp_header guest_port port sequence acknowledged flags window) = 20"
  "length (pseudo_header protocol source destination n) = 12"
  by (simp_all add: ipv4_header_def tcp_header_def pseudo_header_def)

lemma length_put16: "at + 2 \<le> length bs \<Longrightarrow> length (put16 at v bs) = length bs"
  by (simp add: put16_def)

lemma put16_skip: "put16 (length xs + at) v (xs @ ys) = xs @ put16 at v ys"
  by (simp add: put16_def)

lemma bslice_Cons [codec_simps]:
  "bslice (numeral k) n (x # xs) = bslice (pred_numeral k) n xs" "bslice (Suc i) n (x # xs) = bslice i n xs"
  by (simp_all add: bslice_def)

lemma u16_be_zero: "u16_be 0 = [0, 0]"
  by (simp add: u16_be_def to_be_def numeral_2_eq_2)

lemma ipv4_packet:
  "drop 14 (ipv4 protocol source payload) =
     put16 10 (checksum [ipv4_header protocol source (20 + length payload)])
       (ipv4_header protocol source (20 + length payload)) @ payload"
  by (simp add: ipv4_def ethernet_def Let_def GUEST_MAC_def GATEWAY_MAC_def)

lemma concat_checksum: "checksum parts = icmp_checksum (concat parts)"
  using sum_parts_eq [of 0 None parts] by (simp add: checksum_eq icmp_checksum_def carried_def)

lemma ipv4_header_verifies:
  "checksum [take 20 (drop 14 (ipv4 protocol source payload))] = 0"
proof -
  let ?h = "ipv4_header protocol source (20 + length payload)"
  have "bslice 10 2 ?h = [0, 0]" by (simp add: ipv4_header_def bslice_def u16_be_zero)
  then have "icmp_checksum (put16 10 (icmp_checksum ?h) ?h) = 0"
    by (intro checksum_fills) simp_all
  then show ?thesis by (simp add: ipv4_packet length_put16 concat_checksum)
qed

lemma tcp_segment_packet:
  "drop 34 (tcp_segment source guest_port port sequence acknowledged flags window data) =
     put16 16 (transport_checksum PROTO_TCP source GUEST
       (tcp_header guest_port port sequence acknowledged flags window @ data))
       (tcp_header guest_port port sequence acknowledged flags window @ data)"
proof -
  have "drop 34 f = drop 20 (drop 14 f)" for f :: eth_frame by simp
  then show ?thesis by (simp only: tcp_segment_def Let_def ipv4_packet) (simp add: length_put16)
qed

lemma tcp_checksum_verifies:
  assumes "length data \<le> 65495"
    and "seg = drop 34 (tcp_segment source guest_port port sequence acknowledged flags window data)"
  shows "checksum [pseudo_header PROTO_TCP source GUEST (length seg), seg] = 0"
proof -
  let ?s = "tcp_header guest_port port sequence acknowledged flags window @ data"
  let ?p = "pseudo_header PROTO_TCP source GUEST (length ?s)"
  have "bslice 28 2 (?p @ ?s) = [0, 0]"
    by (simp add: pseudo_header_def tcp_header_def bslice_def u16_be_zero)
  then have "icmp_checksum (put16 28 (icmp_checksum (?p @ ?s)) (?p @ ?s)) = 0"
    using assms(1) by (intro checksum_fills) simp_all
  moreover have "put16 28 v (?p @ ?s) = ?p @ put16 16 v ?s" for v
    using put16_skip [of ?p 16 v ?s] by simp
  ultimately show ?thesis
    by (simp add: assms(2) tcp_segment_packet length_put16 concat_checksum transport_checksum_def)
qed

subsection \<open>Properties of the packets\<close>

text \<open>The checksum over several slices (\<open>net.rs\<close>), which carries an odd byte from one slice into the
  next, is the plain checksum of the concatenated slices (\<open>icmp.rs\<close>), wherever the cuts are.\<close>

theorem checksum_of_slices: "checksum parts = icmp_checksum (concat parts)"
  by (rule concat_checksum)

text \<open>A TCP segment the stack builds is one a receiver accepts and reads back: the IPv4 header and the
  TCP pseudo-header checksums verify, the total length is that of the packet, the addresses are the
  peer's and the guest's, and ports, sequence and acknowledgement numbers, flags and data are the ones
  given, for all data that fits an IPv4 packet.\<close>

theorem tcp_segment_reads_back:
  assumes "length data \<le> 65495"
    and "frame = tcp_segment source guest_port port sequence acknowledged flags window data"
    and "packet = drop 14 frame" "seg = drop 20 packet"
  shows "checksum [take 20 packet] = 0 \<and> checksum [pseudo_header PROTO_TCP source GUEST (length seg), seg] = 0
    \<and> unat (be16_at 2 packet) = length packet \<and> be32_at 12 packet = source \<and> be32_at 16 packet = GUEST
    \<and> be16_at 0 seg = port \<and> be16_at 2 seg = guest_port \<and> be32_at 4 seg = sequence \<and> be32_at 8 seg = acknowledged
    \<and> seg ! 13 = flags \<and> drop 20 seg = data"
proof -
  let ?h = "tcp_header guest_port port sequence acknowledged flags window @ data"
  let ?seg = "put16 16 (transport_checksum PROTO_TCP source GUEST ?h) ?h"
  have frame: "frame = ipv4 PROTO_TCP source ?seg" by (simp add: assms(2) tcp_segment_def Let_def)
  have seg34: "seg = drop 34 (tcp_segment source guest_port port sequence acknowledged flags window data)"
    by (simp add: assms)
  have seg: "seg = ?seg" unfolding seg34 by (rule tcp_segment_packet)
  have packet: "packet = put16 10 (checksum [ipv4_header PROTO_TCP source (20 + length ?seg)])
      (ipv4_header PROTO_TCP source (20 + length ?seg)) @ ?seg"
    unfolding assms(3) frame by (rule ipv4_packet)
  have len: "length ?seg = 20 + length data" by (simp add: length_put16)
  have "be16_at 2 packet = word_of_nat (length packet)"
    unfolding packet by (simp add: len length_put16 put16_header be16_at_def codec_simps)
  moreover have "length packet = 40 + length data" unfolding packet by (simp add: len length_put16)
  ultimately have "unat (be16_at 2 packet) = length packet"
    using assms(1) by (simp add: unat_of_nat del: of_nat_add)
  moreover have "be32_at 12 packet = source" "be32_at 16 packet = GUEST"
    unfolding packet by (simp_all add: len put16_header be32_at_def codec_simps)
  moreover have "checksum [take 20 packet] = 0"
    unfolding assms(3) frame by (rule ipv4_header_verifies)
  moreover have "be16_at 0 seg = port" "be16_at 2 seg = guest_port" "be32_at 4 seg = sequence"
    "be32_at 8 seg = acknowledged" "seg ! 13 = flags" "drop 20 seg = data"
    unfolding seg put16_segment by (simp_all add: be16_at_def be32_at_def codec_simps nth_append)
  ultimately show ?thesis using tcp_checksum_verifies [OF assms(1) seg34] by simp
qed

theorem tcp_segment_reads_back_witness:
  "length [1, 2, 3 :: byte] \<le> 65495 \<and>
   drop 20 (drop 20 (drop 14 (tcp_segment GATEWAY 40000 80 7 9 TCP_ACK WINDOW [1, 2, 3]))) = [1, 2, 3]"
  using tcp_segment_reads_back [of "[1, 2, 3]", OF _ refl refl refl] by simp

end
