(* ===== verification/Net.thy ===== *)
theory Net
  imports Policy Buffers Packets "HOL-Library.AList"
begin

unbundle bit_operations_syntax

text \<open>
  The TCP/IP stack behind the network device, \<open>engine/src/net.rs\<close>: the policy's decision about an
  address, the handlers of what arrives from the guest (ARP, ICMP echo, DNS, TCP), the threads the
  handlers start, and the virtio device that carries the frames.

  A thread is a \<open>task\<close> of the state, run as one step with what the host answered as an argument. What
  the process does on the network is logged in \<open>n_outward\<close>, what the app was asked in \<open>n_asked\<close>, what the
  observer is told in \<open>n_events\<close>; \<open>n_done\<close> keeps the connections whose socket was closed. A connection's
  channel to the thread that writes the host socket is \<open>k_to_host\<close> (is its sender still held) with
  \<open>k_handed\<close>, the messages sent into it; \<open>host_writer\<close> is that thread, given for each write whether it
  succeeded or how much of it went out before it failed. Code outside the repository is in \<open>net_env\<close>: the host's resolver
  (given how much has been done before, so that answers may change), the app's answer, random numbers.
\<close>

subsection \<open>State\<close>

datatype ipaddr = V4 ipv4_addr | V6 "128 word"

type_synonym conn_key = "u16 \<times> ipv4_addr \<times> u16"

datatype net_event =
    Dns string "string list" bool "string option"
  | Connect_event u64 string u16 string bool "string option"
  | Ping_event string "nat option" bool "string option"

record tcp_conn =
  k_id :: u64
  k_guest_target :: ipv4_addr
  k_guest_port :: u16
  k_port :: u16
  k_send_next :: u32
  k_send_unacked :: u32
  k_receive_next :: u32
  k_peer_window :: u32
  k_outgoing :: bytes
  k_to_host :: bool
  k_handed :: "bytes list"
  k_socket :: bool
  k_established :: bool
  k_host_closed :: bool
  k_fin_sent :: bool
  k_guest_finished :: bool
  k_closed :: bool

definition in_flight :: "tcp_conn \<Rightarrow> nat" where
  "in_flight c = unat (k_send_next c - k_send_unacked c)"

definition sendable :: "tcp_conn \<Rightarrow> nat" where
  "sendable c = min (unat (k_peer_window c) - in_flight c) (length (k_outgoing c))"

datatype task =
    PingTask ipv4_addr bytes
  | AskTask conn_key u64 u32 ipv4_addr string
  | ConnectTask conn_key ipv4_addr u16
  | ReaderTask conn_key

datatype outward = Lookup string | Dial ipv4_addr u16 bool | Echo ipv4_addr

record stack =
  n_frames :: "eth_frame list"
  n_conns :: "(conn_key \<times> tcp_conn) list"
  n_resolved :: "ipv4_addr \<rightharpoonup> string list"
  n_next_id :: u64
  n_pings :: nat
  n_tasks :: "task list"
  n_done :: "(conn_key \<times> tcp_conn) list"
  n_events :: "net_event list"
  n_outward :: "outward list"
  n_asked :: "(string \<times> bool) list"

definition stack_new :: stack where
  "stack_new = \<lparr>n_frames = [], n_conns = [], n_resolved = (\<lambda>_. None), n_next_id = 1, n_pings = 0, n_tasks = [],
     n_done = [], n_events = [], n_outward = [], n_asked = []\<rparr>"

record net_env =
  e_lc :: "string \<Rightarrow> string"
  e_policy :: policy
  e_asker :: "(string \<Rightarrow> bool) option"
  e_interceptor :: bool
  e_resolve :: "nat \<Rightarrow> string \<Rightarrow> string + ipaddr list"
  e_random :: "u64 \<Rightarrow> u32"

abbreviation MAX_PINGS :: nat where "MAX_PINGS \<equiv> 32"

datatype decision = Allow | Refuse string | Ask string

definition report :: "net_event \<Rightarrow> stack \<Rightarrow> stack" where
  "report event st = st\<lparr>n_events := n_events st @ [event]\<rparr>"

definition net_send :: "eth_frame \<Rightarrow> stack \<Rightarrow> stack" where
  "net_send f st = st\<lparr>n_frames := n_frames st @ [f]\<rparr>"

definition spawn :: "task \<Rightarrow> stack \<Rightarrow> stack" where
  "spawn t st = st\<lparr>n_tasks := n_tasks st @ [t]\<rparr>"

definition put_conn :: "conn_key \<Rightarrow> tcp_conn \<Rightarrow> stack \<Rightarrow> stack" where
  "put_conn key c st = st\<lparr>n_conns := AList.update key c (n_conns st)\<rparr>"

definition drop_conn :: "conn_key \<Rightarrow> stack \<Rightarrow> stack" where
  "drop_conn key st = st\<lparr>n_conns := AList.delete key (n_conns st)\<rparr>"

definition go_out :: "outward \<Rightarrow> stack \<Rightarrow> stack" where
  "go_out a st = st\<lparr>n_outward := n_outward st @ [a]\<rparr>"

definition names_in :: "(ipv4_addr \<rightharpoonup> string list) \<Rightarrow> ipv4_addr \<Rightarrow> string list" where
  "names_in resolved address = (case resolved address of Some names \<Rightarrow> names | None \<Rightarrow> [])"

abbreviation names_of :: "stack \<Rightarrow> ipv4_addr \<Rightarrow> string list" where
  "names_of st \<equiv> names_in (n_resolved st)"

definition loopback4 :: "ipv4_addr \<Rightarrow> bool" where
  "loopback4 ip \<longleftrightarrow> drop_bit 24 ip = 127"

definition not_allowed :: "string \<Rightarrow> string" where
  "not_allowed what = ''blocked by the network policy: the app did not allow '' @ quoted what"

subsection \<open>The decision\<close>

definition decide :: "net_env \<Rightarrow> stack \<Rightarrow> ipv4_addr \<Rightarrow> ipv4_addr \<Rightarrow> u16 option \<Rightarrow> decision" where
  "decide env st address dest port =
     (let p = e_policy env; lc = e_lc env in
      if loopback4 dest then
        (if p_allow_loopback p then Allow
         else Refuse ''the host's own services (192.0.2.1 = its localhost) are not allowed'')
      else
        let names = names_of st address in
        if list_ex (\<lambda>name. refuses_host lc p name = None) names then Allow
        else
          let ip = dotted address in
          case refuses_host lc p ip of
            None \<Rightarrow> Allow
          | Some reason \<Rightarrow>
              let host = (if p_ask p \<and> e_asker env \<noteq> None
                  then (if names = [] then (if unlisted lc p ip then Some ip else None)
                        else find (unlisted lc p) names)
                  else None) in
              case host of
                Some host \<Rightarrow> Ask (case port of Some port \<Rightarrow> host @ '':'' @ decimal (unat port) | None \<Rightarrow> host @ '' (ping)'')
              | None \<Rightarrow>
                  Refuse (case names of
                      name # _ \<Rightarrow> (case refuses_host lc p name of Some r \<Rightarrow> r | None \<Rightarrow> reason)
                    | [] \<Rightarrow> ip @ '' was not resolved from an allowed name''))"

definition ask_app :: "net_env \<Rightarrow> string \<Rightarrow> stack \<Rightarrow> stack \<times> bool" where
  "ask_app env what st =
     (case e_asker env of
        None \<Rightarrow> (st, False)
      | Some ask \<Rightarrow> (st\<lparr>n_asked := n_asked st @ [(what, ask what)]\<rparr>, ask what))"

subsection \<open>ARP and ICMP\<close>

definition receive_arp :: "bytes \<Rightarrow> stack \<Rightarrow> stack" where
  "receive_arp pkt st =
     (if length pkt < 28 \<or> be16_at 6 pkt \<noteq> 1 then st
      else if be32_at 24 pkt \<noteq> GATEWAY then st
      else net_send (arp_reply (bslice 8 6 pkt) (bslice 14 4 pkt)) st)"

definition receive_icmp :: "ipv4_addr \<Rightarrow> bytes \<Rightarrow> stack \<Rightarrow> stack" where
  "receive_icmp destination payload st =
     (if length payload < 8 \<or> payload ! 0 \<noteq> 8 then st
      else if destination = GATEWAY then net_send (echo_reply destination payload) st
      else if n_pings st \<ge> MAX_PINGS then st
      else spawn (PingTask destination payload) (st\<lparr>n_pings := n_pings st + 1\<rparr>))"

definition ping :: "net_env \<Rightarrow> string + nat option \<Rightarrow> ipv4_addr \<Rightarrow> bytes \<Rightarrow> stack \<Rightarrow> stack" where
  "ping env echo destination req st =
     (let ip = dotted destination;
          (st1, refused) = (case decide env st destination destination None of
              Allow \<Rightarrow> (st, None)
            | Refuse reason \<Rightarrow> (st, Some reason)
            | Ask what \<Rightarrow> (case ask_app env what st of
                  (st1, True) \<Rightarrow> (st1, None)
                | (st1, False) \<Rightarrow> (st1, Some (not_allowed what))))
      in case refused of
          Some reason \<Rightarrow> report (Ping_event ip None True (Some reason)) st1
        | None \<Rightarrow>
            (case echo of
               Inr (Some rtt) \<Rightarrow>
                 report (Ping_event ip (Some rtt) False None)
                   (net_send (echo_reply destination req) (go_out (Echo destination) st1))
             | Inr None \<Rightarrow> report (Ping_event ip None False (Some ''no reply'')) (go_out (Echo destination) st1)
             | Inl error \<Rightarrow> report (Ping_event ip None False (Some error)) (go_out (Echo destination) st1)))"

subsection \<open>DNS\<close>

definition remember :: "string \<Rightarrow> ipv4_addr \<Rightarrow> (ipv4_addr \<rightharpoonup> string list) \<Rightarrow> (ipv4_addr \<rightharpoonup> string list)" where
  "remember name address resolved =
     (let names = names_in resolved address
      in resolved(address \<mapsto> if name \<in> set names then names else names @ [name]))"

definition v4_only :: "ipaddr list \<Rightarrow> ipv4_addr list" where
  "v4_only found = remdups_adj (List.map_filter (\<lambda>a. case a of V4 ip \<Rightarrow> Some ip | V6 _ \<Rightarrow> None) found)"

definition resolve :: "net_env \<Rightarrow> string \<Rightarrow> u16 \<Rightarrow> stack \<Rightarrow> stack \<times> u8 \<times> ipv4_addr list" where
  "resolve env name kind st =
     (let p = e_policy env; lc = e_lc env;
          refused = (case refuses_host lc p name of
              Some reason \<Rightarrow> if p_ask p \<and> e_asker env \<noteq> None \<and> unlisted lc p name then None else Some reason
            | None \<Rightarrow> None)
      in case refused of
          Some reason \<Rightarrow> (report (Dns name [] True (Some reason)) st, 3, [])
        | None \<Rightarrow>
            if kind = 1 then
              (let st1 = go_out (Lookup name) st in
               case e_resolve env (length (n_outward st)) name of
                 Inr found \<Rightarrow>
                   let addresses = v4_only found;
                       st2 = (if addresses \<noteq> []
                         then st1\<lparr>n_resolved := fold (remember name) addresses (n_resolved st1)\<rparr> else st1)
                   in (report (Dns name (map dotted addresses) False None) st2, if addresses \<noteq> [] then 0 else 3, addresses)
               | Inl error \<Rightarrow> (report (Dns name [] False (Some error)) st1, 3, []))
            else (st, 0, []))"

definition dns_response :: "u16 \<Rightarrow> u8 \<Rightarrow> bytes \<Rightarrow> ipv4_addr list \<Rightarrow> bytes" where
  "dns_response ident code question addresses =
     u16_be ident @ u16_be (0x8180 OR ucast code) @ u16_be 1 @ u16_be (word_of_nat (length addresses)) @ u16_be 0 @ u16_be 0 @
     question @
     concat (map (\<lambda>a. u16_be 0xc00c @ u16_be 1 @ u16_be 1 @ u32_be 60 @ u16_be 4 @ u32_be a) addresses)"

definition answer_dns :: "net_env \<Rightarrow> bytes \<Rightarrow> stack \<Rightarrow> stack \<times> bytes option" where
  "answer_dns env query st =
     (if length query < 12 then (st, None)
      else if be16_at 4 query \<noteq> 1 then (st, None)
      else case read_name query 12 of
          None \<Rightarrow> (st, None)
        | Some (name, at) \<Rightarrow>
            if length query < at + 4 then (st, None)
            else
              let kind = be16_at at query;
                  question = bslice 12 (at + 4 - 12) query;
                  name1 = e_lc env (trim_end_matches (\<lambda>c. c = CHR ''.'') name)
              in case resolve env name1 kind st of
                  (st1, code, addresses) \<Rightarrow> (st1, Some (dns_response (be16_at 0 query) code question addresses)))"

definition udp_datagram :: "u16 \<Rightarrow> u16 \<Rightarrow> ipv4_addr \<Rightarrow> bytes \<Rightarrow> bytes" where
  "udp_datagram source_port destination_port destination answer =
     (let datagram = u16_be destination_port @ u16_be source_port @ u16_be (word_of_nat (8 + length answer)) @ u16_be 0 @ answer;
          sum = transport_checksum PROTO_UDP destination GUEST datagram
      in put16 6 (if sum = 0 then 0xffff else sum) datagram)"

definition receive_udp :: "net_env \<Rightarrow> ipv4_addr \<Rightarrow> bytes \<Rightarrow> stack \<Rightarrow> stack" where
  "receive_udp env destination payload st =
     (if length payload < 8 then st
      else
        let source_port = be16_at 0 payload; destination_port = be16_at 2 payload; len = unat (be16_at 4 payload) in
        if destination_port \<noteq> 53 \<or> len < 8 \<or> length payload < len then st
        else case answer_dns env (bslice 8 (len - 8) payload) st of
            (st1, None) \<Rightarrow> st1
          | (st1, Some answer) \<Rightarrow>
              net_send (ipv4 PROTO_UDP destination (udp_datagram source_port destination_port destination answer)) st1)"

subsection \<open>TCP\<close>

definition close_socket :: "tcp_conn \<Rightarrow> tcp_conn" where
  "close_socket c = c\<lparr>k_to_host := False, k_socket := False\<rparr>"

definition conn_segment :: "tcp_conn \<Rightarrow> u8 \<Rightarrow> u32 \<Rightarrow> bytes \<Rightarrow> eth_frame" where
  "conn_segment c flags window data =
     tcp_segment (k_guest_target c) (k_guest_port c) (k_port c) (k_send_next c) (k_receive_next c) flags window data"

definition refuse :: "u64 \<Rightarrow> ipv4_addr \<Rightarrow> u16 \<Rightarrow> u16 \<Rightarrow> u32 \<Rightarrow> string \<Rightarrow> stack \<Rightarrow> stack" where
  "refuse ident destination port guest_port sequence reason st =
     net_send (tcp_segment destination guest_port port 0 (sequence + 1) (TCP_RST OR TCP_ACK) 0 [])
       (report (Connect_event ident (dotted destination) port ''failed'' True (Some reason)) st)"

definition conn_new :: "u64 \<Rightarrow> ipv4_addr \<Rightarrow> u16 \<Rightarrow> u16 \<Rightarrow> u32 \<Rightarrow> u32 \<Rightarrow> u32 \<Rightarrow> tcp_conn" where
  "conn_new ident destination guest_port port initial sequence window =
     \<lparr>k_id = ident, k_guest_target = destination, k_guest_port = guest_port, k_port = port, k_send_next = initial,
      k_send_unacked = initial, k_receive_next = sequence + 1, k_peer_window = max window 1, k_outgoing = [],
      k_to_host = False, k_handed = [], k_socket = False, k_established = False, k_host_closed = False,
      k_fin_sent = False, k_guest_finished = False, k_closed = False\<rparr>"

definition net_open :: "net_env \<Rightarrow> conn_key \<Rightarrow> u32 \<Rightarrow> u32 \<Rightarrow> ipv4_addr \<Rightarrow> u16 \<Rightarrow> u16 \<Rightarrow> stack \<Rightarrow> stack" where
  "net_open env key sequence window destination port guest_port st =
     (let ident = n_next_id st + 1;
          st1 = st\<lparr>n_next_id := ident\<rparr>;
          dest = (if destination = GATEWAY then LOCALHOST else destination);
          insert = (\<lambda>st. put_conn key
            (conn_new ident destination guest_port port (e_random env ident) sequence window) st)
      in case decide env st1 destination dest (Some port) of
          Refuse reason \<Rightarrow> refuse ident destination port guest_port sequence reason st1
        | Allow \<Rightarrow>
            if map_of (n_conns st1) key \<noteq> None then st1
            else spawn (ConnectTask key dest port)
              (report (Connect_event ident (dotted destination) port ''open'' False None) (insert st1))
        | Ask what \<Rightarrow>
            if map_of (n_conns st1) key \<noteq> None then st1
            else spawn (AskTask key ident sequence dest what) (insert st1))"

definition answer_ask :: "net_env \<Rightarrow> conn_key \<Rightarrow> u64 \<Rightarrow> u32 \<Rightarrow> ipv4_addr \<Rightarrow> string \<Rightarrow> stack \<Rightarrow> stack" where
  "answer_ask env key ident sequence dest what st =
     (case key of (guest_port, destination, port) \<Rightarrow>
        (case ask_app env what st of
           (st1, True) \<Rightarrow>
             spawn (ConnectTask key dest port)
               (report (Connect_event ident (dotted destination) port ''open'' False None) st1)
         | (st1, False) \<Rightarrow>
             refuse ident destination port guest_port sequence (not_allowed what) (drop_conn key st1)))"

definition interceptor_for :: "net_env \<Rightarrow> stack \<Rightarrow> ipv4_addr \<Rightarrow> ipv4_addr \<Rightarrow> bool" where
  "interceptor_for env st dest guest_target =
     (e_interceptor env \<and>
      list_ex (has_secret_for (e_lc env) (e_policy env))
        (if loopback4 dest then [''localhost''] else names_of st guest_target))"

definition connect_host :: "net_env \<Rightarrow> string + bool \<Rightarrow> conn_key \<Rightarrow> ipv4_addr \<Rightarrow> u16 \<Rightarrow> stack \<Rightarrow> stack" where
  "connect_host env socket key dest port st =
     (let st1 = go_out (Dial dest port (interceptor_for env st dest (fst (snd key)))) st in
      case map_of (n_conns st1) key of
        None \<Rightarrow> st1
      | Some c \<Rightarrow>
          (case socket of
             Inr cloned \<Rightarrow>
               let c1 = c\<lparr>k_socket := cloned, k_established := True, k_to_host := True\<rparr>;
                   reply = conn_segment c1 (TCP_SYN OR TCP_ACK) WINDOW [];
                   c2 = c1\<lparr>k_send_next := k_send_next c1 + 1\<rparr>;
                   c3 = c2\<lparr>k_send_unacked := k_send_next c2 - 1\<rparr>
               in spawn (ReaderTask key) (net_send reply (put_conn key c3 st1))
           | Inl error \<Rightarrow>
               report (Connect_event (k_id c) (dotted (k_guest_target c)) (k_port c) ''failed'' False (Some error))
                 (net_send (conn_segment c (TCP_RST OR TCP_ACK) 0 []) (drop_conn key st1))))"

fun host_writer :: "nat option list \<Rightarrow> bytes list \<Rightarrow> bytes" where
  "host_writer (None # results) (bs # messages) = bs @ host_writer results messages"
| "host_writer (Some n # results) (bs # messages) = take n bs"
| "host_writer _ _ = []"

function flush_data :: "tcp_conn \<Rightarrow> eth_frame list \<times> tcp_conn" where
  "flush_data c =
     (if sendable c > 0 then
        let tk = min (sendable c) MAX_SEGMENT;
            data = take tk (k_outgoing c);
            f = conn_segment c (TCP_ACK OR TCP_PSH) WINDOW data;
            (fs, c1) = flush_data (c\<lparr>k_outgoing := drop tk (k_outgoing c), k_send_next := k_send_next c + word_of_nat (length data)\<rparr>)
        in (f # fs, c1)
      else ([], c))"
  by pat_completeness auto
termination by (relation "measure (\<lambda>c. length (k_outgoing c))") (auto simp: sendable_def)

declare flush_data.simps [simp del]

definition flush_conn :: "bool \<Rightarrow> eth_frame list \<Rightarrow> tcp_conn \<Rightarrow> eth_frame list \<times> tcp_conn" where
  "flush_conn acknowledge frames c =
     (case flush_data c of (fs, c1) \<Rightarrow>
        let frames1 = frames @ fs in
        if k_host_closed c1 \<and> k_outgoing c1 = [] \<and> \<not> k_fin_sent c1
        then (frames1 @ [conn_segment c1 (TCP_ACK OR TCP_FIN) WINDOW []],
              c1\<lparr>k_send_next := k_send_next c1 + 1, k_fin_sent := True\<rparr>)
        else if acknowledge \<and> frames1 = [] then (frames1 @ [conn_segment c1 TCP_ACK WINDOW []], c1)
        else (frames1, c1))"

definition finished :: "tcp_conn \<Rightarrow> bool" where
  "finished c \<longleftrightarrow> k_fin_sent c \<and> k_guest_finished c \<and> k_send_unacked c = k_send_next c"

fun flush_keys :: "bool \<Rightarrow> conn_key list \<Rightarrow> eth_frame list \<Rightarrow> (conn_key \<times> tcp_conn) list \<Rightarrow> (conn_key \<times> tcp_conn) list
    \<Rightarrow> eth_frame list \<times> (conn_key \<times> tcp_conn) list \<times> (conn_key \<times> tcp_conn) list" where
  "flush_keys acknowledge [] frames fin conns = (frames, fin, conns)"
| "flush_keys acknowledge (key # keys) frames fin conns =
     (case map_of conns key of
        None \<Rightarrow> flush_keys acknowledge keys frames fin conns
      | Some c \<Rightarrow>
          if \<not> k_established c then flush_keys acknowledge keys frames fin conns
          else case flush_conn acknowledge frames c of
              (frames1, c1) \<Rightarrow>
                flush_keys acknowledge keys frames1 (if finished c1 then fin @ [(key, c1)] else fin)
                  (AList.update key c1 conns))"

definition close_finished :: "(conn_key \<times> tcp_conn) list \<Rightarrow> stack \<Rightarrow> stack" where
  "close_finished fin st =
     fold (\<lambda>(key, c) st. (drop_conn key st)\<lparr>n_done := n_done st @ [(key, close_socket c)]\<rparr>) fin st"

definition net_flush :: "conn_key option \<Rightarrow> bool \<Rightarrow> stack \<Rightarrow> stack" where
  "net_flush only acknowledge st =
     (let keys = (case only of Some key \<Rightarrow> [key] | None \<Rightarrow> map fst (n_conns st)) in
      case flush_keys acknowledge keys [] [] (n_conns st) of
        (frames, fin, conns) \<Rightarrow>
          let st1 = close_finished fin (st\<lparr>n_conns := conns\<rparr>);
              st2 = fold net_send frames st1
          in fold (\<lambda>(_, c). report (Connect_event (k_id c) (dotted (k_guest_target c)) (k_port c) ''closed'' False None)) fin st2)"

definition tcp_accept :: "u32 \<Rightarrow> u32 \<Rightarrow> u8 \<Rightarrow> bytes \<Rightarrow> tcp_conn \<Rightarrow> tcp_conn" where
  "tcp_accept sequence acknowledged flags data c =
     (let c1 = (if flags AND TCP_ACK \<noteq> 0 then
            let acked = acknowledged - k_send_unacked c in
            if acked > 0 \<and> acked \<le> k_send_next c - k_send_unacked c then c\<lparr>k_send_unacked := acknowledged\<rparr> else c
          else c);
          c2 = (if data \<noteq> [] \<and> sequence = k_receive_next c1 then
            let c' = c1\<lparr>k_receive_next := k_receive_next c1 + word_of_nat (length data)\<rparr>
            in if k_to_host c' then c'\<lparr>k_handed := k_handed c' @ [data]\<rparr> else c'
          else c1)
      in if flags AND TCP_FIN \<noteq> 0 \<and> sequence + word_of_nat (length data) = k_receive_next c2
         then c2\<lparr>k_receive_next := k_receive_next c2 + 1, k_guest_finished := True, k_to_host := False\<rparr>
         else c2)"

definition receive_tcp :: "net_env \<Rightarrow> ipv4_addr \<Rightarrow> bytes \<Rightarrow> stack \<Rightarrow> stack" where
  "receive_tcp env destination segment st =
     (if length segment < 20 then st
      else
        let source_port = be16_at 0 segment; destination_port = be16_at 2 segment;
            sequence = be32_at 4 segment; acknowledged = be32_at 8 segment;
            offset = unat (drop_bit 4 (segment ! 12)) * 4;
            flags = segment ! 13;
            window = ucast (be16_at 14 segment) in
        if length segment < offset then st
        else
          let data = drop offset segment; key = (source_port, destination, destination_port) in
          if flags AND TCP_SYN \<noteq> 0 \<and> flags AND TCP_ACK = 0
          then net_open env key sequence window destination destination_port source_port st
          else case map_of (n_conns st) key of
              None \<Rightarrow>
                if flags AND TCP_RST = 0 \<and> destination = GATEWAY
                then net_send (tcp_segment destination source_port destination_port acknowledged 0 TCP_RST 0 []) st
                else st
            | Some c0 \<Rightarrow>
                let c = c0\<lparr>k_peer_window := window\<rparr> in
                if flags AND TCP_RST \<noteq> 0 then
                  report (Connect_event (k_id c) (dotted (k_guest_target c)) (k_port c) ''closed'' False None)
                    ((drop_conn key st)\<lparr>n_done := n_done st @ [(key, close_socket (c\<lparr>k_closed := True\<rparr>))]\<rparr>)
                else net_flush (Some key) (data \<noteq> [] \<or> flags AND TCP_FIN \<noteq> 0)
                  (put_conn key (tcp_accept sequence acknowledged flags data c) st))"

definition read_from_host :: "conn_key \<Rightarrow> bytes option \<Rightarrow> stack \<Rightarrow> stack" where
  "read_from_host key got st =
     (let finish = (\<lambda>st. net_flush (Some key) False
            (case map_of (n_conns st) key of Some c \<Rightarrow> put_conn key (c\<lparr>k_host_closed := True\<rparr>) st | None \<Rightarrow> st)) in
      case got of
        None \<Rightarrow> finish st
      | Some bs \<Rightarrow>
          (case map_of (n_conns st) key of
             None \<Rightarrow> finish st
           | Some c \<Rightarrow>
               spawn (ReaderTask key)
                 (net_flush (Some key) False (put_conn key (c\<lparr>k_outgoing := k_outgoing c @ bs\<rparr>) st))))"

subsection \<open>Frames from the guest\<close>

definition receive_ipv4 :: "net_env \<Rightarrow> bytes \<Rightarrow> stack \<Rightarrow> stack" where
  "receive_ipv4 env pkt st =
     (if length pkt < 20 \<or> drop_bit 4 (pkt ! 0) \<noteq> 4 then st
      else
        let header_length = unat (pkt ! 0 AND 0xf) * 4; all = unat (be16_at 2 pkt) in
        if length pkt < header_length \<or> all < header_length \<or> length pkt < all then st
        else
          let protocol = pkt ! 9; destination = be32_at 16 pkt;
              payload = bslice header_length (all - header_length) pkt in
          if protocol = PROTO_ICMP then receive_icmp destination payload st
          else if protocol = PROTO_UDP then receive_udp env destination payload st
          else if protocol = PROTO_TCP then receive_tcp env destination payload st
          else st)"

definition receive_frame :: "net_env \<Rightarrow> bytes \<Rightarrow> stack \<Rightarrow> stack" where
  "receive_frame env f st =
     (if length f < 14 then st
      else if be16_at 12 f = ETHERTYPE_ARP then receive_arp (drop 14 f) st
      else if be16_at 12 f = ETHERTYPE_IPV4 then receive_ipv4 env (drop 14 f) st
      else st)"

subsection \<open>The threads, and the steps of the stack\<close>

definition run_task :: "net_env \<Rightarrow> string + bool \<Rightarrow> string + nat option \<Rightarrow> bytes option \<Rightarrow> task \<Rightarrow> stack \<Rightarrow> stack" where
  "run_task env dialled echo got t st =
     (case t of
        PingTask destination req \<Rightarrow>
          (let st1 = ping env echo destination req st in st1\<lparr>n_pings := n_pings st1 - 1\<rparr>)
      | AskTask key ident sequence dest what \<Rightarrow> answer_ask env key ident sequence dest what st
      | ConnectTask key dest port \<Rightarrow> connect_host env dialled key dest port st
      | ReaderTask key \<Rightarrow> read_from_host key got st)"

inductive net_step :: "(string \<Rightarrow> string) \<Rightarrow> policy \<Rightarrow> stack \<Rightarrow> stack \<Rightarrow> bool" for lc p where
  frame_in: "\<lbrakk>e_lc env = lc; e_policy env = p\<rbrakk> \<Longrightarrow> net_step lc p st (receive_frame env f st)"
| thread: "\<lbrakk>e_lc env = lc; e_policy env = p; n_tasks st = before @ t # after\<rbrakk> \<Longrightarrow>
     net_step lc p st (run_task env dialled echo got t (st\<lparr>n_tasks := before @ after\<rparr>))"
| frame_out: "net_step lc p st (st\<lparr>n_frames := tl (n_frames st)\<rparr>)"
| reset: "net_step lc p st (st\<lparr>n_frames := []\<rparr>)"

subsection \<open>The device\<close>

abbreviation NET_HEADER :: nat where "NET_HEADER \<equiv> 12"

definition gather_frame :: "mem \<Rightarrow> buffer list \<Rightarrow> bytes" where
  "gather_frame m bs = concat
     (List.map_filter (\<lambda>b. if b_writable b then None else guest_bytes m (ucast (b_address b)) (b_length b)) bs)"

definition net_tx_chain :: "net_env \<Rightarrow> stack \<Rightarrow> mem \<Rightarrow> chain \<Rightarrow> (stack \<times> mem) \<times> (virtio_error + u32)" where
  "net_tx_chain env st m c =
     (let f = gather_frame m (c_buffers c) in
      ((if length f > NET_HEADER then receive_frame env (drop NET_HEADER f) st else st, m), Inr 0))"

definition net_notify :: "net_env \<Rightarrow> stack \<Rightarrow> u16 \<Rightarrow> queue \<Rightarrow> mem
    \<Rightarrow> (stack \<times> queue \<times> mem) \<times> (virtio_error + u32 list)" where
  "net_notify env st queue_index q m =
     (if queue_index \<noteq> 1 then ((st, q, m), Inr [])
      else drain (Suc (ring_len q)) (\<lambda>_. True) (\<lambda>st. st) (net_tx_chain env) st q m [])"

fun net_fill :: "mem \<Rightarrow> bytes \<Rightarrow> nat \<Rightarrow> buffer list \<Rightarrow> mem \<times> nat" where
  "net_fill m p written [] = (m, written)"
| "net_fill m p written (b # bs) =
     (if \<not> b_writable b \<or> written \<ge> length p then net_fill m p written bs
      else
        let tk = min (unat (b_length b)) (length p - written);
            (m1, dn) = write_bytes m (b_address b) (bslice written tk p)
        in net_fill m1 p (written + dn) bs)"

definition net_packet :: "eth_frame \<Rightarrow> bytes" where
  "net_packet f = (replicate NET_HEADER 0)[10 := 1] @ f"

definition net_rx_chain :: "stack \<Rightarrow> mem \<Rightarrow> chain \<Rightarrow> (stack \<times> mem) \<times> (virtio_error + u32)" where
  "net_rx_chain st m c =
     (let p = net_packet (hd (n_frames st));
          (m1, written) = net_fill m p 0 (c_buffers c)
      in ((st\<lparr>n_frames := tl (n_frames st)\<rparr>, m1), Inr (word_of_nat written)))"

definition net_poll :: "stack \<Rightarrow> queue option list \<Rightarrow> mem
    \<Rightarrow> (stack \<times> queue option list \<times> mem) \<times> (virtio_error + u32 list)" where
  "net_poll st qs m =
     (case queue_get qs 0 of
        None \<Rightarrow> ((st, qs, m), Inr [])
      | Some q \<Rightarrow>
          (case drain (Suc (length (n_frames st))) (\<lambda>st. n_frames st \<noteq> [])
                  (\<lambda>st. st\<lparr>n_frames := tl (n_frames st)\<rparr>) net_rx_chain st q m [] of
             ((st1, q1, m1), r) \<Rightarrow> ((st1, qs[0 := Some q1], m1), r)))"

definition net_ops :: "net_env \<Rightarrow> stack device_ops" where
  "net_ops env =
     \<lparr>op_device_id = 1, op_features = 32, op_config = (\<lambda>_. GUEST_MAC), op_notify = net_notify env,
      op_poll = net_poll, op_reset = (\<lambda>st. st\<lparr>n_frames := []\<rparr>), op_console = None\<rparr>"

subsection \<open>Sending to the guest\<close>

lemma unat_add_nat32: "unat (a :: u32) + n < 2 ^ 32 \<Longrightarrow> unat (a + word_of_nat n) = unat a + n"
  by (simp add: unat_word_ariths(1) unat_of_nat)

primrec segments_from :: "tcp_conn \<Rightarrow> bytes list \<Rightarrow> eth_frame list" where
  "segments_from c [] = []"
| "segments_from c (d # ds) =
     conn_segment c (TCP_ACK OR TCP_PSH) WINDOW d #
     segments_from (c\<lparr>k_send_next := k_send_next c + word_of_nat (length d)\<rparr>) ds"

lemma segments_from_cong:
  "\<lbrakk>k_guest_target c' = k_guest_target c; k_guest_port c' = k_guest_port c; k_port c' = k_port c;
    k_receive_next c' = k_receive_next c; k_send_next c' = k_send_next c\<rbrakk> \<Longrightarrow>
   segments_from c' ds = segments_from c ds"
  by (induction ds arbitrary: c c') (simp_all add: conn_segment_def)

lemma flush_data_spec:
  "flush_data c = (fs, c') \<Longrightarrow>
   \<exists>ds. let n = length (concat ds) in
     fs = segments_from c ds \<and> (\<forall>d\<in>set ds. d \<noteq> [] \<and> length d \<le> MAX_SEGMENT) \<and>
     k_outgoing c = concat ds @ k_outgoing c' \<and>
     c' = c\<lparr>k_outgoing := drop n (k_outgoing c), k_send_next := k_send_next c + word_of_nat n\<rparr> \<and>
     (n = 0 \<or> in_flight c + n \<le> unat (k_peer_window c)) \<and>
     n = sendable c"
proof (induction c arbitrary: fs c' rule: flush_data.induct)
  case (1 c)
  show ?case
  proof (cases "sendable c > 0")
    case False
    then have "fs = []" "c' = c" using "1.prems" by (auto simp: flush_data.simps [of c])
    then show ?thesis using False by (intro exI [of _ "[]"]) simp
  next
    case True
    define tk where "tk = min (sendable c) MAX_SEGMENT"
    define d where "d = take tk (k_outgoing c)"
    define c0 where "c0 = c\<lparr>k_outgoing := drop tk (k_outgoing c), k_send_next := k_send_next c + word_of_nat (length d)\<rparr>"
    obtain fs0 c1 where rec: "flush_data c0 = (fs0, c1)" by fastforce
    have fs: "fs = conn_segment c (TCP_ACK OR TCP_PSH) WINDOW d # fs0" "c' = c1"
      using "1.prems" True rec by (auto simp: flush_data.simps [of c] tk_def d_def c0_def Let_def)
    have IH: "\<exists>ds. let n = length (concat ds) in
       fs0 = segments_from c0 ds \<and> (\<forall>d\<in>set ds. d \<noteq> [] \<and> length d \<le> MAX_SEGMENT) \<and>
       k_outgoing c0 = concat ds @ k_outgoing c1 \<and>
       c1 = c0\<lparr>k_outgoing := drop n (k_outgoing c0), k_send_next := k_send_next c0 + word_of_nat n\<rparr> \<and>
       (n = 0 \<or> in_flight c0 + n \<le> unat (k_peer_window c0)) \<and> n = sendable c0"
      using "1.IH" [OF True] rec by (simp add: tk_def d_def c0_def)
    then obtain ds where ds: "fs0 = segments_from c0 ds" "\<forall>d\<in>set ds. d \<noteq> [] \<and> length d \<le> MAX_SEGMENT"
       "k_outgoing c0 = concat ds @ k_outgoing c1"
       "c1 = c0\<lparr>k_outgoing := drop (length (concat ds)) (k_outgoing c0), k_send_next := k_send_next c0 + word_of_nat (length (concat ds))\<rparr>"
       "length (concat ds) = 0 \<or> in_flight c0 + length (concat ds) \<le> unat (k_peer_window c0)" "length (concat ds) = sendable c0"
      by (auto simp: Let_def)
    have tk: "0 < tk" "tk \<le> MAX_SEGMENT" "tk \<le> sendable c" "tk \<le> length (k_outgoing c)"
      "in_flight c + tk \<le> unat (k_peer_window c)"
      using True by (auto simp: tk_def sendable_def)
    have len: "length d = tk" using tk by (simp add: d_def)
    have "unat (k_peer_window c) < 2 ^ 32" using unsigned_less [of "k_peer_window c", where ?'a = nat] by simp
    moreover have "k_send_next c0 - k_send_unacked c0 = (k_send_next c - k_send_unacked c) + word_of_nat tk"
      by (simp add: c0_def len)
    ultimately have fl: "in_flight c0 = in_flight c + tk"
      using tk(5) unat_add_nat32 [of "k_send_next c - k_send_unacked c" tk] by (simp add: in_flight_def)
    have room: "sendable c0 = sendable c - tk"
      using fl tk by (simp add: sendable_def c0_def)
    have sum: "length (concat (d # ds)) = tk + length (concat ds)" by (simp add: len)
    have cut: "k_outgoing c = d @ k_outgoing c0" by (simp add: d_def c0_def)
    have seg: "segments_from c0 ds = segments_from (c\<lparr>k_send_next := k_send_next c + word_of_nat (length d)\<rparr>) ds"
      by (rule segments_from_cong) (simp_all add: c0_def)
    have last: "c1 = c\<lparr>k_outgoing := drop (tk + length (concat ds)) (k_outgoing c),
        k_send_next := k_send_next c + word_of_nat (tk + length (concat ds))\<rparr>"
      by (subst ds(4)) (simp add: c0_def len add.commute add.left_commute)
    show ?thesis
      unfolding Let_def
    proof (intro exI [of _ "d # ds"] conjI)
      show "fs = segments_from c (d # ds)" using fs ds(1) seg by simp
      show "\<forall>d\<in>set (d # ds). d \<noteq> [] \<and> length d \<le> MAX_SEGMENT" using ds(2) tk len by auto
      show "k_outgoing c = concat (d # ds) @ k_outgoing c'" using cut ds(3) fs by simp
      show "c' = c\<lparr>k_outgoing := drop (length (concat (d # ds))) (k_outgoing c),
          k_send_next := k_send_next c + word_of_nat (length (concat (d # ds)))\<rparr>"
        unfolding sum fs(2) by (rule last)
      show "length (concat (d # ds)) = 0 \<or> in_flight c + length (concat (d # ds)) \<le> unat (k_peer_window c)"
      proof -
        have "unat (k_peer_window c0) = unat (k_peer_window c)" by (simp add: c0_def)
        with ds(5) have "in_flight c + (tk + length (concat ds)) \<le> unat (k_peer_window c)"
          by (elim disjE) (use fl tk(5) in linarith)+
        then show ?thesis unfolding sum by blast
      qed
      show "length (concat (d # ds)) = sendable c" unfolding sum using ds(6) room tk(3) by simp
    qed
  qed
qed

lemma flush_data_parts:
  assumes "flush_data c = (fs, c')"
  obtains ds where "fs = segments_from c ds" "\<forall>d\<in>set ds. d \<noteq> [] \<and> length d \<le> MAX_SEGMENT"
    "k_outgoing c = concat ds @ k_outgoing c'"
    "c' = c\<lparr>k_outgoing := drop (length (concat ds)) (k_outgoing c), k_send_next := k_send_next c + word_of_nat (length (concat ds))\<rparr>"
    "length (concat ds) = 0 \<or> in_flight c + length (concat ds) \<le> unat (k_peer_window c)"
    "length (concat ds) = sendable c"
  using flush_data_spec [OF assms] unfolding Let_def by blast

subsection \<open>What each operation leaves alone\<close>

lemmas stack_ops = report_def net_send_def spawn_def put_conn_def drop_conn_def go_out_def

lemma fold_send: "fold net_send fs st = st\<lparr>n_frames := n_frames st @ fs\<rparr>"
  by (induction fs arbitrary: st) (simp_all add: net_send_def)

lemma fold_report:
  "fold (\<lambda>(_, c). report (f c)) xs st = st\<lparr>n_events := n_events st @ map (\<lambda>(_, c). f c) xs\<rparr>"
  by (induction xs arbitrary: st) (simp_all add: report_def split_beta)

lemma close_finished_eq:
  "close_finished fin st =
     st\<lparr>n_conns := fold (\<lambda>x. AList.delete (fst x)) fin (n_conns st),
        n_done := n_done st @ map (\<lambda>(key, c). (key, close_socket c)) fin\<rparr>"
proof (induction fin arbitrary: st)
  case (Cons x fin)
  have "close_finished (x # fin) st =
      close_finished fin ((drop_conn (fst x) st)\<lparr>n_done := n_done st @ [(fst x, close_socket (snd x))]\<rparr>)"
    by (simp add: close_finished_def split_beta)
  then show ?case unfolding Cons.IH by (simp add: drop_conn_def split_beta)
qed (simp add: close_finished_def)

lemma net_flush_eq:
  assumes "flush_keys acknowledge (case only of Some key \<Rightarrow> [key] | None \<Rightarrow> map fst (n_conns st)) [] [] (n_conns st) = (frames, fin, conns)"
  shows "net_flush only acknowledge st =
    st\<lparr>n_conns := fold (\<lambda>x. AList.delete (fst x)) fin conns,
       n_done := n_done st @ map (\<lambda>(key, c). (key, close_socket c)) fin,
       n_frames := n_frames st @ frames,
       n_events := n_events st @ map (\<lambda>(_, c). Connect_event (k_id c) (dotted (k_guest_target c)) (k_port c) ''closed'' False None) fin\<rparr>"
  using assms by (simp add: net_flush_def close_finished_eq fold_send fold_report)

lemma net_flush_fields [simp]:
  "n_outward (net_flush only acknowledge st) = n_outward st" "n_asked (net_flush only acknowledge st) = n_asked st"
  "n_tasks (net_flush only acknowledge st) = n_tasks st" "n_resolved (net_flush only acknowledge st) = n_resolved st"
  "n_pings (net_flush only acknowledge st) = n_pings st" "n_next_id (net_flush only acknowledge st) = n_next_id st"
  by (cases "flush_keys acknowledge (case only of Some key \<Rightarrow> [key] | None \<Rightarrow> map fst (n_conns st)) [] [] (n_conns st)",
      simp add: net_flush_eq)+

subsection \<open>Egress under the policy\<close>

definition listed :: "(string \<Rightarrow> string) \<Rightarrow> policy \<Rightarrow> stack \<Rightarrow> ipv4_addr \<Rightarrow> bool" where
  "listed lc p st ip \<longleftrightarrow>
     (\<exists>name\<in>set (names_of st ip). refuses_host lc p name = None) \<or> refuses_host lc p (dotted ip) = None"

definition approved :: "(string \<Rightarrow> string) \<Rightarrow> policy \<Rightarrow> stack \<Rightarrow> ipv4_addr \<Rightarrow> string \<Rightarrow> bool" where
  "approved lc p st ip suffix \<longleftrightarrow> p_ask p \<and>
     (\<exists>host. (host = dotted ip \<or> host \<in> set (names_of st ip)) \<and> unlisted lc p host \<and> (host @ suffix, True) \<in> set (n_asked st))"

definition may_reach :: "(string \<Rightarrow> string) \<Rightarrow> policy \<Rightarrow> stack \<Rightarrow> ipv4_addr \<Rightarrow> string \<Rightarrow> bool" where
  "may_reach lc p st ip suffix \<longleftrightarrow>
     (if loopback4 ip then p_allow_loopback p else listed lc p st ip \<or> approved lc p st ip suffix)"

definition port_suffix :: "u16 \<Rightarrow> string" where
  "port_suffix port = '':'' @ decimal (unat port)"

fun net_permitted :: "(string \<Rightarrow> string) \<Rightarrow> policy \<Rightarrow> stack \<Rightarrow> outward \<Rightarrow> bool" where
  "net_permitted lc p st (Lookup name) \<longleftrightarrow> refuses_host lc p name = None \<or> p_ask p \<and> unlisted lc p name"
| "net_permitted lc p st (Dial ip port intercepted) \<longleftrightarrow> may_reach lc p st ip (port_suffix port) \<and>
     (intercepted \<longrightarrow> (\<exists>name\<in>set (if loopback4 ip then [''localhost''] else names_of st ip). has_secret_for lc p name))"
| "net_permitted lc p st (Echo ip) \<longleftrightarrow> may_reach lc p st ip '' (ping)''"

definition asks_about :: "(string \<Rightarrow> string) \<Rightarrow> policy \<Rightarrow> stack \<Rightarrow> ipv4_addr \<Rightarrow> string \<Rightarrow> string \<Rightarrow> bool" where
  "asks_about lc p st ip suffix what \<longleftrightarrow> \<not> loopback4 ip \<and> p_ask p \<and>
     (\<exists>host. (host = dotted ip \<or> host \<in> set (names_of st ip)) \<and> unlisted lc p host \<and> what = host @ suffix)"

fun task_ok :: "(string \<Rightarrow> string) \<Rightarrow> policy \<Rightarrow> stack \<Rightarrow> task \<Rightarrow> bool" where
  "task_ok lc p st (ConnectTask key ip port) \<longleftrightarrow> may_reach lc p st ip (port_suffix port) \<and>
     (loopback4 ip \<or> fst (snd key) = ip)"
| "task_ok lc p st (AskTask key ident sequence ip what) \<longleftrightarrow>
     asks_about lc p st ip (port_suffix (snd (snd key))) what \<and> fst (snd key) = ip"
| "task_ok lc p st _ \<longleftrightarrow> True"

definition grows :: "stack \<Rightarrow> stack \<Rightarrow> bool" where
  "grows st st' \<longleftrightarrow> (\<forall>ip. set (names_of st ip) \<subseteq> set (names_of st' ip)) \<and> set (n_asked st) \<subseteq> set (n_asked st')"

definition egress_ok :: "(string \<Rightarrow> string) \<Rightarrow> policy \<Rightarrow> stack \<Rightarrow> bool" where
  "egress_ok lc p st \<longleftrightarrow> list_all (net_permitted lc p st) (n_outward st) \<and> list_all (task_ok lc p st) (n_tasks st)"

lemma grows_refl [simp]: "grows st st"
  by (simp add: grows_def)

lemma grows_trans: "grows a b \<Longrightarrow> grows b c \<Longrightarrow> grows a c"
  unfolding grows_def by blast

lemma grows_same: "n_resolved st' = n_resolved st \<Longrightarrow> n_asked st' = n_asked st \<Longrightarrow> grows st st'"
  by (simp add: grows_def)

lemma listed_mono: "grows st st' \<Longrightarrow> listed lc p st ip \<Longrightarrow> listed lc p st' ip"
  unfolding grows_def listed_def by (metis subsetD)

lemma approved_mono: "grows st st' \<Longrightarrow> approved lc p st ip s \<Longrightarrow> approved lc p st' ip s"
  unfolding grows_def approved_def by (metis subsetD)

lemma may_reach_mono: "grows st st' \<Longrightarrow> may_reach lc p st ip s \<Longrightarrow> may_reach lc p st' ip s"
  unfolding may_reach_def using listed_mono approved_mono by metis

lemma permitted_mono: "grows st st' \<Longrightarrow> net_permitted lc p st a \<Longrightarrow> net_permitted lc p st' a"
  by (cases a) (auto simp: may_reach_mono grows_def split: if_splits)

lemma task_ok_mono: "grows st st' \<Longrightarrow> task_ok lc p st t \<Longrightarrow> task_ok lc p st' t"
  by (cases t) (auto simp: may_reach_mono asks_about_def grows_def)

lemma egress_extend:
  assumes "egress_ok lc p st" "grows st st'"
    and "n_outward st' = n_outward st @ acts" "list_all (net_permitted lc p st') acts"
    and "n_tasks st' = n_tasks st @ ts" "list_all (task_ok lc p st') ts"
  shows "egress_ok lc p st'"
  using assms permitted_mono [OF assms(2)] task_ok_mono [OF assms(2)]
  by (auto simp: egress_ok_def list_all_iff)

lemma decide_allow:
  assumes "decide env st a dest port = Allow" "loopback4 dest \<or> a = dest"
  shows "may_reach (e_lc env) (e_policy env) st dest s"
  using assms
  by (auto simp: decide_def may_reach_def listed_def list_ex_iff Let_def split: if_splits option.splits)

lemma decide_ask:
  assumes "decide env st a dest port = Ask what" "a = dest \<or> loopback4 dest"
  shows "asks_about (e_lc env) (e_policy env) st dest (case port of Some port \<Rightarrow> port_suffix port | None \<Rightarrow> '' (ping)'') what \<and> a = dest"
  using assms
  by (auto simp: decide_def asks_about_def port_suffix_def Let_def find_Some_iff split: if_splits option.splits)

lemma asked_reaches:
  assumes "asks_about lc p st ip s what" "(what, True) \<in> set (n_asked st')" "grows st st'"
  shows "may_reach lc p st' ip s"
  using assms by (auto simp: asks_about_def may_reach_def approved_def grows_def)

lemma ask_app_grows:
  "ask_app env what st = (st', ok) \<Longrightarrow>
   grows st st' \<and> n_outward st' = n_outward st \<and> n_tasks st' = n_tasks st \<and> (ok \<longrightarrow> (what, True) \<in> set (n_asked st'))"
  by (auto simp: ask_app_def grows_def split: option.splits)

lemma permitted_cong: "n_resolved st' = n_resolved st \<Longrightarrow> n_asked st' = n_asked st \<Longrightarrow> net_permitted lc p st' a = net_permitted lc p st a"
  using permitted_mono grows_same by metis

lemma task_ok_cong: "n_resolved st' = n_resolved st \<Longrightarrow> n_asked st' = n_asked st \<Longrightarrow> task_ok lc p st' t = task_ok lc p st t"
  using task_ok_mono grows_same by metis

lemma egress_cong:
  "\<lbrakk>n_resolved st' = n_resolved st; n_asked st' = n_asked st; n_outward st' = n_outward st; n_tasks st' = n_tasks st\<rbrakk>
   \<Longrightarrow> egress_ok lc p st' = egress_ok lc p st"
  using permitted_cong [of st' st] task_ok_cong [of st' st] by (simp add: egress_ok_def list_all_iff)

lemma egress_quiet [simp]:
  "egress_ok lc p (report e st) = egress_ok lc p st" "egress_ok lc p (net_send f st) = egress_ok lc p st"
  "egress_ok lc p (put_conn key c st) = egress_ok lc p st" "egress_ok lc p (drop_conn key st) = egress_ok lc p st"
  "egress_ok lc p (net_flush only acknowledge st) = egress_ok lc p st"
  "egress_ok lc p (refuse i d pt gp sq r st) = egress_ok lc p st"
  "egress_ok lc p (st\<lparr>n_next_id := i\<rparr>) = egress_ok lc p st" "egress_ok lc p (st\<lparr>n_pings := k\<rparr>) = egress_ok lc p st"
  "egress_ok lc p (st\<lparr>n_frames := fs\<rparr>) = egress_ok lc p st" "egress_ok lc p (st\<lparr>n_done := dn\<rparr>) = egress_ok lc p st"
  by (rule egress_cong; simp add: stack_ops refuse_def)+

lemma reach_quiet [simp]:
  "may_reach lc p (report e st) ip s = may_reach lc p st ip s" "may_reach lc p (put_conn key c st) ip s = may_reach lc p st ip s"
  "may_reach lc p (st\<lparr>n_next_id := i\<rparr>) ip s = may_reach lc p st ip s"
  "asks_about lc p (put_conn key c st) ip s what = asks_about lc p st ip s what"
  "asks_about lc p (st\<lparr>n_next_id := i\<rparr>) ip s what = asks_about lc p st ip s what"
  by (simp_all add: may_reach_def listed_def approved_def asks_about_def stack_ops)

lemma egress_spawn: "egress_ok lc p st \<Longrightarrow> task_ok lc p st t \<Longrightarrow> egress_ok lc p (spawn t st)"
  by (rule egress_extend [where acts = "[]" and ts = "[t]"]) (simp_all add: grows_def spawn_def task_ok_cong [of "st\<lparr>n_tasks := _\<rparr>" st])

lemma egress_outward: "egress_ok lc p st \<Longrightarrow> net_permitted lc p st a \<Longrightarrow> egress_ok lc p (go_out a st)"
  by (rule egress_extend [where acts = "[a]" and ts = "[]"]) (simp_all add: grows_def go_out_def permitted_cong [of "st\<lparr>n_outward := _\<rparr>" st])

lemma egress_ask:
  assumes "egress_ok lc p st" "ask_app env what st = (st', ok)"
  shows "egress_ok lc p st'"
  using ask_app_grows [OF assms(2)] by (intro egress_extend [OF assms(1), where acts = "[]" and ts = "[]"]) simp_all

lemma egress_ping:
  assumes "egress_ok (e_lc env) (e_policy env) st"
  shows "egress_ok (e_lc env) (e_policy env) (ping env echo d r st)"
proof -
  let ?ok = "egress_ok (e_lc env) (e_policy env)"
  have echoed: "?ok (ping env echo d r st)"
    if "ping env echo d r st = (case echo of
               Inr (Some rtt) \<Rightarrow>
                 report (Ping_event (dotted d) (Some rtt) False None)
                   (net_send (echo_reply d r) (go_out (Echo d) st1))
             | Inr None \<Rightarrow> report (Ping_event (dotted d) None False (Some ''no reply'')) (go_out (Echo d) st1)
             | Inl error \<Rightarrow> report (Ping_event (dotted d) None False (Some error)) (go_out (Echo d) st1))"
      "?ok st1" "may_reach (e_lc env) (e_policy env) st1 d '' (ping)''" for st1
    using that egress_outward [of _ _ st1 "Echo d"] by (simp split: sum.splits option.splits)
  show ?thesis
  proof (cases "decide env st d d None")
    case Allow
    then show ?thesis
      using echoed [of st] decide_allow [OF Allow, of "'' (ping)''"] assms by (simp add: ping_def Let_def)
  next
    case (Refuse reason)
    then show ?thesis using assms by (simp add: ping_def Let_def)
  next
    case (Ask what)
    obtain st1 ok where a: "ask_app env what st = (st1, ok)" by fastforce
    note g = ask_app_grows [OF a] and o = egress_ask [OF assms a]
    have "asks_about (e_lc env) (e_policy env) st d '' (ping)'' what" using decide_ask [OF Ask] by simp
    then have "ok \<Longrightarrow> may_reach (e_lc env) (e_policy env) st1 d '' (ping)''"
      using asked_reaches g by blast
    then show ?thesis
      using Ask a o echoed [of st1] by (cases ok) (simp_all add: ping_def Let_def)
  qed
qed

lemma remember_grows: "set (names_in m a) \<subseteq> set (names_in (remember name b m) a)"
  by (auto simp: remember_def names_in_def Let_def split: option.splits)

lemma fold_remember_grows: "set (names_in m a) \<subseteq> set (names_in (fold (remember name) as m) a)"
  by (induction "as" arbitrary: m) (simp, metis fold_simps(2) remember_grows subset_trans)

lemma egress_resolve:
  assumes "egress_ok (e_lc env) (e_policy env) st" "resolve env name kind st = (st', r)"
  shows "egress_ok (e_lc env) (e_policy env) st'"
proof -
  let ?ok = "egress_ok (e_lc env) (e_policy env)"
  have learned: "?ok (s\<lparr>n_resolved := fold (remember name) as (n_resolved s)\<rparr>)" if "?ok s" for "as" s
  proof (rule egress_extend [OF that, where acts = "[]" and ts = "[]"])
    show "grows s (s\<lparr>n_resolved := fold (remember name) as (n_resolved s)\<rparr>)"
      by (simp add: grows_def fold_remember_grows)
  qed simp_all
  define let_in where "let_in \<longleftrightarrow> refuses_host (e_lc env) (e_policy env) name = None \<or>
    p_ask (e_policy env) \<and> e_asker env \<noteq> None \<and> unlisted (e_lc env) (e_policy env) name"
  show ?thesis
  proof (cases "let_in \<and> kind = 1")
    case False
    then show ?thesis
      using assms by (auto simp: resolve_def let_in_def Let_def split: option.splits if_splits)
  next
    case True
    then have out: "?ok (go_out (Lookup name) st)"
      using egress_outward [OF assms(1), of "Lookup name"] by (auto simp: let_in_def)
    from True have "resolve env name kind st =
        (let st1 = go_out (Lookup name) st in
               case e_resolve env (length (n_outward st)) name of
                 Inr found \<Rightarrow>
                   let addresses = v4_only found;
                       st2 = (if addresses \<noteq> []
                         then st1\<lparr>n_resolved := fold (remember name) addresses (n_resolved st1)\<rparr> else st1)
                   in (report (Dns name (map dotted addresses) False None) st2, if addresses \<noteq> [] then 0 else 3, addresses)
               | Inl error \<Rightarrow> (report (Dns name [] False (Some error)) st1, 3, []))"
      by (auto simp: resolve_def let_in_def Let_def split: option.splits)
    then show ?thesis
      using assms(2) out learned [OF out] by (cases "e_resolve env (length (n_outward st)) name") (auto simp: Let_def)
  qed
qed

lemma egress_udp:
  assumes "egress_ok (e_lc env) (e_policy env) st"
  shows "egress_ok (e_lc env) (e_policy env) (receive_udp env d payload st)"
proof -
  have "egress_ok (e_lc env) (e_policy env) (fst (answer_dns env query st))" for query
    using assms egress_resolve [OF assms]
    by (auto simp: answer_dns_def Let_def split: option.splits prod.splits)
  then show ?thesis using assms
    by (simp add: receive_udp_def Let_def split: option.splits prod.splits) (metis fst_conv)
qed

lemma gateway_local: "loopback4 LOCALHOST"
  by (simp add: loopback4_def)

lemma egress_open:
  assumes "egress_ok (e_lc env) (e_policy env) st"
  shows "egress_ok (e_lc env) (e_policy env) (net_open env (gp, d, pt) sq w d pt gp st)"
proof -
  let ?st = "st\<lparr>n_next_id := n_next_id st + 1\<rparr>"
  let ?dest = "if d = GATEWAY then LOCALHOST else d"
  have dest: "loopback4 ?dest \<or> d = ?dest" "d = ?dest \<or> loopback4 ?dest" by (simp_all add: gateway_local)
  have ok: "egress_ok (e_lc env) (e_policy env) ?st" using assms by simp
  show ?thesis
  proof (cases "decide env ?st d ?dest (Some pt)")
    case Allow
    have "may_reach (e_lc env) (e_policy env) ?st ?dest (port_suffix pt)" by (rule decide_allow [OF Allow dest(1)])
    then have "task_ok (e_lc env) (e_policy env) ?st (ConnectTask (gp, d, pt) ?dest pt)" using dest by auto
    then have "egress_ok (e_lc env) (e_policy env) (spawn (ConnectTask (gp, d, pt) ?dest pt)
        (report e (put_conn key c ?st)))" for e key c
      using ok by (intro egress_spawn) simp_all
    then show ?thesis using Allow ok by (simp add: net_open_def Let_def)
  next
    case (Refuse reason)
    then show ?thesis using ok by (simp add: net_open_def Let_def)
  next
    case (Ask what)
    have "asks_about (e_lc env) (e_policy env) ?st ?dest (port_suffix pt) what \<and> d = ?dest"
      using decide_ask [OF Ask dest(2)] unfolding option.case .
    then have far: "d \<noteq> GATEWAY" "asks_about (e_lc env) (e_policy env) ?st d (port_suffix pt) what"
      by (auto split: if_splits)
    then have "egress_ok (e_lc env) (e_policy env) (spawn (AskTask (gp, d, pt) i sq d what) (put_conn key c ?st))" for i key c
      using ok by (intro egress_spawn) simp_all
    then show ?thesis using Ask ok far by (simp add: net_open_def Let_def)
  qed
qed

lemma egress_answer:
  assumes "egress_ok (e_lc env) (e_policy env) st" "task_ok (e_lc env) (e_policy env) st (AskTask key i sq dest what)"
  shows "egress_ok (e_lc env) (e_policy env) (answer_ask env key i sq dest what st)"
proof -
  obtain gp d pt where key: "key = (gp, d, pt)" by (cases key)
  obtain st1 ok where a: "ask_app env what st = (st1, ok)" by fastforce
  note g = ask_app_grows [OF a] and o = egress_ask [OF assms(1) a]
  show ?thesis
  proof (cases ok)
    case True
    then have "may_reach (e_lc env) (e_policy env) st1 dest (port_suffix pt)"
      using assms(2) asked_reaches g key by auto
    then have "task_ok (e_lc env) (e_policy env) (report e st1) (ConnectTask key dest pt)" for e
      using assms(2) by (simp add: key)
    then show ?thesis using True a o by (simp add: answer_ask_def key egress_spawn)
  next
    case False
    then show ?thesis using a o by (simp add: answer_ask_def key)
  qed
qed

lemma egress_connect:
  assumes "egress_ok (e_lc env) (e_policy env) st" "task_ok (e_lc env) (e_policy env) st (ConnectTask key dest port)"
  shows "egress_ok (e_lc env) (e_policy env) (connect_host env socket key dest port st)"
proof -
  let ?a = "Dial dest port (interceptor_for env st dest (fst (snd key)))"
  have "net_permitted (e_lc env) (e_policy env) st ?a"
    using assms(2) by (auto simp: interceptor_for_def list_ex_iff)
  then have ok: "egress_ok (e_lc env) (e_policy env) (go_out ?a st)" by (rule egress_outward [OF assms(1)])
  have "egress_ok (e_lc env) (e_policy env) (spawn (ReaderTask k) s)" if "egress_ok (e_lc env) (e_policy env) s" for k s
    using that by (rule egress_spawn) simp
  then show ?thesis using ok
    by (simp add: connect_host_def Let_def split: option.splits sum.splits)
qed

lemma egress_reader:
  "egress_ok lc p st \<Longrightarrow> egress_ok lc p (read_from_host key got st)"
  by (simp add: read_from_host_def egress_spawn split: option.splits)

lemma egress_frame:
  assumes "egress_ok (e_lc env) (e_policy env) st"
  shows "egress_ok (e_lc env) (e_policy env) (receive_frame env f st)"
proof -
  let ?ok = "egress_ok (e_lc env) (e_policy env)"
  have arp: "?ok (receive_arp x st)" for x using assms by (simp add: receive_arp_def)
  have "?ok (spawn (PingTask a b) (st\<lparr>n_pings := k\<rparr>))" for a b k using assms by (intro egress_spawn) simp_all
  then have icmp: "?ok (receive_icmp d x st)" for d x using assms by (simp add: receive_icmp_def)
  have tcp: "?ok (receive_tcp env d x st)" for d x
    using assms egress_open [OF assms] by (simp add: receive_tcp_def Let_def split: option.splits)
  show ?thesis
    using assms arp icmp tcp egress_udp [OF assms] by (simp add: receive_frame_def receive_ipv4_def Let_def)
qed

lemma egress_drop_task:
  assumes "egress_ok lc p st" "n_tasks st = before @ t # after"
  shows "egress_ok lc p (st\<lparr>n_tasks := before @ after\<rparr>) \<and> task_ok lc p (st\<lparr>n_tasks := before @ after\<rparr>) t"
  using assms permitted_cong [of "st\<lparr>n_tasks := before @ after\<rparr>" st] task_ok_cong [of "st\<lparr>n_tasks := before @ after\<rparr>" st]
  by (simp add: egress_ok_def list_all_iff)

lemma egress_task:
  assumes "egress_ok (e_lc env) (e_policy env) st" "task_ok (e_lc env) (e_policy env) st t"
  shows "egress_ok (e_lc env) (e_policy env) (run_task env dialled echo got t st)"
  using assms egress_ping egress_answer egress_connect egress_reader
  by (cases t) (simp_all add: run_task_def Let_def)

lemma egress_step: "net_step lc p st st' \<Longrightarrow> egress_ok lc p st \<Longrightarrow> egress_ok lc p st'"
proof (induction rule: net_step.induct)
  case (frame_in env st f)
  then show ?case using egress_frame [of env st f] by simp
next
  case (thread env st before t after dialled echo got)
  then show ?case
    using egress_drop_task [OF thread.prems thread.hyps(3)] egress_task [of env _ t] by simp
qed simp_all

subsection \<open>The connection table\<close>

definition conn_ok :: "conn_key \<Rightarrow> tcp_conn \<Rightarrow> bool" where
  "conn_ok key c \<longleftrightarrow> key = (k_guest_port c, k_guest_target c, k_port c) \<and>
     (\<not> k_established c \<longrightarrow> k_send_next c = k_send_unacked c \<and> \<not> k_to_host c \<and> \<not> k_fin_sent c \<and> k_handed c = []) \<and>
     (k_fin_sent c \<longrightarrow> k_host_closed c)"

definition conns_ok :: "(conn_key \<times> tcp_conn) list \<Rightarrow> bool" where
  "conns_ok conns \<longleftrightarrow> distinct (map fst conns) \<and> (\<forall>key c. map_of conns key = Some c \<longrightarrow> conn_ok key c)"

definition is_ping :: "task \<Rightarrow> bool" where
  "is_ping t \<longleftrightarrow> (case t of PingTask _ _ \<Rightarrow> True | _ \<Rightarrow> False)"

definition net_inv :: "stack \<Rightarrow> bool" where
  "net_inv st \<longleftrightarrow> conns_ok (n_conns st) \<and> n_pings st = length (filter is_ping (n_tasks st)) \<and> n_pings st \<le> MAX_PINGS"

lemma conns_ok_update: "conns_ok conns \<Longrightarrow> conn_ok key c \<Longrightarrow> conns_ok (AList.update key c conns)"
  by (auto simp: conns_ok_def update_conv' distinct_update)

lemma conns_ok_delete: "conns_ok conns \<Longrightarrow> conns_ok (AList.delete key conns)"
  by (auto simp: conns_ok_def delete_conv' distinct_delete)

lemma conns_ok_deletes: "conns_ok conns \<Longrightarrow> conns_ok (fold (\<lambda>x. AList.delete (fst x)) fin conns)"
  by (induction fin arbitrary: conns) (simp_all add: conns_ok_delete)

lemma conns_ok_get: "conns_ok conns \<Longrightarrow> map_of conns key = Some c \<Longrightarrow> conn_ok key c"
  unfolding conns_ok_def by blast

lemma flush_data_keeps:
  assumes "flush_data c = (fs, c')"
  shows "\<exists>out nx. c' = c\<lparr>k_outgoing := out, k_send_next := nx\<rparr>"
  using flush_data_spec [OF assms] by (auto simp: Let_def)

lemma flush_conn_ok:
  assumes "flush_conn acknowledge frames c = (frames', c')" "conn_ok key c" "k_established c"
  shows "conn_ok key c' \<and> k_established c'"
proof -
  obtain fs c1 where d: "flush_data c = (fs, c1)" by fastforce
  obtain out nx where "c1 = c\<lparr>k_outgoing := out, k_send_next := nx\<rparr>" using flush_data_keeps [OF d] by blast
  then show ?thesis using assms d
    by (auto simp: flush_conn_def conn_ok_def Let_def split: if_splits)
qed

lemma flush_keys_ok:
  "\<lbrakk>flush_keys acknowledge keys frames fin conns = (frames', fin', conns'); conns_ok conns\<rbrakk> \<Longrightarrow> conns_ok conns'"
proof (induction keys arbitrary: frames fin conns)
  case (Cons key keys)
  show ?case
  proof (cases "map_of conns key")
    case (Some c)
    show ?thesis
    proof (cases "k_established c")
      case True
      obtain f1 c1 where f: "flush_conn acknowledge frames c = (f1, c1)" by fastforce
      have "conns_ok (AList.update key c1 conns)"
        using flush_conn_ok [OF f conns_ok_get [OF Cons.prems(2) Some] True] Cons.prems(2) conns_ok_update by blast
      then show ?thesis using Cons Some True f by simp
    qed (use Cons Some in simp)
  qed (use Cons in simp)
qed simp

lemma net_flush_ok: "conns_ok (n_conns st) \<Longrightarrow> conns_ok (n_conns (net_flush only acknowledge st))"
proof -
  assume ok: "conns_ok (n_conns st)"
  obtain frames fin conns where f: "flush_keys acknowledge (case only of Some key \<Rightarrow> [key] | None \<Rightarrow> map fst (n_conns st)) [] [] (n_conns st) = (frames, fin, conns)"
    by (metis prod.exhaust)
  show ?thesis using conns_ok_deletes [OF flush_keys_ok [OF f ok]] by (simp add: net_flush_eq [OF f])
qed

lemma tcp_accept_keeps:
  "conn_ok key c \<Longrightarrow> conn_ok key (tcp_accept sequence acknowledged flags data c)"
  by (auto simp: tcp_accept_def conn_ok_def Let_def)

definition tame :: "stack \<Rightarrow> stack \<Rightarrow> bool" where
  "tame st st' \<longleftrightarrow> (conns_ok (n_conns st) \<longrightarrow> conns_ok (n_conns st')) \<and> n_pings st' = n_pings st \<and>
     filter is_ping (n_tasks st') = filter is_ping (n_tasks st)"

lemma tame_inv: "tame st st' \<Longrightarrow> net_inv st \<Longrightarrow> net_inv st'"
  by (simp add: tame_def net_inv_def)

lemma tame_open: "tame st (net_open env (gp, d, pt) sq w d pt gp st)"
proof -
  have "conn_ok (gp, d, pt) (conn_new i d gp pt r sq w)" for i r by (simp add: conn_ok_def conn_new_def)
  then show ?thesis
    by (auto simp: tame_def net_open_def Let_def refuse_def stack_ops is_ping_def conns_ok_update split: decision.splits)
qed

lemma tame_ask_app: "ask_app env what st = (st', ok) \<Longrightarrow> n_conns st' = n_conns st \<and> n_pings st' = n_pings st \<and> n_tasks st' = n_tasks st"
  by (auto simp: ask_app_def split: option.splits)

lemma tame_answer: "tame st (answer_ask env key i sq dest what st)"
proof -
  obtain st1 ok where a: "ask_app env what st = (st1, ok)" by fastforce
  obtain gp d pt where key: "key = (gp, d, pt)" by (cases key)
  show ?thesis
    using tame_ask_app [OF a] conns_ok_delete
    by (cases ok) (simp_all add: a key tame_def answer_ask_def refuse_def stack_ops is_ping_def)
qed

lemma tame_ping: "tame st (ping env echo d r st)"
proof -
  have "ask_app env what st = (st', ok) \<Longrightarrow> tame st st'" for what st' ok
    using tame_ask_app by (simp add: tame_def)
  then show ?thesis
    by (auto simp: tame_def ping_def stack_ops Let_def
        split: decision.splits option.splits sum.splits prod.splits bool.splits)
qed

lemma tame_connect: "tame st (connect_host env socket key dest port st)"
proof -
  have "conns_ok (n_conns st) \<Longrightarrow> conns_ok (AList.update key (c\<lparr>k_socket := s, k_established := True, k_to_host := b,
      k_send_next := x, k_send_unacked := y\<rparr>) (n_conns st))" if "map_of (n_conns st) key = Some c" for c b s x y
    using that conns_ok_get [of "n_conns st" key c] by (intro conns_ok_update) (auto simp: conn_ok_def)
  then show ?thesis
    by (auto simp: tame_def connect_host_def stack_ops is_ping_def conns_ok_delete Let_def split: option.splits sum.splits)
qed

lemma tame_flush: "tame st st' \<Longrightarrow> tame st (net_flush only acknowledge st')"
  by (simp add: tame_def net_flush_ok)

lemma tame_put:
  assumes "map_of (n_conns st) key = Some c" "conn_ok key c \<Longrightarrow> conn_ok key c'"
  shows "tame st (put_conn key c' st)"
  using assms conns_ok_get [OF _ assms(1)] by (auto simp: tame_def put_conn_def intro: conns_ok_update)

lemma resolve_same: "resolve env name kind st = (st', r) \<Longrightarrow> n_conns st' = n_conns st \<and> n_pings st' = n_pings st \<and> n_tasks st' = n_tasks st"
  by (auto simp: resolve_def Let_def stack_ops split: option.splits if_splits sum.splits)

lemma tame_udp: "tame st (receive_udp env d payload st)"
proof -
  have "n_conns (fst (answer_dns env query st)) = n_conns st \<and> n_pings (fst (answer_dns env query st)) = n_pings st
      \<and> n_tasks (fst (answer_dns env query st)) = n_tasks st" for query
    using resolve_same [of env _ _ st] by (simp add: answer_dns_def Let_def split: option.splits prod.splits)
  from this [of "bslice 8 (unat (be16_at 4 payload) - 8) payload"] show ?thesis
    by (auto simp: receive_udp_def tame_def net_send_def Let_def split: option.splits prod.splits)
qed

lemma tame_tcp: "tame st (receive_tcp env d segment st)"
proof -
  have reset: "tame st (report e ((drop_conn key st)\<lparr>n_done := x\<rparr>))" for e key x
    by (simp add: tame_def stack_ops conns_ok_delete)
  have "conn_ok key c \<Longrightarrow> conn_ok key (c\<lparr>k_peer_window := w\<rparr>)" for key c w by (simp add: conn_ok_def)
  then have accept: "tame st (net_flush only a (put_conn key (tcp_accept sq ak fl data (c\<lparr>k_peer_window := w\<rparr>)) st))"
    if "map_of (n_conns st) key = Some c" for only a key c sq ak fl data w
    by (intro tame_flush tame_put [OF that] tcp_accept_keeps)
  have send: "tame st (net_send f st)" "tame st st" for f by (simp_all add: tame_def net_send_def)
  show ?thesis
    using tame_open reset accept send by (simp add: receive_tcp_def Let_def split: option.splits)
qed

lemma tame_reader: "tame st (read_from_host key got st)"
proof -
  have spawned: "tame st (spawn (ReaderTask key) st')" if "tame st st'" for st'
    using that by (simp add: tame_def spawn_def is_ping_def)
  have put: "tame st (put_conn key (c\<lparr>k_host_closed := True\<rparr>) st)" "tame st (put_conn key (c\<lparr>k_outgoing := out\<rparr>) st)"
    if "map_of (n_conns st) key = Some c" for c out
    by (rule tame_put [OF that]; simp add: conn_ok_def)+
  have "tame st st" by (simp add: tame_def)
  then show ?thesis
    using spawned put tame_flush by (simp add: read_from_host_def Let_def split: option.splits)
qed

lemma net_inv_frame: "net_inv st \<Longrightarrow> net_inv (receive_frame env f st)"
proof -
  assume inv: "net_inv st"
  have icmp: "net_inv (receive_icmp d x st)" for d x
    using inv by (auto simp: receive_icmp_def net_inv_def stack_ops is_ping_def)
  have arp: "net_inv (receive_arp x st)" for x using inv by (simp add: receive_arp_def net_inv_def net_send_def)
  show ?thesis
    using inv icmp arp tame_inv [OF tame_udp inv] tame_inv [OF tame_tcp inv]
    by (simp add: receive_frame_def receive_ipv4_def Let_def)
qed

lemma net_inv_task:
  assumes "net_inv st" "n_tasks st = before @ t # after"
  shows "net_inv (run_task env dialled echo got t (st\<lparr>n_tasks := before @ after\<rparr>))"
proof -
  let ?st = "st\<lparr>n_tasks := before @ after\<rparr>"
  have inv: "net_inv ?st" if "\<not> is_ping t" using assms that by (simp add: net_inv_def)
  show ?thesis
  proof (cases t)
    case (PingTask d r)
    then show ?thesis
      using assms tame_ping [of ?st env echo d r] by (auto simp: run_task_def net_inv_def tame_def is_ping_def Let_def)
  next
    case (AskTask key i sq dest what)
    then show ?thesis using tame_inv [OF tame_answer inv] by (simp add: run_task_def is_ping_def)
  next
    case (ConnectTask key dest port)
    then show ?thesis using tame_inv [OF tame_connect inv] by (simp add: run_task_def is_ping_def)
  next
    case (ReaderTask key)
    then show ?thesis using tame_inv [OF tame_reader inv] by (simp add: run_task_def is_ping_def)
  qed
qed

lemma net_inv_step: "net_step lc p st st' \<Longrightarrow> net_inv st \<Longrightarrow> net_inv st'"
  by (induction rule: net_step.induct) (simp_all add: net_inv_frame net_inv_task, simp_all add: net_inv_def)

subsection \<open>The guest's byte stream\<close>

definition carries :: "u32 \<Rightarrow> bytes \<Rightarrow> u32 \<times> u32 \<times> u8 \<times> bytes \<Rightarrow> bool" where
  "carries isn stream seg \<longleftrightarrow> (case seg of (sequence, acknowledged, flags, data) \<Rightarrow>
     \<exists>off. off + length data \<le> length stream \<and> sequence = isn + 1 + word_of_nat off \<and>
       data = bslice off (length data) stream \<and> (flags AND TCP_FIN \<noteq> 0 \<longrightarrow> off + length data = length stream))"

definition accept_all :: "(u32 \<times> u32 \<times> u8 \<times> bytes) list \<Rightarrow> tcp_conn \<Rightarrow> tcp_conn" where
  "accept_all segs c = fold (\<lambda>(sequence, acknowledged, flags, data). tcp_accept sequence acknowledged flags data) segs c"

definition received :: "u32 \<Rightarrow> bytes \<Rightarrow> nat \<Rightarrow> tcp_conn \<Rightarrow> bool" where
  "received isn stream n c \<longleftrightarrow> n \<le> length stream \<and> concat (k_handed c) = take n stream \<and>
     k_receive_next c = isn + 1 + word_of_nat (if k_guest_finished c then n + 1 else n) \<and>
     k_to_host c = (\<not> k_guest_finished c) \<and> (k_guest_finished c \<longrightarrow> n = length stream)"

lemma host_writer_takes: "\<exists>k. host_writer results messages = take k (concat messages)"
proof (induction results messages rule: host_writer.induct)
  case (1 results bs messages)
  then obtain k where "host_writer results messages = take k (concat messages)" by blast
  then show ?case by (intro exI [of _ "length bs + k"]) simp
next
  case (2 n results bs messages)
  then show ?case by (intro exI [of _ "min n (length bs)"]) (simp add: min_def)
qed (auto intro: exI [of _ 0])

lemma word_of_nat_inj32: "a < 2 ^ 32 \<Longrightarrow> b < 2 ^ 32 \<Longrightarrow> (word_of_nat a :: u32) = word_of_nat b \<longleftrightarrow> a = b"
  by (auto dest!: arg_cong [where f = unat] simp: unat_of_nat)

lemma received_step:
  assumes "received isn stream n c" "carries isn stream (sq, ak, fl, data)" "length stream + 2 < 2 ^ 32"
  shows "\<exists>n'. received isn stream n' (tcp_accept sq ak fl data c)"
proof -
  obtain off where off: "off + length data \<le> length stream" "sq = isn + 1 + word_of_nat off"
      "data = bslice off (length data) stream" "fl AND TCP_FIN \<noteq> 0 \<longrightarrow> off + length data = length stream"
    using assms(2) by (auto simp: carries_def)
  define at where "at = (if k_guest_finished c then n + 1 else n)"
  have at: "k_receive_next c = isn + 1 + word_of_nat at" "at < 2 ^ 32" "n \<le> length stream"
    using assms(1,3) by (auto simp: received_def at_def)
  have here: "sq = k_receive_next c \<longleftrightarrow> off = at"
    using at off(1,2) assms(3) by (simp add: word_of_nat_inj32)
  have fin: "k_guest_finished c \<Longrightarrow> at = length stream + 1" using assms(1) by (simp add: received_def at_def)
  define c1 where "c1 = (if fl AND TCP_ACK \<noteq> 0 then
            let acked = ak - k_send_unacked c in
            if acked > 0 \<and> acked \<le> k_send_next c - k_send_unacked c then c\<lparr>k_send_unacked := ak\<rparr> else c
          else c)"
  have c1: "received isn stream n c1" "k_receive_next c1 = k_receive_next c" "k_to_host c1 = k_to_host c"
      "k_guest_finished c1 = k_guest_finished c"
    using assms(1) by (auto simp: c1_def received_def Let_def)
  define n1 where "n1 = (if data \<noteq> [] \<and> off = at then n + length data else n)"
  define c2 where "c2 = (if data \<noteq> [] \<and> sq = k_receive_next c1 then
            let c' = c1\<lparr>k_receive_next := k_receive_next c1 + word_of_nat (length data)\<rparr>
            in if k_to_host c' then c'\<lparr>k_handed := k_handed c' @ [data]\<rparr> else c'
          else c1)"
  have c2: "received isn stream n1 c2"
  proof (cases "data \<noteq> [] \<and> off = at")
    case False
    then have "c2 = c1" "n1 = n" using c1(2) here by (auto simp: c2_def n1_def)
    then show ?thesis using c1(1) by simp
  next
    case True
    then have nf: "\<not> k_guest_finished c" using fin off(1) by auto
    then have "off = n" using True by (simp add: at_def)
    moreover have "take n stream @ data = take (n + length data) stream"
      using off(3) \<open>off = n\<close> by (metis bslice_def take_add)
    ultimately show ?thesis
      using True nf c1 here off(1) by (simp add: c2_def n1_def received_def add.assoc)
  qed
  have "tcp_accept sq ak fl data c =
      (if fl AND TCP_FIN \<noteq> 0 \<and> sq + word_of_nat (length data) = k_receive_next c2
       then c2\<lparr>k_receive_next := k_receive_next c2 + 1, k_guest_finished := True, k_to_host := False\<rparr> else c2)"
    unfolding tcp_accept_def c2_def c1_def Let_def by (rule refl)
  moreover have "received isn stream n1 (c2\<lparr>k_receive_next := k_receive_next c2 + 1, k_guest_finished := True, k_to_host := False\<rparr>)"
    if "fl AND TCP_FIN \<noteq> 0" "sq + word_of_nat (length data) = k_receive_next c2"
  proof -
    define at2 where "at2 = (if k_guest_finished c2 then n1 + 1 else n1)"
    have at2: "k_receive_next c2 = isn + 1 + word_of_nat at2" "at2 < 2 ^ 32" "n1 \<le> length stream"
      using c2 assms(3) by (auto simp: received_def at2_def)
    have "sq + word_of_nat (length data) = isn + 1 + word_of_nat (length stream)"
      using off that(1) by (metis (no_types, lifting) add.assoc of_nat_add)
    then have "length stream = at2" using that(2) at2 assms(3) by (simp add: word_of_nat_inj32)
    then have "\<not> k_guest_finished c2" "n1 = length stream"
      using c2 by (auto simp: at2_def received_def split: if_splits)
    then show ?thesis using c2 by (simp add: received_def add.assoc add.commute)
  qed
  ultimately show ?thesis using c2 by metis
qed

lemma received_all:
  assumes "length stream + 2 < 2 ^ 32"
  shows "\<lbrakk>received isn stream n c; list_all (carries isn stream) segs\<rbrakk> \<Longrightarrow> \<exists>n'. received isn stream n' (accept_all segs c)"
proof (induction segs arbitrary: n c)
  case (Cons seg segs)
  obtain sq ak fl data where seg: "seg = (sq, ak, fl, data)" by (cases seg)
  obtain n' where "received isn stream n' (tcp_accept sq ak fl data c)"
    using received_step [OF Cons.prems(1) _ assms, of sq ak fl data] Cons.prems(2) seg by auto
  then show ?case using Cons.IH Cons.prems(2) by (simp add: accept_all_def seg)
qed (auto simp: accept_all_def)

subsection \<open>The device's loops\<close>

interpretation net_tx: ring_reader "net_tx_chain env" for env
  by unfold_locales (simp_all add: net_tx_chain_def Let_def)

lemma net_fill_length: "length (fst (net_fill m p w bs)) = length m"
  by (induction m p w bs rule: net_fill.induct) (auto simp: Let_def split_beta)

interpretation net_rx: ring_client net_rx_chain
  using net_fill_length by unfold_locales (auto simp: net_rx_chain_def Let_def split_beta)

lemma net_poll_drain:
  assumes "net_poll st qs m = ((st', qs', m'), r)" "queue_get qs 0 = Some q"
  obtains q' where "qs' = qs[0 := Some q']"
    "drain (Suc (length (n_frames st))) (\<lambda>st. n_frames st \<noteq> [])
       (\<lambda>st. st\<lparr>n_frames := tl (n_frames st)\<rparr>) net_rx_chain st q m [] = ((st', q', m'), r)"
  using assms by (auto simp: net_poll_def split: prod.splits)

lemma net_rx_inv: "net_inv st \<Longrightarrow> net_rx_chain st m c = ((st1, m1), r) \<Longrightarrow> net_inv st1"
  by (auto simp: net_rx_chain_def net_inv_def Let_def split: prod.splits)

interpretation net_dev: virtio_device "net_ops env" net_inv for env
proof unfold_locales
  fix d m q i d' q' m' r
  assume inv: "net_inv d" and ok: "queue_ok m q" and n: "op_notify (net_ops env) d i q m = ((d', q', m'), r)"
  show "net_inv d' \<and> length m' = length m \<and> queue_ok m' q'"
  proof (cases "i = 1")
    case True
    then have dr: "drain (Suc (ring_len q)) (\<lambda>_. True) (\<lambda>st. st) (net_tx_chain env) d q m [] = ((d', q', m'), r)"
      using n by (simp add: net_ops_def net_notify_def)
    have "net_inv d'"
      by (rule drain_invariant [where P = "\<lambda>st _. net_inv st", OF _ _ _ inv dr])
        (auto simp: net_tx_chain_def Let_def net_inv_frame split: if_splits)
    then show ?thesis using net_tx.drain_keeps [OF ok dr] by simp
  next
    case False
    then show ?thesis using n inv ok by (auto simp: net_ops_def net_notify_def)
  qed
next
  fix d m qs d' qs' m' r
  assume inv: "net_inv d" and ok: "queues_ok m qs" and p: "op_poll (net_ops env) d qs m = ((d', qs', m'), r)"
  have poll: "net_poll d qs m = ((d', qs', m'), r)" using p by (simp add: net_ops_def)
  show "net_inv d' \<and> length m' = length m \<and> queues_ok m' qs'"
  proof (cases "queue_get qs 0")
    case None
    then show ?thesis using poll inv ok by (auto simp: net_poll_def)
  next
    case (Some q)
    obtain q' where q': "qs' = qs[0 := Some q']" and dr: "drain (Suc (length (n_frames d))) (\<lambda>st. n_frames st \<noteq> [])
       (\<lambda>st. st\<lparr>n_frames := tl (n_frames st)\<rparr>) net_rx_chain d q m [] = ((d', q', m'), r)"
      using net_poll_drain [OF poll Some] .
    have "net_inv d'"
      by (rule drain_invariant [where P = "\<lambda>st _. net_inv st", OF _ _ _ inv dr]) (auto intro: net_rx_inv, auto simp: net_inv_def)
    moreover have "length m' = length m \<and> queue_ok m' q'"
      using net_rx.drain_keeps [OF queues_ok_get [OF ok Some] dr] .
    ultimately show ?thesis
      using q' queues_ok_update queues_ok_mem [OF ok] by simp
  qed
next
  fix d
  assume "net_inv d"
  then show "net_inv (op_reset (net_ops env) d)" by (simp add: net_ops_def net_inv_def)
qed

lemma net_poll_ends:
  assumes "queues_ok m qs"
  shows "snd (net_poll st qs m) \<noteq> Inl OutOfFuel"
proof (cases "queue_get qs 0")
  case None
  then show ?thesis by (simp add: net_poll_def)
next
  case (Some q)
  have dec: "length (n_frames (fst (fst (net_rx_chain d m c)))) < length (n_frames d)"
    if "n_frames d \<noteq> []" "snd (net_rx_chain d m c) = Inr w" for d m c w
    using that by (auto simp: net_rx_chain_def Let_def split: prod.splits)
  have "snd (drain (Suc (length (n_frames st))) (\<lambda>st. n_frames st \<noteq> [])
      (\<lambda>st. st\<lparr>n_frames := tl (n_frames st)\<rparr>) net_rx_chain st q m []) \<noteq> Inl OutOfFuel"
    by (rule net_rx.drain_measure [where \<mu> = "\<lambda>st. length (n_frames st)"])
      (use dec queues_ok_get [OF assms Some] in auto)
  then show ?thesis using Some by (auto simp: net_poll_def split: prod.splits)
qed

lemma net_notify_ends: "queue_ok m q \<Longrightarrow> snd (net_notify env st i q m) \<noteq> Inl OutOfFuel"
  using net_tx.drain_terminates [of m q] by (simp add: net_notify_def)

subsection \<open>Threads that outlive their connection\<close>

text \<open>
  A thread finds its connection by the key alone. The thread that reads a host socket is still there
  after the guest reset the connection, and when the guest has opened another one with the same ports
  in the meantime, it is the new connection that is marked as closed by the host.
\<close>

lemma stale_reader:
  assumes "map_of (n_conns st) key = Some c" "\<not> k_established c"
  shows "map_of (n_conns (read_from_host key None st)) key = Some (c\<lparr>k_host_closed := True\<rparr>)"
proof -
  let ?st = "put_conn key (c\<lparr>k_host_closed := True\<rparr>) st"
  have "map_of (n_conns ?st) key = Some (c\<lparr>k_host_closed := True\<rparr>)" by (simp add: put_conn_def update_conv')
  moreover from this have "n_conns (net_flush (Some key) False ?st) = n_conns ?st"
    using assms(2) by (subst net_flush_eq [where fin = "[]" and frames = "[]" and conns = "n_conns ?st"]) auto
  ultimately show ?thesis using assms(1) by (simp add: read_from_host_def)
qed

lemma reset_leaves_readers:
  "n_tasks (report e ((drop_conn key st)\<lparr>n_done := dn\<rparr>)) = n_tasks st"
  by (simp add: stack_ops)

subsection \<open>Properties of the stack\<close>

definition sample_env :: net_env where
  "sample_env = \<lparr>e_lc = map ascii_lower, e_policy = policy_default, e_asker = None, e_interceptor = False,
     e_resolve = (\<lambda>_ _. Inr [V4 0x0A000001]), e_random = (\<lambda>_. 1000)\<rparr>"

definition sample_syn :: bytes where
  "sample_syn = GATEWAY_MAC @ GUEST_MAC @ [8, 0] @
     [0x45, 0, 0, 40, 0, 0, 0, 0, 64, 6, 0, 0, 192, 0, 2, 2, 10, 0, 0, 1] @
     [0x9c, 0x40, 0, 80, 0, 0, 0, 7, 0, 0, 0, 0, 0x50, 2, 0xff, 0xff, 0, 0, 0, 0]"

definition sample_stack :: stack where
  "sample_stack = stack_new\<lparr>n_next_id := 2,
     n_conns := [((40000, 0x0A000001, 80), conn_new 2 0x0A000001 40000 80 1000 7 65535)],
     n_tasks := [ConnectTask (40000, 0x0A000001, 80) 0x0A000001 80],
     n_events := [Connect_event 2 (dotted 0x0A000001) 80 ''open'' False None]\<rparr>"

lemma sample_syn_opens: "receive_frame sample_env sample_syn stack_new = sample_stack"
proof -
  have "decide sample_env st 0x0A000001 0x0A000001 (Some 80) = Allow" if "n_resolved st = (\<lambda>_. None)" for st
    using that by (simp add: decide_def loopback4_def sample_env_def names_in_def refuses_host_def policy_default_def host_matches_def Let_def)
  then have "receive_tcp sample_env 0x0A000001 (drop 34 sample_syn) stack_new = sample_stack"
    by (simp add: receive_tcp_def sample_syn_def GATEWAY_MAC_def GUEST_MAC_def be16_at_def be32_at_def bslice_def
        from_be_def net_open_def stack_new_def sample_stack_def stack_ops sample_env_def Let_def)
  moreover have "receive_frame sample_env sample_syn stack_new = receive_tcp sample_env 0x0A000001 (drop 34 sample_syn) stack_new"
    by (simp add: receive_frame_def receive_ipv4_def sample_syn_def GATEWAY_MAC_def GUEST_MAC_def be16_at_def be32_at_def
        bslice_def from_be_def Let_def)
  ultimately show ?thesis by simp
qed

definition sample_dialled :: stack where
  "sample_dialled = run_task sample_env (Inr True) (Inr None) None (ConnectTask (40000, 0x0A000001, 80) 0x0A000001 80)
     (sample_stack\<lparr>n_tasks := []\<rparr>)"

lemma sample_reachable: "(net_step (map ascii_lower) policy_default)\<^sup>*\<^sup>* stack_new sample_dialled"
proof -
  have "net_step (map ascii_lower) policy_default stack_new sample_stack"
    using frame_in [of sample_env, OF refl refl, of stack_new sample_syn] sample_syn_opens by (simp add: sample_env_def)
  moreover have "net_step (map ascii_lower) policy_default sample_stack sample_dialled"
    using thread [of sample_env, OF refl refl, of sample_stack "[]" _ "[]"]
    by (simp add: sample_dialled_def sample_stack_def sample_env_def)
  ultimately show ?thesis by (meson converse_rtranclp_into_rtranclp rtranclp.rtrancl_refl)
qed

lemma sample_dials: "Dial 0x0A000001 80 False \<in> set (n_outward sample_dialled)"
  by (simp add: sample_dialled_def run_task_def connect_host_def sample_stack_def stack_new_def stack_ops interceptor_for_def
      sample_env_def conn_segment_def Let_def)



text \<open>C33: Every state the stack can reach is well-formed: no two connections share ports and address, each
  connection is filed under its own, one that is not yet established has sent nothing and hands nothing to
  the host, a FIN is only sent after the host closed, and there are as many pings counted as there are
  threads pinging, at most 32.\<close>

theorem net_state_wf:
  assumes "(net_step lc p)\<^sup>*\<^sup>* stack_new st"
  shows "net_inv st"
proof -
  have "net_inv stack_new" by (simp add: net_inv_def conns_ok_def stack_new_def)
  with assms show ?thesis by (induction rule: rtranclp_induct) (auto intro: net_inv_step)
qed

theorem net_state_wf_witness: "net_inv sample_dialled"
  by (rule net_state_wf [OF sample_reachable])

text \<open>C15: The host receives the guest's bytes in order, without gaps or repeats. Let the guest send a stream
  of less than 4 GiB, cut into segments in any way, with any of them repeated, overlapping, lost or out of
  order: what the connection hands to the thread that writes the host's socket is always a beginning of
  the stream, and so is what that thread writes, whichever of its writes fail; the next expected sequence
  number is the one after the bytes handed over, and once the guest's FIN is taken they are the whole
  stream.\<close>

theorem guest_stream_in_order:
  assumes "length stream + 2 < 2 ^ 32" "list_all (carries isn stream) segs"
    and "k_to_host c" "k_handed c = []" "\<not> k_guest_finished c" "k_receive_next c = isn + 1"
  shows "\<exists>n\<le>length stream. concat (k_handed (accept_all segs c)) = take n stream \<and>
    (\<exists>k. host_writer results (k_handed (accept_all segs c)) = take k stream) \<and>
    (k_guest_finished (accept_all segs c) \<longrightarrow> n = length stream) \<and>
    (\<not> k_guest_finished (accept_all segs c) \<longrightarrow> k_receive_next (accept_all segs c) = isn + 1 + word_of_nat n)"
proof -
  have "received isn stream 0 c" using assms(3-6) by (simp add: received_def)
  then obtain n where n: "received isn stream n (accept_all segs c)"
    using received_all [OF assms(1) _ assms(2), of 0 c] by blast
  obtain k where "host_writer results (k_handed (accept_all segs c)) = take k (take n stream)"
    using host_writer_takes [of results "k_handed (accept_all segs c)"] n by (auto simp: received_def)
  then have "\<exists>k. host_writer results (k_handed (accept_all segs c)) = take k stream" by (auto simp: take_take)
  then show ?thesis using n by (intro exI [of _ n]) (simp add: received_def)
qed

definition sample_tcp :: tcp_conn where
  "sample_tcp = (conn_new 2 0x0A000001 40000 80 1000 7 4)\<lparr>k_to_host := True, k_established := True\<rparr>"

definition sample_segs :: "(u32 \<times> u32 \<times> u8 \<times> bytes) list" where
  "sample_segs = [(10, 0, TCP_ACK, [3, 4]), (8, 0, TCP_ACK, [1, 2]), (8, 0, TCP_ACK, [1, 2]), (10, 0, TCP_ACK OR TCP_FIN, [3, 4])]"

theorem guest_stream_in_order_witness:
  "list_all (carries 7 [1, 2, 3, 4]) sample_segs \<and>
   concat (k_handed (accept_all sample_segs sample_tcp)) = [1, 2, 3, 4] \<and> k_guest_finished (accept_all sample_segs sample_tcp)"
proof -
  have "carries 7 [1, 2, 3, 4] (10, 0, TCP_ACK, [3, 4])" "carries 7 [1, 2, 3, 4] (10, 0, TCP_ACK OR TCP_FIN, [3, 4])"
    unfolding carries_def prod.case by (rule exI [of _ 2]; simp add: bslice_def)+
  moreover have "carries 7 [1, 2, 3, 4] (8, 0, TCP_ACK, [1, 2])"
    unfolding carries_def prod.case by (rule exI [of _ 0]) (simp add: bslice_def)
  ultimately have c: "list_all (carries 7 [1, 2, 3, 4]) sample_segs" by (simp add: sample_segs_def)
  have fin: "k_guest_finished (accept_all sample_segs sample_tcp)"
    by (simp add: accept_all_def sample_segs_def tcp_accept_def sample_tcp_def conn_new_def Let_def)
  show ?thesis
    using guest_stream_in_order [of "[1, 2, 3, 4]", OF _ c, of sample_tcp] c fin
    by (simp add: sample_tcp_def conn_new_def)
qed

text \<open>C16: Data for the guest leaves in order and never beyond what the guest can take: flushing a connection
  sends consecutive segments of at most 1400 bytes, each numbered where the one before ended, whose data
  is exactly the beginning of what was waiting; the rest keeps waiting, and if anything was sent then the
  unacknowledged data still fits the guest's window.\<close>

theorem flush_within_window:
  assumes "flush_data c = (frames, c')"
  shows "\<exists>ds. frames = segments_from c ds \<and> k_outgoing c = concat ds @ k_outgoing c' \<and>
    (\<forall>d\<in>set ds. d \<noteq> [] \<and> length d \<le> MAX_SEGMENT) \<and>
    k_send_next c' = k_send_next c + word_of_nat (length (concat ds)) \<and>
    (ds \<noteq> [] \<longrightarrow> in_flight c + length (concat ds) \<le> unat (k_peer_window c))"
proof -
  obtain ds where ds: "frames = segments_from c ds" "\<forall>d\<in>set ds. d \<noteq> [] \<and> length d \<le> MAX_SEGMENT"
      "k_outgoing c = concat ds @ k_outgoing c'"
      "c' = c\<lparr>k_outgoing := drop (length (concat ds)) (k_outgoing c), k_send_next := k_send_next c + word_of_nat (length (concat ds))\<rparr>"
      "length (concat ds) = 0 \<or> in_flight c + length (concat ds) \<le> unat (k_peer_window c)"
    by (rule flush_data_parts [OF assms])
  have "k_send_next c' = k_send_next c + word_of_nat (length (concat ds))"
    by (subst ds(4)) simp
  moreover have "ds \<noteq> [] \<Longrightarrow> length (concat ds) \<noteq> 0" using ds(2) by (cases ds) auto
  ultimately show ?thesis using ds(1,2,3,5) by blast
qed

theorem flush_within_window_witness:
  "\<exists>ds. fst (flush_data (sample_tcp\<lparr>k_outgoing := [5, 6, 7, 8, 9]\<rparr>)) = segments_from (sample_tcp\<lparr>k_outgoing := [5, 6, 7, 8, 9]\<rparr>) ds"
  using flush_within_window [of "sample_tcp\<lparr>k_outgoing := [5, 6, 7, 8, 9]\<rparr>"] by (metis prod.collapse)




definition sample_query :: bytes where
  "sample_query = [0, 9, 1, 0, 0, 1, 0, 0, 0, 0, 0, 0, 1, 97, 0, 0, 1, 0, 1]"


text \<open>Whatever a driver put into its rings, a notification of the network device and a poll of it end, and
  leave the stack well-formed and the queues well-formed in a memory of the same size.\<close>

theorem net_device_ends:
  assumes "net_inv st" "queue_ok m q" "queues_ok m qs"
    and "net_notify env st i q m = ((st1, q1, m1), r1)" "net_poll st qs m = ((st2, qs2, m2), r2)"
  shows "r1 \<noteq> Inl OutOfFuel \<and> net_inv st1 \<and> queue_ok m1 q1 \<and> length m1 = length m \<and>
    r2 \<noteq> Inl OutOfFuel \<and> net_inv st2 \<and> queues_ok m2 qs2 \<and> length m2 = length m"
  using net_notify_ends [OF assms(2), of env st i] net_poll_ends [OF assms(3), of st]
    net_dev.notify_keeps [OF assms(1,2), of env i] net_dev.poll_keeps [OF assms(1,3), of env] assms(4,5)
  by (simp add: net_ops_def)

theorem net_device_ends_witness:
  "snd (net_notify sample_env stack_new 1 sample_queue sample_mem) \<noteq> Inl OutOfFuel \<and>
   snd (net_poll stack_new [Some sample_queue] sample_mem) \<noteq> Inl OutOfFuel"
proof -
  obtain st1 q1 m1 r1 where n: "net_notify sample_env stack_new 1 sample_queue sample_mem = ((st1, q1, m1), r1)"
    by (metis prod.exhaust)
  obtain st2 q2 m2 r2 where p: "net_poll stack_new [Some sample_queue] sample_mem = ((st2, q2, m2), r2)"
    by (metis prod.exhaust)
  have "net_inv stack_new" by (simp add: net_inv_def conns_ok_def stack_new_def)
  moreover have "queues_ok sample_mem [Some sample_queue]" using sample_ok by (simp add: queues_ok_def)
  ultimately show ?thesis using net_device_ends [OF _ sample_ok _ n p] n p by simp
qed

end
