(* ===== verification/Fuse.thy ===== *)
theory Fuse
  imports Texts Buffers
begin

unbundle bit_operations_syntax

text \<open>
  What the two virtio-fs servers share, from \<open>engine/src/fs.rs\<close>: reading the fields of a FUSE request,
  writing a reply, the attributes the guest is told, the answer to FUSE_INIT, and \<open>serve\<close>, which takes
  the requests off the virtqueue and spreads each reply over the guest's buffers. A server is its
  \<open>process\<close> operation on a state of its own; the locale \<open>fuse_server\<close> states what \<open>serve\<close> relies on.
  An errno is the 32-bit number of the protocol. A \<open>Reader\<close> is the bytes it has not read yet.
\<close>

type_synonym errno = u32

abbreviation IN_HEADER_SIZE :: nat where "IN_HEADER_SIZE \<equiv> 40"
abbreviation OUT_HEADER_SIZE :: nat where "OUT_HEADER_SIZE \<equiv> 16"
abbreviation ATTR_SIZE :: nat where "ATTR_SIZE \<equiv> 88"
abbreviation ENTRY_OUT_SIZE :: nat where "ENTRY_OUT_SIZE \<equiv> 40 + ATTR_SIZE"
abbreviation ATTR_OUT_SIZE :: nat where "ATTR_OUT_SIZE \<equiv> 16 + ATTR_SIZE"
abbreviation OPEN_OUT_SIZE :: nat where "OPEN_OUT_SIZE \<equiv> 16"
abbreviation INIT_OUT_SIZE :: nat where "INIT_OUT_SIZE \<equiv> 64"
abbreviation WRITE_OUT_SIZE :: nat where "WRITE_OUT_SIZE \<equiv> 8"
abbreviation STATFS_OUT_SIZE :: nat where "STATFS_OUT_SIZE \<equiv> 80"

abbreviation OP_LOOKUP :: u32 where "OP_LOOKUP \<equiv> 1"
abbreviation OP_FORGET :: u32 where "OP_FORGET \<equiv> 2"
abbreviation OP_GETATTR :: u32 where "OP_GETATTR \<equiv> 3"
abbreviation OP_SETATTR :: u32 where "OP_SETATTR \<equiv> 4"
abbreviation OP_READLINK :: u32 where "OP_READLINK \<equiv> 5"
abbreviation OP_SYMLINK :: u32 where "OP_SYMLINK \<equiv> 6"
abbreviation OP_MKDIR :: u32 where "OP_MKDIR \<equiv> 9"
abbreviation OP_UNLINK :: u32 where "OP_UNLINK \<equiv> 10"
abbreviation OP_RMDIR :: u32 where "OP_RMDIR \<equiv> 11"
abbreviation OP_RENAME :: u32 where "OP_RENAME \<equiv> 12"
abbreviation OP_OPEN :: u32 where "OP_OPEN \<equiv> 14"
abbreviation OP_READ :: u32 where "OP_READ \<equiv> 15"
abbreviation OP_WRITE :: u32 where "OP_WRITE \<equiv> 16"
abbreviation OP_STATFS :: u32 where "OP_STATFS \<equiv> 17"
abbreviation OP_RELEASE :: u32 where "OP_RELEASE \<equiv> 18"
abbreviation OP_FSYNC :: u32 where "OP_FSYNC \<equiv> 20"
abbreviation OP_FLUSH :: u32 where "OP_FLUSH \<equiv> 25"
abbreviation OP_INIT :: u32 where "OP_INIT \<equiv> 26"
abbreviation OP_OPENDIR :: u32 where "OP_OPENDIR \<equiv> 27"
abbreviation OP_READDIR :: u32 where "OP_READDIR \<equiv> 28"
abbreviation OP_RELEASEDIR :: u32 where "OP_RELEASEDIR \<equiv> 29"
abbreviation OP_FSYNCDIR :: u32 where "OP_FSYNCDIR \<equiv> 30"
abbreviation OP_ACCESS :: u32 where "OP_ACCESS \<equiv> 34"
abbreviation OP_CREATE :: u32 where "OP_CREATE \<equiv> 35"
abbreviation OP_INTERRUPT :: u32 where "OP_INTERRUPT \<equiv> 36"
abbreviation OP_DESTROY :: u32 where "OP_DESTROY \<equiv> 38"
abbreviation OP_BATCH_FORGET :: u32 where "OP_BATCH_FORGET \<equiv> 42"
abbreviation OP_READDIRPLUS :: u32 where "OP_READDIRPLUS \<equiv> 44"

abbreviation S_IFMT :: u32 where "S_IFMT \<equiv> 0xF000"
abbreviation S_IFDIR :: u32 where "S_IFDIR \<equiv> 0x4000"
abbreviation S_IFREG :: u32 where "S_IFREG \<equiv> 0x8000"
abbreviation S_IFLNK :: u32 where "S_IFLNK \<equiv> 0xA000"

abbreviation EPERM :: errno where "EPERM \<equiv> 1"
abbreviation ENOENT :: errno where "ENOENT \<equiv> 2"
abbreviation EIO :: errno where "EIO \<equiv> 5"
abbreviation EBADF :: errno where "EBADF \<equiv> 9"
abbreviation ENOTDIR :: errno where "ENOTDIR \<equiv> 20"
abbreviation EINVAL :: errno where "EINVAL \<equiv> 22"
abbreviation EROFS :: errno where "EROFS \<equiv> 30"
abbreviation ENOSYS :: errno where "ENOSYS \<equiv> 38"

subsection \<open>Reading a request\<close>

type_synonym 'a reading = "bytes \<Rightarrow> errno + 'a \<times> bytes"

definition r_then :: "'a reading \<Rightarrow> ('a \<Rightarrow> 'b reading) \<Rightarrow> 'b reading" where
  "r_then f g bs = (case f bs of Inl e \<Rightarrow> Inl e | Inr (a, rest) \<Rightarrow> g a rest)"

definition r_give :: "'a \<Rightarrow> 'a reading" where
  "r_give a bs = Inr (a, bs)"

definition r_take :: "nat \<Rightarrow> bytes reading" where
  "r_take n bs = (if length bs < n then Inl EINVAL else Inr (take n bs, drop n bs))"

definition r_u32 :: "u32 reading" where
  "r_u32 = r_then (r_take 4) (\<lambda>b. r_give (le32_at 0 b))"

definition r_u64 :: "u64 reading" where
  "r_u64 = r_then (r_take 8) (\<lambda>b. r_give (le64_at 0 b))"

definition r_skip :: "nat \<Rightarrow> unit reading" where
  "r_skip n = r_then (r_take n) (\<lambda>_. r_give ())"

definition r_cstring :: "string reading" where
  "r_cstring bs =
     (if 0 \<notin> set bs then Inl EINVAL
      else
        let name = string_of (takeWhile (\<lambda>b. b \<noteq> 0) bs) in
        if \<not> from_utf8_ok name then Inl EINVAL
        else Inr (name, drop (length name + 1) bs))"

subsection \<open>Writing a reply\<close>

definition pad8 :: "bytes \<Rightarrow> bytes" where
  "pad8 out = out @ replicate ((8 - length out mod 8) mod 8) 0"

record attributes =
  a_ino :: u64
  a_size :: u64
  a_mode :: u32
  a_nlink :: u32
  a_uid :: u32
  a_gid :: u32
  a_rdev :: u32
  a_atime :: "u64 \<times> u32"
  a_mtime :: "u64 \<times> u32"
  a_ctime :: "u64 \<times> u32"

definition write_attr :: "attributes \<Rightarrow> bytes" where
  "write_attr a =
     u64_le (a_ino a) @ u64_le (a_size a) @ u64_le (word_of_nat ((unat (a_size a) + 511) div 512)) @
     u64_le (fst (a_atime a)) @ u64_le (fst (a_mtime a)) @ u64_le (fst (a_ctime a)) @
     u32_le (snd (a_atime a)) @ u32_le (snd (a_mtime a)) @ u32_le (snd (a_ctime a)) @
     u32_le (a_mode a) @ u32_le (a_nlink a) @ u32_le (a_uid a) @ u32_le (a_gid a) @ u32_le (a_rdev a) @
     u32_le 4096 @ u32_le 0"

definition dirent_type :: "u32 \<Rightarrow> u32" where
  "dirent_type mode =
     (let t = mode AND S_IFMT in
      if t = 0x1000 then 1 else if t = 0x2000 then 2 else if t = S_IFDIR then 4 else if t = 0x6000 then 6
      else if t = S_IFREG then 8 else if t = S_IFLNK then 10 else if t = 0xC000 then 12 else 8)"

definition dirent_length :: "string \<Rightarrow> nat" where
  "dirent_length name = (24 + length name + 7) div 8 * 8"

definition write_dirent :: "u64 \<Rightarrow> nat \<Rightarrow> string \<Rightarrow> u32 \<Rightarrow> bytes \<Rightarrow> bytes" where
  "write_dirent ident index name mode out =
     pad8 (out @ u64_le ident @ u64_le (word_of_nat (index + 1)) @ u32_le (word_of_nat (length name)) @
       u32_le (dirent_type mode) @ bytes_of name)"

definition validate_name :: "string \<Rightarrow> errno + string" where
  "validate_name name =
     (if name = [] \<or> name = ''.'' \<or> name = ''..'' \<or> CHR ''/'' \<in> set name \<or> NUL \<in> set name then Inl EINVAL
      else Inr name)"

definition fuse_init :: "u32 \<Rightarrow> bytes reading" where
  "fuse_init extra =
     r_then r_u32 (\<lambda>major. r_then r_u32 (\<lambda>minor. r_then r_u32 (\<lambda>max_readahead. r_then r_u32 (\<lambda>flags.
       if major \<noteq> 7 then
         (if major < 7 then (\<lambda>_. Inl EIO) else r_give (u32_le 7 @ u32_le 45))
       else
         let supported = 1 OR push_bit 5 1 OR push_bit 12 1 OR push_bit 22 1 OR push_bit 30 1 OR extra;
             flags1 = flags AND supported
         in r_give (u32_le 7 @ u32_le (min minor 45) @ u32_le (min max_readahead 1048576) @ u32_le flags1 @
              u16_le 12 @ u16_le 9 @ u32_le 1048576 @ u32_le 1 @
              u16_le (if flags1 AND push_bit 22 1 = 0 then 0 else 16) @ u16_le 0 @ u32_le 0 @ u32_le 0 @ u16_le 0 @
              replicate 22 0)))))"

definition fuse_config :: "string \<Rightarrow> bytes" where
  "fuse_config tag = bytes_of tag @ replicate (36 - length tag) 0 @ u32_le 1"

subsection \<open>Serving the queue\<close>

type_synonym 's server = "'s \<Rightarrow> u32 \<Rightarrow> u64 \<Rightarrow> bytes \<Rightarrow> nat \<Rightarrow> 's \<times> (errno + bytes option)"

definition read_header :: "bytes \<Rightarrow> errno + (u32 \<times> u64 \<times> u64) \<times> bytes" where
  "read_header req =
     r_then r_u32 (\<lambda>len. r_then r_u32 (\<lambda>opcode. r_then r_u64 (\<lambda>unique. r_then r_u64 (\<lambda>nodeid.
       r_then (r_skip (IN_HEADER_SIZE - 24)) (\<lambda>_.
         if unat len \<noteq> length req \<or> unat len < IN_HEADER_SIZE then (\<lambda>_. Inl EINVAL)
         else r_give (opcode, unique, nodeid)))))) req"

definition minimum_capacity :: "u32 \<Rightarrow> nat" where
  "minimum_capacity opcode =
     (if opcode = OP_FORGET \<or> opcode = OP_BATCH_FORGET \<or> opcode = OP_INTERRUPT then 0
      else if opcode = OP_INIT then OUT_HEADER_SIZE + INIT_OUT_SIZE
      else if opcode = OP_LOOKUP \<or> opcode = OP_SYMLINK \<or> opcode = OP_MKDIR then OUT_HEADER_SIZE + ENTRY_OUT_SIZE
      else if opcode = OP_GETATTR \<or> opcode = OP_SETATTR then OUT_HEADER_SIZE + ATTR_OUT_SIZE
      else if opcode = OP_OPEN \<or> opcode = OP_OPENDIR then OUT_HEADER_SIZE + OPEN_OUT_SIZE
      else if opcode = OP_CREATE then OUT_HEADER_SIZE + ENTRY_OUT_SIZE + OPEN_OUT_SIZE
      else if opcode = OP_WRITE then OUT_HEADER_SIZE + WRITE_OUT_SIZE
      else if opcode = OP_STATFS then OUT_HEADER_SIZE + STATFS_OUT_SIZE
      else OUT_HEADER_SIZE)"

definition answer :: "'s server \<Rightarrow> 's \<Rightarrow> bytes \<Rightarrow> nat \<Rightarrow> 's \<times> u64 \<times> u32 \<times> bytes" where
  "answer process s req cap =
     (case read_header req of
        Inl e \<Rightarrow> (s, 0, - e, [])
      | Inr ((opcode, unique, nodeid), body) \<Rightarrow>
          if cap < minimum_capacity opcode then (s, unique, - EINVAL, [])
          else (case process s opcode nodeid body cap of
              (s1, Inr (Some payload)) \<Rightarrow> (s1, unique, 0, payload)
            | (s1, Inr None) \<Rightarrow> (s1, unique, 0, [])
            | (s1, Inl e) \<Rightarrow> (s1, unique, - e, [])))"

fun fs_gather :: "mem \<Rightarrow> bytes \<Rightarrow> nat \<Rightarrow> (u64 \<times> nat) list \<Rightarrow> buffer list
    \<Rightarrow> virtio_error + bytes \<times> nat \<times> (u64 \<times> nat) list" where
  "fs_gather m req cap targets [] = Inr (req, cap, targets)"
| "fs_gather m req cap targets (b # bs) =
     (if b_writable b
      then fs_gather m req (cap + unat (b_length b)) (targets @ [(b_address b, unat (b_length b))]) bs
      else case guest_bytes m (ucast (b_address b)) (b_length b) of
          Some part \<Rightarrow> fs_gather m (req @ part) cap targets bs
        | None \<Rightarrow> Inl (DeviceError ''virtio-fs request buffer outside guest memory''))"

fun scatter_loop :: "mem \<Rightarrow> (u64 \<times> nat) list \<Rightarrow> bytes \<Rightarrow> nat \<Rightarrow> mem \<times> nat" where
  "scatter_loop m [] bs written = (m, written)"
| "scatter_loop m ((address, len) # targets) bs written =
     (if written \<ge> length bs then (m, written)
      else
        let tk = min len (length bs - written);
            (m1, dn) = write_bytes m address (bslice written tk bs)
        in if dn < tk then (m1, written + dn) else scatter_loop m1 targets bs (written + dn))"

definition scatter :: "mem \<Rightarrow> (u64 \<times> nat) list \<Rightarrow> bytes \<Rightarrow> mem \<times> (virtio_error + nat)" where
  "scatter m targets bs =
     (case scatter_loop m targets bs 0 of
        (m1, written) \<Rightarrow>
          (m1, if written < length bs then Inl (DeviceError ''virtio-fs response does not fit the guest's buffers'')
               else Inr written))"

definition fuse_reply :: "u32 \<Rightarrow> u64 \<Rightarrow> bytes \<Rightarrow> bytes" where
  "fuse_reply err unique payload =
     u32_le (word_of_nat (OUT_HEADER_SIZE + length payload)) @ u32_le err @ u64_le unique @ payload"

definition serve_chain :: "'s server \<Rightarrow> 's \<Rightarrow> mem \<Rightarrow> chain \<Rightarrow> ('s \<times> mem) \<times> (virtio_error + u32)" where
  "serve_chain process s m c =
     (case fs_gather m [] 0 [] (c_buffers c) of
        Inl e \<Rightarrow> ((s, m), Inl e)
      | Inr (req, cap, targets) \<Rightarrow>
          (case answer process s req cap of
             (s1, unique, err, payload) \<Rightarrow>
               if cap \<ge> OUT_HEADER_SIZE then
                 (case scatter m targets (fuse_reply err unique payload) of
                    (m1, Inl e) \<Rightarrow> ((s1, m1), Inl e)
                  | (m1, Inr written) \<Rightarrow> ((s1, m1), Inr (word_of_nat written)))
               else ((s1, m), Inr 0)))"

definition serve :: "'s server \<Rightarrow> nat \<Rightarrow> 's \<Rightarrow> u16 \<Rightarrow> queue \<Rightarrow> mem \<Rightarrow> ('s \<times> queue \<times> mem) \<times> (virtio_error + u32 list)" where
  "serve process fuel s queue_index q m = drain fuel (\<lambda>_. True) (\<lambda>s. s) (serve_chain process) s q m []"

definition fuse_ops :: "'s server \<Rightarrow> nat \<Rightarrow> string \<Rightarrow> 's device_ops" where
  "fuse_ops process fuel tag =
     \<lparr>op_device_id = 26, op_features = 0, op_config = (\<lambda>_. fuse_config tag), op_notify = serve process fuel,
      op_poll = default_poll, op_reset = (\<lambda>s. s), op_console = None\<rparr>"

subsection \<open>A reply in the guest's buffers\<close>

definition targets_of :: "buffer list \<Rightarrow> (u64 \<times> nat) list" where
  "targets_of bs = map (\<lambda>b. (b_address b, b_len b)) (filter b_writable bs)"

definition request_of :: "mem \<Rightarrow> buffer list \<Rightarrow> bytes" where
  "request_of m bs = concat (map (\<lambda>b. bslice (b_at b) (b_len b) m) (filter (\<lambda>b. \<not> b_writable b) bs))"

lemma guest_bytes_inside:
  "inside m b \<Longrightarrow> length m \<le> 2 ^ 32 \<Longrightarrow> guest_bytes m (ucast (b_address b)) (b_length b) = Some (bslice (b_at b) (b_len b) m)"
proof -
  assume *: "inside m b" "length m \<le> 2 ^ 32"
  show ?thesis
  proof (cases "b_len b = 0")
    case True
    have "unat (ucast (b_address b) :: u32) \<le> length m"
      using * unat_ucast_u32 [of "b_address b"] unsigned_less [of "ucast (b_address b) :: u32", where ?'a = nat]
      by (cases "b_at b < 2 ^ 32") (simp_all add: inside_def b_at_def)
    then show ?thesis using True by (simp add: guest_bytes_def b_len_def bslice_def)
  next
    case False
    then have "unat (b_address b) < 2 ^ 32" using * by (simp add: inside_def b_at_def)
    then show ?thesis
      using * unat_ucast_u32 [of "b_address b"] by (simp add: guest_bytes_def inside_def b_at_def b_len_def)
  qed
qed

lemma fs_gather_eq:
  "buffers_ok m bs \<Longrightarrow> fs_gather m req cap targets bs = Inr (req @ request_of m bs, cap + capacity bs, targets @ targets_of bs)"
proof (induction bs arbitrary: req cap targets)
  case (Cons b bs)
  have "length m \<le> 2 ^ 32" using Cons.prems by (simp add: buffers_ok_def)
  then show ?case
    using Cons guest_bytes_inside [of m b] by (auto simp: request_of_def targets_of_def b_len_def)
qed (simp add: request_of_def targets_of_def)

lemma scatter_place:
  "\<lbrakk>buffers_ok m bs; w \<le> length p\<rbrakk> \<Longrightarrow>
   scatter_loop m (targets_of bs) p w = (place m bs (drop w p), w + min (capacity bs) (length p - w))"
proof (induction bs arbitrary: m w)
  case Nil
  then show ?case by (simp add: targets_of_def)
next
  case (Cons b bs)
  consider "\<not> b_writable b" | "b_writable b" "length p \<le> w" | "b_writable b" "w < length p" by linarith
  then show ?case
  proof cases
    case 1
    then show ?thesis using Cons by (simp add: targets_of_def)
  next
    case 2
    then show ?thesis by (simp add: targets_of_def)
  next
    case 3
    let ?tk = "min (b_len b) (length p - w)"
    let ?m = "poke m (b_address b) (take (b_len b) (drop w p))"
    have part: "bslice w ?tk p = take (b_len b) (drop w p)" by (simp add: bslice_def min_def)
    have wb: "write_bytes m (b_address b) (bslice w ?tk p) = (?m, ?tk)"
      using Cons.prems buffers_ok_small [of m bs] unfolding part
      by (subst write_bytes_eq) (auto simp: inside_def b_at_def)
    have "scatter_loop m (targets_of (b # bs)) p w = scatter_loop ?m (targets_of bs) p (w + ?tk)"
      using 3 wb by (simp add: targets_of_def Let_def del: min_less_iff_conj)
    also have "\<dots> = (place ?m bs (drop (w + ?tk) p), w + ?tk + min (capacity bs) (length p - (w + ?tk)))"
      using Cons.IH [of ?m "w + ?tk"] Cons.prems 3 by simp
    also have "drop (w + ?tk) p = drop (b_len b) (drop w p)"
      by (simp add: min_def add.commute)
    also have "w + ?tk + min (capacity bs) (length p - (w + ?tk)) = w + min (capacity (b # bs)) (length p - w)"
      using 3 by (simp add: min_def) arith
    finally show ?thesis using 3 by simp
  qed
qed

lemma scatter_length: "length (fst (scatter m targets bs)) = length m"
proof -
  have "length (fst (scatter_loop m targets bs w)) = length m" for w
    by (induction m targets bs w rule: scatter_loop.induct) (auto simp: Let_def split_beta)
  then show ?thesis by (simp add: scatter_def split_beta)
qed

lemma fs_gather_fuel: "fs_gather m req cap targets bs \<noteq> Inl OutOfFuel"
  by (induction m req cap targets bs rule: fs_gather.induct) (auto split: option.splits)

interpretation fs_ring: ring_client "serve_chain process" for process
proof unfold_locales
  fix d m c
  show "length (snd (fst (serve_chain process d m c))) = length m"
    using scatter_length [of m] by (auto simp: serve_chain_def split: sum.splits prod.splits) (metis fst_conv)+
  show "snd (serve_chain process d m c) \<noteq> Inl OutOfFuel"
    using fs_gather_fuel by (auto simp: serve_chain_def scatter_def split: sum.splits prod.splits if_splits)
qed

text \<open>
  What \<open>serve\<close> relies on: a server keeps its own state well-formed, and what it replies fits the room it was
  told about. Then every reply reaches the guest whole, and the server is a well-behaved virtio device.
\<close>

locale fuse_server =
  fixes process :: "'s server" and inv :: "'s \<Rightarrow> bool"
  assumes process_keeps: "\<lbrakk>inv s; process s opcode nodeid body cap = (s', r)\<rbrakk> \<Longrightarrow> inv s'"
    and process_fits: "\<lbrakk>inv s; process s opcode nodeid body cap = (s', Inr (Some payload))\<rbrakk> \<Longrightarrow> length payload \<le> cap - OUT_HEADER_SIZE"
begin

lemma answer_keeps:
  assumes "inv s" "answer process s req cap = (s', unique, err, payload)"
  shows "inv s' \<and> length payload \<le> cap - OUT_HEADER_SIZE"
  using assms process_keeps [OF assms(1)] process_fits [OF assms(1)]
  by (auto simp: answer_def split: sum.splits prod.splits if_splits option.splits)

lemma serve_chain_keeps: "inv s \<Longrightarrow> serve_chain process s m c = ((s', m'), r) \<Longrightarrow> inv s'"
  using answer_keeps [of s]
  by (auto simp: serve_chain_def split: sum.splits prod.splits if_splits)

lemma reply_whole:
  assumes "inv s" "buffers_ok m (c_buffers c)" "OUT_HEADER_SIZE \<le> capacity (c_buffers c)"
    and "answer process s (request_of m (c_buffers c)) (capacity (c_buffers c)) = (s', unique, err, payload)"
  shows "serve_chain process s m c =
      ((s', place m (c_buffers c) (fuse_reply err unique payload)), Inr (word_of_nat (OUT_HEADER_SIZE + length payload)))
    \<and> take (OUT_HEADER_SIZE + length payload) (read_back (place m (c_buffers c) (fuse_reply err unique payload)) (c_buffers c))
      = fuse_reply err unique payload"
proof -
  have len: "length (fuse_reply err unique payload) = OUT_HEADER_SIZE + length payload" by (simp add: fuse_reply_def)
  have fit: "OUT_HEADER_SIZE + length payload \<le> capacity (c_buffers c)"
    using answer_keeps [OF assms(1,4)] assms(3) by linarith
  have "scatter m (targets_of (c_buffers c)) (fuse_reply err unique payload) =
      (place m (c_buffers c) (fuse_reply err unique payload), Inr (OUT_HEADER_SIZE + length payload))"
    using scatter_place [OF assms(2), of 0] fit len by (simp add: scatter_def min_def)
  then have "serve_chain process s m c =
      ((s', place m (c_buffers c) (fuse_reply err unique payload)), Inr (word_of_nat (OUT_HEADER_SIZE + length payload)))"
    using fs_gather_eq [OF assms(2), of "[]" 0 "[]"] assms(3,4) by (simp add: serve_chain_def)
  then show ?thesis
    using place_read_back [OF assms(2), of "fuse_reply err unique payload"] fit len by simp
qed

end

sublocale fuse_server \<subseteq> fs_device: virtio_device "fuse_ops process fuel tag" inv for fuel tag
proof unfold_locales
  fix d m q i d' q' m' r
  assume inv: "inv d" and ok: "queue_ok m q" and n: "op_notify (fuse_ops process fuel tag) d i q m = ((d', q', m'), r)"
  have dr: "drain fuel (\<lambda>_. True) (\<lambda>s. s) (serve_chain process) d q m [] = ((d', q', m'), r)"
    using n by (simp add: fuse_ops_def serve_def)
  have "inv d'"
    by (rule drain_invariant [where P = "\<lambda>s _. inv s", OF _ _ _ inv dr]) (auto intro: serve_chain_keeps)
  then show "inv d' \<and> length m' = length m \<and> queue_ok m' q'" using fs_ring.drain_keeps [OF ok dr] by simp
qed (auto simp: fuse_ops_def default_poll_def)

subsection \<open>Codecs\<close>

lemma length_write_attr [simp]: "length (write_attr a) = ATTR_SIZE"
  by (simp add: write_attr_def)

lemma r_cstring_roundtrip:
  assumes "NUL \<notin> set name" "from_utf8_ok name"
  shows "r_cstring (bytes_of name @ 0 # rest) = Inr (name, rest)"
proof -
  have "\<forall>b\<in>set (bytes_of name). b \<noteq> 0"
  proof
    fix b assume "b \<in> set (bytes_of name)"
    then obtain c where c: "c \<in> set name" "b = of_char c" by (auto simp: bytes_of_def)
    have "c \<noteq> NUL" using assms(1) c(1) by auto
    then have "(of_char c :: nat) \<noteq> of_char NUL" by simp
    moreover have "(of_char NUL :: nat) = 0" by (simp add: NUL_def)
    ultimately have "(of_char c :: nat) \<noteq> 0" by simp
    then show "b \<noteq> 0" using unat_of_char [of c] c(2) by auto
  qed
  then have "takeWhile (\<lambda>b. b \<noteq> 0) (bytes_of name @ 0 # rest) = bytes_of name"
    by (simp add: takeWhile_append2 takeWhile_append1)
  then show ?thesis using assms(2) by (simp add: r_cstring_def Let_def)
qed

end
