(* ===== verification/Image_Fs.thy ===== *)
theory Image_Fs
  imports Fuse "HOL-Library.Char_ord" "HOL-Library.List_Lexorder"
begin

unbundle bit_operations_syntax

text \<open>
  The boot images served read-only, \<open>engine/src/image_fs.rs\<close>: the reader of newc cpio archives, the tree
  their entries are merged into, and the virtio-fs server that answers from it. A \<open>BTreeMap\<close> is its
  entries in order. A file of the host is the bytes it holds, for reading the headers, and a function
  that says what a read at an offset returns, for serving it. Node ids are indices plus one.
\<close>

abbreviation VALIDITY :: u64 where "VALIDITY \<equiv> 31536000"

definition IMAGE_FLAGS :: u32 where
  "IMAGE_FLAGS = push_bit 13 1 OR push_bit 17 1 OR push_bit 18 1 OR push_bit 23 1 OR push_bit 24 1"

definition TAG :: string where "TAG = ''collabo-images''"

type_synonym io_error = "errno \<times> string"

datatype source = SFile "nat \<Rightarrow> nat \<Rightarrow> io_error + bytes" | SBytes bytes

datatype layer = LFile string "string + bytes \<times> (nat \<Rightarrow> nat \<Rightarrow> io_error + bytes)" | LBytes bytes

definition read_at :: "source \<Rightarrow> nat \<Rightarrow> nat \<Rightarrow> io_error + bytes" where
  "read_at src len offset =
     (case src of
        SBytes bs \<Rightarrow>
          (let start = min offset (length bs); count = min len (length bs - start) in Inr (bslice start count bs))
      | SFile host \<Rightarrow> (case host offset len of Inl e \<Rightarrow> Inl e | Inr bs \<Rightarrow> Inr (take len bs)))"

datatype content = Directory "(string \<times> nat) list" | FileAt nat nat | Symlink string | Special

record node =
  i_mode :: u32
  i_uid :: u32
  i_gid :: u32
  i_rdev :: u32
  i_mtime :: u64
  i_size :: u64
  i_nlink :: u32
  i_parent :: nat
  i_content :: content

definition dir_node :: "nat \<Rightarrow> u32 \<Rightarrow> u64 \<Rightarrow> node" where
  "dir_node parent mode mtime =
     \<lparr>i_mode = S_IFDIR OR (mode AND 0xFFF), i_uid = 0, i_gid = 0, i_rdev = 0, i_mtime = mtime, i_size = 0, i_nlink = 2,
      i_parent = parent, i_content = Directory []\<rparr>"

record cpio_entry =
  x_name :: string
  x_ino :: u32
  x_mode :: u32
  x_uid :: u32
  x_gid :: u32
  x_nlink :: u32
  x_mtime :: u64
  x_size :: u64
  x_dev :: u32
  x_rdev :: u32
  x_offset :: nat

record tree =
  t_sources :: "source list"
  t_nodes :: "node list"

subsection \<open>Reading an archive\<close>

definition header_field :: "bytes \<Rightarrow> nat \<Rightarrow> nat \<Rightarrow> string + u32" where
  "header_field header at index =
     (let field = string_of (bslice (6 + 8 * index) 8 header) in
      if \<not> from_utf8_ok field then Inl ''a bad header''
      else case parse_hex field of
          None \<Rightarrow> Inl (''a bad header field at '' @ decimal at)
        | Some v \<Rightarrow> Inr (word_of_nat v))"

fun header_fields :: "bytes \<Rightarrow> nat \<Rightarrow> nat list \<Rightarrow> string + u32 list" where
  "header_fields header at [] = Inr []"
| "header_fields header at (i # is) =
     (case header_field header at i of
        Inl e \<Rightarrow> Inl e
      | Inr v \<Rightarrow> (case header_fields header at is of Inl e \<Rightarrow> Inl e | Inr vs \<Rightarrow> Inr (v # vs)))"

definition align4 :: "nat \<Rightarrow> nat" where
  "align4 n = (n + 3) div 4 * 4"

definition read_entry :: "bytes \<Rightarrow> nat \<Rightarrow> string + cpio_entry \<times> nat" where
  "read_entry archive at =
     (let header = bslice at 110 archive in
      if length header < 110 then Inl (''a truncated header at '' @ decimal at)
      else if take 6 header \<noteq> bytes_of ''070701'' \<and> take 6 header \<noteq> bytes_of ''070702''
      then Inl (''not a newc cpio archive (at '' @ decimal at @ '')'')
      else case header_fields header at [0, 1, 2, 3, 4, 5, 6, 7, 8, 9, 10, 11] of
          Inl e \<Rightarrow> Inl e
        | Inr fs \<Rightarrow>
            let name_size = unat (fs ! 11); bs = bslice (at + 110) name_size archive in
            if length bs < name_size then Inl (''a truncated name at '' @ decimal at)
            else if \<not> from_utf8_ok (string_of bs) then Inl (''a name that is not UTF-8 at '' @ decimal at)
            else
              let name = trim_end_matches (\<lambda>c. c = NUL) (string_of bs);
                  data = align4 (at + 110 + name_size);
                  nxt = align4 (data + unat (fs ! 6))
              in Inr (\<lparr>x_name = name, x_ino = fs ! 0, x_mode = fs ! 1, x_uid = fs ! 2, x_gid = fs ! 3, x_nlink = fs ! 4,
                       x_mtime = ucast (fs ! 5), x_size = ucast (fs ! 6),
                       x_dev = push_bit 20 (fs ! 7) OR (fs ! 8 AND 0xfffff),
                       x_rdev = (fs ! 10 AND 0xff) OR push_bit 8 (fs ! 9) OR push_bit 12 (fs ! 10 AND NOT 0xff),
                       x_offset = data\<rparr>, nxt))"

lemma align4_ge: "n \<le> align4 n"
proof -
  have "(n + 3) mod 4 < 4" by simp
  then show ?thesis unfolding align4_def using div_mult_mod_eq [of "n + 3" 4] by linarith
qed

lemma read_entry_advances: "read_entry archive at = Inr (x, nxt) \<Longrightarrow> at < nxt \<and> at < length archive"
proof -
  assume r: "read_entry archive at = Inr (x, nxt)"
  then have "110 \<le> length (bslice at 110 archive)" by (simp add: read_entry_def Let_def split: if_splits)
  moreover from r obtain n k where "nxt = align4 (align4 (at + 110 + n) + k)"
    unfolding read_entry_def Let_def by (auto split: if_splits sum.splits)
  ultimately show ?thesis
    using align4_ge [of "at + 110 + n"] align4_ge [of "align4 (at + 110 + n) + k"] by simp
qed

function cpio_entries :: "bytes \<Rightarrow> nat \<Rightarrow> cpio_entry list \<Rightarrow> string + cpio_entry list" where
  "cpio_entries archive at found =
     (let at1 = at + length (takeWhile (\<lambda>b. b = 0) (drop at archive)) in
      if length archive \<le> at1 then Inr found
      else if at1 mod 4 \<noteq> 0 then Inl (''an entry at '' @ decimal at1 @ '', not on a 4-byte boundary'')
      else case read_entry archive at1 of
          Inl e \<Rightarrow> Inl e
        | Inr (x, nxt) \<Rightarrow>
            if x_name x = ''TRAILER!!!'' then cpio_entries archive nxt found
            else cpio_entries archive nxt (found @ [x]))"
  by pat_completeness auto
termination
  by (relation "measure (\<lambda>(archive, at, _). length archive - at)") (auto dest: read_entry_advances)

declare cpio_entries.simps [simp del]

subsection \<open>The tree\<close>

fun bt_insert :: "string \<Rightarrow> 'a \<Rightarrow> (string \<times> 'a) list \<Rightarrow> (string \<times> 'a) list" where
  "bt_insert k v [] = [(k, v)]"
| "bt_insert k v ((k1, v1) # rest) =
     (if k < k1 then (k, v) # (k1, v1) # rest else if k = k1 then (k, v) # rest else (k1, v1) # bt_insert k v rest)"

definition tree_node :: "tree \<Rightarrow> nat \<Rightarrow> errno + node" where
  "tree_node t ident = (if 1 \<le> ident \<and> ident - 1 < length (t_nodes t) then Inr (t_nodes t ! (ident - 1)) else Inl ENOENT)"

definition tree_children :: "tree \<Rightarrow> nat \<Rightarrow> errno + (string \<times> nat) list" where
  "tree_children t ident =
     (case tree_node t ident of
        Inl e \<Rightarrow> Inl e
      | Inr n \<Rightarrow> (case i_content n of Directory children \<Rightarrow> Inr children | _ \<Rightarrow> Inl ENOTDIR))"

definition kids :: "tree \<Rightarrow> nat \<Rightarrow> (string \<times> nat) list" where
  "kids t ident = (case i_content (t_nodes t ! (ident - 1)) of Directory children \<Rightarrow> children | _ \<Rightarrow> [])"

definition set_node :: "nat \<Rightarrow> (node \<Rightarrow> node) \<Rightarrow> tree \<Rightarrow> tree" where
  "set_node ident f t = t\<lparr>t_nodes := (t_nodes t)[ident - 1 := f (t_nodes t ! (ident - 1))]\<rparr>"

definition insert_child :: "nat \<Rightarrow> string \<Rightarrow> nat \<Rightarrow> tree \<Rightarrow> tree" where
  "insert_child ident name child t = set_node ident (i_content_update (\<lambda>_. Directory (bt_insert name child (kids t ident)))) t"

definition tree_push :: "node \<Rightarrow> tree \<Rightarrow> tree \<times> nat" where
  "tree_push n t = (t\<lparr>t_nodes := t_nodes t @ [n]\<rparr>, length (t_nodes t) + 1)"

definition kind_of :: "tree \<Rightarrow> nat \<Rightarrow> u32" where
  "kind_of t ident = i_mode (t_nodes t ! (ident - 1)) AND S_IFMT"

fun directory_at :: "string list \<Rightarrow> u64 \<Rightarrow> nat \<Rightarrow> tree \<Rightarrow> tree \<times> nat option" where
  "directory_at [] mtime ident t = (t, Some ident)"
| "directory_at (name # path) mtime ident t =
     (case map_of (kids t ident) name of
        Some child \<Rightarrow> if kind_of t child = S_IFDIR then directory_at path mtime child t else (t, None)
      | None \<Rightarrow>
          (case tree_push (dir_node ident 0x1ED mtime) t of
             (t1, child) \<Rightarrow> directory_at path mtime child (insert_child ident name child t1)))"

definition clean_path :: "string \<Rightarrow> string list option" where
  "clean_path name =
     (let parts = split_on CHR ''/'' name in
      if ''..'' \<in> set parts then None else Some (filter (\<lambda>part. part \<noteq> [] \<and> part \<noteq> ''.'') parts))"

type_synonym links = "(u32 \<times> u32) \<rightharpoonup> nat"

definition entry_content :: "tree \<Rightarrow> nat \<Rightarrow> cpio_entry \<Rightarrow> string + content option" where
  "entry_content t src x =
     (let kind = x_mode x AND S_IFMT in
      if kind = S_IFREG then Inr (Some (FileAt src (x_offset x)))
      else if kind = S_IFLNK then
        (case read_at (t_sources t ! src) (unat (x_size x)) (x_offset x) of
           Inl e \<Rightarrow> Inl (snd e)
         | Inr bs \<Rightarrow>
             if from_utf8_ok (string_of bs) then Inr (Some (Symlink (trim_end_matches (\<lambda>c. c = NUL) (string_of bs))))
             else Inl (x_name x @ '': a symlink target that is not UTF-8''))
      else if kind \<in> {0x1000, 0x2000, 0x6000, 0xC000} then Inr (Some Special)
      else Inr None)"

definition add_directory :: "nat \<Rightarrow> string \<Rightarrow> cpio_entry \<Rightarrow> tree \<Rightarrow> tree" where
  "add_directory parent name x t =
     (case map_of (kids t parent) name of
        Some ident \<Rightarrow>
          if kind_of t ident = S_IFDIR
          then set_node ident (\<lambda>n. n\<lparr>i_mode := x_mode x, i_uid := x_uid x, i_gid := x_gid x, i_mtime := x_mtime x\<rparr>) t
          else (case tree_push ((dir_node parent (x_mode x) (x_mtime x))\<lparr>i_uid := x_uid x, i_gid := x_gid x\<rparr>) t of
              (t1, ident1) \<Rightarrow> insert_child parent name ident1 t1)
      | None \<Rightarrow>
          (case tree_push ((dir_node parent (x_mode x) (x_mtime x))\<lparr>i_uid := x_uid x, i_gid := x_gid x\<rparr>) t of
             (t1, ident) \<Rightarrow> insert_child parent name ident t1))"

definition stays :: "tree \<Rightarrow> nat option \<Rightarrow> u32 \<Rightarrow> bool" where
  "stays t existing kind =
     (case existing of
        None \<Rightarrow> False
      | Some ident \<Rightarrow> kind_of t ident = S_IFDIR \<and> kids t ident \<noteq> [] \<or> kind_of t ident = kind \<and> kind \<noteq> S_IFREG)"

definition add_content :: "nat \<Rightarrow> nat \<Rightarrow> string \<Rightarrow> cpio_entry \<Rightarrow> content \<Rightarrow> tree \<times> links \<Rightarrow> tree \<times> links" where
  "add_content src parent name x content s =
     (case s of (t, links) \<Rightarrow>
        let kind = x_mode x AND S_IFMT; linked = kind = S_IFREG \<and> x_nlink x > 1; key = (x_ino x, x_dev x) in
        case (if linked then links key else None) of
          Some ident \<Rightarrow>
            (insert_child parent name ident
               (if x_size x > 0
                then set_node ident (\<lambda>n. n\<lparr>i_size := x_size x, i_content := FileAt src (x_offset x)\<rparr>) t else t), links)
        | None \<Rightarrow>
            (case tree_push \<lparr>i_mode = x_mode x, i_uid = x_uid x, i_gid = x_gid x,
                 i_rdev = (if content = Special then x_rdev x else 0), i_mtime = x_mtime x,
                 i_size = (if kind = S_IFREG \<or> kind = S_IFLNK then x_size x else 0), i_nlink = 1,
                 i_parent = parent, i_content = content\<rparr> t of
               (t1, ident) \<Rightarrow>
                 (insert_child parent name ident t1, if linked then links(key \<mapsto> ident) else links)))"

definition add_entry :: "nat \<Rightarrow> cpio_entry \<Rightarrow> tree \<times> links \<Rightarrow> string + tree \<times> links" where
  "add_entry src x s =
     (case s of (t, links) \<Rightarrow>
        case clean_path (x_name x) of
          None \<Rightarrow> Inl (x_name x @ '': a name with ..'')
        | Some path \<Rightarrow>
            let kind = x_mode x AND S_IFMT in
            if path = [] then
              Inr (if kind = S_IFDIR then set_node 1 (\<lambda>n. n\<lparr>i_mode := S_IFDIR OR (x_mode x AND 0xFFF)\<rparr>) t else t, links)
            else case directory_at (butlast path) (x_mtime x) 1 t of
                (t1, None) \<Rightarrow> Inr (t1, links)
              | (t1, Some parent) \<Rightarrow>
                  if kind = S_IFDIR then Inr (add_directory parent (last path) x t1, links)
                  else if stays t1 (map_of (kids t1 parent) (last path)) kind then Inr (t1, links)
                  else case entry_content t1 src x of
                      Inl e \<Rightarrow> Inl e
                    | Inr None \<Rightarrow> Inr (t1, links)
                    | Inr (Some content) \<Rightarrow> Inr (add_content src parent (last path) x content (t1, links)))"

fun add_entries :: "nat \<Rightarrow> cpio_entry list \<Rightarrow> tree \<times> links \<Rightarrow> string + tree \<times> links" where
  "add_entries src [] s = Inr s"
| "add_entries src (x # xs) s = (case add_entry src x s of Inl e \<Rightarrow> Inl e | Inr s1 \<Rightarrow> add_entries src xs s1)"

definition tree_add :: "nat \<Rightarrow> cpio_entry list \<Rightarrow> tree \<Rightarrow> string + tree" where
  "tree_add src xs t = (case add_entries src xs (t, \<lambda>_. None) of Inl e \<Rightarrow> Inl e | Inr (t1, _) \<Rightarrow> Inr t1)"

definition times_named :: "tree \<Rightarrow> nat \<Rightarrow> nat" where
  "times_named t ident =
     length (filter (\<lambda>i. i = ident)
       (concat (map (\<lambda>n. case i_content n of Directory children \<Rightarrow> map snd children | _ \<Rightarrow> []) (t_nodes t))))"

definition subdirectories :: "tree \<Rightarrow> nat \<Rightarrow> nat" where
  "subdirectories t ident =
     length (filter (\<lambda>n. i_mode n AND S_IFMT = S_IFDIR \<and> i_parent n = ident) (tl (t_nodes t)))"

definition count_links :: "tree \<Rightarrow> tree" where
  "count_links t =
     t\<lparr>t_nodes := map (\<lambda>i. (t_nodes t ! i)\<lparr>i_nlink :=
         (if kind_of t (i + 1) = S_IFDIR then word_of_nat (2 + subdirectories t (i + 1))
          else word_of_nat (max (times_named t (i + 1)) 1))\<rparr>) [0..<length (t_nodes t)]\<rparr>"

fun add_layers :: "layer list \<Rightarrow> tree \<Rightarrow> string + (string + tree)" where
  "add_layers [] t = Inr (Inr t)"
| "add_layers (l # ls) t =
     (case (case l of
          LFile path opened \<Rightarrow> (case opened of
              Inl e \<Rightarrow> Inl (''reading '' @ path @ '': '' @ e)
            | Inr (bs, host) \<Rightarrow> Inr (SFile host, bs, path))
        | LBytes bs \<Rightarrow> Inr (SBytes bs, bs, ''the engine's settings'')) of
        Inl e \<Rightarrow> Inl e
      | Inr (src, bs, label) \<Rightarrow>
          (case cpio_entries bs 0 [] of
             Inl why \<Rightarrow> Inr (Inl (label @ '': '' @ why))
           | Inr xs \<Rightarrow>
               (case tree_add (length (t_sources t)) xs (t\<lparr>t_sources := t_sources t @ [src]\<rparr>) of
                  Inl why \<Rightarrow> Inr (Inl (label @ '': '' @ why))
                | Inr t1 \<Rightarrow> add_layers ls t1)))"

fun check_top :: "tree \<Rightarrow> (string \<times> nat) list \<Rightarrow> string + unit" where
  "check_top t [] = Inr ()"
| "check_top t ((name, ident) # rest) =
     (if kind_of t ident \<noteq> S_IFDIR then Inl (''/'' @ name @ '' is not a directory'')
      else if name = ''run'' then Inl ''it has a /run''
      else check_top t rest)"

definition tree_new :: tree where
  "tree_new = \<lparr>t_sources = [], t_nodes = [dir_node 1 0x1ED 0]\<rparr>"

definition tree_build :: "layer list \<Rightarrow> string + (string + tree)" where
  "tree_build layers =
     (case add_layers layers tree_new of
        Inl e \<Rightarrow> Inl e
      | Inr (Inl why) \<Rightarrow> Inr (Inl why)
      | Inr (Inr t) \<Rightarrow> (case check_top t (kids t 1) of Inl why \<Rightarrow> Inr (Inl why) | Inr _ \<Rightarrow> Inr (Inr (count_links t))))"

subsection \<open>The server\<close>

definition image_attributes :: "tree \<Rightarrow> nat \<Rightarrow> errno + attributes" where
  "image_attributes t ident =
     (case tree_node t ident of
        Inl e \<Rightarrow> Inl e
      | Inr n \<Rightarrow> Inr \<lparr>a_ino = word_of_nat ident, a_size = i_size n, a_mode = i_mode n, a_nlink = i_nlink n, a_uid = i_uid n,
          a_gid = i_gid n, a_rdev = i_rdev n, a_atime = (i_mtime n, 0), a_mtime = (i_mtime n, 0), a_ctime = (i_mtime n, 0)\<rparr>)"

definition image_entry :: "tree \<Rightarrow> nat \<Rightarrow> errno + bytes" where
  "image_entry t ident =
     (case image_attributes t ident of
        Inl e \<Rightarrow> Inl e
      | Inr a \<Rightarrow> Inr (u64_le (word_of_nat ident) @ u64_le 1 @ u64_le VALIDITY @ u64_le VALIDITY @ u32_le 0 @ u32_le 0 @ write_attr a))"

function read_loop :: "source \<Rightarrow> nat \<Rightarrow> nat \<Rightarrow> bytes \<Rightarrow> io_error + bytes" where
  "read_loop src at want buf =
     (if length buf < want then
        (case read_at src (want - length buf) (at + length buf) of
           Inl e \<Rightarrow> Inl e
         | Inr bs \<Rightarrow> if bs = [] then Inr buf else read_loop src at want (buf @ bs))
      else Inr buf)"
  by pat_completeness auto
termination by (relation "measure (\<lambda>(_, _, want, buf). want - length buf)") (auto simp flip: length_greater_0_conv)

declare read_loop.simps [simp del]

definition image_listing :: "tree \<Rightarrow> nat \<Rightarrow> errno + (string \<times> nat) list" where
  "image_listing t ident =
     (case tree_node t ident of
        Inl e \<Rightarrow> Inl e
      | Inr n \<Rightarrow>
          (case tree_children t ident of
             Inl e \<Rightarrow> Inl e
           | Inr children \<Rightarrow> Inr ((''.'', ident) # (''..'', i_parent n) # children)))"

fun image_dirents :: "tree \<Rightarrow> bool \<Rightarrow> nat \<Rightarrow> nat \<Rightarrow> (string \<times> nat) list \<Rightarrow> bytes \<Rightarrow> errno + bytes" where
  "image_dirents t full limit index [] out = Inr out"
| "image_dirents t full limit index ((name, ident) # rest) out =
     (let len = ((if full then ENTRY_OUT_SIZE else 0) + 24 + length name + 7) div 8 * 8 in
      if length out + len > limit then Inr out
      else
        case (if \<not> full then Inr [] else if index \<le> 1 then Inr (replicate ENTRY_OUT_SIZE 0) else image_entry t ident) of
          Inl e \<Rightarrow> Inl e
        | Inr entry \<Rightarrow>
            (case tree_node t ident of
               Inl e \<Rightarrow> Inl e
             | Inr n \<Rightarrow>
                 image_dirents t full limit (index + 1) rest
                   (write_dirent (word_of_nat ident) index name (i_mode n) (out @ entry))))"

definition image_lookup :: "tree \<Rightarrow> u64 \<Rightarrow> bytes \<Rightarrow> errno + bytes" where
  "image_lookup t nodeid body =
     (case r_cstring body of
        Inl e \<Rightarrow> Inl e
      | Inr (name, _) \<Rightarrow>
          (case tree_children t (unat nodeid) of
             Inl e \<Rightarrow> Inl e
           | Inr children \<Rightarrow>
               (case map_of children name of
                  Some ident \<Rightarrow> image_entry t ident
                | None \<Rightarrow> Inr (u64_le 0 @ u64_le 0 @ u64_le VALIDITY @ u64_le 0 @ u32_le 0 @ u32_le 0 @ replicate ATTR_SIZE 0))))"

definition image_read :: "tree \<Rightarrow> u64 \<Rightarrow> nat \<Rightarrow> bytes \<Rightarrow> errno + bytes" where
  "image_read t nodeid room body =
     (case r_then (r_skip 8) (\<lambda>_. r_then r_u64 (\<lambda>offset. r_then r_u32 (\<lambda>sz. r_give (offset, sz)))) body of
        Inl e \<Rightarrow> Inl e
      | Inr ((offset, sz), _) \<Rightarrow>
          (case tree_node t (unat nodeid) of
             Inl e \<Rightarrow> Inl e
           | Inr n \<Rightarrow>
               (case i_content n of
                  FileAt src start \<Rightarrow>
                    let want = min (min (unat sz) room) (unat (i_size n) - unat offset) in
                    (case read_loop (t_sources t ! src) (start + unat offset) want [] of
                       Inl e \<Rightarrow> Inl (fst e) | Inr bs \<Rightarrow> Inr bs)
                | _ \<Rightarrow> Inl EBADF)))"

definition image_readdir :: "tree \<Rightarrow> bool \<Rightarrow> u64 \<Rightarrow> nat \<Rightarrow> bytes \<Rightarrow> errno + bytes" where
  "image_readdir t full nodeid room body =
     (case r_then (r_skip 8) (\<lambda>_. r_then r_u64 (\<lambda>offset. r_then r_u32 (\<lambda>sz. r_give (offset, sz)))) body of
        Inl e \<Rightarrow> Inl e
      | Inr ((offset, sz), _) \<Rightarrow>
          (case image_listing t (unat nodeid) of
             Inl e \<Rightarrow> Inl e
           | Inr listing \<Rightarrow>
               image_dirents t full (min (unat sz) room) (unat offset) (drop (unat offset) listing) []))"

definition image_statfs :: "tree \<Rightarrow> bytes" where
  "image_statfs t =
     (let total_size = sum_list (map i_size (t_nodes t)) in
      u64_le (word_of_nat ((unat total_size + 4095) div 4096)) @ u64_le 0 @ u64_le 0 @
      u64_le (word_of_nat (length (t_nodes t))) @ u64_le 0 @ u32_le 4096 @ u32_le 255 @ u32_le 4096 @ u32_le 0 @ replicate 24 0)"

definition image_reply :: "tree \<Rightarrow> u32 \<Rightarrow> u64 \<Rightarrow> bytes \<Rightarrow> nat \<Rightarrow> errno + bytes option" where
  "image_reply t opcode nodeid body room =
     (if opcode = OP_INIT then map_sum id (Some \<circ> fst) (fuse_init IMAGE_FLAGS body)
      else if opcode = OP_LOOKUP then map_sum id Some (image_lookup t nodeid body)
      else if opcode = OP_FORGET \<or> opcode = OP_BATCH_FORGET \<or> opcode = OP_INTERRUPT then Inr None
      else if opcode = OP_GETATTR then
        map_sum id (\<lambda>a. Some (u64_le VALIDITY @ u32_le 0 @ u32_le 0 @ write_attr a)) (image_attributes t (unat nodeid))
      else if opcode = OP_READLINK then
        (case tree_node t (unat nodeid) of
           Inl e \<Rightarrow> Inl e
         | Inr n \<Rightarrow> (case i_content n of Symlink dest \<Rightarrow> Inr (Some (bytes_of dest)) | _ \<Rightarrow> Inl EINVAL))
      else if opcode \<in> {OP_OPEN, OP_OPENDIR, OP_FLUSH, OP_FSYNC, OP_FSYNCDIR, OP_ACCESS} then Inl ENOSYS
      else if opcode = OP_READ then map_sum id Some (image_read t nodeid room body)
      else if opcode = OP_RELEASE \<or> opcode = OP_RELEASEDIR then Inr (Some [])
      else if opcode = OP_READDIR \<or> opcode = OP_READDIRPLUS then
        map_sum id Some (image_readdir t (opcode = OP_READDIRPLUS) nodeid room body)
      else if opcode = OP_STATFS then Inr (Some (image_statfs t))
      else if opcode \<in> {OP_SETATTR, OP_SYMLINK, OP_MKDIR, OP_UNLINK, OP_RMDIR, OP_RENAME, OP_CREATE, OP_WRITE} then Inl EROFS
      else if opcode = OP_DESTROY then Inr (Some [])
      else Inl ENOSYS)"

definition image_process :: "tree server" where
  "image_process t opcode nodeid body cap =
     (let room = cap - OUT_HEADER_SIZE in
      (t, case image_reply t opcode nodeid body room of
            Inl e \<Rightarrow> Inl e
          | Inr None \<Rightarrow> Inr None
          | Inr (Some out) \<Rightarrow> if length out > room then Inl EIO else Inr (Some out)))"

text \<open>
  \<open>arrange\<close>: the initramfs to unpack and, when the layers over it can be served, the tree to serve them from;
  otherwise everything is unpacked one after another. The environment variable is an argument.
\<close>

fun append_layers :: "layer list \<Rightarrow> bytes \<Rightarrow> string + bytes" where
  "append_layers [] bs = Inr bs"
| "append_layers (LFile path (Inl e) # ls) bs = Inl (''reading '' @ path @ '': '' @ e)"
| "append_layers (LFile path (Inr (data, _)) # ls) bs = append_layers ls (bs @ data)"
| "append_layers (LBytes data # ls) bs = append_layers ls (bs @ data)"

definition arrange :: "bool \<Rightarrow> bytes \<Rightarrow> layer list \<Rightarrow> string + bytes \<times> tree option" where
  "arrange wanted initramfs layers =
     (if layers = [] then Inr (initramfs, None)
      else case (if wanted then tree_build layers else Inr (Inl [])) of
          Inl e \<Rightarrow> Inl e
        | Inr (Inr t) \<Rightarrow> Inr (initramfs, Some t)
        | Inr (Inl _) \<Rightarrow> (case append_layers layers initramfs of Inl e \<Rightarrow> Inl e | Inr bs \<Rightarrow> Inr (bs, None)))"

subsection \<open>The tree is well-formed\<close>

definition valid_id :: "tree \<Rightarrow> nat \<Rightarrow> bool" where
  "valid_id t ident \<longleftrightarrow> 1 \<le> ident \<and> ident \<le> length (t_nodes t)"

definition node_ok :: "tree \<Rightarrow> node \<Rightarrow> bool" where
  "node_ok t n \<longleftrightarrow> (i_mode n AND S_IFMT = S_IFDIR \<longleftrightarrow> (\<exists>children. i_content n = Directory children)) \<and>
     valid_id t (i_parent n) \<and>
     (case i_content n of
        Directory children \<Rightarrow> sorted_wrt (<) (map fst children) \<and> list_all (valid_id t \<circ> snd) children
      | FileAt src start \<Rightarrow> src < length (t_sources t)
      | _ \<Rightarrow> True)"

definition tree_ok :: "tree \<Rightarrow> bool" where
  "tree_ok t \<longleftrightarrow> t_nodes t \<noteq> [] \<and> kind_of t 1 = S_IFDIR \<and> list_all (node_ok t) (t_nodes t)"

lemma bt_insert_map: "map_of (bt_insert k v xs) = (map_of xs)(k \<mapsto> v)"
  by (induction k v xs rule: bt_insert.induct) auto

lemma bt_insert_keys: "set (map fst (bt_insert k v xs)) = insert k (set (map fst xs))"
  by (induction k v xs rule: bt_insert.induct) auto

lemma bt_insert_sorted: "sorted_wrt (<) (map fst xs) \<Longrightarrow> sorted_wrt (<) (map fst (bt_insert k v xs))"
proof (induction k v xs rule: bt_insert.induct)
  case (2 k v k1 v1 rest)
  have "set (map fst (bt_insert k v rest)) = insert k (set (map fst rest))" by (rule bt_insert_keys)
  then show ?case using 2 by (auto simp: not_less)
qed simp

lemma bt_insert_all: "list_all (P \<circ> snd) xs \<Longrightarrow> P v \<Longrightarrow> list_all (P \<circ> snd) (bt_insert k v xs)"
  by (induction k v xs rule: bt_insert.induct) auto

interpretation image_server: fuse_server image_process tree_ok
  by unfold_locales (auto simp: image_process_def Let_def split: sum.splits option.splits if_splits)

definition extends :: "tree \<Rightarrow> tree \<Rightarrow> bool" where
  "extends t t' \<longleftrightarrow> length (t_nodes t) \<le> length (t_nodes t') \<and> t_sources t' = t_sources t \<and>
     (\<forall>ident. valid_id t ident \<longrightarrow> kind_of t' ident = kind_of t ident)"

lemma extends_refl [simp]: "extends t t"
  by (simp add: extends_def)

lemma extends_trans: "extends a b \<Longrightarrow> extends b c \<Longrightarrow> extends a c"
  by (auto simp: extends_def valid_id_def)

lemma extends_valid: "extends t t' \<Longrightarrow> valid_id t ident \<Longrightarrow> valid_id t' ident"
  by (auto simp: extends_def valid_id_def)

lemma node_ok_mono:
  "\<lbrakk>node_ok t n; length (t_nodes t) \<le> length (t_nodes t'); length (t_sources t) \<le> length (t_sources t')\<rbrakk> \<Longrightarrow> node_ok t' n"
  by (auto simp: node_ok_def valid_id_def list_all_iff split: content.splits)

lemma node_ok_same: "\<lbrakk>length (t_nodes t') = length (t_nodes t); t_sources t' = t_sources t\<rbrakk> \<Longrightarrow> node_ok t' = node_ok t"
proof -
  assume *: "length (t_nodes t') = length (t_nodes t)" "t_sources t' = t_sources t"
  then have "valid_id t' = valid_id t" by (auto simp: valid_id_def fun_eq_iff)
  then show ?thesis using * by (intro ext) (simp add: node_ok_def split: content.splits)
qed

lemma tree_ok_node: "tree_ok t \<Longrightarrow> valid_id t ident \<Longrightarrow> node_ok t (t_nodes t ! (ident - 1))"
  by (auto simp: tree_ok_def valid_id_def list_all_length)

lemma root_valid: "tree_ok t \<Longrightarrow> valid_id t 1"
  by (cases "t_nodes t") (auto simp: tree_ok_def valid_id_def)

lemma set_node_fields [simp]:
  "length (t_nodes (set_node ident f t)) = length (t_nodes t)" "t_sources (set_node ident f t) = t_sources t"
  "valid_id (set_node ident f t) = valid_id t"
  by (auto simp: set_node_def valid_id_def fun_eq_iff)

lemma set_node_nth:
  "valid_id t ident \<Longrightarrow> valid_id t i \<Longrightarrow>
   t_nodes (set_node ident f t) ! (i - 1) = (if i = ident then f (t_nodes t ! (ident - 1)) else t_nodes t ! (i - 1))"
  by (auto simp: set_node_def valid_id_def nth_list_update)

lemma set_node_ok:
  assumes "tree_ok t" "valid_id t ident"
    and "node_ok t (f (t_nodes t ! (ident - 1)))"
    and "i_mode (f (t_nodes t ! (ident - 1))) AND S_IFMT = kind_of t ident"
  shows "tree_ok (set_node ident f t) \<and> extends t (set_node ident f t)"
proof -
  have same: "node_ok (set_node ident f t) = node_ok t" by (rule node_ok_same) simp_all
  have kind: "kind_of (set_node ident f t) i = kind_of t i" if "valid_id t i" for i
    using assms(2,4) that set_node_nth [of t ident i f] by (auto simp: kind_of_def)
  have "list_all (node_ok t) (t_nodes (set_node ident f t))"
    using assms(1,2,3) unfolding tree_ok_def set_node_def
    by (auto simp: list_all_iff dest!: subsetD [OF set_update_subset_insert])
  then show ?thesis
    using assms(1) kind root_valid [OF assms(1)] same
    by (auto simp: tree_ok_def extends_def simp flip: length_greater_0_conv)
qed

definition pushed :: "node \<Rightarrow> tree \<Rightarrow> tree" where
  "pushed n t = t\<lparr>t_nodes := t_nodes t @ [n]\<rparr>"

lemma tree_push_eq [simp]: "tree_push n t = (pushed n t, length (t_nodes t) + 1)"
  by (simp add: tree_push_def pushed_def)

lemma push_ok:
  assumes "tree_ok t" "node_ok t n"
  shows "tree_ok (pushed n t)" "extends t (pushed n t)" "valid_id (pushed n t) (length (t_nodes t) + 1)"
    "kind_of (pushed n t) (length (t_nodes t) + 1) = i_mode n AND S_IFMT"
proof -
  have mono: "node_ok (pushed n t) x" if "node_ok t x" for x
    using that by (rule node_ok_mono) (simp_all add: pushed_def)
  have kind: "kind_of (pushed n t) i = kind_of t i" if "valid_id t i" for i
    using that by (auto simp: kind_of_def valid_id_def nth_append pushed_def)
  have "list_all (node_ok (pushed n t)) (t_nodes (pushed n t))"
    using assms mono by (auto simp: tree_ok_def list_all_iff pushed_def)
  then show "tree_ok (pushed n t)"
    using assms(1) kind [OF root_valid [OF assms(1)]] by (auto simp: tree_ok_def pushed_def)
  show "extends t (pushed n t)" using kind by (simp add: extends_def pushed_def)
  show "valid_id (pushed n t) (length (t_nodes t) + 1)" by (simp add: valid_id_def pushed_def)
  show "kind_of (pushed n t) (length (t_nodes t) + 1) = i_mode n AND S_IFMT" by (simp add: kind_of_def pushed_def)
qed

lemma kids_ok:
  assumes "tree_ok t" "valid_id t ident"
  shows "sorted_wrt (<) (map fst (kids t ident)) \<and> list_all (valid_id t \<circ> snd) (kids t ident)"
  using tree_ok_node [OF assms] by (auto simp: kids_def node_ok_def split: content.splits)

lemma kid_valid: "\<lbrakk>tree_ok t; valid_id t ident; map_of (kids t ident) name = Some child\<rbrakk> \<Longrightarrow> valid_id t child"
  using kids_ok [of t ident] by (auto simp: list_all_iff dest!: map_of_SomeD)

lemma insert_child_ok:
  assumes "tree_ok t" "valid_id t ident" "kind_of t ident = S_IFDIR" "valid_id t child"
  shows "tree_ok (insert_child ident name child t) \<and> extends t (insert_child ident name child t)"
  unfolding insert_child_def
proof (rule set_node_ok [OF assms(1,2)])
  let ?n = "t_nodes t ! (ident - 1)"
  have "node_ok t ?n" by (rule tree_ok_node [OF assms(1,2)])
  moreover have "i_mode ?n AND S_IFMT = S_IFDIR" using assms(3) by (simp add: kind_of_def)
  ultimately show "node_ok t (?n\<lparr>i_content := Directory (bt_insert name child (kids t ident))\<rparr>)"
    using kids_ok [OF assms(1,2)] assms(4) by (simp add: node_ok_def bt_insert_sorted bt_insert_all del: o_apply)
qed (simp add: kind_of_def)

lemma dir_mode: "(S_IFDIR OR (mode AND 0xFFF)) AND S_IFMT = S_IFDIR"
  by (simp add: bit.conj_disj_distrib2 and.assoc)

lemma dir_node_ok:
  "valid_id t parent \<Longrightarrow> node_ok t (dir_node parent mode mtime)"
  "valid_id t parent \<Longrightarrow> node_ok t ((dir_node parent mode mtime)\<lparr>i_uid := u, i_gid := g\<rparr>)"
  "i_mode (dir_node parent mode mtime) AND S_IFMT = S_IFDIR"
  by (simp_all add: node_ok_def dir_node_def dir_mode)

lemma add_child_ok:
  assumes "tree_ok t" "valid_id t parent" "kind_of t parent = S_IFDIR" "node_ok t n"
    and t1: "t1 = insert_child parent name (length (t_nodes t) + 1) (pushed n t)"
  shows "tree_ok t1" "extends t t1" "valid_id t1 (length (t_nodes t) + 1)"
    "kind_of t1 (length (t_nodes t) + 1) = i_mode n AND S_IFMT"
proof -
  note p = push_ok [OF assms(1,4)]
  have "kind_of (pushed n t) parent = S_IFDIR" using p(2) assms(2,3) by (simp add: extends_def)
  then have ok: "tree_ok t1" "extends (pushed n t) t1"
    using insert_child_ok [OF p(1) extends_valid [OF p(2) assms(2)] _ p(3)] t1 by blast+
  then show "tree_ok t1" "extends t t1" "valid_id t1 (length (t_nodes t) + 1)"
    using extends_trans [OF p(2)] extends_valid [OF ok(2) p(3)] by blast+
  show "kind_of t1 (length (t_nodes t) + 1) = i_mode n AND S_IFMT"
    using ok(2) p(3,4) by (simp add: extends_def)
qed

lemma directory_at_ok:
  "\<lbrakk>directory_at path mtime ident t = (t', r); tree_ok t; valid_id t ident; kind_of t ident = S_IFDIR\<rbrakk> \<Longrightarrow>
   tree_ok t' \<and> extends t t' \<and> (\<forall>i. r = Some i \<longrightarrow> valid_id t' i \<and> kind_of t' i = S_IFDIR)"
proof (induction path mtime ident t rule: directory_at.induct)
  case (1 mtime ident t)
  then show ?case by auto
next
  case (2 name path mtime ident t)
  show ?case
  proof (cases "map_of (kids t ident) name")
    case (Some child)
    then show ?thesis
      using 2 kid_valid [of t ident name child] by (auto split: if_splits)
  next
    case None
    let ?n = "dir_node ident 0x1ED mtime" and ?i = "length (t_nodes t) + 1"
    let ?t = "insert_child ident name ?i (pushed ?n t)"
    note new = add_child_ok [where name = name and n = ?n, OF "2.prems"(2-4) dir_node_ok(1) [OF "2.prems"(3)] refl]
    have "directory_at path mtime ?i ?t = (t', r)"
      using "2.prems"(1) None by simp
    then have "tree_ok t' \<and> extends ?t t' \<and> (\<forall>i. r = Some i \<longrightarrow> valid_id t' i \<and> kind_of t' i = S_IFDIR)"
      using "2.IH"(1) [OF None tree_push_eq [symmetric]] new by (simp add: dir_node_ok(3))
    then show ?thesis using extends_trans [OF new(2)] by blast
  qed
qed

lemma add_directory_ok:
  assumes "tree_ok t" "valid_id t parent" "kind_of t parent = S_IFDIR" "x_mode x AND S_IFMT = S_IFDIR"
  shows "tree_ok (add_directory parent name x t) \<and> extends t (add_directory parent name x t)"
proof -
  let ?n = "(dir_node parent (x_mode x) (x_mtime x))\<lparr>i_uid := x_uid x, i_gid := x_gid x\<rparr>"
  let ?t = "insert_child parent name (length (t_nodes t) + 1) (pushed ?n t)"
  have new: "tree_ok ?t \<and> extends t ?t"
    using add_child_ok(1,2) [OF assms(1-3) dir_node_ok(2) [OF assms(2)] refl] by blast
  show ?thesis
  proof (cases "\<exists>i. map_of (kids t parent) name = Some i \<and> kind_of t i = S_IFDIR")
    case True
    then obtain i where i: "map_of (kids t parent) name = Some i" "kind_of t i = S_IFDIR" by blast
    have v: "valid_id t i" by (rule kid_valid [OF assms(1,2) i(1)])
    have "node_ok t ((t_nodes t ! (i - 1))\<lparr>i_mode := x_mode x, i_uid := x_uid x, i_gid := x_gid x, i_mtime := x_mtime x\<rparr>)"
      using tree_ok_node [OF assms(1) v] i(2) assms(4) by (simp add: node_ok_def kind_of_def)
    then show ?thesis
      using i assms(4) set_node_ok [OF assms(1) v, of "\<lambda>n. n\<lparr>i_mode := x_mode x, i_uid := x_uid x, i_gid := x_gid x, i_mtime := x_mtime x\<rparr>"]
      by (simp add: add_directory_def)
  next
    case False
    then show ?thesis using new by (auto simp: add_directory_def split: option.splits)
  qed
qed

definition links_ok :: "tree \<Rightarrow> links \<Rightarrow> bool" where
  "links_ok t links \<longleftrightarrow> (\<forall>key ident. links key = Some ident \<longrightarrow> valid_id t ident \<and> kind_of t ident = S_IFREG)"

lemma links_ok_extends: "links_ok t links \<Longrightarrow> extends t t' \<Longrightarrow> links_ok t' links"
  unfolding links_ok_def using extends_valid by (metis extends_def)

lemma add_content_ok:
  assumes "tree_ok t" "valid_id t parent" "kind_of t parent = S_IFDIR" "links_ok t links" "src < length (t_sources t)"
    and kind: "x_mode x AND S_IFMT \<noteq> S_IFDIR"
    and content: "\<nexists>children. content = Directory children" "\<And>s st. content = FileAt s st \<Longrightarrow> s = src"
    and res: "add_content src parent name x content (t, links) = (t', links')"
  shows "tree_ok t' \<and> extends t t' \<and> links_ok t' links'"
proof -
  define linked where "linked \<longleftrightarrow> x_mode x AND S_IFMT = S_IFREG \<and> x_nlink x > 1"
  define key where "key = (x_ino x, x_dev x)"
  show ?thesis
  proof (cases "if linked then links key else None")
    case (Some ident)
    then have "links key = Some ident" by (simp split: if_splits)
    then have id: "valid_id t ident" "kind_of t ident = S_IFREG"
      using assms(4) unfolding links_ok_def by blast+
    let ?f = "\<lambda>n. n\<lparr>i_size := x_size x, i_content := FileAt src (x_offset x)\<rparr>"
    define t1 where "t1 = (if x_size x > 0 then set_node ident ?f t else t)"
    have "node_ok t (?f (t_nodes t ! (ident - 1)))"
      using tree_ok_node [OF assms(1) id(1)] id(2) assms(5) by (auto simp: node_ok_def kind_of_def)
    then have t1: "tree_ok t1" "extends t t1"
      using set_node_ok [OF assms(1) id(1), of ?f] assms(1) by (auto simp: t1_def kind_of_def)
    have "tree_ok (insert_child parent name ident t1) \<and> extends t1 (insert_child parent name ident t1)"
      using t1 assms(2,3) id by (intro insert_child_ok) (auto simp: extends_def valid_id_def)
    moreover have "t' = insert_child parent name ident t1" "links' = links"
      using res Some unfolding add_content_def linked_def key_def t1_def Let_def by simp_all
    ultimately show ?thesis using extends_trans [OF t1(2)] links_ok_extends [OF assms(4)] by blast
  next
    case None
    define n where "n = \<lparr>i_mode = x_mode x, i_uid = x_uid x, i_gid = x_gid x,
                 i_rdev = (if content = Special then x_rdev x else 0), i_mtime = x_mtime x,
                 i_size = (if x_mode x AND S_IFMT = S_IFREG \<or> x_mode x AND S_IFMT = S_IFLNK then x_size x else 0), i_nlink = 1,
                 i_parent = parent, i_content = content\<rparr>"
    have "node_ok t n"
      using kind content assms(2,5) by (cases content) (auto simp: node_ok_def n_def)
    note new = add_child_ok [where name = name and n = n, OF assms(1-3) this refl]
    have t': "t' = insert_child parent name (length (t_nodes t) + 1) (pushed n t)"
      "links' = (if linked then links(key \<mapsto> length (t_nodes t) + 1) else links)"
      using res None unfolding add_content_def linked_def key_def n_def Let_def by (simp_all, auto)
    have "links_ok t' links" using links_ok_extends [OF assms(4) new(2)] t'(1) by simp
    then have "links_ok t' links'"
      using new(3,4) t' unfolding links_ok_def by (auto simp: linked_def n_def)
    then show ?thesis using new(1,2) t'(1) by simp
  qed
qed

lemma entry_content_kind:
  "entry_content t src x = Inr (Some content) \<Longrightarrow>
   (\<nexists>children. content = Directory children) \<and> (\<forall>s st. content = FileAt s st \<longrightarrow> s = src)"
  by (auto simp: entry_content_def Let_def split: if_splits sum.splits)

lemma add_entry_ok:
  assumes "tree_ok t" "links_ok t links" "src < length (t_sources t)" "add_entry src x (t, links) = Inr (t', links')"
  shows "tree_ok t' \<and> extends t t' \<and> links_ok t' links'"
proof -
  obtain path where path: "clean_path (x_name x) = Some path"
    using assms(4) by (cases "clean_path (x_name x)") (simp_all add: add_entry_def)
  let ?kind = "x_mode x AND S_IFMT"
  have root: "valid_id t 1" "kind_of t 1 = S_IFDIR" using root_valid [OF assms(1)] assms(1) by (simp_all add: tree_ok_def)
  show ?thesis
  proof (cases "path = []")
    case True
    let ?f = "\<lambda>n. n\<lparr>i_mode := S_IFDIR OR (x_mode x AND 0xFFF)\<rparr>"
    have "node_ok t (?f (t_nodes t ! (1 - 1)))"
      using tree_ok_node [OF assms(1) root(1)] root(2) by (simp add: node_ok_def kind_of_def dir_mode)
    then have "tree_ok (set_node 1 ?f t) \<and> extends t (set_node 1 ?f t)"
      using set_node_ok [OF assms(1) root(1), of ?f] root(2) by (simp add: dir_mode)
    then show ?thesis
      using assms(1,2,4) path True links_ok_extends [OF assms(2)] by (auto simp: add_entry_def Let_def split: if_splits)
  next
    case False
    obtain t1 r where d: "directory_at (butlast path) (x_mtime x) 1 t = (t1, r)" by fastforce
    have t1: "tree_ok t1" "extends t t1" "\<forall>i. r = Some i \<longrightarrow> valid_id t1 i \<and> kind_of t1 i = S_IFDIR"
      using directory_at_ok [OF d assms(1) root] by simp_all
    have l1: "links_ok t1 links" by (rule links_ok_extends [OF assms(2) t1(2)])
    have s1: "src < length (t_sources t1)" using assms(3) t1(2) by (simp add: extends_def)
    have same: ?thesis if "t' = t1" "links' = links" using that t1 l1 by simp
    have trans: ?thesis if "tree_ok t' \<and> extends t1 t' \<and> links_ok t' links'" using that extends_trans [OF t1(2)] by blast
    show ?thesis
    proof (cases r)
      case None
      then show ?thesis using assms(4) path False d same by (simp add: add_entry_def Let_def)
    next
      case (Some parent)
      then have p: "valid_id t1 parent" "kind_of t1 parent = S_IFDIR" using t1(3) by simp_all
      consider "?kind = S_IFDIR" | "?kind \<noteq> S_IFDIR" "stays t1 (map_of (kids t1 parent) (last path)) ?kind"
        | "?kind \<noteq> S_IFDIR" "\<not> stays t1 (map_of (kids t1 parent) (last path)) ?kind" by blast
      then show ?thesis
      proof cases
        case 1
        then have "t' = add_directory parent (last path) x t1" "links' = links"
          using assms(4) path False d Some by (simp_all add: add_entry_def Let_def)
        then show ?thesis
          using add_directory_ok [OF t1(1) p 1, of "last path"] links_ok_extends [OF l1] by (intro trans) simp
      next
        case 2
        then show ?thesis using assms(4) path False d Some same by (simp add: add_entry_def Let_def)
      next
        case 3
        note e = assms(4) path False d Some 3
        show ?thesis
        proof (cases "entry_content t1 src x")
          case (Inl err)
          then show ?thesis using e by (simp add: add_entry_def Let_def)
        next
          case (Inr c)
          show ?thesis
          proof (cases c)
            case None
            then show ?thesis using e Inr same by (simp add: add_entry_def Let_def)
          next
            case (Some content)
            then have a: "add_content src parent (last path) x content (t1, links) = (t', links')"
              using e Inr by (simp add: add_entry_def Let_def)
            show ?thesis
              using add_content_ok [OF t1(1) p l1 s1 3(1) _ _ a] entry_content_kind [of t1 src x content] Inr Some
              by (intro trans) simp
          qed
        qed
      qed
    qed
  qed
qed

lemma add_entries_ok:
  "\<lbrakk>add_entries src xs (t, links) = Inr (t', links'); tree_ok t; links_ok t links; src < length (t_sources t)\<rbrakk> \<Longrightarrow>
   tree_ok t' \<and> extends t t'"
proof (induction xs arbitrary: t links)
  case (Cons x xs)
  obtain t1 l1 where s: "add_entry src x (t, links) = Inr (t1, l1)" "add_entries src xs (t1, l1) = Inr (t', links')"
    using Cons.prems(1) by (auto split: sum.splits)
  have one: "tree_ok t1 \<and> extends t t1 \<and> links_ok t1 l1" by (rule add_entry_ok [OF Cons.prems(2-4) s(1)])
  then have "src < length (t_sources t1)" using Cons.prems(4) by (simp add: extends_def)
  then have "tree_ok t' \<and> extends t1 t'" using Cons.IH [OF s(2)] one by blast
  then show ?case using one extends_trans by blast
qed simp

lemma tree_add_ok:
  assumes "tree_add src xs t = Inr t'" "tree_ok t" "src < length (t_sources t)"
  shows "tree_ok t' \<and> extends t t'"
proof -
  have "links_ok t (\<lambda>_. None)" by (simp add: links_ok_def)
  then show ?thesis
    using assms add_entries_ok [of src xs t "\<lambda>_. None"] by (auto simp: tree_add_def split: sum.splits)
qed

lemma tree_ok_source: "tree_ok t \<Longrightarrow> tree_ok (t\<lparr>t_sources := t_sources t @ ss\<rparr>)"
proof -
  assume ok: "tree_ok t"
  have "node_ok (t\<lparr>t_sources := t_sources t @ ss\<rparr>) n" if "node_ok t n" for n
    using that by (rule node_ok_mono) simp_all
  then show ?thesis using ok by (auto simp: tree_ok_def kind_of_def list_all_iff)
qed

lemma add_layers_ok: "\<lbrakk>add_layers layers t = Inr (Inr t'); tree_ok t\<rbrakk> \<Longrightarrow> tree_ok t'"
proof (induction layers arbitrary: t)
  case (Cons l ls)
  obtain src xs t1 where "tree_add (length (t_sources t)) xs (t\<lparr>t_sources := t_sources t @ [src]\<rparr>) = Inr t1"
      "add_layers ls t1 = Inr (Inr t')"
    using Cons.prems(1) by (auto split: sum.splits layer.splits prod.splits)
  then show ?case
    using Cons.IH tree_add_ok [of _ xs "t\<lparr>t_sources := t_sources t @ [src]\<rparr>" t1] tree_ok_source [OF Cons.prems(2)] by simp
qed simp

lemma tree_new_ok: "tree_ok tree_new"
  by (simp add: tree_ok_def tree_new_def kind_of_def dir_node_ok(3)) (simp add: node_ok_def valid_id_def dir_node_def)

lemma count_links_ok:
  assumes "tree_ok t"
  shows "tree_ok (count_links t) \<and> kids (count_links t) 1 = kids t 1 \<and>
    (\<forall>ident. valid_id t ident \<longrightarrow> kind_of (count_links t) ident = kind_of t ident)"
proof -
  let ?t = "count_links t"
  have len: "length (t_nodes ?t) = length (t_nodes t)" "t_sources ?t = t_sources t" by (simp_all add: count_links_def)
  have nth: "\<exists>l. t_nodes ?t ! i = (t_nodes t ! i)\<lparr>i_nlink := l\<rparr>" if "i < length (t_nodes t)" for i
    using that by (auto simp: count_links_def)
  have same: "node_ok ?t = node_ok t" by (rule node_ok_same) (simp_all add: len)
  have "node_ok t (n\<lparr>i_nlink := l\<rparr>) = node_ok t n" for n l by (simp add: node_ok_def)
  then have "list_all (node_ok ?t) (t_nodes ?t)"
    using assms nth len unfolding same tree_ok_def list_all_length by metis
  moreover have kind: "kind_of ?t ident = kind_of t ident" if "valid_id t ident" for ident
  proof -
    have "ident - 1 < length (t_nodes t)" using that unfolding valid_id_def by linarith
    then show ?thesis using nth [of "ident - 1"] by (auto simp: kind_of_def)
  qed
  moreover have "kids ?t 1 = kids t 1"
    using nth [of 0] assms by (auto simp: kids_def tree_ok_def)
  ultimately show ?thesis
    using assms root_valid [OF assms] len by (auto simp: tree_ok_def simp flip: length_greater_0_conv)
qed

lemma check_top_dirs: "check_top t cs = Inr u \<Longrightarrow> list_all (\<lambda>(name, ident). kind_of t ident = S_IFDIR \<and> name \<noteq> ''run'') cs"
  by (induction t cs rule: check_top.induct) (auto split: if_splits)

subsection \<open>Reading files\<close>

lemma read_loop_bytes:
  "read_loop (SBytes bs) at want buf =
     Inr (if length buf < want then buf @ bslice (at + length buf) (want - length buf) bs else buf)"
proof (induction "SBytes bs" at want buf rule: read_loop.induct)
  case (1 at want buf)
  let ?part = "bslice (at + length buf) (want - length buf) bs"
  have r: "read_at (SBytes bs) (want - length buf) (at + length buf) = Inr ?part"
    by (auto simp: read_at_def bslice_def Let_def min_def)
  show ?case
  proof (cases "length buf < want \<and> ?part \<noteq> []")
    case False
    then show ?thesis using r by (auto simp: read_loop.simps [of "SBytes bs" at want buf])
  next
    case True
    have tail: "(if length (buf @ ?part) < want then (buf @ ?part) @ bslice (at + length (buf @ ?part)) (want - length (buf @ ?part)) bs
        else buf @ ?part) = buf @ ?part"
      by (auto simp: bslice_def)
    have "read_loop (SBytes bs) at want buf = read_loop (SBytes bs) at want (buf @ ?part)"
      using True r by (simp add: read_loop.simps [of "SBytes bs" at want buf])
    also have "\<dots> = Inr (buf @ ?part)" using "1" True r tail by simp
    finally show ?thesis using True by simp
  qed
qed

definition read_request :: "u64 \<Rightarrow> u32 \<Rightarrow> bytes" where
  "read_request offset sz = u64_le 0 @ u64_le offset @ u32_le sz"

lemma read_request_parsed:
  "r_then (r_skip 8) (\<lambda>_. r_then r_u64 (\<lambda>offset. r_then r_u32 (\<lambda>sz. r_give (offset, sz)))) (read_request offset sz @ rest) =
     Inr ((offset, sz), rest)"
  by (simp add: r_then_def r_skip_def r_take_def r_give_def r_u64_def r_u32_def read_request_def le64_at_def le32_at_def codec_simps)

subsection \<open>The newc format, as it is written\<close>

record newc_file =
  w_fields :: "u32 list"
  w_dev :: "u32 list"
  w_name :: string
  w_data :: bytes

definition newc_fields :: "newc_file \<Rightarrow> u32 list" where
  "newc_fields f = w_fields f @ [word_of_nat (length (w_data f))] @ w_dev f @ [word_of_nat (length (w_name f) + 1), 0]"

definition newc_header :: "newc_file \<Rightarrow> bytes" where
  "newc_header f = bytes_of ''070701'' @ concat (map (\<lambda>w. bytes_of (hexn 8 (unat w))) (newc_fields f))"

definition pad4 :: "bytes \<Rightarrow> bytes" where
  "pad4 bs = bs @ replicate (align4 (length bs) - length bs) 0"

definition newc_encode :: "newc_file \<Rightarrow> bytes" where
  "newc_encode f = pad4 (pad4 (newc_header f @ bytes_of (w_name f) @ [0]) @ w_data f)"

definition newc_ok :: "newc_file \<Rightarrow> bool" where
  "newc_ok f \<longleftrightarrow> length (w_fields f) = 6 \<and> length (w_dev f) = 4 \<and> NUL \<notin> set (w_name f) \<and> from_utf8_ok (w_name f @ [NUL]) \<and>
     length (w_name f) + 1 < 2 ^ 32 \<and> length (w_data f) < 2 ^ 32"

definition newc_entry :: "nat \<Rightarrow> newc_file \<Rightarrow> cpio_entry" where
  "newc_entry at f =
     \<lparr>x_name = w_name f, x_ino = w_fields f ! 0, x_mode = w_fields f ! 1, x_uid = w_fields f ! 2, x_gid = w_fields f ! 3,
      x_nlink = w_fields f ! 4, x_mtime = ucast (w_fields f ! 5), x_size = word_of_nat (length (w_data f)),
      x_dev = push_bit 20 (w_dev f ! 0) OR (w_dev f ! 1 AND 0xfffff),
      x_rdev = (w_dev f ! 3 AND 0xff) OR push_bit 8 (w_dev f ! 2) OR push_bit 12 (w_dev f ! 3 AND NOT 0xff),
      x_offset = align4 (at + 110 + length (w_name f) + 1)\<rparr>"

lemma length_fields: "newc_ok f \<Longrightarrow> length (newc_fields f) = 13"
  by (simp add: newc_ok_def newc_fields_def)

lemma concat_fixed:
  "\<lbrakk>\<forall>x\<in>set xs. length (g x) = k; i < length xs\<rbrakk> \<Longrightarrow> bslice (k * i) k (concat (map g xs) @ rest) = g (xs ! i)"
proof (induction xs arbitrary: i)
  case (Cons x xs)
  then show ?case
    by (cases i) (simp_all add: bslice_def)
qed simp

lemma length_concat_fixed: "\<forall>x\<in>set xs. length (g x) = k \<Longrightarrow> length (concat (map g xs)) = k * length xs"
  by (induction xs) simp_all

lemma length_newc_header: "newc_ok f \<Longrightarrow> length (newc_header f) = 110"
  by (simp add: newc_header_def length_fields length_concat_fixed [where k = 8] del: length_concat)

lemma align4_mod: "align4 n mod 4 = 0" "n mod 4 = 0 \<Longrightarrow> align4 n = n" "at mod 4 = 0 \<Longrightarrow> align4 (at + n) = at + align4 n"
  unfolding align4_def by (simp, presburger, presburger)

lemma length_pad4 [simp]: "length (pad4 bs) = align4 (length bs)"
  using align4_ge [of "length bs"] by (simp add: pad4_def)

lemma header_field_newc:
  assumes "newc_ok f" "i < 12"
  shows "header_field (newc_header f) at i = Inr (newc_fields f ! i)"
proof -
  have "bslice (6 + 8 * i) 8 (newc_header f) = bslice (8 * i) 8 (concat (map (\<lambda>w. bytes_of (hexn 8 (unat w))) (newc_fields f)) @ [])"
    by (simp add: newc_header_def bslice_def)
  also have "\<dots> = bytes_of (hexn 8 (unat (newc_fields f ! i)))"
    using assms length_fields by (intro concat_fixed) simp_all
  finally have field: "string_of (bslice (6 + 8 * i) 8 (newc_header f)) = hexn 8 (unat (newc_fields f ! i))" by simp
  have "from_utf8_ok (hexn 8 v)" for v
    using hexn_chars [of _ 8 v] hex_char_plain by (intro ascii_valid) (auto simp: list_all_iff)
  moreover have "parse_hex (hexn 8 (unat w)) = Some (unat w)" for w :: u32
    using parse_hex_hexn [of 7 "unat w"] unsigned_less [of w, where ?'a = nat] by simp
  ultimately show ?thesis by (simp add: header_field_def field Let_def)
qed

lemma header_fields_newc:
  assumes "newc_ok f"
  shows "list_all (\<lambda>i. i < 12) is \<Longrightarrow> header_fields (newc_header f) at is = Inr (map ((!) (newc_fields f)) is)"
  by (induction "is") (simp_all add: header_field_newc [OF assms])

lemma fields_nth:
  assumes "newc_ok f"
  shows "newc_fields f ! 6 = word_of_nat (length (w_data f))" "newc_fields f ! 11 = word_of_nat (length (w_name f) + 1)"
    "i < 6 \<Longrightarrow> newc_fields f ! i = w_fields f ! i" "i < 4 \<Longrightarrow> newc_fields f ! (7 + i) = w_dev f ! i"
  using assms by (auto simp: newc_fields_def newc_ok_def nth_append nth_Cons' simp del: of_nat_add)

lemma read_entry_newc:
  assumes ok: "newc_ok f" and at: "length pre = at" "at mod 4 = 0" and archive: "archive = pre @ newc_encode f @ post"
  shows "read_entry archive at = Inr (newc_entry at f, at + length (newc_encode f))"
    and "bslice (x_offset (newc_entry at f)) (length (w_data f)) archive = w_data f"
proof -
  let ?n = "length (w_name f) + 1"
  let ?head = "newc_header f @ bytes_of (w_name f) @ [0]"
  have len: "length ?head = 110 + ?n" using length_newc_header [OF ok] by simp
  obtain k tail where enc: "archive = pre @ newc_header f @ bytes_of (w_name f) @ [0] @ replicate k 0 @ w_data f @ tail"
      and k: "110 + ?n + k = align4 (110 + ?n)"
  proof
    show "110 + ?n + (align4 (110 + ?n) - (110 + ?n)) = align4 (110 + ?n)" using align4_ge by simp
    show "archive = pre @ newc_header f @ bytes_of (w_name f) @ [0] @ replicate (align4 (110 + ?n) - (110 + ?n)) 0 @ w_data f @
        replicate (align4 (length (pad4 ?head @ w_data f)) - length (pad4 ?head @ w_data f)) 0 @ post"
      unfolding archive newc_encode_def using len by (simp only: pad4_def append_assoc)
  qed
  have header: "bslice at 110 archive = newc_header f"
    using at length_newc_header [OF ok] by (simp add: enc bslice_def)
  have name: "bslice (at + 110) ?n archive = bytes_of (w_name f) @ [0]"
    using at length_newc_header [OF ok] by (simp add: enc bslice_def)
  have magic: "take 6 (newc_header f) = bytes_of ''070701''" by (simp add: newc_header_def)
  have nul: "string_of [0] = [NUL]" by (simp add: string_of_def NUL_def char_of_eq_iff)
  have spelled: "string_of (bytes_of (w_name f) @ [0]) = w_name f @ [NUL]"
    using string_of_bytes_of [of "w_name f"] nul by (simp add: string_of_def)
  have trim: "trim_end_matches (\<lambda>c. c = NUL) (w_name f @ [NUL]) = w_name f"
    using ok by (cases "w_name f" rule: rev_cases) (auto simp: trim_end_matches_def newc_ok_def)
  have sizes: "unat (word_of_nat ?n :: u32) = ?n" "unat (word_of_nat (length (w_data f)) :: u32) = length (w_data f)"
    using ok by (simp_all add: newc_ok_def unat_of_nat del: of_nat_add of_nat_Suc)
  have up: "(ucast (word_of_nat (length (w_data f)) :: u32) :: u64) = word_of_nat (length (w_data f))"
    using arg_cong [OF sizes(2), of "word_of_nat :: nat \<Rightarrow> u64"] by simp
  have data: "align4 (at + 110 + ?n) = at + align4 (110 + ?n)" unfolding add.assoc by (rule align4_mod(3) [OF at(2)])
  have nxt: "align4 (align4 (at + 110 + ?n) + length (w_data f)) = at + length (newc_encode f)"
    unfolding data add.assoc [of at] align4_mod(3) [OF at(2)] using len by (simp add: newc_encode_def)
  have fields: "header_fields (newc_header f) at [0, 1, 2, 3, 4, 5, 6, 7, 8, 9, 10, 11] =
      Inr (map ((!) (newc_fields f)) [0, 1, 2, 3, 4, 5, 6, 7, 8, 9, 10, 11])"
    by (rule header_fields_newc [OF ok]) simp
  have dev: "newc_fields f ! 7 = w_dev f ! 0" "newc_fields f ! 8 = w_dev f ! 1" "newc_fields f ! 9 = w_dev f ! 2"
      "newc_fields f ! 10 = w_dev f ! 3"
    using fields_nth(4) [OF ok, of 0] fields_nth(4) [OF ok, of 1] fields_nth(4) [OF ok, of 2] fields_nth(4) [OF ok, of 3] by simp_all
  show "read_entry archive at = Inr (newc_entry at f, at + length (newc_encode f))"
    unfolding read_entry_def header Let_def fields sum.case
    using length_newc_header [OF ok] magic name spelled trim sizes up nxt ok fields_nth(1,2) [OF ok] fields_nth(3) [OF ok] dev
    by (simp add: newc_entry_def newc_ok_def add.assoc del: of_nat_add of_nat_Suc)
  have "x_offset (newc_entry at f) = at + align4 (110 + ?n)" using data by (simp add: newc_entry_def add.assoc)
  moreover have "drop (at + align4 (110 + ?n)) archive = w_data f @ tail"
    using at length_newc_header [OF ok] k [symmetric] by (simp add: enc)
  ultimately show "bslice (x_offset (newc_entry at f)) (length (w_data f)) archive = w_data f"
    by (simp add: bslice_def)
qed

fun newc_entries :: "nat \<Rightarrow> newc_file list \<Rightarrow> cpio_entry list" where
  "newc_entries at [] = []"
| "newc_entries at (f # fs) = newc_entry at f # newc_entries (at + length (newc_encode f)) fs"

lemma newc_encode_aligned: "length (newc_encode f) mod 4 = 0"
  by (simp add: newc_encode_def align4_mod(1))

lemma newc_starts: "\<exists>rest. newc_encode f = 48 # rest"
  by (simp add: newc_encode_def pad4_def newc_header_def bytes_of_def)

lemma cpio_entries_step:
  assumes "newc_ok f" "length pre mod 4 = 0" "archive = pre @ newc_encode f @ post"
  shows "cpio_entries archive (length pre) found =
    cpio_entries archive (length pre + length (newc_encode f)) (if w_name f = ''TRAILER!!!'' then found else found @ [newc_entry (length pre) f])"
proof -
  obtain rest where rest: "newc_encode f = 48 # rest" using newc_starts by blast
  have "takeWhile (\<lambda>b. b = 0) (drop (length pre) archive) = []" by (simp add: assms(3) rest)
  moreover have "length pre < length archive" by (simp add: assms(3) rest)
  moreover have "x_name (newc_entry (length pre) f) = w_name f" by (simp add: newc_entry_def)
  ultimately show ?thesis
    using read_entry_newc(1) [OF assms(1) refl assms(2,3)] assms(2)
    by (subst cpio_entries.simps) (simp add: Let_def)
qed

lemma cpio_entries_newc:
  "\<lbrakk>list_all (\<lambda>f. newc_ok f \<and> w_name f \<noteq> ''TRAILER!!!'') fs; length pre mod 4 = 0;
    archive = pre @ concat (map newc_encode fs) @ post\<rbrakk> \<Longrightarrow>
   cpio_entries archive (length pre) found =
     cpio_entries archive (length pre + length (concat (map newc_encode fs))) (found @ newc_entries (length pre) fs) \<and>
   map (\<lambda>x. bslice (x_offset x) (unat (x_size x)) archive) (newc_entries (length pre) fs) = map w_data fs"
proof (induction fs arbitrary: pre found)
  case (Cons f fs)
  let ?pre = "pre @ newc_encode f"
  have ok: "newc_ok f" "w_name f \<noteq> ''TRAILER!!!''" using Cons.prems(1) by simp_all
  have archive: "archive = pre @ newc_encode f @ (concat (map newc_encode fs) @ post)" using Cons.prems(3) by simp
  have "length ?pre mod 4 = 0" using Cons.prems(2) newc_encode_aligned by (simp add: mod_add_eq [symmetric] del: mod_add_eq)
  then have IH: "cpio_entries archive (length ?pre) (found @ [newc_entry (length pre) f]) =
     cpio_entries archive (length ?pre + length (concat (map newc_encode fs))) ((found @ [newc_entry (length pre) f]) @ newc_entries (length ?pre) fs) \<and>
   map (\<lambda>x. bslice (x_offset x) (unat (x_size x)) archive) (newc_entries (length ?pre) fs) = map w_data fs"
    using Cons.IH [of ?pre] Cons.prems(1) archive by simp
  have "unat (x_size (newc_entry (length pre) f)) = length (w_data f)"
    using ok(1) by (simp add: newc_entry_def newc_ok_def unat_of_nat)
  then have "bslice (x_offset (newc_entry (length pre) f)) (unat (x_size (newc_entry (length pre) f))) archive = w_data f"
    using read_entry_newc(2) [OF ok(1) refl Cons.prems(2) archive] by simp
  then show ?case
    using IH cpio_entries_step [OF ok(1) Cons.prems(2) archive, of found] ok(2) by (simp add: add.assoc)
qed simp

lemma archive_read:
  assumes "list_all (\<lambda>f. newc_ok f \<and> w_name f \<noteq> ''TRAILER!!!'') fs" "newc_ok trailer" "w_name trailer = ''TRAILER!!!''"
    and "archive = concat (map newc_encode fs) @ newc_encode trailer @ replicate k 0"
  shows "cpio_entries archive 0 [] = Inr (newc_entries 0 fs) \<and>
    map (\<lambda>x. bslice (x_offset x) (unat (x_size x)) archive) (newc_entries 0 fs) = map w_data fs"
proof -
  let ?all = "concat (map newc_encode fs)"
  have files: "cpio_entries archive 0 [] = cpio_entries archive (length ?all) (newc_entries 0 fs)"
    "map (\<lambda>x. bslice (x_offset x) (unat (x_size x)) archive) (newc_entries 0 fs) = map w_data fs"
    using cpio_entries_newc [OF assms(1), of "[]" archive "newc_encode trailer @ replicate k 0" "[]"] assms(4)
    by (simp_all del: length_concat)
  have "length ?all mod 4 = 0"
    by (induction fs) (simp_all add: newc_encode_aligned mod_add_eq [symmetric] del: mod_add_eq)
  then have "cpio_entries archive (length ?all) (newc_entries 0 fs) =
      cpio_entries archive (length ?all + length (newc_encode trailer)) (newc_entries 0 fs)"
    using cpio_entries_step [OF assms(2) _ assms(4)] assms(3) by simp
  also have "\<dots> = Inr (newc_entries 0 fs)"
    by (subst cpio_entries.simps) (simp add: assms(4) Let_def takeWhile_eq_all_conv [THEN iffD2])
  finally show ?thesis using files by simp
qed

subsection \<open>A replaced directory\<close>

text \<open>
  A directory that a later file replaced is still among the nodes, and \<open>count_links\<close> still counts it: the
  parent's number of links is one too many, here 3 for a directory without any subdirectory.
\<close>

definition plain_entry :: "string \<Rightarrow> u32 \<Rightarrow> cpio_entry" where
  "plain_entry name mode = \<lparr>x_name = name, x_ino = 1, x_mode = mode, x_uid = 0, x_gid = 0, x_nlink = 1, x_mtime = 0,
     x_size = 0, x_dev = 0, x_rdev = 0, x_offset = 0\<rparr>"

definition replaced_tree :: tree where
  "replaced_tree =
     (case tree_add 0 [plain_entry ''a'' 0x41ED, plain_entry ''a/b'' 0x41ED, plain_entry ''a/b'' 0x81A4]
        (tree_new\<lparr>t_sources := [SBytes []]\<rparr>) of Inr t \<Rightarrow> count_links t | Inl _ \<Rightarrow> tree_new)"

lemma replaced_directory_counted:
  "i_nlink (t_nodes replaced_tree ! 1) = 3 \<and> kids replaced_tree 2 = [(''b'', 4)] \<and> kind_of replaced_tree 4 = S_IFREG"
  by code_simp

subsection \<open>Properties of the image server\<close>

text \<open>C35: The tree the boot images are merged into is well-formed, whatever the archives hold: every name in a
  directory leads to a node that exists, listings are sorted, what is marked as a directory is one and
  nothing else is, every file points into one of the archives, every parent exists; and at the top there
  are only directories, and no \<open>/run\<close>. (So no index the server computes is out of range.)\<close>

theorem image_tree_sound:
  assumes "tree_build layers = Inr (Inr t)"
  shows "tree_ok t \<and> list_all (\<lambda>(name, ident). kind_of t ident = S_IFDIR \<and> name \<noteq> ''run'') (kids t 1)"
proof -
  obtain t0 u where t0: "add_layers layers tree_new = Inr (Inr t0)" "check_top t0 (kids t0 1) = Inr u" "t = count_links t0"
    using assms by (auto simp: tree_build_def split: sum.splits)
  have ok: "tree_ok t0" by (rule add_layers_ok [OF t0(1) tree_new_ok])
  note c = count_links_ok [OF ok]
  have "list_all (\<lambda>(name, ident). kind_of t0 ident = S_IFDIR \<and> name \<noteq> ''run'') (kids t0 1)"
    by (rule check_top_dirs [OF t0(2)])
  moreover have "list_all (valid_id t0 \<circ> snd) (kids t0 1)" using kids_ok [OF ok root_valid [OF ok]] by simp
  ultimately have "list_all (\<lambda>(name, ident). kind_of (count_links t0) ident = S_IFDIR \<and> name \<noteq> ''run'') (kids t0 1)"
    using c by (fastforce simp: list_all_iff)
  then show ?thesis using c t0(3) by simp
qed

theorem image_tree_sound_witness:
  "\<exists>t. tree_build [LBytes [0, 0, 0, 0]] = Inr (Inr t) \<and> tree_ok t"
proof -
  have "cpio_entries [0, 0, 0, 0] 0 [] = Inr []" by (simp add: cpio_entries.simps)
  then have "tree_build [LBytes [0, 0, 0, 0]] = Inr (Inr (count_links (tree_new\<lparr>t_sources := [SBytes [0, 0, 0, 0]]\<rparr>)))"
    by (simp add: tree_build_def tree_add_def tree_new_def kids_def dir_node_def)
  then show ?thesis using image_tree_sound by blast
qed

text \<open>Reading an archive gives back what was written: for every list of files, encoded in the newc format
  one after another, closed by a trailer and followed by any amount of NUL padding, the reader finds
  exactly these files in order, with their names and header fields, and each entry's offset and size
  delimit that file's data in the archive.\<close>

theorem archive_roundtrip:
  assumes "list_all (\<lambda>f. newc_ok f \<and> w_name f \<noteq> ''TRAILER!!!'') fs" "newc_ok trailer" "w_name trailer = ''TRAILER!!!''"
    and "archive = concat (map newc_encode fs) @ newc_encode trailer @ replicate k 0"
  shows "cpio_entries archive 0 [] = Inr (newc_entries 0 fs) \<and>
    map (\<lambda>x. bslice (x_offset x) (unat (x_size x)) archive) (newc_entries 0 fs) = map w_data fs"
  using assms by (rule archive_read)

definition sample_file :: newc_file where
  "sample_file = \<lparr>w_fields = [1, 0x81A4, 0, 0, 1, 0], w_dev = [0, 0, 0, 0], w_name = ''usr/motd'', w_data = [104, 105, 10]\<rparr>"

definition sample_trailer :: newc_file where
  "sample_trailer = \<lparr>w_fields = [0, 0, 0, 0, 1, 0], w_dev = [0, 0, 0, 0], w_name = ''TRAILER!!!'', w_data = []\<rparr>"

lemma sample_newc: "newc_ok sample_file" "newc_ok sample_trailer"
  by (simp_all add: newc_ok_def sample_file_def sample_trailer_def NUL_def) (rule ascii_valid, simp add: ascii_def)+

theorem archive_roundtrip_witness:
  "cpio_entries (newc_encode sample_file @ newc_encode sample_trailer @ replicate 512 0) 0 [] = Inr [newc_entry 0 sample_file]"
  using archive_roundtrip [of "[sample_file]" sample_trailer _ 512, OF _ sample_newc(2) _ refl] sample_newc(1)
  by (simp add: sample_file_def sample_trailer_def)


definition motd_entry :: cpio_entry where
  "motd_entry = (plain_entry ''motd'' 0x81A4)\<lparr>x_size := 3, x_offset := 1\<rparr>"

definition motd_tree :: tree where
  "motd_tree = tree_new\<lparr>t_sources := [SBytes [0, 104, 105, 10, 0]]\<rparr>"

lemma motd_ok: "tree_ok motd_tree"
  using add_layers_ok [of "[LBytes [0, 0, 0, 0]]"] by (simp add: motd_tree_def tree_new_def tree_ok_def node_ok_def kind_of_def dir_node_def valid_id_def)


end
