(* ===== verification/Host_Fs.thy ===== *)
theory Host_Fs
  imports Fuse
begin

unbundle bit_operations_syntax

text \<open>
  A folder of the host served to the guest, from \<open>engine/src/fs.rs\<close> (\<open>FsDevice\<close>), as it is built for Unix:
  the table of nodes the guest knows, its open handles, and one operation per FUSE request. The host's
  file system is a record of operations on a state of its own (what \<open>std::fs\<close> does), and every call the
  device makes on it is noted in \<open>d_calls\<close>, so that what the guest can reach is a statement about that
  list. A request is a computation that may fail with an errno and then keeps what it had changed so far.
  A path is its list of components (an absolute path from the root directory), so joining a name that
  \<open>validate_name\<close> accepted appends one component.
\<close>

subsection \<open>The host\<close>

type_synonym path = "string list"
type_synonym fd = nat

abbreviation EACCES :: errno where "EACCES \<equiv> 13"
abbreviation EEXIST :: errno where "EEXIST \<equiv> 17"
abbreviation EISDIR :: errno where "EISDIR \<equiv> 21"
abbreviation ENOSPC :: errno where "ENOSPC \<equiv> 28"
abbreviation ENOTEMPTY :: errno where "ENOTEMPTY \<equiv> 39"

abbreviation SETATTR_MODE :: u32 where "SETATTR_MODE \<equiv> 1"
abbreviation SETATTR_SIZE :: u32 where "SETATTR_SIZE \<equiv> 8"
abbreviation SETATTR_ATIME :: u32 where "SETATTR_ATIME \<equiv> 16"
abbreviation SETATTR_MTIME :: u32 where "SETATTR_MTIME \<equiv> 32"
abbreviation SETATTR_FH :: u32 where "SETATTR_FH \<equiv> 64"
abbreviation SETATTR_ATIME_NOW :: u32 where "SETATTR_ATIME_NOW \<equiv> 128"
abbreviation SETATTR_MTIME_NOW :: u32 where "SETATTR_MTIME_NOW \<equiv> 256"

datatype error_kind = NotFound | PermissionDenied | AlreadyExists | InvalidInput | IsADirectory | NotADirectory
  | DirectoryNotEmpty | ReadOnlyFilesystem | StorageFull | Unsupported | OtherKind

record host_error =
  e_kind :: error_kind
  e_raw :: "u32 option"

definition errno_of :: "host_error \<Rightarrow> errno" where
  "errno_of e =
     (case e_kind e of
        NotFound \<Rightarrow> ENOENT | PermissionDenied \<Rightarrow> EACCES | AlreadyExists \<Rightarrow> EEXIST | InvalidInput \<Rightarrow> EINVAL
      | IsADirectory \<Rightarrow> EISDIR | NotADirectory \<Rightarrow> ENOTDIR | DirectoryNotEmpty \<Rightarrow> ENOTEMPTY
      | ReadOnlyFilesystem \<Rightarrow> EROFS | StorageFull \<Rightarrow> ENOSPC | Unsupported \<Rightarrow> ENOSYS
      | OtherKind \<Rightarrow> (case e_raw e of Some code \<Rightarrow> if 0 < sint code then code else EIO | None \<Rightarrow> EIO))"

text \<open>A time is the seconds since the epoch (before it they are negative) and the nanoseconds.\<close>

record metadata =
  m_len :: u64
  m_mode :: u32
  m_nlink :: u64
  m_accessed :: "(int \<times> u32) option"
  m_modified :: "(int \<times> u32) option"

record open_options =
  o_read :: bool
  o_write :: bool
  o_append :: bool
  o_truncate :: bool
  o_create :: bool
  o_nofollow :: bool
  o_mode :: "u32 option"

text \<open>
  \<open>OpenOptions::open\<close> refuses, before the host is asked, options that make no sense: no access at all, and
  truncating or creating without write access (truncating with append too).
\<close>

definition open_refused :: "open_options \<Rightarrow> bool" where
  "open_refused opts \<longleftrightarrow> \<not> o_read opts \<and> \<not> o_write opts \<and> \<not> o_append opts \<or>
     (if o_append opts then o_truncate opts else \<not> o_write opts \<and> (o_truncate opts \<or> o_create opts))"

datatype set_time = Omit | Now | AtTime u64 u32

definition timespec :: "set_time \<Rightarrow> u64 \<times> u64" where
  "timespec t = (case t of Omit \<Rightarrow> (0, 0x3FFFFFFE) | Now \<Rightarrow> (0, 0x3FFFFFFF) | AtTime sec nsec \<Rightarrow> (sec, ucast nsec))"

datatype host_call =
    CMetadata path
  | CIsDir path
  | COpen path open_options
  | CSetLen fd u64
  | CSetPermissions path u32
  | CSetTimes path "u64 \<times> u64" "u64 \<times> u64"
  | CReadLink path
  | CSymlink string path
  | CCreateDir path
  | CRemoveFile path
  | CRemoveDir path
  | CRename path path
  | CSeek fd u64
  | CRead fd nat
  | CWriteAll fd bytes
  | CSync fd bool
  | CReadDir path

type_synonym ('h, 'a) host_op = "'h \<Rightarrow> (host_error + 'a) \<times> 'h"

record 'h host_fs =
  hf_canonicalize :: "path \<Rightarrow> ('h, path) host_op"
  hf_is_dir :: "path \<Rightarrow> 'h \<Rightarrow> bool"
  hf_metadata :: "path \<Rightarrow> ('h, metadata) host_op"
  hf_open :: "path \<Rightarrow> open_options \<Rightarrow> ('h, fd) host_op"
  hf_set_len :: "fd \<Rightarrow> u64 \<Rightarrow> ('h, unit) host_op"
  hf_set_permissions :: "path \<Rightarrow> u32 \<Rightarrow> ('h, unit) host_op"
  hf_set_times :: "path \<Rightarrow> u64 \<times> u64 \<Rightarrow> u64 \<times> u64 \<Rightarrow> ('h, unit) host_op"
  hf_read_link :: "path \<Rightarrow> ('h, string) host_op"
  hf_symlink :: "string \<Rightarrow> path \<Rightarrow> ('h, unit) host_op"
  hf_create_dir :: "path \<Rightarrow> ('h, unit) host_op"
  hf_remove_file :: "path \<Rightarrow> ('h, unit) host_op"
  hf_remove_dir :: "path \<Rightarrow> ('h, unit) host_op"
  hf_rename :: "path \<Rightarrow> path \<Rightarrow> ('h, unit) host_op"
  hf_seek :: "fd \<Rightarrow> u64 \<Rightarrow> ('h, unit) host_op"
  hf_read :: "fd \<Rightarrow> nat \<Rightarrow> ('h, bytes) host_op"
  hf_write_all :: "fd \<Rightarrow> bytes \<Rightarrow> ('h, unit) host_op"
  hf_sync :: "fd \<Rightarrow> bool \<Rightarrow> ('h, unit) host_op"
  hf_read_dir :: "path \<Rightarrow> ('h, (host_error + string) list) host_op"

definition seconds :: "(int \<times> u32) option \<Rightarrow> u64 \<times> u32" where
  "seconds t = (case t of Some (sec, nsec) \<Rightarrow> if 0 \<le> sec then (word_of_int sec, nsec) else (0, 0) | None \<Rightarrow> (0, 0))"

definition file_attributes :: "u64 \<Rightarrow> metadata \<Rightarrow> attributes" where
  "file_attributes ino m =
     \<lparr>a_ino = ino, a_size = m_len m, a_mode = m_mode m, a_nlink = ucast (m_nlink m), a_uid = 0, a_gid = 0, a_rdev = 0,
      a_atime = seconds (m_accessed m), a_mtime = seconds (m_modified m), a_ctime = seconds (m_modified m)\<rparr>"

subsection \<open>The device\<close>

record node_record =
  n_path :: path
  n_parent :: u64
  n_lookups :: u64
  n_handles :: u32
  n_children :: u32

record handle_record =
  h_node :: u64
  h_directory :: bool
  h_file :: "fd option"
  h_listing :: "(string \<times> path) list option"

record share =
  sh_tag :: string
  sh_host_path :: path
  sh_guest_path :: string
  sh_read_only :: bool

text \<open>
  The handles are listed in the order they were opened; \<open>d_order\<close> is the order in which the hash map visits
  its keys, which the language leaves open.
\<close>

record 'h fs_device =
  d_share :: share
  d_nodes :: "u64 \<rightharpoonup> node_record"
  d_ids :: "path \<rightharpoonup> u64"
  d_handles :: "(u64 \<times> handle_record) list"
  d_next_node :: u64
  d_next_handle :: u64
  d_order :: "u64 list \<Rightarrow> u64 list"
  d_host :: 'h
  d_calls :: "host_call list"

definition device_new :: "'h host_fs \<Rightarrow> share \<Rightarrow> (u64 list \<Rightarrow> u64 list) \<Rightarrow> 'h \<Rightarrow> string + 'h fs_device" where
  "device_new hf share order h =
     (if sh_tag share = [] \<or> length (sh_tag share) > 36 then Inl ''a virtio-fs tag must be between 1 and 36 bytes''
      else case hf_canonicalize hf (sh_host_path share) h of
          (Inl e, h1) \<Rightarrow> Inl ''mounting''
        | (Inr root, h1) \<Rightarrow>
            if \<not> hf_is_dir hf root h1 then Inl ''is not a directory''
            else Inr \<lparr>d_share = share\<lparr>sh_host_path := root\<rparr>,
              d_nodes = [1 \<mapsto> \<lparr>n_path = root, n_parent = 1, n_lookups = 1, n_handles = 0, n_children = 0\<rparr>],
              d_ids = [root \<mapsto> 1], d_handles = [], d_next_node = 2, d_next_handle = 1, d_order = order, d_host = h1,
              d_calls = []\<rparr>)"

definition update_node :: "u64 \<Rightarrow> (node_record \<Rightarrow> node_record) \<Rightarrow> 'h fs_device \<Rightarrow> 'h fs_device" where
  "update_node ident f d =
     (case d_nodes d ident of Some n \<Rightarrow> d\<lparr>d_nodes := (d_nodes d)(ident \<mapsto> f n)\<rparr> | None \<Rightarrow> d)"

definition intern :: "path \<Rightarrow> u64 \<Rightarrow> 'h fs_device \<Rightarrow> u64 \<times> 'h fs_device" where
  "intern path parent d =
     (case d_ids d path of
        Some ident \<Rightarrow> (ident, d)
      | None \<Rightarrow>
          let ident = d_next_node d in
          (ident, update_node parent (\<lambda>n. n\<lparr>n_children := n_children n + 1\<rparr>)
             (d\<lparr>d_next_node := ident + 1, d_ids := (d_ids d)(path \<mapsto> ident),
                d_nodes := (d_nodes d)(ident \<mapsto>
                  \<lparr>n_path = path, n_parent = parent, n_lookups = 0, n_handles = 0, n_children = 0\<rparr>)\<rparr>)))"

definition drop_node :: "u64 \<Rightarrow> node_record \<Rightarrow> 'h fs_device \<Rightarrow> 'h fs_device" where
  "drop_node ident n d =
     update_node (n_parent n) (\<lambda>p. p\<lparr>n_children := (if n_children p = 0 then 0 else n_children p - 1)\<rparr>)
       (d\<lparr>d_nodes := (d_nodes d)(ident := None), d_ids := (d_ids d)(n_path n := None)\<rparr>)"

lemma dom_update_node [simp]: "dom (d_nodes (update_node i f d)) = dom (d_nodes d)"
  by (auto simp: update_node_def split: option.splits if_splits)

lemma dom_drop_node [simp]: "dom (d_nodes (drop_node i n d)) = dom (d_nodes d) - {i}"
  by (simp add: drop_node_def)

function collect :: "u64 \<Rightarrow> 'h fs_device \<Rightarrow> 'h fs_device" where
  "collect current d =
     (if current = 1 then d
      else case d_nodes d current of
          None \<Rightarrow> d
        | Some n \<Rightarrow>
            if n_lookups n > 0 \<or> n_handles n > 0 \<or> n_children n > 0 then d
            else collect (n_parent n) (drop_node current n d))"
  by pat_completeness auto

termination collect
  by (relation "measure (\<lambda>(_, d). card (dom (d_nodes d)))") (auto intro!: card_Diff1_less)

declare collect.simps [simp del]

definition forget_node :: "u64 \<Rightarrow> u64 \<Rightarrow> 'h fs_device \<Rightarrow> 'h fs_device" where
  "forget_node ident count d =
     collect ident (update_node ident (\<lambda>n. n\<lparr>n_lookups := (if n_lookups n \<le> count then 0 else n_lookups n - count)\<rparr>) d)"

definition add_handle :: "u64 \<Rightarrow> bool \<Rightarrow> fd option \<Rightarrow> 'h fs_device \<Rightarrow> u64 \<times> 'h fs_device" where
  "add_handle nd directory f d =
     (let fh = d_next_handle d in
      (fh, update_node nd (\<lambda>n. n\<lparr>n_handles := n_handles n + 1\<rparr>)
         (d\<lparr>d_next_handle := fh + 1,
            d_handles := filter (\<lambda>e. fst e \<noteq> fh) (d_handles d) @
              [(fh, \<lparr>h_node = nd, h_directory = directory, h_file = f, h_listing = None\<rparr>)]\<rparr>)))"

definition remove_handle :: "u64 \<Rightarrow> 'h fs_device \<Rightarrow> 'h fs_device" where
  "remove_handle fh d =
     (case map_of (d_handles d) fh of
        None \<Rightarrow> d
      | Some h \<Rightarrow>
          collect (h_node h)
            (update_node (h_node h) (\<lambda>n. n\<lparr>n_handles := (if n_handles n = 0 then 0 else n_handles n - 1)\<rparr>)
              (d\<lparr>d_handles := filter (\<lambda>e. fst e \<noteq> fh) (d_handles d)\<rparr>)))"

subsection \<open>Computations of a request\<close>

type_synonym ('h, 'a) fs = "'h fs_device \<times> bytes \<Rightarrow> (errno + 'a) \<times> 'h fs_device \<times> bytes"

definition fs_give :: "'a \<Rightarrow> ('h, 'a) fs" where
  "fs_give a s = (Inr a, s)"

definition fs_fail :: "errno \<Rightarrow> ('h, 'a) fs" where
  "fs_fail e s = (Inl e, s)"

definition fs_then :: "('h, 'a) fs \<Rightarrow> ('a \<Rightarrow> ('h, 'b) fs) \<Rightarrow> ('h, 'b) fs" where
  "fs_then m k s = (case m s of (Inl e, s1) \<Rightarrow> (Inl e, s1) | (Inr a, s1) \<Rightarrow> k a s1)"

definition fs_read :: "'a reading \<Rightarrow> ('h, 'a) fs" where
  "fs_read r s = (case r (snd s) of Inl e \<Rightarrow> (Inl e, s) | Inr (a, rest) \<Rightarrow> (Inr a, fst s, rest))"

definition fs_get :: "('h fs_device \<Rightarrow> 'a) \<Rightarrow> ('h, 'a) fs" where
  "fs_get f s = (Inr (f (fst s)), s)"

definition fs_set :: "('h fs_device \<Rightarrow> 'h fs_device) \<Rightarrow> ('h, unit) fs" where
  "fs_set f s = (Inr (), f (fst s), snd s)"

definition fs_step :: "('h fs_device \<Rightarrow> 'a \<times> 'h fs_device) \<Rightarrow> ('h, 'a) fs" where
  "fs_step f s = (case f (fst s) of (a, d) \<Rightarrow> (Inr a, d, snd s))"

definition fs_some :: "errno \<Rightarrow> 'a option \<Rightarrow> ('h, 'a) fs" where
  "fs_some e r = (case r of Some a \<Rightarrow> fs_give a | None \<Rightarrow> fs_fail e)"

definition fs_catch :: "('h, 'a) fs \<Rightarrow> ('h, 'a option) fs" where
  "fs_catch m s = (case m s of (Inl e, s1) \<Rightarrow> (Inr None, s1) | (Inr a, s1) \<Rightarrow> (Inr (Some a), s1))"

definition fs_host :: "host_call \<Rightarrow> ('h, 'a) host_op \<Rightarrow> ('h, 'a) fs" where
  "fs_host call run s =
     (case run (d_host (fst s)) of
        (r, h) \<Rightarrow> (map_sum errno_of id r, (fst s)\<lparr>d_host := h, d_calls := d_calls (fst s) @ [call]\<rparr>, snd s))"

definition fs_metadata :: "'h host_fs \<Rightarrow> path \<Rightarrow> ('h, metadata) fs" where
  "fs_metadata hf p = fs_host (CMetadata p) (hf_metadata hf p)"

definition fs_open :: "'h host_fs \<Rightarrow> path \<Rightarrow> open_options \<Rightarrow> ('h, fd) fs" where
  "fs_open hf p opts = (if open_refused opts then fs_fail EINVAL else fs_host (COpen p opts) (hf_open hf p opts))"

definition fs_set_permissions :: "'h host_fs \<Rightarrow> path \<Rightarrow> u32 \<Rightarrow> ('h, unit) fs" where
  "fs_set_permissions hf p mode = fs_host (CSetPermissions p mode) (hf_set_permissions hf p mode)"

definition set_mode :: "'h host_fs \<Rightarrow> path \<Rightarrow> u32 \<Rightarrow> ('h, unit option) fs" where
  "set_mode hf p mode = fs_catch (fs_set_permissions hf p mode)"

definition set_times :: "'h host_fs \<Rightarrow> path \<Rightarrow> set_time \<Rightarrow> set_time \<Rightarrow> ('h, unit) fs" where
  "set_times hf p atime mtime =
     fs_host (CSetTimes p (timespec atime) (timespec mtime)) (hf_set_times hf p (timespec atime) (timespec mtime))"

definition sync_file :: "'h host_fs \<Rightarrow> fd option \<Rightarrow> bool \<Rightarrow> ('h, unit) fs" where
  "sync_file hf f data_only =
     (case f of Some f \<Rightarrow> fs_host (CSync f data_only) (hf_sync hf f data_only) | None \<Rightarrow> fs_give ())"

subsection \<open>Nodes, handles and paths\<close>

definition share_node :: "u64 \<Rightarrow> ('h, node_record) fs" where
  "share_node ident = fs_then (fs_get (\<lambda>d. d_nodes d ident)) (fs_some ENOENT)"

definition share_path :: "u64 \<Rightarrow> ('h, path) fs" where
  "share_path ident = fs_then (share_node ident) (\<lambda>n. fs_give (n_path n))"

definition share_handle :: "u64 \<Rightarrow> bool \<Rightarrow> ('h, handle_record) fs" where
  "share_handle fh directory =
     fs_then (fs_get (\<lambda>d. map_of (d_handles d) fh)) (\<lambda>r. case r of
         Some h \<Rightarrow> if h_directory h = directory then fs_give h else fs_fail EBADF
       | None \<Rightarrow> fs_fail EBADF)"

definition share_file :: "u64 \<Rightarrow> ('h, fd) fs" where
  "share_file fh = fs_then (share_handle fh False) (\<lambda>h. fs_some EBADF (h_file h))"

definition writable :: "('h, unit) fs" where
  "writable = fs_then (fs_get (\<lambda>d. sh_read_only (d_share d))) (\<lambda>ro. if ro then fs_fail EROFS else fs_give ())"

definition starts_with :: "path \<Rightarrow> path \<Rightarrow> bool" where
  "starts_with p root \<longleftrightarrow> take (length root) p = root"

definition child :: "u64 \<Rightarrow> string \<Rightarrow> ('h, path) fs" where
  "child parent name =
     fs_then (share_path parent) (\<lambda>base.
       case validate_name name of
         Inl e \<Rightarrow> fs_fail e
       | Inr nm \<Rightarrow>
           fs_then (fs_get (\<lambda>d. sh_host_path (d_share d))) (\<lambda>root.
             if starts_with (base @ [nm]) root then fs_give (base @ [nm]) else fs_fail EPERM))"

definition write_entry :: "'h host_fs \<Rightarrow> u64 \<Rightarrow> u64 \<Rightarrow> ('h, bytes) fs" where
  "write_entry hf ident validity =
     fs_then (share_path ident) (\<lambda>p. fs_then (fs_metadata hf p) (\<lambda>m.
       fs_then (fs_set (update_node ident (\<lambda>n. n\<lparr>n_lookups := n_lookups n + 1\<rparr>))) (\<lambda>_.
         fs_give (u64_le ident @ u64_le 1 @ u64_le validity @ u64_le validity @ u32_le 0 @ u32_le 0 @
           write_attr (file_attributes ident m)))))"

definition open_file :: "'h host_fs \<Rightarrow> path \<Rightarrow> u32 \<Rightarrow> bool \<Rightarrow> u32 \<Rightarrow> ('h, fd) fs" where
  "open_file hf p flags create mode =
     (let access = flags AND 3;
          opts = \<lparr>o_read = (access = 0 \<or> access = 2), o_write = (access = 1 \<or> access = 2),
            o_append = (flags AND 0x400 \<noteq> 0), o_truncate = (flags AND 0x200 \<noteq> 0), o_create = create,
            o_nofollow = True, o_mode = (if create then Some (mode AND 0x1FF) else None)\<rparr>
      in fs_then (fs_get (\<lambda>d. sh_read_only (d_share d))) (\<lambda>ro.
           if (access \<noteq> 0 \<or> create) \<and> ro then fs_fail EROFS else fs_open hf p opts))"

subsection \<open>The requests\<close>

abbreviation SHARE_VALIDITY :: u64 where "SHARE_VALIDITY \<equiv> 1"

definition add_entry_for :: "'h host_fs \<Rightarrow> path \<Rightarrow> u64 \<Rightarrow> ('h, u64 \<times> bytes) fs" where
  "add_entry_for hf p parent =
     fs_then (fs_step (intern p parent)) (\<lambda>ident.
       fs_then (write_entry hf ident SHARE_VALIDITY) (\<lambda>out. fs_give (ident, out)))"

definition share_lookup :: "'h host_fs \<Rightarrow> u64 \<Rightarrow> ('h, bytes) fs" where
  "share_lookup hf nodeid =
     fs_then (fs_read r_cstring) (\<lambda>name. fs_then (child nodeid name) (\<lambda>p. fs_then (fs_metadata hf p) (\<lambda>_.
       fs_then (add_entry_for hf p nodeid) (\<lambda>r. fs_give (snd r)))))"

definition share_forget :: "u64 \<Rightarrow> ('h, unit) fs" where
  "share_forget nodeid = fs_then (fs_read r_u64) (\<lambda>count. fs_set (forget_node nodeid count))"

primrec forget_each :: "nat \<Rightarrow> ('h, unit) fs" where
  "forget_each 0 = fs_give ()"
| "forget_each (Suc n) =
     fs_then (fs_read r_u64) (\<lambda>ident. fs_then (fs_read r_u64) (\<lambda>lookups.
       fs_then (fs_set (forget_node ident lookups)) (\<lambda>_. forget_each n)))"

definition share_batch_forget :: "('h, unit) fs" where
  "share_batch_forget =
     fs_then (fs_read r_u32) (\<lambda>count. fs_then (fs_read (r_skip 4)) (\<lambda>_. forget_each (unat count)))"

definition write_attributes :: "'h host_fs \<Rightarrow> u64 \<Rightarrow> path \<Rightarrow> ('h, bytes) fs" where
  "write_attributes hf nodeid p =
     fs_then (fs_metadata hf p) (\<lambda>m.
       fs_give (u64_le SHARE_VALIDITY @ u32_le 0 @ u32_le 0 @ write_attr (file_attributes nodeid m)))"

definition share_getattr :: "'h host_fs \<Rightarrow> u64 \<Rightarrow> ('h, bytes) fs" where
  "share_getattr hf nodeid = fs_then (share_path nodeid) (write_attributes hf nodeid)"

definition attr_time :: "u32 \<Rightarrow> u32 \<Rightarrow> u32 \<Rightarrow> u64 \<Rightarrow> u32 \<Rightarrow> set_time" where
  "attr_time valid st now sec nsec =
     (if valid AND st = 0 then Omit else if valid AND now \<noteq> 0 then Now else AtTime sec nsec)"

definition set_size :: "'h host_fs \<Rightarrow> u32 \<Rightarrow> u64 \<Rightarrow> u64 \<Rightarrow> path \<Rightarrow> ('h, unit) fs" where
  "set_size hf valid fh sz p =
     (if valid AND SETATTR_SIZE = 0 then fs_give ()
      else
        fs_then (if valid AND SETATTR_FH = 0
           then fs_open hf p \<lparr>o_read = False, o_write = True, o_append = False, o_truncate = False, o_create = False,
                  o_nofollow = False, o_mode = None\<rparr>
           else share_file fh)
         (\<lambda>f. fs_host (CSetLen f sz) (hf_set_len hf f sz)))"

definition share_setattr :: "'h host_fs \<Rightarrow> u64 \<Rightarrow> ('h, bytes) fs" where
  "share_setattr hf nodeid =
     fs_then (fs_read r_u32) (\<lambda>valid. fs_then (fs_read (r_skip 4)) (\<lambda>_. fs_then (fs_read r_u64) (\<lambda>fh.
     fs_then (fs_read r_u64) (\<lambda>sz. fs_then (fs_read (r_skip 8)) (\<lambda>_. fs_then (fs_read r_u64) (\<lambda>atime_sec.
     fs_then (fs_read r_u64) (\<lambda>mtime_sec. fs_then (fs_read (r_skip 8)) (\<lambda>_. fs_then (fs_read r_u32) (\<lambda>atime_nsec.
     fs_then (fs_read r_u32) (\<lambda>mtime_nsec. fs_then (fs_read (r_skip 4)) (\<lambda>_. fs_then (fs_read r_u32) (\<lambda>mode.
     fs_then (share_path nodeid) (\<lambda>p.
     fs_then (if valid AND (SETATTR_SIZE OR SETATTR_MODE OR SETATTR_ATIME OR SETATTR_MTIME) \<noteq> 0 then writable else fs_give ()) (\<lambda>_.
     fs_then (set_size hf valid fh sz p) (\<lambda>_.
     fs_then (if valid AND SETATTR_MODE \<noteq> 0 then fs_set_permissions hf p (mode AND 0xFFF) else fs_give ()) (\<lambda>_.
     fs_then (if valid AND (SETATTR_ATIME OR SETATTR_MTIME) \<noteq> 0
        then set_times hf p (attr_time valid SETATTR_ATIME SETATTR_ATIME_NOW atime_sec atime_nsec)
               (attr_time valid SETATTR_MTIME SETATTR_MTIME_NOW mtime_sec mtime_nsec)
        else fs_give ()) (\<lambda>_.
     write_attributes hf nodeid p)))))))))))))))))"

definition share_readlink :: "'h host_fs \<Rightarrow> u64 \<Rightarrow> ('h, bytes) fs" where
  "share_readlink hf nodeid =
     fs_then (share_path nodeid) (\<lambda>p. fs_then (fs_host (CReadLink p) (hf_read_link hf p)) (\<lambda>dest.
       fs_give (bytes_of (from_utf8_lossy dest))))"

definition share_symlink :: "'h host_fs \<Rightarrow> u64 \<Rightarrow> ('h, bytes) fs" where
  "share_symlink hf nodeid =
     fs_then writable (\<lambda>_. fs_then (fs_read r_cstring) (\<lambda>name. fs_then (fs_read r_cstring) (\<lambda>dest.
     fs_then (child nodeid name) (\<lambda>p. fs_then (fs_host (CSymlink dest p) (hf_symlink hf dest p)) (\<lambda>_.
     fs_then (add_entry_for hf p nodeid) (\<lambda>r. fs_give (snd r)))))))"

definition share_mkdir :: "'h host_fs \<Rightarrow> u64 \<Rightarrow> ('h, bytes) fs" where
  "share_mkdir hf nodeid =
     fs_then writable (\<lambda>_. fs_then (fs_read r_u32) (\<lambda>mode. fs_then (fs_read r_u32) (\<lambda>umask.
     fs_then (fs_read r_cstring) (\<lambda>name. fs_then (child nodeid name) (\<lambda>p.
     fs_then (fs_host (CCreateDir p) (hf_create_dir hf p)) (\<lambda>_.
     fs_then (set_mode hf p (mode AND NOT umask AND 0xFFF)) (\<lambda>_.
     fs_then (add_entry_for hf p nodeid) (\<lambda>r. fs_give (snd r)))))))))"

definition share_remove :: "'h host_fs \<Rightarrow> bool \<Rightarrow> u64 \<Rightarrow> ('h, unit) fs" where
  "share_remove hf is_unlink nodeid =
     fs_then writable (\<lambda>_. fs_then (fs_read r_cstring) (\<lambda>name. fs_then (child nodeid name) (\<lambda>p.
     fs_then (if is_unlink then fs_host (CRemoveFile p) (hf_remove_file hf p)
              else fs_host (CRemoveDir p) (hf_remove_dir hf p)) (\<lambda>_.
     fs_then (fs_get (\<lambda>d. d_ids d p)) (\<lambda>r.
       case r of Some ident \<Rightarrow> fs_set (forget_node ident (- 1)) | None \<Rightarrow> fs_give ())))))"

definition move_node :: "path \<Rightarrow> path \<Rightarrow> u64 \<Rightarrow> 'h fs_device \<Rightarrow> 'h fs_device" where
  "move_node p1 p2 new_parent d =
     (case d_ids d p1 of
        None \<Rightarrow> d
      | Some ident \<Rightarrow>
          let previous = map_option n_parent (d_nodes d ident);
              d1 = update_node ident (\<lambda>n. n\<lparr>n_path := p2, n_parent := new_parent\<rparr>) (d\<lparr>d_ids := (d_ids d)(p1 := None)\<rparr>);
              d2 = d1\<lparr>d_ids := (d_ids d1)(p2 \<mapsto> ident)\<rparr>
          in if previous = Some new_parent then d2
             else
               let d3 = update_node new_parent (\<lambda>n. n\<lparr>n_children := n_children n + 1\<rparr>) d2 in
               (case previous of
                  None \<Rightarrow> d3
                | Some old \<Rightarrow>
                    collect old (update_node old
                      (\<lambda>n. n\<lparr>n_children := (if n_children n = 0 then 0 else n_children n - 1)\<rparr>) d3)))"

definition share_rename :: "'h host_fs \<Rightarrow> u64 \<Rightarrow> ('h, unit) fs" where
  "share_rename hf nodeid =
     fs_then writable (\<lambda>_. fs_then (fs_read r_u64) (\<lambda>new_parent. fs_then (fs_read r_cstring) (\<lambda>old_name.
     fs_then (fs_read r_cstring) (\<lambda>new_name. fs_then (child nodeid old_name) (\<lambda>p1. fs_then (child new_parent new_name) (\<lambda>p2.
     fs_then (fs_host (CRename p1 p2) (hf_rename hf p1 p2)) (\<lambda>_. fs_set (move_node p1 p2 new_parent))))))))"

definition open_reply :: "u64 \<Rightarrow> bytes" where
  "open_reply fh = u64_le fh @ u32_le 0 @ u32_le (- 1)"

definition share_open :: "'h host_fs \<Rightarrow> u64 \<Rightarrow> ('h, bytes) fs" where
  "share_open hf nodeid =
     fs_then (fs_read r_u32) (\<lambda>flags. fs_then (share_path nodeid) (\<lambda>p. fs_then (open_file hf p flags False 0) (\<lambda>f.
     fs_then (fs_step (add_handle nodeid False (Some f))) (\<lambda>fh. fs_give (open_reply fh)))))"

definition share_opendir :: "'h host_fs \<Rightarrow> u64 \<Rightarrow> ('h, bytes) fs" where
  "share_opendir hf nodeid =
     fs_then (share_path nodeid) (\<lambda>p.
     fs_then (fs_host (CIsDir p) (\<lambda>h. (Inr (hf_is_dir hf p h), h))) (\<lambda>is_dir.
       if \<not> is_dir then fs_fail ENOTDIR
       else fs_then (fs_step (add_handle nodeid True None)) (\<lambda>fh. fs_give (open_reply fh))))"

definition share_create :: "'h host_fs \<Rightarrow> u64 \<Rightarrow> ('h, bytes) fs" where
  "share_create hf nodeid =
     fs_then writable (\<lambda>_. fs_then (fs_read r_u32) (\<lambda>flags. fs_then (fs_read r_u32) (\<lambda>mode.
     fs_then (fs_read r_u32) (\<lambda>umask. fs_then (fs_read (r_skip 4)) (\<lambda>_. fs_then (fs_read r_cstring) (\<lambda>name.
     fs_then (child nodeid name) (\<lambda>p. fs_then (open_file hf p flags True (mode AND NOT umask)) (\<lambda>f.
     fs_then (add_entry_for hf p nodeid) (\<lambda>r. fs_then (fs_step (add_handle (fst r) False (Some f))) (\<lambda>fh.
     fs_give (snd r @ open_reply fh)))))))))))"

function read_file_loop :: "'h host_fs \<Rightarrow> fd \<Rightarrow> nat \<Rightarrow> bytes \<Rightarrow> ('h, bytes) fs" where
  "read_file_loop hf f want acc s =
     (if want \<le> length acc then (Inr acc, s)
      else case fs_host (CRead f (want - length acc)) (hf_read hf f (want - length acc)) s of
          (Inl e, s1) \<Rightarrow> (Inl e, s1)
        | (Inr bs, s1) \<Rightarrow> if bs = [] then (Inr acc, s1) else read_file_loop hf f want (acc @ bs) s1)"
  by pat_completeness auto

termination read_file_loop
proof (relation "measure (\<lambda>(hf, f, want, acc, s). want - length acc)", simp)
  fix f :: fd and want :: nat and acc bs :: bytes and hf :: "'h host_fs" and s s1 :: "'h fs_device \<times> bytes"
  assume "\<not> want \<le> length acc" "bs \<noteq> []"
  then show "((hf, f, want, acc @ bs, s1), hf, f, want, acc, s) \<in> measure (\<lambda>(hf, f, want, acc, s). want - length acc)"
    by (cases bs) auto
qed

declare read_file_loop.simps [simp del]

definition share_read :: "'h host_fs \<Rightarrow> nat \<Rightarrow> ('h, bytes) fs" where
  "share_read hf room =
     fs_then (fs_read r_u64) (\<lambda>fh. fs_then (fs_read r_u64) (\<lambda>offset. fs_then (fs_read r_u32) (\<lambda>sz.
     fs_then (share_file fh) (\<lambda>f. fs_then (fs_host (CSeek f offset) (hf_seek hf f offset)) (\<lambda>_.
     read_file_loop hf f (min (unat sz) room) [])))))"

definition share_write :: "'h host_fs \<Rightarrow> ('h, bytes) fs" where
  "share_write hf =
     fs_then writable (\<lambda>_. fs_then (fs_read r_u64) (\<lambda>fh. fs_then (fs_read r_u64) (\<lambda>offset. fs_then (fs_read r_u32) (\<lambda>sz.
     fs_then (fs_read (r_skip 20)) (\<lambda>_. fs_then (fs_read (r_take (unat sz))) (\<lambda>bs.
     fs_then (share_file fh) (\<lambda>f. fs_then (fs_host (CSeek f offset) (hf_seek hf f offset)) (\<lambda>_.
     fs_then (fs_host (CWriteAll f bs) (hf_write_all hf f bs)) (\<lambda>_.
     fs_give (u32_le (word_of_nat (length bs)) @ u32_le 0))))))))))"

definition share_flush :: "'h host_fs \<Rightarrow> ('h, unit) fs" where
  "share_flush hf =
     fs_then (fs_read r_u64) (\<lambda>fh. fs_then (fs_get (\<lambda>d. map_of (d_handles d) fh)) (\<lambda>r.
       sync_file hf (Option.bind r h_file) True))"

definition share_fsync :: "'h host_fs \<Rightarrow> ('h, unit) fs" where
  "share_fsync hf =
     fs_then (fs_read r_u64) (\<lambda>fh. fs_then (fs_read r_u32) (\<lambda>flags.
     fs_then (fs_get (\<lambda>d. map_of (d_handles d) fh)) (\<lambda>r. sync_file hf (Option.bind r h_file) (flags AND 1 \<noteq> 0))))"

definition share_release :: "bool \<Rightarrow> ('h, unit) fs" where
  "share_release directory =
     fs_then (fs_read r_u64) (\<lambda>fh. fs_then (share_handle fh directory) (\<lambda>_. fs_set (remove_handle fh)))"

subsection \<open>Listing a directory\<close>

fun list_names :: "path \<Rightarrow> (host_error + string) list \<Rightarrow> errno + (string \<times> path) list" where
  "list_names p [] = Inr []"
| "list_names p (Inl e # es) = Inl (errno_of e)"
| "list_names p (Inr name # es) =
     (case list_names p es of
        Inl e \<Rightarrow> Inl e
      | Inr rest \<Rightarrow>
          Inr (if from_utf8_ok name \<and> validate_name name = Inr name then (name, p @ [name]) # rest else rest))"

definition set_listing :: "u64 \<Rightarrow> (string \<times> path) list \<Rightarrow> 'h fs_device \<Rightarrow> 'h fs_device" where
  "set_listing fh listing d =
     d\<lparr>d_handles := map (\<lambda>(k, h). (k, if k = fh then h\<lparr>h_listing := Some listing\<rparr> else h)) (d_handles d)\<rparr>"

definition read_listing :: "'h host_fs \<Rightarrow> u64 \<Rightarrow> path \<Rightarrow> u64 \<Rightarrow> ('h, (string \<times> path) list) fs" where
  "read_listing hf fh p parent =
     fs_then (share_path parent) (\<lambda>up. fs_then (fs_host (CReadDir p) (hf_read_dir hf p)) (\<lambda>es.
       case list_names p es of
         Inl e \<Rightarrow> fs_fail e
       | Inr rest \<Rightarrow>
           let listing = (''.'', p) # (''..'', up) # rest in
           fs_then (fs_set (set_listing fh listing)) (\<lambda>_. fs_give listing)))"

definition cached_listing :: "handle_record option \<Rightarrow> nat \<Rightarrow> (string \<times> path) list option" where
  "cached_listing r offset = (if offset > 0 then Option.bind r h_listing else None)"

fun intern_listing :: "u64 \<Rightarrow> u64 \<Rightarrow> nat \<Rightarrow> nat \<Rightarrow> (string \<times> path) list \<Rightarrow> 'h fs_device
    \<Rightarrow> (string \<times> u64 \<times> path) list \<times> 'h fs_device" where
  "intern_listing nd parent offset index [] d = ([], d)"
| "intern_listing nd parent offset index ((name, p) # rest) d =
     (let (ident, d1) =
          (if index = 0 then (nd, d) else if index = 1 then (parent, d) else if index < offset then (0, d)
           else intern p nd d);
          (es, d2) = intern_listing nd parent offset (index + 1) rest d1
      in ((name, ident, p) # es, d2))"

fun share_dirents :: "'h host_fs \<Rightarrow> nat \<Rightarrow> nat \<Rightarrow> (string \<times> u64 \<times> path) list \<Rightarrow> bytes \<Rightarrow> ('h, bytes) fs" where
  "share_dirents hf limit index [] out = fs_give out"
| "share_dirents hf limit index ((name, ident, p) # es) out =
     (if length out + dirent_length name > limit then fs_give out
      else fs_then (fs_catch (fs_metadata hf p)) (\<lambda>r.
        share_dirents hf limit (index + 1) es
          (case r of Some m \<Rightarrow> write_dirent ident index name (m_mode m) out | None \<Rightarrow> out)))"

definition share_readdir :: "'h host_fs \<Rightarrow> nat \<Rightarrow> ('h, bytes) fs" where
  "share_readdir hf room =
     fs_then (fs_read r_u64) (\<lambda>fh. fs_then (fs_read r_u64) (\<lambda>off. fs_then (fs_read r_u32) (\<lambda>sz.
     fs_then (share_handle fh True) (\<lambda>h. fs_then (share_path (h_node h)) (\<lambda>p. fs_then (share_node (h_node h)) (\<lambda>n.
     fs_then (fs_get (\<lambda>d. cached_listing (map_of (d_handles d) fh) (unat off))) (\<lambda>cached.
     fs_then (case cached of Some l \<Rightarrow> fs_give l | None \<Rightarrow> read_listing hf fh p (n_parent n)) (\<lambda>listing.
     fs_then (fs_step (intern_listing (h_node h) (n_parent n) (unat off) 0 listing)) (\<lambda>entries.
     fs_then (share_dirents hf (min (unat sz) room) (unat off) (drop (unat off) entries) []) (\<lambda>out.
     fs_then (fs_set (fold (\<lambda>(_, ident, _). collect ident) entries)) (\<lambda>_.
     fs_give out)))))))))))"

definition share_statfs :: bytes where
  "share_statfs =
     u64_le 0x1000000 @ u64_le 0x800000 @ u64_le 0x800000 @ u64_le 0x100000 @ u64_le 0x100000 @
     u32_le 4096 @ u32_le 255 @ u32_le 4096 @ u32_le 0 @ replicate 24 0"

definition share_access :: "'h host_fs \<Rightarrow> u64 \<Rightarrow> ('h, unit) fs" where
  "share_access hf nodeid =
     fs_then (fs_read r_u32) (\<lambda>_. fs_then (share_path nodeid) (\<lambda>p. fs_then (fs_metadata hf p) (\<lambda>_. fs_give ())))"

definition share_destroy :: "'h fs_device \<Rightarrow> 'h fs_device" where
  "share_destroy d = fold remove_handle (d_order d (map fst (d_handles d))) d"

definition fs_bytes :: "('h, bytes) fs \<Rightarrow> ('h, bytes option) fs" where
  "fs_bytes m = fs_then m (\<lambda>out. fs_give (Some out))"

definition fs_empty :: "('h, unit) fs \<Rightarrow> ('h, bytes option) fs" where
  "fs_empty m = fs_then m (\<lambda>_. fs_give (Some []))"

definition fs_silent :: "('h, unit) fs \<Rightarrow> ('h, bytes option) fs" where
  "fs_silent m = fs_then m (\<lambda>_. fs_give None)"

definition share_reply :: "'h host_fs \<Rightarrow> u32 \<Rightarrow> u64 \<Rightarrow> nat \<Rightarrow> ('h, bytes option) fs" where
  "share_reply hf opcode nodeid room =
     (if opcode = OP_INIT then fs_bytes (fs_read (fuse_init 0))
      else if opcode = OP_LOOKUP then fs_bytes (share_lookup hf nodeid)
      else if opcode = OP_FORGET then fs_silent (share_forget nodeid)
      else if opcode = OP_BATCH_FORGET then fs_silent share_batch_forget
      else if opcode = OP_GETATTR then fs_bytes (share_getattr hf nodeid)
      else if opcode = OP_SETATTR then fs_bytes (share_setattr hf nodeid)
      else if opcode = OP_READLINK then fs_bytes (share_readlink hf nodeid)
      else if opcode = OP_SYMLINK then fs_bytes (share_symlink hf nodeid)
      else if opcode = OP_MKDIR then fs_bytes (share_mkdir hf nodeid)
      else if opcode = OP_UNLINK \<or> opcode = OP_RMDIR then fs_empty (share_remove hf (opcode = OP_UNLINK) nodeid)
      else if opcode = OP_RENAME then fs_empty (share_rename hf nodeid)
      else if opcode = OP_OPEN then fs_bytes (share_open hf nodeid)
      else if opcode = OP_OPENDIR then fs_bytes (share_opendir hf nodeid)
      else if opcode = OP_CREATE then fs_bytes (share_create hf nodeid)
      else if opcode = OP_READ then fs_bytes (share_read hf room)
      else if opcode = OP_WRITE then fs_bytes (share_write hf)
      else if opcode = OP_FLUSH then fs_empty (share_flush hf)
      else if opcode = OP_FSYNC \<or> opcode = OP_FSYNCDIR then fs_empty (share_fsync hf)
      else if opcode = OP_RELEASE \<or> opcode = OP_RELEASEDIR then fs_empty (share_release (opcode = OP_RELEASEDIR))
      else if opcode = OP_READDIR then fs_bytes (share_readdir hf room)
      else if opcode = OP_STATFS then fs_give (Some share_statfs)
      else if opcode = OP_ACCESS then fs_empty (share_access hf nodeid)
      else if opcode = OP_INTERRUPT then fs_give None
      else if opcode = OP_DESTROY then fs_empty (fs_set share_destroy)
      else fs_fail ENOSYS)"

definition share_process :: "'h host_fs \<Rightarrow> 'h fs_device server" where
  "share_process hf d opcode nodeid body cap =
     (let room = cap - OUT_HEADER_SIZE in
      case share_reply hf opcode nodeid room (d, body) of
        (Inr (Some out), d1, _) \<Rightarrow> (d1, if length out > room then Inl EIO else Inr (Some out))
      | (r, d1, _) \<Rightarrow> (d1, r))"

subsection \<open>Reasoning about requests\<close>

text \<open>
  \<open>fs_ok P m Q\<close>: \<open>m\<close> keeps \<open>P\<close> of the device, also when it fails, and what it returns satisfies \<open>Q\<close>. The rules
  in \<open>fs_rules\<close> follow the structure of a computation.
\<close>

named_theorems fs_rules \<open>what the computations of a request keep\<close>

definition fs_ok :: "('h fs_device \<Rightarrow> bool) \<Rightarrow> ('h, 'a) fs \<Rightarrow> ('a \<Rightarrow> bool) \<Rightarrow> bool" where
  "fs_ok P m Q \<longleftrightarrow> (\<forall>d bs. P d \<longrightarrow> P (fst (snd (m (d, bs)))) \<and> (\<forall>a. fst (m (d, bs)) = Inr a \<longrightarrow> Q a))"

lemma fs_okI: "(\<And>d bs. P d \<Longrightarrow> P (fst (snd (m (d, bs)))) \<and> (\<forall>a. fst (m (d, bs)) = Inr a \<longrightarrow> Q a)) \<Longrightarrow> fs_ok P m Q"
  by (simp add: fs_ok_def)

lemma fs_okD: "fs_ok P m Q \<Longrightarrow> P d \<Longrightarrow> m (d, bs) = (r, d1, bs1) \<Longrightarrow> P d1 \<and> (\<forall>a. r = Inr a \<longrightarrow> Q a)"
  by (metis fs_ok_def fst_conv snd_conv)

lemma fs_ok_weaken: "fs_ok P m Q \<Longrightarrow> (\<And>a. Q a \<Longrightarrow> R a) \<Longrightarrow> fs_ok P m R"
  by (simp add: fs_ok_def)

lemma fs_ok_then [fs_rules]:
  assumes "fs_ok P m Q" "\<And>a. Q a \<Longrightarrow> fs_ok P (k a) R"
  shows "fs_ok P (fs_then m k) R"
proof (rule fs_okI)
  fix d bs assume P: "P d"
  obtain r d1 bs1 where m: "m (d, bs) = (r, d1, bs1)" by (cases "m (d, bs)") auto
  note 1 = fs_okD [OF assms(1) P m]
  show "P (fst (snd (fs_then m k (d, bs)))) \<and> (\<forall>b. fst (fs_then m k (d, bs)) = Inr b \<longrightarrow> R b)"
  proof (cases r)
    case (Inr a)
    then have "fs_ok P (k a) R" using 1 assms(2) by simp
    then show ?thesis using 1 Inr m unfolding fs_then_def fs_ok_def by auto
  qed (use 1 m in \<open>simp add: fs_then_def\<close>)
qed

lemma fs_ok_read: "fs_ok P (fs_read r) (\<lambda>_. True)"
  by (auto simp: fs_ok_def fs_read_def split: sum.splits)

lemma fs_ok_fail [fs_rules]: "fs_ok P (fs_fail e) Q"
  by (simp add: fs_ok_def fs_fail_def)

lemma fs_ok_give: "Q a \<Longrightarrow> fs_ok P (fs_give a) Q"
  by (simp add: fs_ok_def fs_give_def)

lemma fs_ok_get: "(\<And>d. P d \<Longrightarrow> Q (f d)) \<Longrightarrow> fs_ok P (fs_get f) Q"
  by (simp add: fs_ok_def fs_get_def)

lemma fs_ok_set: "(\<And>d. P d \<Longrightarrow> P (f d)) \<Longrightarrow> fs_ok P (fs_set f) (\<lambda>_. True)"
  by (simp add: fs_ok_def fs_set_def)

lemma fs_ok_step: "(\<And>d. P d \<Longrightarrow> P (snd (f d)) \<and> Q (fst (f d))) \<Longrightarrow> fs_ok P (fs_step f) Q"
  by (auto simp: fs_ok_def fs_step_def split: prod.splits) (metis fst_conv snd_conv)+

lemma fs_ok_some: "(\<And>a. r = Some a \<Longrightarrow> Q a) \<Longrightarrow> fs_ok P (fs_some e r) Q"
  by (cases r) (auto simp: fs_some_def fs_ok_give fs_ok_fail)

lemma fs_ok_catch: "fs_ok P m Q \<Longrightarrow> fs_ok P (fs_catch m) (\<lambda>_. True)"
  by (auto simp: fs_ok_def fs_catch_def split: prod.splits sum.splits) (metis fst_conv snd_conv)+

lemma fs_ok_if [fs_rules]: "(b \<Longrightarrow> fs_ok P m Q) \<Longrightarrow> (\<not> b \<Longrightarrow> fs_ok P m' Q) \<Longrightarrow> fs_ok P (if b then m else m') Q"
  by simp

subsection \<open>What the guest can reach\<close>

text \<open>
  A path under a folder continues it by names that do not leave it. A call is within a share when its paths
  are under the share's folder and, if the share is read-only, the call changes nothing on the host.
\<close>

definition under :: "path \<Rightarrow> path \<Rightarrow> bool" where
  "under root p \<longleftrightarrow> starts_with p root \<and> list_all (\<lambda>n. validate_name n = Inr n) (drop (length root) p)"

fun paths_of :: "host_call \<Rightarrow> path list" where
  "paths_of (CMetadata p) = [p]"
| "paths_of (CIsDir p) = [p]"
| "paths_of (COpen p _) = [p]"
| "paths_of (CSetPermissions p _) = [p]"
| "paths_of (CSetTimes p _ _) = [p]"
| "paths_of (CReadLink p) = [p]"
| "paths_of (CSymlink _ p) = [p]"
| "paths_of (CCreateDir p) = [p]"
| "paths_of (CRemoveFile p) = [p]"
| "paths_of (CRemoveDir p) = [p]"
| "paths_of (CRename p1 p2) = [p1, p2]"
| "paths_of (CReadDir p) = [p]"
| "paths_of _ = []"

fun changes :: "host_call \<Rightarrow> bool" where
  "changes (COpen _ opts) = (o_truncate opts \<or> o_create opts)"
| "changes (CMetadata _) = False"
| "changes (CIsDir _) = False"
| "changes (CReadLink _) = False"
| "changes (CSeek _ _) = False"
| "changes (CRead _ _) = False"
| "changes (CSync _ _) = False"
| "changes (CReadDir _) = False"
| "changes _ = True"

definition within :: "share \<Rightarrow> host_call \<Rightarrow> bool" where
  "within sh c \<longleftrightarrow> list_all (under (sh_host_path sh)) (paths_of c) \<and> (sh_read_only sh \<longrightarrow> \<not> changes c)"

definition share_ok :: "share \<Rightarrow> 'h fs_device \<Rightarrow> bool" where
  "share_ok sh d \<longleftrightarrow> d_share d = sh \<and> (\<forall>n\<in>ran (d_nodes d). under (sh_host_path sh) (n_path n)) \<and>
     list_all (\<lambda>(_, h). \<forall>l. h_listing h = Some l \<longrightarrow> list_all (under (sh_host_path sh) \<circ> snd) l) (d_handles d) \<and>
     list_all (within sh) (d_calls d)"

lemma under_iff: "under root p \<longleftrightarrow> (\<exists>ns. p = root @ ns \<and> list_all (\<lambda>n. validate_name n = Inr n) ns)"
proof
  assume "under root p"
  then show "\<exists>ns. p = root @ ns \<and> list_all (\<lambda>n. validate_name n = Inr n) ns"
    unfolding under_def starts_with_def by (metis append_take_drop_id)
qed (auto simp: under_def starts_with_def)

lemma under_child:
  "under root p \<Longrightarrow> validate_name n = Inr n \<Longrightarrow> under root (p @ [n])"
  by (auto simp: under_iff)

lemma validate_name_same: "validate_name n = Inr m \<Longrightarrow> m = n"
  by (auto simp: validate_name_def split: if_splits)

lemma ok_node: "share_ok sh d \<Longrightarrow> d_nodes d i = Some n \<Longrightarrow> under (sh_host_path sh) (n_path n)"
  by (auto simp: share_ok_def ran_def)

lemma ok_same:
  assumes "share_ok sh d" "d_share d' = d_share d" "d_handles d' = d_handles d" "d_calls d' = d_calls d"
    and "\<And>i n. d_nodes d' i = Some n \<Longrightarrow> under (sh_host_path sh) (n_path n)"
  shows "share_ok sh d'"
  using assms by (auto simp: share_ok_def ran_def)

lemma ok_update_node:
  assumes "share_ok sh d" "\<And>n. d_nodes d i = Some n \<Longrightarrow> under (sh_host_path sh) (n_path (f n))"
  shows "share_ok sh (update_node i f d)"
  by (rule ok_same [OF assms(1)]) (use ok_node [OF assms(1)] assms(2) in \<open>auto simp: update_node_def split: option.splits if_splits\<close>)

lemma ok_update_counters:
  "share_ok sh d \<Longrightarrow> (\<And>n. n_path (f n) = n_path n) \<Longrightarrow> share_ok sh (update_node i f d)"
  by (rule ok_update_node) (auto dest: ok_node)

lemma ok_ids [simp]: "share_ok sh (d\<lparr>d_ids := x\<rparr>) = share_ok sh d" "share_ok sh (d\<lparr>d_next_node := i\<rparr>) = share_ok sh d"
  "share_ok sh (d\<lparr>d_next_handle := i\<rparr>) = share_ok sh d" "share_ok sh (d\<lparr>d_host := h\<rparr>) = share_ok sh d"
  by (simp_all add: share_ok_def)

lemma ok_intern:
  assumes "share_ok sh d" "under (sh_host_path sh) p"
  shows "share_ok sh (snd (intern p parent d))"
proof (cases "d_ids d p")
  case None
  let ?d = "d\<lparr>d_next_node := d_next_node d + 1, d_ids := (d_ids d)(p \<mapsto> d_next_node d), d_nodes := (d_nodes d)(d_next_node d \<mapsto>
      \<lparr>n_path = p, n_parent = parent, n_lookups = 0, n_handles = 0, n_children = 0\<rparr>)\<rparr>"
  have "share_ok sh ?d"
    by (rule ok_same [OF assms(1)]) (use assms ok_node [OF assms(1)] in \<open>auto split: if_splits\<close>)
  then show ?thesis using None by (simp add: intern_def Let_def ok_update_counters)
qed (use assms in \<open>simp add: intern_def\<close>)

lemma ok_drop_node: "share_ok sh d \<Longrightarrow> share_ok sh (drop_node i n d)"
  unfolding drop_node_def
proof (rule ok_update_counters)
  assume ok: "share_ok sh d"
  show "share_ok sh (d\<lparr>d_nodes := (d_nodes d)(i := None), d_ids := (d_ids d)(n_path n := None)\<rparr>)"
    by (rule ok_same [OF ok]) (use ok_node [OF ok] in \<open>auto split: if_splits\<close>)
qed simp

lemma ok_collect: "share_ok sh d \<Longrightarrow> share_ok sh (collect i d)"
proof (induction i d rule: collect.induct)
  case (1 current d)
  show ?case
  proof (cases "d_nodes d current")
    case (Some n)
    then show ?thesis
      using 1 ok_drop_node [OF 1(2), of current n] unfolding collect.simps [of current d] by simp
  qed (use 1(2) in \<open>simp add: collect.simps [of current d]\<close>)
qed

lemma ok_forget_node: "share_ok sh d \<Longrightarrow> share_ok sh (forget_node i c d)"
  by (simp add: forget_node_def ok_collect ok_update_counters)

lemma ok_handles:
  assumes "share_ok sh d" "set hs \<subseteq> set (d_handles d) \<union> {(fh, h)}" "h_listing h = None"
  shows "share_ok sh (d\<lparr>d_handles := hs\<rparr>)"
  using assms by (fastforce simp: share_ok_def list_all_iff)

lemma ok_add_handle: "share_ok sh d \<Longrightarrow> share_ok sh (snd (add_handle nd directory f d))"
  unfolding add_handle_def Let_def snd_conv
  by (rule ok_update_counters) (auto intro!: ok_handles)

lemma ok_remove_handle: "share_ok sh d \<Longrightarrow> share_ok sh (remove_handle fh d)"
  by (auto simp: remove_handle_def split: option.splits
      intro!: ok_collect ok_update_counters ok_handles [where h = "\<lparr>h_node = 0, h_directory = False, h_file = None, h_listing = None\<rparr>"])

lemma ok_move_node: "share_ok sh d \<Longrightarrow> under (sh_host_path sh) p2 \<Longrightarrow> share_ok sh (move_node p1 p2 new_parent d)"
  by (auto simp: move_node_def Let_def ok_update_counters ok_update_node ok_collect split: option.splits)

lemma ok_fold: "(\<And>x d. share_ok sh d \<Longrightarrow> share_ok sh (f x d)) \<Longrightarrow> share_ok sh d \<Longrightarrow> share_ok sh (fold f xs d)"
  by (induction xs arbitrary: d) auto

subsection \<open>Every request stays within the share\<close>

lemma host_ok: "within sh call \<Longrightarrow> fs_ok (share_ok sh) (fs_host call run) (\<lambda>_. True)"
  by (auto simp: fs_ok_def fs_host_def share_ok_def split: prod.splits)

lemma metadata_ok [fs_rules]: "under (sh_host_path sh) p \<Longrightarrow> fs_ok (share_ok sh) (fs_metadata hf p) (\<lambda>_. True)"
  by (simp add: fs_metadata_def host_ok within_def)

lemma catch_metadata_ok [fs_rules]:
  "under (sh_host_path sh) p \<Longrightarrow> fs_ok (share_ok sh) (fs_catch (fs_metadata hf p)) (\<lambda>_. True)"
  by (rule fs_ok_catch [OF metadata_ok])

lemma node_ok [fs_rules]: "fs_ok (share_ok sh) (share_node i) (\<lambda>n. under (sh_host_path sh) (n_path n))"
  unfolding share_node_def
  by (rule fs_ok_then [OF fs_ok_get [where Q = "\<lambda>r. \<forall>n. r = Some n \<longrightarrow> under (sh_host_path sh) (n_path n)"]])
    (auto dest: ok_node intro: fs_ok_some)

lemma path_ok [fs_rules]: "fs_ok (share_ok sh) (share_path i) (under (sh_host_path sh))"
  unfolding share_path_def by (rule fs_ok_then [OF node_ok fs_ok_give])

lemma handle_ok [fs_rules]: "fs_ok (share_ok sh) (share_handle fh directory) (\<lambda>_. True)"
  unfolding share_handle_def
  by (rule fs_ok_then [OF fs_ok_get]) (auto simp: fs_ok_give fs_ok_fail split: option.splits)

lemma file_ok [fs_rules]: "fs_ok (share_ok sh) (share_file fh) (\<lambda>_. True)"
  unfolding share_file_def by (rule fs_ok_then [OF handle_ok fs_ok_some]) simp

lemma writable_ok [fs_rules]: "fs_ok (share_ok sh) writable (\<lambda>_. \<not> sh_read_only sh)"
  unfolding writable_def
  by (rule fs_ok_then [OF fs_ok_get [where Q = "\<lambda>ro. ro = sh_read_only sh"]])
    (auto simp: share_ok_def intro: fs_ok_give fs_ok_fail)

lemma child_ok [fs_rules]: "fs_ok (share_ok sh) (child parent name) (under (sh_host_path sh))"
  unfolding child_def
proof (rule fs_ok_then [OF path_ok])
  fix base assume "under (sh_host_path sh) base"
  then show "fs_ok (share_ok sh) (case validate_name name of Inl e \<Rightarrow> fs_fail e
      | Inr nm \<Rightarrow> fs_then (fs_get (\<lambda>d. sh_host_path (d_share d))) (\<lambda>root.
          if starts_with (base @ [nm]) root then fs_give (base @ [nm]) else fs_fail EPERM)) (under (sh_host_path sh))"
    using validate_name_same [of name] under_child [of "sh_host_path sh" base name]
    by (cases "validate_name name")
      (auto intro!: fs_ok_fail fs_ok_then [OF fs_ok_get [where Q = "\<lambda>_. True"]] fs_ok_give)
qed

lemma write_entry_ok [fs_rules]: "fs_ok (share_ok sh) (write_entry hf i v) (\<lambda>_. True)"
  unfolding write_entry_def by (assumption | rule fs_rules fs_ok_set fs_ok_give ok_update_counters | simp)+

lemma open_ok:
  "under (sh_host_path sh) p \<Longrightarrow> (sh_read_only sh \<Longrightarrow> \<not> open_refused opts \<Longrightarrow> \<not> o_truncate opts \<and> \<not> o_create opts) \<Longrightarrow>
    fs_ok (share_ok sh) (fs_open hf p opts) (\<lambda>_. True)"
  by (auto simp: fs_open_def fs_ok_fail within_def intro!: host_ok)

lemma open_file_ok [fs_rules]: "under (sh_host_path sh) p \<Longrightarrow> fs_ok (share_ok sh) (open_file hf p flags create mode) (\<lambda>_. True)"
  unfolding open_file_def Let_def
  by (rule fs_ok_then [OF fs_ok_get [where Q = "\<lambda>ro. ro = sh_read_only sh"]])
    (auto simp: share_ok_def open_refused_def split: if_splits intro!: fs_ok_fail open_ok)

lemma add_entry_for_ok [fs_rules]: "under (sh_host_path sh) p \<Longrightarrow> fs_ok (share_ok sh) (add_entry_for hf p parent) (\<lambda>_. True)"
  unfolding add_entry_for_def
  by (rule fs_rules fs_ok_give fs_ok_step [where Q = "\<lambda>_. True"] | simp add: ok_intern)+

lemma add_handle_step_ok [fs_rules]: "fs_ok (share_ok sh) (fs_step (add_handle nd directory f)) (\<lambda>_. True)"
  by (rule fs_ok_step) (simp add: ok_add_handle)

lemmas plain_rules = fs_rules fs_ok_read fs_ok_give TrueI

lemma lookup_ok: "fs_ok (share_ok sh) (share_lookup hf i) (\<lambda>_. True)"
  unfolding share_lookup_def by (assumption | rule plain_rules)+

lemma forget_ok: "fs_ok (share_ok sh) (share_forget i) (\<lambda>_. True)"
  unfolding share_forget_def by (assumption | rule plain_rules fs_ok_set ok_forget_node)+

lemma forget_each_ok: "fs_ok (share_ok sh) (forget_each n) (\<lambda>_. True)"
  by (induction n) (auto intro!: plain_rules fs_ok_set ok_forget_node)

lemma batch_forget_ok: "fs_ok (share_ok sh) share_batch_forget (\<lambda>_. True)"
  unfolding share_batch_forget_def by (assumption | rule plain_rules forget_each_ok)+

lemma write_attributes_ok [fs_rules]: "under (sh_host_path sh) p \<Longrightarrow> fs_ok (share_ok sh) (write_attributes hf i p) (\<lambda>_. True)"
  unfolding write_attributes_def by (assumption | rule plain_rules)+

lemma getattr_ok: "fs_ok (share_ok sh) (share_getattr hf i) (\<lambda>_. True)"
  unfolding share_getattr_def by (rule fs_ok_then [OF path_ok write_attributes_ok])

lemma readlink_ok: "fs_ok (share_ok sh) (share_readlink hf i) (\<lambda>_. True)"
  unfolding share_readlink_def by (assumption | rule plain_rules host_ok | simp add: within_def)+

lemma symlink_ok: "fs_ok (share_ok sh) (share_symlink hf i) (\<lambda>_. True)"
  unfolding share_symlink_def by (assumption | rule plain_rules host_ok | simp add: within_def)+

lemma mkdir_ok: "fs_ok (share_ok sh) (share_mkdir hf i) (\<lambda>_. True)"
  unfolding share_mkdir_def set_mode_def fs_set_permissions_def
  by (assumption | rule plain_rules host_ok fs_ok_catch | simp add: within_def)+

lemma forget_known_ok:
  "fs_ok (share_ok sh) (case r of Some i \<Rightarrow> fs_set (forget_node i c) | None \<Rightarrow> fs_give ()) (\<lambda>_. True)"
  by (cases r) (auto intro!: fs_ok_set ok_forget_node fs_ok_give)

lemma remove_call_ok [fs_rules]:
  "\<not> sh_read_only sh \<Longrightarrow> under (sh_host_path sh) p \<Longrightarrow>
    fs_ok (share_ok sh) (if b then fs_host (CRemoveFile p) f else fs_host (CRemoveDir p) g) (\<lambda>_. True)"
  by (simp add: host_ok within_def)

lemma remove_ok: "fs_ok (share_ok sh) (share_remove hf is_unlink i) (\<lambda>_. True)"
  unfolding share_remove_def
  by (assumption | rule remove_call_ok plain_rules fs_ok_get [where Q = "\<lambda>_. True"] forget_known_ok)+

lemma rename_ok: "fs_ok (share_ok sh) (share_rename hf i) (\<lambda>_. True)"
  unfolding share_rename_def by (assumption | rule plain_rules host_ok fs_ok_set ok_move_node | simp add: within_def)+

lemma open_request_ok: "fs_ok (share_ok sh) (share_open hf i) (\<lambda>_. True)"
  unfolding share_open_def by (assumption | rule plain_rules)+

lemma opendir_ok: "fs_ok (share_ok sh) (share_opendir hf i) (\<lambda>_. True)"
  unfolding share_opendir_def by (assumption | rule plain_rules host_ok | simp add: within_def)+

lemma create_ok: "fs_ok (share_ok sh) (share_create hf i) (\<lambda>_. True)"
  unfolding share_create_def by (assumption | rule plain_rules)+

lemma read_loop_ok: "fs_ok (share_ok sh) (read_file_loop hf f want acc) (\<lambda>_. True)"
proof (rule fs_okI, goal_cases)
  case (1 d bs)
  then show ?case
  proof (induction hf f want acc "(d, bs)" arbitrary: d bs rule: read_file_loop.induct)
    case (1 hf f want acc)
    have "fs_ok (share_ok sh) (fs_host (CRead f (want - length acc)) (hf_read hf f (want - length acc))) (\<lambda>_. True)"
      by (rule host_ok) (simp add: within_def)
    from fs_okD [OF this 1(2)] 1 show ?case
      by (subst (1 2) read_file_loop.simps) (auto split: prod.splits sum.splits)
  qed
qed

lemma read_ok: "fs_ok (share_ok sh) (share_read hf room) (\<lambda>_. True)"
  unfolding share_read_def by (assumption | rule plain_rules host_ok read_loop_ok | simp add: within_def)+

lemma write_ok: "fs_ok (share_ok sh) (share_write hf) (\<lambda>_. True)"
  unfolding share_write_def by (assumption | rule plain_rules host_ok | simp add: within_def)+

lemma sync_ok [fs_rules]: "fs_ok (share_ok sh) (sync_file hf f data_only) (\<lambda>_. True)"
  unfolding sync_file_def by (cases f) (auto simp: within_def intro!: host_ok fs_ok_give)

lemma flush_ok: "fs_ok (share_ok sh) (share_flush hf) (\<lambda>_. True)" "fs_ok (share_ok sh) (share_fsync hf) (\<lambda>_. True)"
  unfolding share_flush_def share_fsync_def by (assumption | rule plain_rules sync_ok fs_ok_get [where Q = "\<lambda>_. True"])+

lemma release_ok: "fs_ok (share_ok sh) (share_release directory) (\<lambda>_. True)"
  unfolding share_release_def by (assumption | rule plain_rules fs_ok_set ok_remove_handle)+

lemma access_ok: "fs_ok (share_ok sh) (share_access hf i) (\<lambda>_. True)"
  unfolding share_access_def by (assumption | rule plain_rules)+

lemma destroy_ok: "fs_ok (share_ok sh) (fs_set share_destroy) (\<lambda>_. True)"
  by (rule fs_ok_set) (simp add: share_destroy_def ok_fold ok_remove_handle)

subsubsection \<open>SETATTR\<close>

lemma valid_bits:
  "valid AND (SETATTR_SIZE OR SETATTR_MODE OR SETATTR_ATIME OR SETATTR_MTIME) = 0 \<Longrightarrow>
    valid AND SETATTR_SIZE = 0 \<and> valid AND SETATTR_MODE = 0 \<and> valid AND (SETATTR_ATIME OR SETATTR_MTIME) = 0" for valid :: u32
  unfolding bit.conj_disj_distrib by (simp add: or_eq_0_iff)

lemma guard_ok [fs_rules]:
  "fs_ok (share_ok sh) (if valid AND (SETATTR_SIZE OR SETATTR_MODE OR SETATTR_ATIME OR SETATTR_MTIME) \<noteq> 0 then writable else fs_give ())
     (\<lambda>_. sh_read_only sh \<longrightarrow> valid AND SETATTR_SIZE = 0 \<and> valid AND SETATTR_MODE = 0 \<and> valid AND (SETATTR_ATIME OR SETATTR_MTIME) = 0)"
proof (rule fs_ok_if)
  show "fs_ok (share_ok sh) writable
     (\<lambda>_. sh_read_only sh \<longrightarrow> valid AND SETATTR_SIZE = 0 \<and> valid AND SETATTR_MODE = 0 \<and> valid AND (SETATTR_ATIME OR SETATTR_MTIME) = 0)"
    by (rule fs_ok_weaken [OF writable_ok]) simp
qed (use valid_bits [of valid] in \<open>auto intro!: fs_ok_give\<close>)

lemma set_size_ok:
  assumes "under (sh_host_path sh) p" "sh_read_only sh \<longrightarrow> valid AND SETATTR_SIZE = 0"
  shows "fs_ok (share_ok sh) (set_size hf valid fh sz p) (\<lambda>_. True)"
  unfolding set_size_def
  by (rule fs_ok_if fs_ok_give TrueI fs_ok_then host_ok file_ok open_ok | use assms in \<open>simp add: within_def\<close>)+

lemma set_mode_ok:
  "under (sh_host_path sh) p \<Longrightarrow> sh_read_only sh \<longrightarrow> \<not> b \<Longrightarrow>
    fs_ok (share_ok sh) (if b then fs_set_permissions hf p m else fs_give ()) (\<lambda>_. True)"
  by (auto simp: fs_set_permissions_def within_def intro!: host_ok fs_ok_give)

lemma set_times_ok:
  "under (sh_host_path sh) p \<Longrightarrow> sh_read_only sh \<longrightarrow> \<not> b \<Longrightarrow>
    fs_ok (share_ok sh) (if b then set_times hf p t1 t2 else fs_give ()) (\<lambda>_. True)"
  by (auto simp: set_times_def within_def intro!: host_ok fs_ok_give)

lemma setattr_ok: "fs_ok (share_ok sh) (share_setattr hf i) (\<lambda>_. True)"
  unfolding share_setattr_def
  by (assumption | rule guard_ok set_size_ok set_mode_ok set_times_ok fs_ok_read path_ok write_attributes_ok fs_ok_then | simp)+

subsubsection \<open>READDIR\<close>

lemma list_names_under:
  "list_names p es = Inr l \<Longrightarrow> under root p \<Longrightarrow> list_all (under root \<circ> snd) l"
  by (induction p es arbitrary: l rule: list_names.induct) (auto simp: under_child split: sum.splits if_splits)

lemma set_listing_ok:
  "share_ok sh d \<Longrightarrow> list_all (under (sh_host_path sh) \<circ> snd) l \<Longrightarrow> share_ok sh (set_listing fh l d)"
  by (fastforce simp: share_ok_def set_listing_def list_all_iff split: if_splits)

lemma read_listing_ok:
  assumes "under (sh_host_path sh) p"
  shows "fs_ok (share_ok sh) (read_listing hf fh p parent) (list_all (under (sh_host_path sh) \<circ> snd))"
  unfolding read_listing_def
proof (rule fs_ok_then [OF path_ok], rule fs_ok_then [OF host_ok])
  fix up es assume up: "under (sh_host_path sh) up"
  show "fs_ok (share_ok sh) (case list_names p es of Inl e \<Rightarrow> fs_fail e
      | Inr rest \<Rightarrow> let listing = (''.'', p) # (''..'', up) # rest in
           fs_then (fs_set (set_listing fh listing)) (\<lambda>_. fs_give listing)) (list_all (under (sh_host_path sh) \<circ> snd))"
  proof (cases "list_names p es")
    case (Inr rest)
    then have "list_all (under (sh_host_path sh) \<circ> snd) ((''.'', p) # (''..'', up) # rest)"
      using assms up list_names_under [OF Inr] by simp
    then show ?thesis
      unfolding Inr sum.case Let_def by (intro fs_ok_then [OF fs_ok_set] set_listing_ok fs_ok_give) assumption+
  qed (simp add: fs_ok_fail)
qed (use assms in \<open>simp add: within_def\<close>)

lemma intern_listing_ok:
  "share_ok sh d \<Longrightarrow> list_all (under (sh_host_path sh) \<circ> snd) l \<Longrightarrow> intern_listing nd parent offset index l d = (es, d') \<Longrightarrow>
    share_ok sh d' \<and> list_all (\<lambda>(_, _, p). under (sh_host_path sh) p) es"
proof (induction nd parent offset index l d arbitrary: es d' rule: intern_listing.induct)
  case (2 nd parent offset index name p rest d)
  obtain ident d1 where i: "(if index = 0 then (nd, d) else if index = 1 then (parent, d) else if index < offset then (0, d)
      else intern p nd d) = (ident, d1)" by fastforce
  obtain es2 d2 where r: "intern_listing nd parent offset (index + 1) rest d1 = (es2, d2)" by fastforce
  have "share_ok sh d1" using i 2(2,3) ok_intern [OF 2(2), of p nd] by (auto split: if_splits)
  from 2(1) [OF i [symmetric] refl this _ r] 2(3,4) i r show ?case by auto
qed simp

lemma dirents_ok:
  "list_all (\<lambda>(_, _, p). under (sh_host_path sh) p) es \<Longrightarrow> fs_ok (share_ok sh) (share_dirents hf limit index es out) (\<lambda>_. True)"
  by (induction hf limit index es out rule: share_dirents.induct)
    (auto intro!: fs_ok_give fs_ok_then [OF catch_metadata_ok])

lemma cached_ok: "share_ok sh d \<Longrightarrow> cached_listing (map_of (d_handles d) fh) n = Some l \<Longrightarrow> list_all (under (sh_host_path sh) \<circ> snd) l"
  by (fastforce simp: share_ok_def cached_listing_def list_all_iff bind_eq_Some_conv split: if_splits dest!: map_of_SomeD)

lemma listing_ok:
  "under (sh_host_path sh) p \<Longrightarrow> \<forall>l. cached = Some l \<longrightarrow> list_all (under (sh_host_path sh) \<circ> snd) l \<Longrightarrow>
    fs_ok (share_ok sh) (case cached of Some l \<Rightarrow> fs_give l | None \<Rightarrow> read_listing hf fh p parent)
      (list_all (under (sh_host_path sh) \<circ> snd))"
  by (cases cached) (auto intro: fs_ok_give read_listing_ok)

lemma intern_step_ok:
  "list_all (under (sh_host_path sh) \<circ> snd) l \<Longrightarrow>
    fs_ok (share_ok sh) (fs_step (intern_listing nd parent offset index l)) (list_all (\<lambda>(_, _, p). under (sh_host_path sh) p))"
  by (rule fs_ok_step) (metis intern_listing_ok prod.collapse)

lemma collect_fold_ok: "share_ok sh d \<Longrightarrow> share_ok sh (fold (\<lambda>(_, ident, _). collect ident) es d)"
  by (rule ok_fold) (auto intro: ok_collect)

lemma drop_all: "list_all P xs \<Longrightarrow> list_all P (drop n xs)"
  by (auto simp: list_all_iff dest: in_set_dropD)

lemma readdir_ok: "fs_ok (share_ok sh) (share_readdir hf room) (\<lambda>_. True)"
  unfolding share_readdir_def
  by (assumption | rule fs_ok_read handle_ok path_ok node_ok listing_ok intern_step_ok dirents_ok drop_all fs_ok_set collect_fold_ok
      fs_ok_get [where Q = "\<lambda>c. \<forall>l. c = Some l \<longrightarrow> list_all (under (sh_host_path sh) \<circ> snd) l"] fs_ok_give TrueI fs_ok_then
      | use cached_ok in blast)+

subsubsection \<open>The whole server\<close>

lemma reply_kinds_ok:
  "fs_ok P m (\<lambda>_. True) \<Longrightarrow> fs_ok P (fs_bytes m) (\<lambda>_. True)"
  "fs_ok P u (\<lambda>_. True) \<Longrightarrow> fs_ok P (fs_empty u) (\<lambda>_. True)"
  "fs_ok P u (\<lambda>_. True) \<Longrightarrow> fs_ok P (fs_silent u) (\<lambda>_. True)"
  unfolding fs_bytes_def fs_empty_def fs_silent_def by (auto intro!: fs_ok_then fs_ok_give)

lemma share_reply_ok: "fs_ok (share_ok sh) (share_reply hf opcode nodeid room) (\<lambda>_. True)"
  unfolding share_reply_def
  by (rule fs_ok_if reply_kinds_ok fs_ok_read lookup_ok forget_ok batch_forget_ok getattr_ok setattr_ok readlink_ok symlink_ok mkdir_ok
      remove_ok rename_ok open_request_ok opendir_ok create_ok read_ok write_ok flush_ok release_ok readdir_ok access_ok destroy_ok
      fs_ok_give fs_ok_fail TrueI)+

lemma share_process_ok: "share_ok sh d \<Longrightarrow> share_process hf d opcode nodeid body cap = (d', r) \<Longrightarrow> share_ok sh d'"
  using share_reply_ok [of sh hf opcode nodeid "cap - OUT_HEADER_SIZE"]
  by (auto simp: share_process_def fs_ok_def Let_def split: prod.splits sum.splits option.splits) (metis fst_conv snd_conv)+

interpretation share_server: fuse_server "share_process hf" "share_ok sh" for hf sh
proof unfold_locales
  fix d opcode nodeid body cap d' r
  assume "share_ok sh d" "share_process hf d opcode nodeid body cap = (d', r)"
  then show "share_ok sh d'" by (rule share_process_ok)
next
  fix d opcode nodeid body cap d' payload
  assume "share_process hf d opcode nodeid body cap = (d', Inr (Some payload))"
  then show "length payload \<le> cap - OUT_HEADER_SIZE"
    by (auto simp: share_process_def Let_def split: prod.splits sum.splits option.splits if_splits)
qed

text \<open>A device at work: the guest's requests, and whatever else happens on the host in between.\<close>

inductive share_run :: "'h host_fs \<Rightarrow> 'h fs_device \<Rightarrow> 'h fs_device \<Rightarrow> bool" for hf d0 where
  start: "share_run hf d0 d0"
| request: "share_run hf d0 d \<Longrightarrow> share_process hf d opcode nodeid body cap = (d', r) \<Longrightarrow> share_run hf d0 d'"
| elsewhere: "share_run hf d0 d \<Longrightarrow> share_run hf d0 (d\<lparr>d_host := h\<rparr>)"

lemma share_run_ok: "share_run hf d0 d \<Longrightarrow> share_ok sh d0 \<Longrightarrow> share_ok sh d"
  by (induction rule: share_run.induct) (auto intro: share_process_ok)

lemma device_new_ok: "device_new hf share order h = Inr d \<Longrightarrow> share_ok (d_share d) d \<and> sh_read_only (d_share d) = sh_read_only share"
  by (auto simp: device_new_def share_ok_def under_def starts_with_def split: if_splits sum.splits prod.splits)

subsection \<open>A host for examples\<close>

text \<open>Fields encoded and decoded on words instead of natural numbers, for evaluation.\<close>

primrec word_le :: "nat \<Rightarrow> 'a::len word \<Rightarrow> bytes" where
  "word_le 0 w = []"
| "word_le (Suc n) w = ucast w # word_le n (drop_bit 8 w)"

primrec word_from :: "bytes \<Rightarrow> 'a::len word" where
  "word_from [] = 0"
| "word_from (b # bs) = ucast b + 256 * word_from bs"

lemma word_le_to_le: "to_le n (unat w) = word_le n w"
proof (induction n arbitrary: w)
  case (Suc n)
  have "unat w div 256 = unat (drop_bit 8 w)" unfolding unat_drop_bit_eq by (simp add: drop_bit_eq_div)
  then show ?case by (simp only: to_le.simps word_le.simps Suc) simp
qed simp

lemma word_from_le: "word_of_nat (from_le bs) = word_from bs"
  by (induction bs) (simp_all add: of_nat_unat)

lemma codecs_on_words [code]:
  "u32_le w = word_le 4 w" "u64_le x = word_le 8 x" "le32_at i bs = word_from (bslice i 4 bs)" "le64_at i bs = word_from (bslice i 8 bs)"
  by (simp_all add: u32_le_def u64_le_def le32_at_def le64_at_def word_le_to_le word_from_le)

text \<open>One file with its contents and position; everything else succeeds.\<close>

definition sample_metadata :: metadata where
  "sample_metadata = \<lparr>m_len = 3, m_mode = 0x81A4, m_nlink = 1, m_accessed = Some (0, 0), m_modified = Some (0, 0)\<rparr>"

definition write_at :: "nat \<Rightarrow> bytes \<Rightarrow> bytes \<Rightarrow> bytes" where
  "write_at pos bs c = take pos c @ replicate (pos - length c) 0 @ bs @ drop (pos + length bs) c"

definition sample_host :: "(bytes \<times> nat) host_fs" where
  "sample_host =
     \<lparr>hf_canonicalize = (\<lambda>p h. (Inr p, h)), hf_is_dir = (\<lambda>p h. True), hf_metadata = (\<lambda>p h. (Inr sample_metadata, h)),
      hf_open = (\<lambda>p opts h. (Inr 7, h)), hf_set_len = (\<lambda>f n h. (Inr (), h)), hf_set_permissions = (\<lambda>p m h. (Inr (), h)),
      hf_set_times = (\<lambda>p a m h. (Inr (), h)), hf_read_link = (\<lambda>p h. (Inr [], h)), hf_symlink = (\<lambda>dest p h. (Inr (), h)),
      hf_create_dir = (\<lambda>p h. (Inr (), h)), hf_remove_file = (\<lambda>p h. (Inr (), h)), hf_remove_dir = (\<lambda>p h. (Inr (), h)),
      hf_rename = (\<lambda>p1 p2 h. (Inr (), h)), hf_seek = (\<lambda>f n h. (Inr (), (fst h, unat n))),
      hf_read = (\<lambda>f n h. (Inr (take n (drop (snd h) (fst h))), (fst h, snd h + min n (length (fst h) - snd h)))),
      hf_write_all = (\<lambda>f bs h. (Inr (), (write_at (snd h) bs (fst h), snd h + length bs))), hf_sync = (\<lambda>f b h. (Inr (), h)),
      hf_read_dir = (\<lambda>p h. (Inr [Inr ''f''], h))\<rparr>"

definition sample_share :: share where
  "sample_share = \<lparr>sh_tag = ''home'', sh_host_path = [''home'', ''me''], sh_guest_path = ''/mnt'', sh_read_only = False\<rparr>"

definition sample_device :: "(bytes \<times> nat) fs_device" where
  "sample_device = (case device_new sample_host sample_share rev ([104, 105], 0) of Inr d \<Rightarrow> d)"

definition requests :: "'h host_fs \<Rightarrow> (u32 \<times> u64 \<times> bytes) list \<Rightarrow> 'h fs_device \<Rightarrow> 'h fs_device" where
  "requests hf = fold (\<lambda>(opcode, nodeid, body) d. fst (share_process hf d opcode nodeid body 400))"

abbreviation cstr :: "string \<Rightarrow> bytes" where "cstr s \<equiv> bytes_of s @ [0]"

subsection \<open>Where the table and the host part ways\<close>

text \<open>
  RENAME moves the record of the renamed directory but not the records of what is in it: a file the guest
  knows inside the directory keeps its old path, and the next request on it goes to a place it is no longer at.
\<close>

lemma rename_leaves_children:
  "let d = requests sample_host
       [(OP_MKDIR, 1, u32_le 0x1ED @ u32_le 0 @ cstr ''a''), (OP_CREATE, 2, u32_le 2 @ u32_le 0x1A4 @ u32_le 0 @ u32_le 0 @ cstr ''f''),
        (OP_RENAME, 1, u64_le 1 @ cstr ''a'' @ cstr ''b''), (OP_GETATTR, 3, [])] sample_device
   in map_option n_path (d_nodes d 2) = Some [''home'', ''me'', ''b''] \<and> map_option n_parent (d_nodes d 3) = Some 2 \<and>
      last (d_calls d) = CMetadata [''home'', ''me'', ''a'', ''f'']"
  by code_simp

text \<open>
  RENAME over a file the guest knows leaves that file's record with the same path. When the guest forgets
  the file, \<open>collect\<close> drops the path of the renamed one from \<open>ids\<close>, and a LOOKUP gives it a second node id.
\<close>

lemma rename_over_splits_node:
  "let d = requests sample_host
       [(OP_CREATE, 1, u32_le 2 @ u32_le 0x1A4 @ u32_le 0 @ u32_le 0 @ cstr ''x''),
        (OP_CREATE, 1, u32_le 2 @ u32_le 0x1A4 @ u32_le 0 @ u32_le 0 @ cstr ''y''),
        (OP_RENAME, 1, u64_le 1 @ cstr ''x'' @ cstr ''y''), (OP_RELEASE, 3, u64_le 2), (OP_FORGET, 3, u64_le 1),
        (OP_LOOKUP, 1, cstr ''y'')] sample_device
   in map_option n_path (d_nodes d 2) = Some [''home'', ''me'', ''y''] \<and>
      map_option n_path (d_nodes d 4) = Some [''home'', ''me'', ''y''] \<and> d_ids d [''home'', ''me'', ''y''] = Some 4"
  by code_simp

text \<open>
  A guest that does not resolve links itself gets them resolved by the host: a LOOKUP below a symbolic link
  it made, and an OPEN of what that found, reach the host with the link inside the path (\<open>O_NOFOLLOW\<close> is
  about the last component only).
\<close>

lemma link_inside_path:
  "let d = requests sample_host
       [(OP_SYMLINK, 1, cstr ''l'' @ cstr ''/etc''), (OP_LOOKUP, 2, cstr ''passwd''), (OP_OPEN, 3, u32_le 0)] sample_device
   in CSymlink ''/etc'' [''home'', ''me'', ''l''] \<in> set (d_calls d) \<and>
      (case last (d_calls d) of COpen p _ \<Rightarrow> p = [''home'', ''me'', ''l'', ''passwd''] | _ \<Rightarrow> False)"
  by code_simp

subsection \<open>Properties of a share\<close>

text \<open>C4: Whatever requests a guest sends, in whatever order, and whatever else happens on the host in between,
  every path the device hands to the host is the shared folder's own or continues it by names that are not
  empty, \<open>.\<close> or \<open>..\<close> and contain no separator; and for a read-only share no call that could change
  anything on the host (create, truncate, write, rename, remove, link, set attributes) is ever made.\<close>

theorem share_contained:
  assumes "device_new hf share order h = Inr d0" "share_run hf d0 d" "c \<in> set (d_calls d)"
  shows "list_all (under (sh_host_path (d_share d0))) (paths_of c) \<and> (sh_read_only share \<longrightarrow> \<not> changes c)"
  using share_run_ok [OF assms(2) conjunct1 [OF device_new_ok [OF assms(1)]]] device_new_ok [OF assms(1)] assms(3)
  by (auto simp: share_ok_def within_def list_all_iff)

theorem share_contained_witness:
  "\<exists>d0 d c. device_new sample_host (sample_share\<lparr>sh_read_only := True\<rparr>) rev ([], 0) = Inr d0 \<and> share_run sample_host d0 d \<and>
     c \<in> set (d_calls d) \<and> list_all (under (sh_host_path (d_share d0))) (paths_of c)"
proof -
  have new: "device_new sample_host (sample_share\<lparr>sh_read_only := True\<rparr>) rev ([], 0) = Inr (sample_device\<lparr>d_share := sample_share\<lparr>sh_read_only := True\<rparr>, d_host := ([], 0)\<rparr>)"
    (is "_ = Inr ?start") by (simp add: device_new_def sample_device_def sample_share_def sample_host_def)
  let ?after = "requests sample_host [(OP_GETATTR, 1, [])] ?start"
  have "share_process sample_host ?start OP_GETATTR 1 [] 400 = (?after, snd (share_process sample_host ?start OP_GETATTR 1 [] 400))"
    by (simp add: requests_def)
  then have run: "share_run sample_host ?start ?after" by (rule share_run.request [OF share_run.start])
  have call: "CMetadata [''home'', ''me''] \<in> set (d_calls ?after)" by code_simp
  show ?thesis
    by (intro exI conjI) (rule new, rule run, rule call, rule conjunct1 [OF share_contained [OF new run call]])
qed

subsubsection \<open>Forgetting\<close>

lemma r_fields [simp]:
  "r_u32 (u32_le a @ rest) = Inr (a, rest)" "r_u64 (u64_le b @ rest) = Inr (b, rest)"
  "length bs = n \<Longrightarrow> r_skip n (bs @ rest) = Inr ((), rest)" "length bs = n \<Longrightarrow> r_take n (bs @ rest) = Inr (bs, rest)"
  by (simp_all add: r_u32_def r_u64_def r_skip_def r_take_def r_then_def r_give_def le32_at_def le64_at_def codec_simps)

lemma update_node_nodes: "d_nodes (update_node i f d) = (d_nodes d)(i := map_option f (d_nodes d i))"
  by (auto simp: update_node_def fun_eq_iff split: option.splits)

lemma update_node_rest [simp]:
  "d_ids (update_node i f d) = d_ids d" "d_share (update_node i f d) = d_share d" "d_handles (update_node i f d) = d_handles d"
  "d_next_node (update_node i f d) = d_next_node d" "d_host (update_node i f d) = d_host d" "d_calls (update_node i f d) = d_calls d"
  by (simp_all add: update_node_def split: option.splits)

lemma node_found: "d_nodes d i = Some n \<Longrightarrow> share_path i (d, bs) = (Inr (n_path n), d, bs)"
  by (simp add: share_path_def share_node_def fs_then_def fs_get_def fs_some_def fs_give_def)

lemma child_found:
  assumes "share_ok sh d" "d_nodes d i = Some n" "validate_name name = Inr name"
  shows "child i name (d, bs) = (Inr (n_path n @ [name]), d, bs)"
proof -
  have "under (sh_host_path sh) (n_path n @ [name])" by (rule under_child [OF ok_node [OF assms(1,2)] assms(3)])
  then show ?thesis
    using assms(1,3) node_found [OF assms(2), of bs]
    by (simp add: child_def fs_then_def fs_get_def fs_give_def share_ok_def under_def)
qed

text \<open>A name the guest looks up and then forgets leaves nothing behind: LOOKUP of a name that exists on the host
  and is not in the table yet answers with the next node id; when the guest gives that one lookup back, the
  tables of nodes and of paths are what they were before.\<close>

theorem lookup_then_forget:
  assumes "share_ok sh d" "d_nodes d parent = Some pn" "0 < n_lookups pn" "n_children pn + 1 \<noteq> 0"
    and "NUL \<notin> set name" "from_utf8_ok name" "validate_name name = Inr name"
    and "d_ids d (n_path pn @ [name]) = None" "d_nodes d (d_next_node d) = None" "d_next_node d \<noteq> 1"
    and "\<And>h. hf_metadata hf (n_path pn @ [name]) h = (Inr m, h)" "144 \<le> cap"
    and "share_process hf d OP_LOOKUP parent (bytes_of name @ [0]) cap = (d1, r)"
    and "share_process hf d1 OP_FORGET (d_next_node d) (u64_le 1) cap2 = (d2, r2)"
  shows "(\<exists>payload. r = Inr (Some payload) \<and> take 8 payload = u64_le (d_next_node d)) \<and> r2 = Inr None \<and>
    d_nodes d2 = d_nodes d \<and> d_ids d2 = d_ids d"
proof -
  let ?p = "n_path pn @ [name]" and ?i = "d_next_node d"
  have ne: "parent \<noteq> ?i" using assms(2,9) by auto
  let ?new = "\<lparr>n_path = ?p, n_parent = parent, n_lookups = 1, n_handles = 0, n_children = 0\<rparr>"
  have child: "child parent name (d, []) = (Inr ?p, d, [])" by (rule child_found [OF assms(1,2,7)])
  have name: "r_cstring (bytes_of name @ [0]) = Inr (name, [])" using r_cstring_roundtrip [OF assms(5,6), of "[]"] by simp
  have 1: "d_nodes d1 = (d_nodes d)(?i \<mapsto> ?new, parent \<mapsto> pn\<lparr>n_children := n_children pn + 1\<rparr>)"
    "d_ids d1 = (d_ids d)(?p \<mapsto> ?i)" "\<exists>payload. r = Inr (Some payload) \<and> take 8 payload = u64_le ?i"
    using assms(13) assms(2,8,11,12) child name ne
    by (auto simp: share_process_def share_reply_def share_lookup_def fs_bytes_def fs_then_def fs_read_def fs_metadata_def
        fs_host_def add_entry_for_def fs_step_def intern_def write_entry_def share_path_def share_node_def fs_get_def
        fs_some_def fs_give_def fs_set_def update_node_nodes Let_def fun_eq_iff)
  have forgot: "d2 = forget_node ?i 1 d1" "r2 = Inr None"
    using assms(14) r_fields(2) [of 1 "[]"]
    by (auto simp: share_process_def share_reply_def share_forget_def fs_silent_def fs_then_def fs_read_def fs_set_def fs_give_def Let_def)
  let ?zero = "update_node ?i (\<lambda>n. n\<lparr>n_lookups := (if n_lookups n \<le> 1 then 0 else n_lookups n - 1)\<rparr>) d1"
  let ?done = "drop_node ?i (?new\<lparr>n_lookups := 0\<rparr>) ?zero"
  have "d_nodes ?zero ?i = Some (?new\<lparr>n_lookups := 0\<rparr>)" using ne by (simp add: update_node_nodes 1)
  then have "d2 = collect parent ?done"
    using assms(10) unfolding forgot(1) forget_node_def collect.simps [of ?i] by simp
  moreover have tables: "d_nodes ?done = d_nodes d" "d_ids ?done = d_ids d"
    using assms(2,4,8,9) ne by (auto simp: drop_node_def update_node_nodes 1 fun_eq_iff)
  moreover have "collect parent ?done = ?done" using tables(1) assms(2,3) by (simp add: collect.simps [of parent])
  ultimately show ?thesis using 1(3) forgot(2) by simp
qed

subsubsection \<open>Writing and reading\<close>

text \<open>
  What a write and a read rely on, as the host documents it: a position can be set, a read returns the next
  bytes (some, unless it is at the end), and a write puts its bytes where the position is.
\<close>

definition host_files :: "'h host_fs \<Rightarrow> ('h \<Rightarrow> fd \<Rightarrow> bytes) \<Rightarrow> ('h \<Rightarrow> fd \<Rightarrow> nat) \<Rightarrow> bool" where
  "host_files hf contents pos \<longleftrightarrow>
     (\<forall>h f n. unat n < 2 ^ 63 \<longrightarrow> (\<exists>h1. hf_seek hf f n h = (Inr (), h1) \<and> contents h1 f = contents h f \<and> pos h1 f = unat n)) \<and>
     (\<forall>h f n. \<exists>bs h1. hf_read hf f n h = (Inr bs, h1) \<and> contents h1 f = contents h f \<and> pos h1 f = pos h f + length bs \<and>
        length bs \<le> n \<and> bs = take (length bs) (drop (pos h f) (contents h f)) \<and>
        (0 < n \<and> pos h f < length (contents h f) \<longrightarrow> bs \<noteq> [])) \<and>
     (\<forall>h f bs. \<exists>h1. hf_write_all hf f bs h = (Inr (), h1) \<and> contents h1 f = write_at (pos h f) bs (contents h f))"

lemma take_more: "take (length bs) (drop (length acc) xs) = bs \<Longrightarrow> acc = take (length acc) xs \<Longrightarrow>
    acc @ bs = take (length (acc @ bs)) xs"
  by (metis length_append take_add)

lemma read_file_loop_reads:
  assumes "host_files hf contents pos"
  shows "acc = take (length acc) (drop off (contents (d_host (fst s)) f)) \<Longrightarrow> pos (d_host (fst s)) f = off + length acc \<Longrightarrow>
    length acc \<le> want \<Longrightarrow>
    fst (read_file_loop hf f want acc s) = Inr (take want (drop off (contents (d_host (fst s)) f)))"
  using assms
proof (induction hf f want acc s rule: read_file_loop.induct)
  case (1 hf f want acc s)
  let ?C = "drop off (contents (d_host (fst s)) f)" and ?h = "d_host (fst s)"
  show ?case
  proof (cases "want \<le> length acc")
    case True
    then have "fst (read_file_loop hf f want acc s) = Inr acc" by (simp add: read_file_loop.simps [of hf f want acc s])
    then show ?thesis using 1(2,4) True by simp
  next
    case False
    obtain bs h1 where r: "hf_read hf f (want - length acc) ?h = (Inr bs, h1)" "contents h1 f = contents ?h f"
      "pos h1 f = pos ?h f + length bs" "length bs \<le> want - length acc" "bs = take (length bs) (drop (pos ?h f) (contents ?h f))"
      "0 < want - length acc \<and> pos ?h f < length (contents ?h f) \<longrightarrow> bs \<noteq> []"
      using 1(5) unfolding host_files_def by meson
    let ?s1 = "((fst s)\<lparr>d_host := h1, d_calls := d_calls (fst s) @ [CRead f (want - length acc)]\<rparr>, snd s)"
    have host: "fs_host (CRead f (want - length acc)) (hf_read hf f (want - length acc)) s = (Inr bs, ?s1)"
      by (simp add: fs_host_def r(1))
    have host1: "d_host (fst ?s1) = h1" by simp
    show ?thesis
    proof (cases "bs = []")
      case True
      then have "length ?C \<le> length acc" using r(6) False 1(3) by auto
      then have all: "?C = acc" using 1(2) by simp
      then have "take want ?C = acc" using 1(4) by simp
      then show ?thesis using True False host by (simp add: read_file_loop.simps [of hf f want acc s])
    next
      case some: False
      have "acc @ bs = take (length (acc @ bs)) ?C"
        by (rule take_more) (use r(5) 1(2,3) in \<open>simp_all add: add.commute\<close>)
      then have grown: "acc @ bs = take (length (acc @ bs)) (drop off (contents (d_host (fst ?s1)) f))"
        using host1 r(2) by metis
      have "pos (d_host (fst ?s1)) f = off + length (acc @ bs)" "length (acc @ bs) \<le> want" using r(3,4) 1(3,4) by simp_all
      from 1(1) [OF False host [symmetric] refl some grown this 1(5)]
      have "fst (read_file_loop hf f want (acc @ bs) ?s1) = Inr (take want ?C)" using r(2) by simp
      then show ?thesis using some False host by (simp add: read_file_loop.simps [of hf f want acc s])
    qed
  qed
qed

definition write_request :: "u64 \<Rightarrow> u64 \<Rightarrow> bytes \<Rightarrow> bytes" where
  "write_request fh offset bs = u64_le fh @ u64_le offset @ u32_le (word_of_nat (length bs)) @ replicate 20 0 @ bs"


subsubsection \<open>Examples\<close>

lemma sample_files: "host_files sample_host (\<lambda>h _. fst h) (\<lambda>h _. snd h)"
  by (auto simp: host_files_def sample_host_def min_def)


theorem lookup_then_forget_witness:
  "\<exists>d1 d2 r. share_process sample_host sample_device OP_LOOKUP 1 (cstr ''f'') 200 = (d1, r) \<and>
     share_process sample_host d1 OP_FORGET 2 (u64_le 1) 0 = (d2, Inr None) \<and> d_nodes d2 = d_nodes sample_device"
proof -
  have dev: "device_new sample_host sample_share rev ([104, 105], 0) = Inr sample_device"
    by (simp add: sample_device_def device_new_def sample_share_def sample_host_def)
  have root: "d_nodes sample_device 1 = Some \<lparr>n_path = [''home'', ''me''], n_parent = 1, n_lookups = 1, n_handles = 0, n_children = 0\<rparr>"
    "d_ids sample_device [''home'', ''me'', ''f''] = None" "d_next_node sample_device = 2" "d_nodes sample_device 2 = None"
    by (simp_all add: sample_device_def device_new_def sample_share_def sample_host_def)
  have name: "from_utf8_ok ''f''" "validate_name ''f'' = Inr ''f''"
    by (rule ascii_valid, simp add: ascii_def) (simp add: validate_name_def NUL_def)
  obtain d1 r where l: "share_process sample_host sample_device OP_LOOKUP 1 (bytes_of ''f'' @ [0]) 200 = (d1, r)" by fastforce
  obtain d2 r2 where f: "share_process sample_host d1 OP_FORGET (d_next_node sample_device) (u64_le 1) 0 = (d2, r2)" by fastforce
  have "r2 = Inr None \<and> d_nodes d2 = d_nodes sample_device"
    using lookup_then_forget [OF conjunct1 [OF device_new_ok [OF dev]] root(1) _ _ _ name _ _ _ _ _ l f, of sample_metadata] root
    by (simp add: NUL_def sample_host_def)
  then show ?thesis using l f root(3) by auto
qed

end
