(* ===== verification/Intercept.thy ===== *)
theory Intercept
  imports Policy
begin

text \<open>
  API keys for the guest's own HTTPS clients, \<open>engine/src/intercept.rs\<close>: a TLS connection to a host with a secret
  ends here, the request goes on with the secret headers and the response comes back. TLS is a library (rustls): the
  bytes of the two connections, once decrypted, are the inputs of type \<open>tls_in\<close>, which end in one of three ways; what
  is written is a \<open>sink\<close>, which may fail after some bytes; connecting to the real host (certificate checked or
  not) and its answer to the bytes sent are parameters of \<open>icept_env\<close>. Lower case is a parameter as in the policy.
\<close>

definition MAX_HEAD :: nat where "MAX_HEAD = 64 * 1024"

definition CRLF :: string where "CRLF = [CR, LF]"

datatype in_end = InEof | InCut string | InError string

record tls_in =
  ti_bytes :: string
  ti_end :: in_end

record sink =
  sk_sent :: string
  sk_room :: "nat option"
  sk_error :: string

definition sink_write :: "string \<Rightarrow> sink \<Rightarrow> sink \<times> (string + unit)" where
  "sink_write s k =
     (case sk_room k of
        None \<Rightarrow> (k\<lparr>sk_sent := sk_sent k @ s\<rparr>, Inr ())
      | Some r \<Rightarrow>
          if length s \<le> r then (k\<lparr>sk_sent := sk_sent k @ s, sk_room := Some (r - length s)\<rparr>, Inr ())
          else (k\<lparr>sk_sent := sk_sent k @ take r s, sk_room := Some 0\<rparr>, Inl (sk_error k)))"

subsection \<open>Heads\<close>

definition end_error :: "tls_in \<Rightarrow> string option" where
  "end_error i = (case ti_end i of InEof \<Rightarrow> None | InCut e \<Rightarrow> Some e | InError e \<Rightarrow> Some e)"

definition read_until_lf :: "tls_in \<Rightarrow> tls_in \<times> (string + string)" where
  "read_until_lf i =
     (case split_once [LF] (ti_bytes i) of
        Some (a, b) \<Rightarrow> (i\<lparr>ti_bytes := b\<rparr>, Inr (a @ [LF]))
      | None \<Rightarrow> (i\<lparr>ti_bytes := []\<rparr>, case end_error i of None \<Rightarrow> Inr (ti_bytes i) | Some e \<Rightarrow> Inl e))"

lemma read_until_lf_less:
  "(i', Inr line) = read_until_lf i \<Longrightarrow> line \<noteq> [] \<Longrightarrow> length (ti_bytes i') < length (ti_bytes i)"
  by (auto simp: read_until_lf_def dest: split_once_some split: option.splits)

function read_icept_head :: "string \<Rightarrow> tls_in \<Rightarrow> tls_in \<times> (string + string)" where
  "read_icept_head head i =
     (case read_until_lf i of
        (i1, Inl e) \<Rightarrow> (i1, Inl e)
      | (i1, Inr line) \<Rightarrow>
          if line = [] then (i1, Inl ''the connection closed before the head ended'')
          else
            let head1 = head @ line in
            if ends_with (CRLF @ CRLF) head1 \<or> head1 = CRLF then (i1, Inr (from_utf8_lossy (take (length head1 - 2) head1)))
            else if length head1 > MAX_HEAD then (i1, Inl (''a head larger than '' @ decimal MAX_HEAD @ '' bytes''))
            else read_icept_head head1 i1)"
  by pat_completeness auto
termination by (relation "measure (\<lambda>(_, i). length (ti_bytes i))") (auto dest: read_until_lf_less)

declare read_icept_head.simps [simp del]

function split_crlf :: "string \<Rightarrow> string list" where
  "split_crlf s = (case split_once CRLF s of None \<Rightarrow> [s] | Some (a, b) \<Rightarrow> a # split_crlf b)"
  by pat_completeness auto
termination by (relation "measure length") (auto dest: split_once_some simp: CRLF_def)

declare split_crlf.simps [simp del]

record framing =
  fr_length :: "nat option"
  fr_chunked :: bool

definition frame_header :: "(string \<Rightarrow> string) \<Rightarrow> string \<Rightarrow> string \<Rightarrow> framing \<Rightarrow> framing" where
  "frame_header lc name_lower value0 f =
     (if name_lower = ''content-length'' then f\<lparr>fr_length := parse_uint (2 ^ 64 - 1) (trim value0)\<rparr>
      else if name_lower = ''transfer-encoding'' then f\<lparr>fr_chunked := contains ''chunked'' (lc value0)\<rparr>
      else f)"

definition rewrite_line :: "(string \<Rightarrow> string) \<Rightarrow> string list \<Rightarrow> string \<Rightarrow> string \<times> framing \<Rightarrow> string \<times> framing" where
  "rewrite_line lc dropped line st =
     (if line = [] then st
      else case split_once '':'' line of
          None \<Rightarrow> st
        | Some (name, value0) \<Rightarrow>
            let name_lower = lc (trim name); f = frame_header lc name_lower value0 (snd st) in
            if name_lower \<in> set dropped then (fst st, f) else (fst st @ line @ CRLF, f))"

definition CONNECTION_HEADERS :: "string list" where
  "CONNECTION_HEADERS = [''connection'', ''keep-alive'', ''proxy-connection'', ''expect'']"

definition secret_line :: "secret \<Rightarrow> string" where
  "secret_line s = sec_header s @ '': '' @ sec_value s"

definition close_line :: string where "close_line = ''Connection: close''"

definition request_head :: "(string \<Rightarrow> string) \<Rightarrow> secret list \<Rightarrow> string \<Rightarrow> string \<Rightarrow> string \<times> framing" where
  "request_head lc secrets request_line headers =
     (let (out, f) = fold (rewrite_line lc (CONNECTION_HEADERS @ map sec_header secrets)) (split_crlf headers)
            (request_line @ CRLF, \<lparr>fr_length = None, fr_chunked = False\<rparr>)
      in (out @ concat (map (\<lambda>s. secret_line s @ CRLF) secrets) @ close_line @ CRLF @ CRLF, f))"

definition response_head :: "(string \<Rightarrow> string) \<Rightarrow> string \<Rightarrow> string \<Rightarrow> string \<times> framing" where
  "response_head lc status_line headers =
     (let (out, f) = fold (rewrite_line lc [''connection'', ''keep-alive'']) (split_crlf headers)
            (status_line @ CRLF, \<lparr>fr_length = None, fr_chunked = False\<rparr>)
      in (out @ close_line @ CRLF @ CRLF, f))"

subsection \<open>Bodies\<close>

datatype body = Length nat | Chunked | UntilEnd

definition io_copy :: "nat \<Rightarrow> tls_in \<Rightarrow> sink \<Rightarrow> tls_in \<times> sink \<times> (string + nat)" where
  "io_copy n i k =
     (let part = take n (ti_bytes i); i1 = i\<lparr>ti_bytes := drop n (ti_bytes i)\<rparr> in
      case sink_write part k of
        (k1, Inl e) \<Rightarrow> (i1, k1, Inl e)
      | (k1, Inr _) \<Rightarrow>
          if length part = n then (i1, k1, Inr n)
          else (i1, k1, case end_error i of None \<Rightarrow> Inr (length part) | Some e \<Rightarrow> Inl e))"

function copy_trailers :: "tls_in \<Rightarrow> sink \<Rightarrow> tls_in \<times> sink \<times> (string + unit)" where
  "copy_trailers i k =
     (case read_until_lf i of
        (i1, Inl e) \<Rightarrow> (i1, k, Inl e)
      | (i1, Inr line) \<Rightarrow>
          (case sink_write line k of
             (k1, Inl e) \<Rightarrow> (i1, k1, Inl e)
           | (k1, Inr _) \<Rightarrow> if line = CRLF \<or> line = [] then (i1, k1, Inr ()) else copy_trailers i1 k1))"
  by pat_completeness auto
termination by (relation "measure (\<lambda>(i, _). length (ti_bytes i))") (auto dest: read_until_lf_less)

definition chunk_size :: "string \<Rightarrow> nat option" where
  "chunk_size line =
     (if from_utf8_ok line then
        case parse_hex (hd (split_on CHR '';'' (trim line))) of
          Some n \<Rightarrow> if n < 2 ^ 64 then Some n else None
        | None \<Rightarrow> None
      else None)"

lemma chunk_size_nonempty: "chunk_size [] = None"
  by (simp add: chunk_size_def trim_def utf8_chars.simps parse_hex_def)

function copy_chunks :: "tls_in \<Rightarrow> sink \<Rightarrow> tls_in \<times> sink \<times> (string + unit)" where
  "copy_chunks i k =
     (case read_until_lf i of
        (i1, Inl e) \<Rightarrow> (i1, k, Inl e)
      | (i1, Inr line) \<Rightarrow>
          (case sink_write line k of
             (k1, Inl e) \<Rightarrow> (i1, k1, Inl e)
           | (k1, Inr _) \<Rightarrow>
               (case chunk_size line of
                  None \<Rightarrow> (i1, k1, Inl ''a malformed chunk size'')
                | Some n \<Rightarrow>
                    if n = 0 then copy_trailers i1 k1
                    else (case io_copy ((n + 2) mod 2 ^ 64) i1 k1 of
                        (i2, k2, Inl e) \<Rightarrow> (i2, k2, Inl e)
                      | (i2, k2, Inr _) \<Rightarrow> copy_chunks i2 k2))))"
  by pat_completeness auto

lemma io_copy_bytes: "(i', x) = io_copy n i k \<Longrightarrow> i' = i\<lparr>ti_bytes := drop n (ti_bytes i)\<rparr>"
  by (auto simp: io_copy_def Let_def split: prod.splits sum.splits if_splits)

lemma chunk_line_less: "(i', Inr line) = read_until_lf i \<Longrightarrow> chunk_size line = Some n \<Longrightarrow> length (ti_bytes i') < length (ti_bytes i)"
  using read_until_lf_less [of i' line i] chunk_size_nonempty by fastforce

termination copy_chunks
  by (relation "measure (\<lambda>(i, _). length (ti_bytes i))") (auto dest!: chunk_line_less io_copy_bytes)

declare copy_trailers.simps [simp del] copy_chunks.simps [simp del]

function copy_until_end :: "tls_in \<Rightarrow> sink \<Rightarrow> tls_in \<times> sink \<times> (string + unit)" where
  "copy_until_end i k =
     (let part = take (16 * 1024) (ti_bytes i) in
      if part = [] then (i, k, case ti_end i of InEof \<Rightarrow> Inr () | InCut _ \<Rightarrow> Inr () | InError e \<Rightarrow> Inl e)
      else case sink_write part k of
          (k1, Inl e) \<Rightarrow> (i\<lparr>ti_bytes := drop (16 * 1024) (ti_bytes i)\<rparr>, k1, Inl e)
        | (k1, Inr _) \<Rightarrow> copy_until_end (i\<lparr>ti_bytes := drop (16 * 1024) (ti_bytes i)\<rparr>) k1)"
  by pat_completeness auto
termination by (relation "measure (\<lambda>(i, _). length (ti_bytes i))") (auto simp: Let_def)

declare copy_until_end.simps [simp del]

definition copy_body :: "body \<Rightarrow> tls_in \<Rightarrow> sink \<Rightarrow> tls_in \<times> sink \<times> (string + unit)" where
  "copy_body b i k =
     (case b of
        Length n \<Rightarrow>
          (case io_copy n i k of
             (i1, k1, Inl e) \<Rightarrow> (i1, k1, Inl e)
           | (i1, k1, Inr copied) \<Rightarrow>
               (i1, k1, if copied = n then Inr ()
                  else Inl (''the body ended after '' @ decimal copied @ '' of '' @ decimal n @ '' bytes'')))
      | UntilEnd \<Rightarrow> copy_until_end i k
      | Chunked \<Rightarrow> copy_chunks i k)"

subsection \<open>A connection\<close>

record icept_event =
  ie_method :: string
  ie_url :: string
  ie_status :: "nat option"
  ie_error :: "string option"
  ie_secrets :: nat

record upstream =
  us_host :: string
  us_checked :: bool
  us_sent :: string

record intercepted =
  iv_passed :: bool
  iv_upstream :: "upstream option"
  iv_guest :: string
  iv_events :: "icept_event list"

record icept_env =
  en_connect :: "string \<Rightarrow> bool \<Rightarrow> string + sink"
  en_answer :: "string \<Rightarrow> tls_in"

definition nothing_done :: intercepted where
  "nothing_done = \<lparr>iv_passed = False, iv_upstream = None, iv_guest = [], iv_events = []\<rparr>"

definition send_upstream :: "icept_env \<Rightarrow> string \<Rightarrow> bool \<Rightarrow> string \<Rightarrow> body \<Rightarrow> tls_in \<Rightarrow> upstream option \<times> (string + tls_in)" where
  "send_upstream env host checked head b i =
     (case en_connect env host checked of
        Inl e \<Rightarrow> (None, Inl e)
      | Inr k \<Rightarrow>
          (let up = (\<lambda>k :: sink. \<lparr>us_host = host, us_checked = checked, us_sent = sk_sent k\<rparr>) in
           case sink_write head (k\<lparr>sk_sent := []\<rparr>) of
             (k1, Inl e) \<Rightarrow> (Some (up k1), Inl e)
           | (k1, Inr _) \<Rightarrow>
               (case copy_body b i k1 of
                  (_, k2, Inl e) \<Rightarrow> (Some (up k2), Inl e)
                | (_, k2, Inr _) \<Rightarrow> (Some (up k2), Inr (en_answer env (sk_sent k2))))))"

definition response_body :: "string \<Rightarrow> nat \<Rightarrow> framing \<Rightarrow> body" where
  "response_body method status f =
     (if method = ''HEAD'' \<or> status = 204 \<or> status = 304 \<or> (100 \<le> status \<and> status < 200) then Length 0
      else if fr_chunked f then Chunked
      else case fr_length f of Some n \<Rightarrow> Length n | None \<Rightarrow> UntilEnd)"

definition BAD_GATEWAY :: string where
  "BAD_GATEWAY = ''HTTP/1.1 502 Bad Gateway'' @ CRLF @ ''Content-Length: 0'' @ CRLF @ ''Connection: close'' @ CRLF @ CRLF"

definition word_at :: "nat \<Rightarrow> string \<Rightarrow> string \<Rightarrow> string" where
  "word_at n otherwise line = (let ws = split_on CHR '' '' line in if n < length ws then ws ! n else otherwise)"

definition relay_response :: "(string \<Rightarrow> string) \<Rightarrow> string \<Rightarrow> tls_in \<Rightarrow> sink \<Rightarrow> sink \<times> (nat \<times> (string + unit)) option \<times> (string + unit)" where
  "relay_response lc method answer guest =
     (case read_icept_head [] answer of
        (_, Inl e) \<Rightarrow> (guest, None, Inl e)
      | (i, Inr head) \<Rightarrow>
          (let (status_line, headers) = (case split_once CRLF head of Some (a, b) \<Rightarrow> (a, b) | None \<Rightarrow> (head, []));
               status = (case parse_uint 65535 (word_at 1 [] status_line) of Some n \<Rightarrow> n | None \<Rightarrow> 0);
               (out, f) = response_head lc status_line headers
           in case sink_write out guest of
                (g1, Inl e) \<Rightarrow> (g1, None, Inl e)
              | (g1, Inr _) \<Rightarrow>
                  (case copy_body (response_body method status f) i g1 of
                     (_, g2, copied) \<Rightarrow> (g2, Some (status, copied), copied))))"

definition icept_url :: "string \<Rightarrow> nat \<Rightarrow> string \<Rightarrow> string" where
  "icept_url host port path = ''https://'' @ host @ (if port = 443 then [] else '':'' @ decimal port) @ path"

definition serve_request ::
  "(string \<Rightarrow> string) \<Rightarrow> icept_env \<Rightarrow> policy \<Rightarrow> nat \<Rightarrow> string \<Rightarrow> tls_in \<Rightarrow> sink \<Rightarrow> intercepted \<times> (string + unit)" where
  "serve_request lc env p port host guest_in guest_out =
     (let secrets = secrets_for lc p True host in
      case read_icept_head [] guest_in of
        (_, Inl e) \<Rightarrow> (nothing_done, Inl e)
      | (i, Inr head) \<Rightarrow>
          (case split_once CRLF head of
             None \<Rightarrow> (nothing_done, Inl ''no request line'')
           | Some (request_line, headers) \<Rightarrow>
               let method = word_at 0 [] request_line;
                   url = icept_url host port (word_at 1 ''/'' request_line);
                   (out_head, f) = request_head lc secrets request_line headers;
                   event = (\<lambda>status error. \<lparr>ie_method = method, ie_url = url, ie_status = status,
                      ie_error = map_option (redact p) error, ie_secrets = length secrets\<rparr>);
                   b = (if fr_chunked f then Chunked else Length (case fr_length f of Some n \<Rightarrow> n | None \<Rightarrow> 0))
               in case send_upstream env host (\<not> p_skip_tls_verify p) out_head b i of
                    (up, Inl e) \<Rightarrow>
                      (nothing_done\<lparr>iv_upstream := up, iv_guest := sk_sent (fst (sink_write BAD_GATEWAY guest_out)),
                         iv_events := [event None (Some e)]\<rparr>, Inl e)
                  | (up, Inr answer) \<Rightarrow>
                      (case relay_response lc method answer guest_out of
                         (g, reported, result) \<Rightarrow>
                           (nothing_done\<lparr>iv_upstream := up, iv_guest := sk_sent g,
                              iv_events := (case reported of None \<Rightarrow> []
                                | Some (status, copied) \<Rightarrow>
                                    [event (Some status) (case copied of Inl e \<Rightarrow> Some e | Inr _ \<Rightarrow> None)])\<rparr>, result))))"

definition serve_icept ::
  "(string \<Rightarrow> string) \<Rightarrow> icept_env \<Rightarrow> policy \<Rightarrow> byte option \<Rightarrow> string option \<Rightarrow> bool \<Rightarrow> nat \<Rightarrow> tls_in \<Rightarrow> sink
     \<Rightarrow> intercepted \<times> (string + unit)" where
  "serve_icept lc env p first server_name loopback port guest_in guest_out =
     (if first \<noteq> Some 0x16 then (nothing_done\<lparr>iv_passed := True\<rparr>, Inr ())
      else case map_option lc server_name of
          None \<Rightarrow> (nothing_done, Inl ''a TLS connection without a server name'')
        | Some host \<Rightarrow>
            (case (if \<not> loopback \<or> \<not> p_allow_loopback p then refuses_host lc p host else None) of
               Some reason \<Rightarrow> (nothing_done, Inl (host @ '': '' @ reason))
             | None \<Rightarrow> serve_request lc env p port host guest_in guest_out))"

subsection \<open>Lines\<close>

lemma split_once_first:
  "split_once pat s = Some (a, b) \<Longrightarrow> pat \<noteq> [] \<Longrightarrow> \<not> contains pat (a @ butlast pat)"
proof (induction s arbitrary: a)
  case (Cons c s)
  show ?case
  proof (cases "starts_with pat (c # s)")
    case True
    then have "a = []" using Cons.prems by simp
    moreover have "\<not> contains pat (butlast pat)"
    proof
      assume "contains pat (butlast pat)"
      then obtain u v where "butlast pat = u @ pat @ v" by (auto simp: contains_iff)
      then have "length (butlast pat) \<ge> length pat" by simp
      then show False using Cons.prems(2) by (simp flip: length_greater_0_conv)
    qed
    ultimately show ?thesis by simp
  next
    case False
    then obtain a' where a: "split_once pat s = Some (a', b)" "a = c # a'" using Cons.prems(1) by auto
    have "\<not> starts_with pat (c # a' @ butlast pat)"
    proof
      assume st: "starts_with pat (c # a' @ butlast pat)"
      then obtain r where "c # a' @ butlast pat = pat @ r" by (auto simp: starts_with_iff)
      moreover have "c # s = (c # a' @ butlast pat) @ last pat # b"
        using split_once_some [OF a(1)] Cons.prems(2) by simp
      ultimately have "starts_with pat (c # s)" unfolding starts_with_iff by (metis append_assoc)
      then show False using False by simp
    qed
    then show ?thesis using Cons.IH [OF a(1) Cons.prems(2)] a(2) by simp
  qed
qed (auto split: if_splits)

lemma split_once_line: "\<not> contains CRLF l \<Longrightarrow> split_once CRLF (l @ CRLF @ s) = Some (l, s)"
proof (induction l)
  case Nil
  show ?case by (simp add: CRLF_def starts_with_def)
next
  case (Cons c l)
  have "\<not> starts_with CRLF ((c # l) @ CRLF @ s)"
  proof
    assume "starts_with CRLF ((c # l) @ CRLF @ s)"
    then have "c = CR \<and> (l @ CRLF @ s) ! 0 = LF" by (cases l) (auto simp: starts_with_def CRLF_def)
    then have "c = CR \<and> l \<noteq> [] \<and> hd l = LF" by (cases l) (auto simp: CRLF_def CR_def LF_def)
    then have "starts_with CRLF (c # l)" by (cases l) (auto simp: starts_with_def CRLF_def)
    then show False using Cons.prems by simp
  qed
  then show ?case using Cons by simp
qed

lemma split_once_none: "split_once pat s = None \<Longrightarrow> \<not> contains pat s"
  by (induction s) (auto split: if_splits)

lemma contains_append: "contains pat s \<Longrightarrow> contains pat (s @ t)"
  unfolding contains_iff by (metis append.assoc)

lemma split_crlf_lines: "l \<in> set (split_crlf s) \<Longrightarrow> \<not> contains CRLF l"
proof (induction s rule: split_crlf.induct)
  case (1 s)
  show ?case
  proof (cases "split_once CRLF s")
    case None
    then show ?thesis using 1(2) split_once_none by (simp add: split_crlf.simps [of s])
  next
    case (Some r)
    obtain a b where r: "r = (a, b)" by fastforce
    have "\<not> contains CRLF a"
      using split_once_first [of CRLF s a b] Some r contains_append [of CRLF a] by (auto simp: CRLF_def)
    then show ?thesis using 1 Some r by (auto simp: split_crlf.simps [of s])
  qed
qed

lemma split_crlf_concat:
  "list_all (\<lambda>l. \<not> contains CRLF l) ls \<Longrightarrow> split_crlf (concat (map (\<lambda>l. l @ CRLF) ls) @ t) = ls @ split_crlf t"
proof (induction ls)
  case (Cons l ls)
  have "split_once CRLF (concat (map (\<lambda>l. l @ CRLF) (l # ls)) @ t) = Some (l, concat (map (\<lambda>l. l @ CRLF) ls) @ t)"
    using split_once_line [of l] Cons.prems by simp
  then show ?case using Cons by (simp add: split_crlf.simps [of "l @ CRLF @ concat (map (\<lambda>l. l @ CRLF) ls) @ t"])
qed simp

subsection \<open>Rewriting a head\<close>

definition header_name :: "(string \<Rightarrow> string) \<Rightarrow> string \<Rightarrow> string option" where
  "header_name lc line = map_option (\<lambda>(name, _). lc (trim name)) (split_once '':'' line)"

definition line_kept :: "(string \<Rightarrow> string) \<Rightarrow> string list \<Rightarrow> string \<Rightarrow> bool" where
  "line_kept lc dropped line \<longleftrightarrow> line \<noteq> [] \<and> header_name lc line \<noteq> None \<and> header_name lc line \<notin> Some ` set dropped"

lemma rewrite_fold:
  "fst (fold (rewrite_line lc dropped) ls (out, f)) = out @ concat (map (\<lambda>l. l @ CRLF) (filter (line_kept lc dropped) ls))"
proof (induction ls arbitrary: out f)
  case (Cons l ls)
  have "\<exists>f'. rewrite_line lc dropped l (out, f) = (if line_kept lc dropped l then out @ l @ CRLF else out, f')"
    by (auto simp: rewrite_line_def line_kept_def header_name_def Let_def split: option.splits)
  then show ?case using Cons by (auto simp del: append_assoc)
qed simp

lemma request_head_lines:
  "fst (request_head lc secrets request_line headers) =
     concat (map (\<lambda>l. l @ CRLF) (request_line #
       filter (line_kept lc (CONNECTION_HEADERS @ map sec_header secrets)) (split_crlf headers) @
       map secret_line secrets @ [close_line])) @ CRLF"
  using rewrite_fold [of lc "CONNECTION_HEADERS @ map sec_header secrets" "split_crlf headers" "request_line @ CRLF"]
  by (simp add: request_head_def comp_def case_prod_beta)

subsection \<open>What is sent\<close>

lemma sink_write_sent: "sink_write s k = (k', r) \<Longrightarrow> \<exists>m. sk_sent k' = sk_sent k @ take m s \<and> (r = Inr () \<longrightarrow> length s \<le> m)"
  by (auto simp: sink_write_def split: option.splits if_splits intro: exI [of _ "length s"])

lemma read_until_bytes: "read_until_lf i = (i', Inr line) \<Longrightarrow> ti_bytes i = line @ ti_bytes i'"
  by (auto simp: read_until_lf_def dest: split_once_some split: option.splits)

lemma io_copy_sent:
  "io_copy n i k = (i', k', r) \<Longrightarrow>
     \<exists>a b. ti_bytes i = a @ b \<and> sk_sent k' = sk_sent k @ a \<and> length a \<le> n \<and> (\<forall>c. r = Inr c \<longrightarrow> b = ti_bytes i')"
proof -
  assume c: "io_copy n i k = (i', k', r)"
  obtain k1 w where w: "sink_write (take n (ti_bytes i)) k = (k1, w)" by fastforce
  obtain m where m: "sk_sent k1 = sk_sent k @ take m (take n (ti_bytes i))" "w = Inr () \<longrightarrow> length (take n (ti_bytes i)) \<le> m"
    using sink_write_sent [OF w] by blast
  have k: "k' = k1" "(\<exists>x. r = Inr x) \<longrightarrow> w = Inr ()" "i' = i\<lparr>ti_bytes := drop n (ti_bytes i)\<rparr>"
    using c w by (auto simp: io_copy_def Let_def split: sum.splits if_splits option.splits)
  show ?thesis
  proof (cases "w = Inr ()")
    case True
    then have "take m (take n (ti_bytes i)) = take n (ti_bytes i)" by (intro take_all) (use True m(2) in simp)
    then have "ti_bytes i = take n (ti_bytes i) @ drop n (ti_bytes i) \<and> sk_sent k' = sk_sent k @ take n (ti_bytes i) \<and>
        length (take n (ti_bytes i)) \<le> n \<and> (\<forall>c. r = Inr c \<longrightarrow> drop n (ti_bytes i) = ti_bytes i')" using m k by simp
    then show ?thesis by blast
  next
    case False
    then have "ti_bytes i = take (min m n) (ti_bytes i) @ drop (min m n) (ti_bytes i) \<and>
        sk_sent k' = sk_sent k @ take (min m n) (ti_bytes i) \<and> length (take (min m n) (ti_bytes i)) \<le> n \<and>
        (\<forall>c. r = Inr c \<longrightarrow> drop (min m n) (ti_bytes i) = ti_bytes i')" using m k by auto
    then show ?thesis by blast
  qed
qed

lemma sink_line:
  assumes "sink_write line k = (k1, w)" "ti_bytes i = line @ rest"
  shows "\<exists>a b. ti_bytes i = a @ b \<and> sk_sent k1 = sk_sent k @ a \<and> (w = Inr () \<longrightarrow> a = line \<and> b = rest)"
proof -
  obtain m where "sk_sent k1 = sk_sent k @ take m line" "w = Inr () \<longrightarrow> length line \<le> m" using sink_write_sent [OF assms(1)] by blast
  then have "ti_bytes i = take m line @ drop m line @ rest \<and> sk_sent k1 = sk_sent k @ take m line \<and>
      (w = Inr () \<longrightarrow> take m line = line \<and> drop m line @ rest = rest)" using assms(2) by auto
  then show ?thesis by blast
qed

lemma copy_trailers_sent: "copy_trailers i k = (i', k', r) \<Longrightarrow> \<exists>a b. ti_bytes i = a @ b \<and> sk_sent k' = sk_sent k @ a"
proof (induction i k rule: copy_trailers.induct)
  case (1 i k)
  obtain i1 l where l: "read_until_lf i = (i1, l)" by fastforce
  show ?case
  proof (cases l)
    case (Inl e)
    then show ?thesis using 1(2) l by (simp add: copy_trailers.simps [of i k])
  next
    case (Inr line)
    obtain k1 w where w: "sink_write line k = (k1, w)" by fastforce
    note bytes = read_until_bytes [OF l [unfolded Inr]]
    obtain a b where ab: "ti_bytes i = a @ b" "sk_sent k1 = sk_sent k @ a" "w = Inr () \<longrightarrow> a = line \<and> b = ti_bytes i1"
      using sink_line [OF w bytes] by blast
    show ?thesis
    proof (cases "w = Inr () \<and> line \<noteq> CRLF \<and> line \<noteq> []")
      case True
      then have "copy_trailers i1 k1 = (i', k', r)" using 1(2) l Inr w by (simp add: copy_trailers.simps [of i k])
      then have "\<exists>a b. ti_bytes i1 = a @ b \<and> sk_sent k' = sk_sent k1 @ a"
        by (intro "1.IH" [OF l [symmetric] Inr w [symmetric], of "()"]) (use True in auto)
      then obtain a' b' where "ti_bytes i1 = a' @ b'" "sk_sent k' = sk_sent k1 @ a'" by blast
      then have "ti_bytes i = (a @ a') @ b' \<and> sk_sent k' = sk_sent k @ a @ a'" using ab True by simp
      then show ?thesis by blast
    next
      case False
      then have "k' = k1" using 1(2) l Inr w by (auto simp: copy_trailers.simps [of i k] split: sum.splits if_splits)
      then show ?thesis using ab by blast
    qed
  qed
qed

lemma copy_chunks_sent: "copy_chunks i k = (i', k', r) \<Longrightarrow> \<exists>a b. ti_bytes i = a @ b \<and> sk_sent k' = sk_sent k @ a"
proof (induction i k rule: copy_chunks.induct)
  case (1 i k)
  obtain i1 l where l: "read_until_lf i = (i1, l)" by fastforce
  show ?case
  proof (cases l)
    case (Inl e)
    then show ?thesis using 1(2) l by (simp add: copy_chunks.simps [of i k])
  next
    case (Inr line)
    obtain k1 w where w: "sink_write line k = (k1, w)" by fastforce
    note bytes = read_until_bytes [OF l [unfolded Inr]]
    obtain a b where ab: "ti_bytes i = a @ b" "sk_sent k1 = sk_sent k @ a" "w = Inr () \<longrightarrow> a = line \<and> b = ti_bytes i1"
      using sink_line [OF w bytes] by blast
    show ?thesis
    proof (cases "w = Inr () \<and> chunk_size line \<noteq> None")
      case True
      then obtain n where n: "chunk_size line = Some n" by auto
      have "\<exists>a' b'. ti_bytes i1 = a' @ b' \<and> sk_sent k' = sk_sent k1 @ a'"
      proof (cases "n = 0")
        case True
        then have "copy_trailers i1 k1 = (i', k', r)"
          using 1(2) l Inr w n \<open>w = Inr () \<and> _\<close> by (simp add: copy_chunks.simps [of i k])
        then show ?thesis by (rule copy_trailers_sent)
      next
        case nz: False
        obtain i2 k2 r2 where c: "io_copy ((n + 2) mod 2 ^ 64) i1 k1 = (i2, k2, r2)" by (metis prod_cases3)
        obtain u v where uv: "ti_bytes i1 = u @ v" "sk_sent k2 = sk_sent k1 @ u" "\<forall>x. r2 = Inr x \<longrightarrow> v = ti_bytes i2"
          using io_copy_sent [OF c] by blast
        show ?thesis
        proof (cases r2)
          case (Inl e)
          then have "k' = k2" using 1(2) l \<open>l = Inr line\<close> w n nz True c by (simp add: copy_chunks.simps [of i k])
          then show ?thesis using uv by blast
        next
          case r2: (Inr x)
          then have "copy_chunks i2 k2 = (i', k', r)" using 1(2) l \<open>l = Inr line\<close> w n nz True c by (simp add: copy_chunks.simps [of i k])
          then have "\<exists>a b. ti_bytes i2 = a @ b \<and> sk_sent k' = sk_sent k2 @ a"
            by (intro "1.IH" [OF l [symmetric] Inr w [symmetric], of "()" n i2 "(k2, r2)" k2 r2 x]) (use r2 True n nz c in auto)
          then obtain a' b' where "ti_bytes i2 = a' @ b'" "sk_sent k' = sk_sent k2 @ a'" by blast
          then have "ti_bytes i1 = (u @ a') @ b' \<and> sk_sent k' = sk_sent k1 @ u @ a'" using uv r2 by simp
          then show ?thesis by blast
        qed
      qed
      then obtain a' b' where "ti_bytes i1 = a' @ b'" "sk_sent k' = sk_sent k1 @ a'" by blast
      then have "ti_bytes i = (a @ a') @ b' \<and> sk_sent k' = sk_sent k @ a @ a'" using ab True by simp
      then show ?thesis by blast
    next
      case False
      then have "k' = k1" using 1(2) l Inr w by (auto simp: copy_chunks.simps [of i k] split: sum.splits if_splits option.splits)
      then show ?thesis using ab by blast
    qed
  qed
qed

lemma copy_body_sent:
  assumes "copy_body b i k = (i', k', r)" "b \<noteq> UntilEnd"
  shows "\<exists>x y. ti_bytes i = x @ y \<and> sk_sent k' = sk_sent k @ x \<and> (\<forall>n. b = Length n \<longrightarrow> length x \<le> n)"
proof (cases b)
  case (Length n)
  obtain i1 k1 r1 where c: "io_copy n i k = (i1, k1, r1)" by (metis prod_cases3)
  then have "k' = k1" using assms(1) Length by (auto simp: copy_body_def split: sum.splits)
  then show ?thesis using io_copy_sent [OF c] Length by blast
next
  case Chunked
  then show ?thesis using copy_chunks_sent [of i k i' k' r] assms(1) by (auto simp: copy_body_def)
qed (use assms(2) in simp)

lemma send_upstream_sent:
  assumes "send_upstream env host checked head b i = (Some up, r)" "b \<noteq> UntilEnd"
  shows "us_host up = host \<and> us_checked up = checked \<and>
    (\<exists>m body rest. us_sent up = take m (head @ body) \<and> ti_bytes i = body @ rest \<and> (\<forall>n. b = Length n \<longrightarrow> length body \<le> n))"
proof -
  obtain k where k: "en_connect env host checked = Inr k" using assms(1) by (auto simp: send_upstream_def split: sum.splits)
  obtain k1 w where w: "sink_write head (k\<lparr>sk_sent := []\<rparr>) = (k1, w)" by fastforce
  obtain m where m: "sk_sent k1 = take m head" "w = Inr () \<longrightarrow> length head \<le> m" using sink_write_sent [OF w] by auto
  show ?thesis
  proof (cases w)
    case (Inl e)
    then have "us_host up = host \<and> us_checked up = checked \<and> us_sent up = take m (head @ [])"
      using assms(1) k w m(1) by (auto simp: send_upstream_def Let_def)
    then show ?thesis by fastforce
  next
    case (Inr u)
    obtain i2 k2 r2 where c: "copy_body b i k1 = (i2, k2, r2)" by (metis prod_cases3)
    obtain x y where x: "ti_bytes i = x @ y" "sk_sent k2 = sk_sent k1 @ x" "\<forall>n. b = Length n \<longrightarrow> length x \<le> n"
      using copy_body_sent [OF c assms(2)] by blast
    have "us_host up = host \<and> us_checked up = checked \<and> us_sent up = take (length (head @ x)) (head @ x)"
      using assms(1) k w Inr c m x(2) by (auto simp: send_upstream_def Let_def split: sum.splits)
    then show ?thesis using x(1,3) by blast
  qed
qed

text \<open>What \<open>parse_secret\<close> makes sure of.\<close>

definition secret_ok :: "secret \<Rightarrow> bool" where
  "secret_ok s \<longleftrightarrow> is_token (sec_header s) \<and> CR \<notin> set (sec_value s) \<and> LF \<notin> set (sec_value s)"

lemma parse_secret_ok: "parse_secret lc spec = Inr s \<Longrightarrow> secret_ok s"
  by (auto simp: parse_secret_def secret_ok_def Let_def split: option.splits if_splits)

lemma no_cr_line: "CR \<notin> set l \<Longrightarrow> \<not> contains CRLF l"
  by (auto simp: contains_iff CRLF_def)

lemma secret_line_one: "secret_ok s \<Longrightarrow> \<not> contains CRLF (secret_line s)"
proof (rule no_cr_line)
  assume s: "secret_ok s"
  have "CR \<notin> set (sec_header s)"
  proof
    assume "CR \<in> set (sec_header s)"
    then have "token_char CR" using s by (auto simp: secret_ok_def is_token_def list_all_iff)
    then show False by (simp add: token_char_def CR_def ascii_alnum_def ascii_alphabetic_def ascii_digit_def)
  qed
  then show "CR \<notin> set (secret_line s)" using s by (auto simp: secret_ok_def secret_line_def CR_def)
qed

definition lines_text :: "string list \<Rightarrow> string" where
  "lines_text ls = concat (map (\<lambda>l. l @ CRLF) ls) @ CRLF"

lemma split_blank: "split_crlf CRLF = [[], []]"
proof -
  have "CRLF \<noteq> []" by (simp add: CRLF_def)
  then show ?thesis using split_once_line [of "[]" "[]"] by (simp add: split_crlf.simps [of CRLF] split_crlf.simps [of "[]"])
qed

lemma split_lines_text: "list_all (\<lambda>l. \<not> contains CRLF l) ls \<Longrightarrow> split_crlf (lines_text ls) = ls @ [[], []]"
  using split_crlf_concat [of ls CRLF] by (simp add: lines_text_def split_blank)

definition sent_lines :: "(string \<Rightarrow> string) \<Rightarrow> secret list \<Rightarrow> string \<Rightarrow> string \<Rightarrow> string list" where
  "sent_lines lc secrets request_line headers =
     request_line # filter (line_kept lc (CONNECTION_HEADERS @ map sec_header secrets)) (split_crlf headers) @
     map secret_line secrets @ [close_line]"

lemma sent_lines_text: "fst (request_head lc secrets request_line headers) = lines_text (sent_lines lc secrets request_line headers)"
  by (simp add: request_head_lines sent_lines_def lines_text_def)

lemma sent_lines_read:
  assumes "list_all secret_ok secrets" "split_once CRLF head = Some (request_line, headers)"
  shows "split_crlf (lines_text (sent_lines lc secrets request_line headers)) = sent_lines lc secrets request_line headers @ [[], []]"
proof (rule split_lines_text)
  have "\<not> contains CRLF request_line"
    using split_once_first [OF assms(2)] contains_append [of CRLF request_line] by (auto simp: CRLF_def)
  moreover have "\<not> contains CRLF close_line" by (rule no_cr_line) (simp add: close_line_def CR_def)
  moreover have "list_all (\<lambda>l. \<not> contains CRLF l) (filter P (split_crlf headers))" for P
    using split_crlf_lines by (auto simp: list_all_iff)
  ultimately show "list_all (\<lambda>l. \<not> contains CRLF l) (sent_lines lc secrets request_line headers)"
    using assms(1) secret_line_one by (auto simp: sent_lines_def list_all_iff)
qed

lemma secrets_for_ok: "list_all secret_ok (p_secrets p @ p_addon_secrets p) \<Longrightarrow> list_all secret_ok (secrets_for lc p https host)"
  by (auto simp: secrets_for_def list_all_iff Let_def)


definition open_sink :: sink where
  "open_sink = \<lparr>sk_sent = [], sk_room = None, sk_error = []\<rparr>"

definition sample_env :: icept_env where
  "sample_env = \<lparr>en_connect = (\<lambda>_ _. Inr open_sink), en_answer = (\<lambda>_. \<lparr>ti_bytes = ''HTTP/1.1 204 OK'' @ CRLF @ CRLF, ti_end = InEof\<rparr>)\<rparr>"

definition sample_policy :: policy where
  "sample_policy = policy_default\<lparr>p_secrets := [\<lparr>sec_host = ''h'', sec_header = ''k'', sec_value = ''v''\<rparr>]\<rparr>"

definition sample_request :: tls_in where
  "sample_request = \<lparr>ti_bytes = ''GET /'' @ CRLF @ ''K: own'' @ CRLF @ ''A: b'' @ CRLF @ CRLF @ ''more'', ti_end = InEof\<rparr>"

lemma trim_plain: "list_all ascii_alnum s \<Longrightarrow> trim s = s"
proof -
  assume a: "list_all ascii_alnum s"
  then have asc: "list_all ascii s" by (auto simp: list_all_iff ascii_alnum_def ascii_alphabetic_def ascii_digit_def ascii_def)
  have ws: "\<not> white_space [c]" if "c \<in> set s" for c
    using a that by (auto simp: list_all_iff white_space_def code_point_def ascii_alnum_def ascii_alphabetic_def ascii_digit_def Let_def)
  have u: "utf8_chars s = map (\<lambda>c. [c]) s" by (rule ascii_chars [OF asc])
  have "dropWhile white_space (map (\<lambda>c. [c]) t) = map (\<lambda>c. [c]) t" if "set t \<subseteq> set s" for t
    using that ws by (cases t) auto
  from this [of s] this [of "rev s"] show ?thesis by (simp add: trim_def u rev_map comp_def flip: map_concat)
qed

lemma sample_head:
  "read_icept_head [] sample_request =
     (\<lparr>ti_bytes = ''more'', ti_end = InEof\<rparr>, Inr (''GET /'' @ CRLF @ ''K: own'' @ CRLF @ ''A: b'' @ CRLF))"
proof -
  let ?head = "''GET /'' @ CRLF @ ''K: own'' @ CRLF @ ''A: b'' @ CRLF"
  have "from_utf8_lossy ?head = ?head" by (intro lossy_of_valid ascii_valid) (simp add: ascii_def CRLF_def CR_def LF_def)
  then show ?thesis
    by (simp add: read_icept_head.simps sample_request_def read_until_lf_def starts_with_def ends_with_def CRLF_def CR_def LF_def MAX_HEAD_def)
qed

lemma sample_lines: "split_crlf (''K: own'' @ CRLF @ ''A: b'' @ CRLF) = [''K: own'', ''A: b'', []]"
  by (simp add: split_crlf.simps starts_with_def CRLF_def CR_def LF_def)

lemma sample_rewritten:
  "request_head (map ascii_lower) [\<lparr>sec_host = ''h'', sec_header = ''k'', sec_value = ''v''\<rparr>] ''GET /'' (''K: own'' @ CRLF @ ''A: b'' @ CRLF) =
     (lines_text [''GET /'', ''A: b'', ''k: v'', close_line], \<lparr>fr_length = None, fr_chunked = False\<rparr>)"
proof -
  have "trim ''K'' = ''K''" "trim ''A'' = ''A''" by (rule trim_plain, simp add: ascii_alnum_def ascii_alphabetic_def)+
  moreover have "ascii_lower CHR ''A'' = CHR ''a''" "ascii_lower CHR ''K'' = CHR ''k''" by (simp_all add: ascii_lower_def char_of_eq_iff)
  ultimately show ?thesis unfolding request_head_def sample_lines
    by (simp add: rewrite_line_def starts_with_def frame_header_def CONNECTION_HEADERS_def secret_line_def lines_text_def)
qed

lemma sample_request_sent:
  "map_option us_sent (iv_upstream (fst (serve_icept (map ascii_lower) sample_env sample_policy (Some 0x16) (Some ''h'') False 443
     sample_request open_sink))) = Some (lines_text [''GET /'', ''A: b'', ''k: v'', close_line])"
proof -
  let ?s = "\<lparr>sec_host = ''h'', sec_header = ''k'', sec_value = ''v''\<rparr>"
  have m: "map ascii_lower ''h'' = ''h''" "host_matches (map ascii_lower) ''h'' ''h''" "host_matches (map ascii_lower) ''*'' ''h''" by code_simp+
  have "secrets_for (map ascii_lower) sample_policy True ''h'' = [?s]" "refuses_host (map ascii_lower) sample_policy ''h'' = None"
    using m by (simp_all add: secrets_for_def refuses_host_def sample_policy_def policy_default_def)
  moreover have "split_once CRLF (''GET /'' @ CRLF @ ''K: own'' @ CRLF @ ''A: b'' @ CRLF) = Some (''GET /'', ''K: own'' @ CRLF @ ''A: b'' @ CRLF)"
    by (simp add: starts_with_def CRLF_def CR_def LF_def)
  moreover have "send_upstream sample_env ''h'' b out (Length 0) i =
      (Some \<lparr>us_host = ''h'', us_checked = b, us_sent = out\<rparr>, Inr (en_answer sample_env out))" for b out i
    by (simp add: send_upstream_def sample_env_def open_sink_def sink_write_def copy_body_def io_copy_def Let_def)
  ultimately show ?thesis using m(1)
    by (simp add: serve_icept_def serve_request_def sample_head sample_rewritten [simplified] nothing_done_def Let_def del: split_once.simps split: prod.splits)
qed


text \<open>A header line is what CRLF ends. A bare line feed inside one stays, and with it a copy of a secret's header after it.\<close>

lemma bare_lf_kept: "line_kept (map ascii_lower) (CONNECTION_HEADERS @ [''k'']) (''A: b'' @ [LF] @ ''k: own'')"
proof -
  have "trim ''A'' = ''A''" by (rule trim_plain) (simp add: ascii_alnum_def ascii_alphabetic_def)
  moreover have "split_once '':'' (''A: b'' @ [LF] @ ''k: own'') = Some (''A'', '' b'' @ [LF] @ ''k: own'')"
    by (simp add: starts_with_def)
  moreover have "ascii_lower CHR ''A'' = CHR ''a''" by (simp add: ascii_lower_def char_of_eq_iff)
  ultimately show ?thesis by (simp add: line_kept_def header_name_def CONNECTION_HEADERS_def)
qed

subsection \<open>Bodies relayed whole\<close>

lemma copy_until_end_open:
  "sk_room k = None \<Longrightarrow>
     copy_until_end i k = (i\<lparr>ti_bytes := []\<rparr>, k\<lparr>sk_sent := sk_sent k @ ti_bytes i\<rparr>,
       case ti_end i of InEof \<Rightarrow> Inr () | InCut _ \<Rightarrow> Inr () | InError e \<Rightarrow> Inl e)"
proof (induction i k rule: copy_until_end.induct)
  case (1 i k)
  show ?case
  proof (cases "ti_bytes i = []")
    case True
    then show ?thesis by (simp add: copy_until_end.simps [of i k])
  next
    case False
    let ?part = "take (16 * 1024) (ti_bytes i)" and ?i = "i\<lparr>ti_bytes := drop (16 * 1024) (ti_bytes i)\<rparr>"
    let ?k = "k\<lparr>sk_sent := sk_sent k @ ?part\<rparr>"
    have w: "sink_write ?part k = (?k, Inr ())" using 1(2) by (simp add: sink_write_def)
    have step: "copy_until_end i k = copy_until_end ?i ?k"
      using False w by (simp add: copy_until_end.simps [of i k] Let_def)
    have "copy_until_end ?i ?k = (?i\<lparr>ti_bytes := []\<rparr>, ?k\<lparr>sk_sent := sk_sent ?k @ ti_bytes ?i\<rparr>,
        case ti_end ?i of InEof \<Rightarrow> Inr () | InCut _ \<Rightarrow> Inr () | InError e \<Rightarrow> Inl e)"
      by (rule "1.IH" [OF refl _ w [symmetric] refl]) (use False 1(2) in simp_all)
    then show ?thesis using step by simp
  qed
qed

lemma io_copy_open:
  "sk_room k = None \<Longrightarrow> n \<le> length (ti_bytes i) \<Longrightarrow>
     io_copy n i k = (i\<lparr>ti_bytes := drop n (ti_bytes i)\<rparr>, k\<lparr>sk_sent := sk_sent k @ take n (ti_bytes i)\<rparr>, Inr n)"
  by (simp add: io_copy_def sink_write_def Let_def)

lemma read_until_line: "LF \<notin> set l \<Longrightarrow> ti_bytes i = l @ LF # rest \<Longrightarrow> read_until_lf i = (i\<lparr>ti_bytes := rest\<rparr>, Inr (l @ [LF]))"
proof -
  assume l: "LF \<notin> set l" "ti_bytes i = l @ LF # rest"
  have "split_once [LF] (l @ LF # rest) = Some (l, rest)" using l(1) by (induction l) (auto simp: starts_with_def)
  then show ?thesis using l(2) by (simp add: read_until_lf_def)
qed

definition chunk_text :: "string \<Rightarrow> string" where
  "chunk_text data = hex (length data) @ CRLF @ data @ CRLF"

definition chunked_text :: "string list \<Rightarrow> string" where
  "chunked_text pieces = concat (map chunk_text pieces) @ ''0'' @ CRLF @ CRLF"

lemma hex_alnum: "list_all ascii_alnum (hex n)"
proof (induction n rule: hex.induct)
  case (1 n)
  have "n mod 16 < 16" by simp
  then have "ascii_alnum (char_of (if n mod 16 < 10 then 48 + n mod 16 else 87 + n mod 16))"
    by (auto simp: ascii_alnum_def ascii_alphabetic_def ascii_digit_def)
  then show ?case using 1 by (cases "n < 16") (auto simp: hex.simps [of n] Let_def split: if_splits)
qed

lemma hex_digit_of: "d < 16 \<Longrightarrow> hex_digit (char_of (if d < 10 then 48 + d else 87 + d)) = Some d"
  by (simp add: hex_digit_def Let_def)

lemma hex_parsed: "hex_value 0 (hex n) = Some n" "hex n \<noteq> []"
proof (induction n rule: hex.induct)
  case (1 n)
  case 1
  show ?case
  proof (cases "n < 16")
    case True
    then show ?thesis using hex_digit_of [OF True] by (simp add: hex.simps [of n] Let_def)
  next
    case False
    then show ?thesis using "1.IH"(1) hex_digit_of [of "n mod 16"]
      by (simp add: hex.simps [of n] Let_def hex_value_append)
  qed
next
  case (1 n)
  case 2
  then show ?case by (simp add: hex.simps [of n] Let_def)
qed

lemma trim_line: "list_all ascii_alnum s \<Longrightarrow> s \<noteq> [] \<Longrightarrow> trim (s @ CRLF) = s"
proof -
  assume a: "list_all ascii_alnum s" and ne: "s \<noteq> []"
  have asc: "list_all ascii (s @ CRLF)"
    using a by (auto simp: list_all_iff ascii_alnum_def ascii_alphabetic_def ascii_digit_def ascii_def CRLF_def CR_def LF_def)
  have ws: "\<not> white_space [c]" if "c \<in> set s" for c
    using a that by (auto simp: list_all_iff white_space_def code_point_def ascii_alnum_def ascii_alphabetic_def ascii_digit_def Let_def)
  have crlf: "white_space [CR]" "white_space [LF]" by (simp_all add: white_space_def code_point_def CR_def LF_def)
  have u: "utf8_chars (s @ CRLF) = map (\<lambda>c. [c]) (s @ CRLF)" by (rule ascii_chars [OF asc])
  have d: "dropWhile white_space (map (\<lambda>c. [c]) t @ r) = map (\<lambda>c. [c]) t @ r" if "set t \<subseteq> set s" "t \<noteq> []" for t r
    using that ws by (cases t) auto
  have "dropWhile white_space (rev (map (\<lambda>c. [c]) (s @ CRLF))) = map (\<lambda>c. [c]) (rev s)"
    using d [of "rev s" "[]"] ne crlf by (simp add: CRLF_def rev_map)
  then show ?thesis using d [of s "map (\<lambda>c. [c]) CRLF"] ne by (simp add: trim_def u rev_map comp_def flip: map_concat)
qed

lemma chunk_size_line: "n < 2 ^ 64 \<Longrightarrow> chunk_size (hex n @ CRLF) = Some n"
proof -
  assume n: "n < 2 ^ 64"
  have asc: "list_all ascii (hex n @ CRLF)"
    using hex_alnum [of n] by (auto simp: list_all_iff ascii_alnum_def ascii_alphabetic_def ascii_digit_def ascii_def CRLF_def CR_def LF_def)
  have no: "CHR '';'' \<notin> set (hex n)" "CHR ''+'' \<notin> set (hex n)"
    using hex_alnum [of n] by (auto simp: list_all_iff ascii_alnum_def ascii_alphabetic_def ascii_digit_def)
  have "split_on CHR '';'' s = [s]" if "CHR '';'' \<notin> set s" for s using that by (induction s) auto
  then have "hd (split_on CHR '';'' (trim (hex n @ CRLF))) = hex n"
    using trim_line [OF hex_alnum hex_parsed(2)] no(1) by simp
  moreover have "parse_hex (hex n) = Some n"
    using hex_parsed [of n] no(2) by (cases "hex n") (auto simp: parse_hex_def)
  ultimately show ?thesis using n ascii_valid [OF asc] by (simp add: chunk_size_def)
qed

lemma copy_chunks_whole:
  assumes "list_all (\<lambda>c. c \<noteq> [] \<and> length c + 2 < 2 ^ 64) pieces" "sk_room k = None" "ti_bytes i = chunked_text pieces @ rest"
  shows "copy_chunks i k = (i\<lparr>ti_bytes := rest\<rparr>, k\<lparr>sk_sent := sk_sent k @ chunked_text pieces\<rparr>, Inr ())"
  using assms
proof (induction pieces arbitrary: i k)
  case Nil
  have "ti_bytes i = (''0'' @ [CR]) @ LF # CRLF @ rest" using Nil.prems(3) by (simp add: chunked_text_def CRLF_def)
  then have l: "read_until_lf i = (i\<lparr>ti_bytes := CRLF @ rest\<rparr>, Inr (''0'' @ CRLF))"
    by (subst read_until_line [of "''0'' @ [CR]"]) (simp_all add: CR_def LF_def CRLF_def)
  have t: "read_until_lf (i\<lparr>ti_bytes := CRLF @ rest\<rparr>) = (i\<lparr>ti_bytes := rest\<rparr>, Inr CRLF)"
    by (subst read_until_line [of "[CR]"]) (simp_all add: CR_def LF_def CRLF_def)
  have "hex 0 = ''0''" by (simp add: hex.simps char_of_eq_iff)
  then have z: "chunk_size (''0'' @ CRLF) = Some 0" using chunk_size_line [of 0] by simp
  show ?case using l t z Nil.prems(2)
    by (simp add: copy_chunks.simps [of i k] copy_trailers.simps sink_write_def chunked_text_def del: append_Cons append.simps)
next
  case (Cons c pieces)
  let ?n = "length c" and ?rest = "chunked_text pieces @ rest"
  have bytes: "ti_bytes i = (hex ?n @ [CR]) @ LF # (c @ CRLF) @ ?rest"
    using Cons.prems(3) by (simp add: chunked_text_def chunk_text_def CRLF_def)
  have "LF \<notin> set (hex ?n @ [CR])" using hex_alnum [of ?n]
    by (auto simp: list_all_iff ascii_alnum_def ascii_alphabetic_def ascii_digit_def LF_def CR_def)
  from read_until_line [OF this bytes]
  have l: "read_until_lf i = (i\<lparr>ti_bytes := (c @ CRLF) @ ?rest\<rparr>, Inr (hex ?n @ CRLF))" by (simp add: CRLF_def)
  have z: "chunk_size (hex ?n @ CRLF) = Some ?n" by (rule chunk_size_line) (use Cons.prems(1) in simp)
  let ?i = "i\<lparr>ti_bytes := ?rest\<rparr>" and ?k = "k\<lparr>sk_sent := sk_sent k @ chunk_text c\<rparr>"
  have n: "(?n + 2) mod 2 ^ 64 = length (c @ CRLF)" using Cons.prems(1) by (simp add: CRLF_def)
  have "io_copy (length (c @ CRLF)) (i\<lparr>ti_bytes := (c @ CRLF) @ ?rest\<rparr>) (k\<lparr>sk_sent := sk_sent k @ hex ?n @ CRLF\<rparr>) =
      (?i, ?k, Inr (length (c @ CRLF)))"
    using Cons.prems(2) by (subst io_copy_open) (simp_all add: chunk_text_def)
  then have "copy_chunks i k = copy_chunks ?i ?k"
    using l z n Cons.prems(1,2) by (simp add: copy_chunks.simps [of i k] sink_write_def)
  also have "\<dots> = (?i\<lparr>ti_bytes := rest\<rparr>, ?k\<lparr>sk_sent := sk_sent ?k @ chunked_text pieces\<rparr>, Inr ())"
    by (rule Cons.IH) (use Cons.prems in simp_all)
  finally show ?case by (simp add: chunked_text_def)
qed

text \<open>How a message's body is delimited on the wire.\<close>

definition body_wire :: "body \<Rightarrow> string \<Rightarrow> string \<Rightarrow> bool" where
  "body_wire b wire rest \<longleftrightarrow>
     (case b of
        Length n \<Rightarrow> length wire = n
      | Chunked \<Rightarrow> (\<exists>pieces. list_all (\<lambda>c. c \<noteq> [] \<and> length c + 2 < 2 ^ 64) pieces \<and> wire = chunked_text pieces)
      | UntilEnd \<Rightarrow> rest = [])"

lemma copy_body_whole:
  assumes "body_wire b wire rest" "sk_room k = None" "ti_bytes i = wire @ rest" "\<forall>e. ti_end i \<noteq> InError e"
  shows "copy_body b i k = (i\<lparr>ti_bytes := rest\<rparr>, k\<lparr>sk_sent := sk_sent k @ wire\<rparr>, Inr ())"
proof (cases b)
  case (Length n)
  then show ?thesis using assms io_copy_open [of k n i] by (simp add: copy_body_def body_wire_def)
next
  case Chunked
  then show ?thesis using assms copy_chunks_whole [of _ k i rest] by (auto simp: copy_body_def body_wire_def)
next
  case UntilEnd
  then show ?thesis using assms copy_until_end_open [of k i] by (auto simp: copy_body_def body_wire_def split: in_end.splits)
qed

lemma response_head_lines:
  "fst (response_head lc status_line headers) =
     lines_text (status_line # filter (line_kept lc [''connection'', ''keep-alive'']) (split_crlf headers) @ [close_line])"
  using rewrite_fold [of lc "[''connection'', ''keep-alive'']" "split_crlf headers" "status_line @ CRLF"]
  by (simp add: response_head_def lines_text_def case_prod_beta)



end
