(* ===== verification/Json.thy ===== *)
theory Json
  imports Texts
begin

text \<open>
  JSON values as the engine looks at them (\<open>serde_json::Value\<close>): the members of an object, and the value as a string, a number,
  a truth value or an array when it is one. Reading and printing them as text is the crate's, a parameter where it is used.
\<close>

datatype json = JNull | JBool bool | JNumber int | JString string | JArray "json list" | JObject "(string \<times> json) list"

fun json_get :: "string \<Rightarrow> json \<Rightarrow> json option" where
  "json_get key (JObject members) = map_of members key"
| "json_get key _ = None"

fun as_str :: "json \<Rightarrow> string option" where
  "as_str (JString s) = Some s"
| "as_str _ = None"

fun as_bool :: "json \<Rightarrow> bool option" where
  "as_bool (JBool b) = Some b"
| "as_bool _ = None"

fun as_array :: "json \<Rightarrow> json list option" where
  "as_array (JArray js) = Some js"
| "as_array _ = None"

fun as_u64 :: "json \<Rightarrow> nat option" where
  "as_u64 (JNumber n) = (if 0 \<le> n \<and> n < 2 ^ 64 then Some (nat n) else None)"
| "as_u64 _ = None"

definition json_opt :: "string \<Rightarrow> (json \<Rightarrow> 'a option) \<Rightarrow> json \<Rightarrow> 'a option" where
  "json_opt key as v = (case json_get key v of None \<Rightarrow> None | Some j \<Rightarrow> as j)"

lemma json_opt_object: "json_opt key as (JObject ((k, v) # members)) = (if k = key then as v else json_opt key as (JObject members))"
  by (simp add: json_opt_def)

end
