(* ===== verification/Hostfn.thy ===== *)
theory Hostfn
  imports Streams Json
begin

text \<open>
  Host functions for the guest, \<open>engine/src/hostfn.rs\<close>: one JSON line each way, host programs under the
  \<open>hostExec\<close> policy, functions the app registered. Parsing and printing JSON (the crate \<open>serde_json\<close>), the
  operating system's processes and the app's answers are parameters of \<open>hostfn_env\<close>; the policy may be swapped while the guest
  runs, so each reading of it is a value of its own. What the app is asked is noted in \<open>hf_asked\<close>, what
  is started on the host in \<open>hf_ran\<close>.
\<close>

abbreviation MAX_REQUEST :: nat where "MAX_REQUEST \<equiv> 1024 * 1024"
abbreviation MAX_OUTPUT :: nat where "MAX_OUTPUT \<equiv> 8 * 1024 * 1024"

subsection \<open>The policy and the app\<close>

datatype host_exec = Deny | Ask | Allow

definition parse_host_exec :: "string \<Rightarrow> host_exec" where
  "parse_host_exec s = (if s = ''allow'' then Allow else if s = ''ask'' then Ask else Deny)"

definition host_exec_name :: "host_exec \<Rightarrow> string" where
  "host_exec_name m = (case m of Allow \<Rightarrow> ''allow'' | Ask \<Rightarrow> ''ask'' | Deny \<Rightarrow> ''deny'')"

record host_policy =
  hp_host_exec :: host_exec
  hp_functions :: "string list"

datatype asked =
    AskCall string json
  | AskPermission string "string list" "string option" bool "string option"

datatype reply = ReplyResult json | ReplyError string string | ReplyAllow bool bool

record program =
  pr_argv :: "string list"
  pr_dir :: "string option"
  pr_stdin :: "string option"
  pr_limit :: nat
  pr_gui :: bool

datatype completed = SpawnFailed string | WaitFailed string | Finished "nat option" bool string string

record hostfn_env =
  he_policy :: "nat \<Rightarrow> host_policy"
  he_answer :: "nat \<Rightarrow> asked \<Rightarrow> reply option"
  he_start :: "program \<Rightarrow> string + nat"
  he_complete :: "program \<Rightarrow> completed"
  he_parse :: "string \<Rightarrow> string + json"
  he_show :: "json \<Rightarrow> string"
  he_os :: string
  he_arch :: string
  he_home :: "string option"

record hostfn_state =
  hf_reads :: nat
  hf_next_id :: nat
  hf_asked :: "(nat \<times> asked) list"
  hf_ran :: "program list"

type_synonym 'a hostfn = "hostfn_state \<Rightarrow> hostfn_state \<times> ((string \<times> string) + 'a)"

definition read_policy :: "hostfn_env \<Rightarrow> hostfn_state \<Rightarrow> hostfn_state \<times> host_policy" where
  "read_policy env s = (s\<lparr>hf_reads := hf_reads s + 1\<rparr>, he_policy env (hf_reads s))"

definition ask_app :: "hostfn_env \<Rightarrow> asked \<Rightarrow> hostfn_state \<Rightarrow> hostfn_state \<times> reply option" where
  "ask_app env q s =
     (s\<lparr>hf_next_id := hf_next_id s + 1, hf_asked := hf_asked s @ [(hf_next_id s, q)]\<rparr>, he_answer env (hf_next_id s) q)"

definition check_access :: "hostfn_env \<Rightarrow> string \<Rightarrow> string list \<Rightarrow> string option \<Rightarrow> bool \<Rightarrow> string option \<Rightarrow> unit hostfn" where
  "check_access env kind argv cwd gui goal s =
     (case read_policy env s of
        (s1, p) \<Rightarrow>
          (case hp_host_exec p of
             Allow \<Rightarrow> (s1, Inr ())
           | Deny \<Rightarrow> (s1, Inl (''denied'', ''running host programs is not allowed for this sandbox (hostExec policy)''))
           | Ask \<Rightarrow>
               (case ask_app env (AskPermission kind argv cwd gui goal) s1 of
                  (s2, Some (ReplyAllow True _)) \<Rightarrow> (s2, Inr ())
                | (s2, Some _) \<Rightarrow> (s2, Inl (''denied'', ''the user did not allow it''))
                | (s2, None) \<Rightarrow> (s2, Inl (''denied'', ''nobody answered the permission request'')))))"

definition ask_permission :: "hostfn_env \<Rightarrow> string \<Rightarrow> string \<Rightarrow> hostfn_state \<Rightarrow> hostfn_state \<times> (bool \<times> bool) option" where
  "ask_permission env kind goal s =
     (case read_policy env s of
        (s1, _) \<Rightarrow>
          (case ask_app env (AskPermission kind [] None False (Some goal)) s1 of
             (s2, None) \<Rightarrow> (s2, None)
           | (s2, Some (ReplyAllow allow remember)) \<Rightarrow> (s2, Some (allow, remember))
           | (s2, Some _) \<Rightarrow> (s2, Some (False, False))))"

subsection \<open>Host programs\<close>

definition host_platform :: "hostfn_env \<Rightarrow> string" where
  "host_platform env = (if he_os env = ''macos'' then ''darwin'' else if he_os env = ''windows'' then ''win32'' else he_os env)"

definition host_arch :: "hostfn_env \<Rightarrow> string" where
  "host_arch env = (if he_arch env = ''x86_64'' then ''x64'' else if he_arch env = ''aarch64'' then ''arm64'' else he_arch env)"

definition open_command :: "hostfn_env \<Rightarrow> string \<Rightarrow> string list" where
  "open_command env goal =
     [if host_platform env = ''darwin'' then ''open'' else if host_platform env = ''win32'' then ''explorer.exe'' else ''xdg-open'', goal]"

definition run_host_program :: "hostfn_env \<Rightarrow> string list \<Rightarrow> string option \<Rightarrow> string option \<Rightarrow> nat \<Rightarrow> bool \<Rightarrow> json hostfn" where
  "run_host_program env argv cwd stdin timeout_ms gui s =
     (let dir = (case cwd of Some (c # cs) \<Rightarrow> Some (c # cs) | _ \<Rightarrow> he_home env);
          p = \<lparr>pr_argv = argv, pr_dir = dir, pr_stdin = (if gui then None else Some (case stdin of Some t \<Rightarrow> t | None \<Rightarrow> [])),
               pr_limit = (if gui then 0 else min timeout_ms (10 * 60000)), pr_gui = gui\<rparr>;
          s1 = s\<lparr>hf_ran := hf_ran s @ [p]\<rparr>
      in (s1, if gui then
                (case he_start env p of
                   Inl e \<Rightarrow> Inl (''failed'', hd argv @ '': '' @ e)
                 | Inr pid \<Rightarrow> Inr (JObject [(''pid'', JNumber (int pid))]))
              else case he_complete env p of
                SpawnFailed e \<Rightarrow> Inl (''failed'', hd argv @ '': '' @ e)
              | WaitFailed e \<Rightarrow> Inl (''failed'', e)
              | Finished code timed_out out err \<Rightarrow>
                  Inr (JObject
                    [(''exitCode'', JNumber (case code of Some c \<Rightarrow> int c | None \<Rightarrow> if timed_out then 137 else 1)),
                     (''timedOut'', JBool timed_out),
                     (''stderr'', JString (from_utf8_lossy (take MAX_OUTPUT err))),
                     (''stdout'', JString (from_utf8_lossy (take MAX_OUTPUT out)))])))"

subsection \<open>Calls\<close>

definition BUILT_IN :: "string list" where
  "BUILT_IN = [''list'', ''info'', ''exec'', ''open'']"

definition dispatch :: "hostfn_env \<Rightarrow> string \<Rightarrow> json \<Rightarrow> json hostfn" where
  "dispatch env function args s =
     (case read_policy env s of
        (s1, p) \<Rightarrow>
          if function = ''list'' then (s1, Inr (JArray (map JString (BUILT_IN @ hp_functions p))))
          else if function = ''info'' then
            (s1, Inr (JObject [(''platform'', JString (host_platform env)), (''arch'', JString (host_arch env)),
               (''hostExec'', JString (host_exec_name (hp_host_exec p)))]))
          else if function = ''exec'' then
            (let argv = (case json_opt ''argv'' as_array args of Some items \<Rightarrow> List.map_filter as_str items | None \<Rightarrow> []);
                 cwd = json_opt ''cwd'' as_str args;
                 gui = (case json_opt ''gui'' as_bool args of Some b \<Rightarrow> b | None \<Rightarrow> False)
             in if argv = [] then (s1, Inl (''bad-request'', ''argv must be a non-empty list of strings''))
                else case check_access env ''exec'' argv cwd gui None s1 of
                    (s2, Inl e) \<Rightarrow> (s2, Inl e)
                  | (s2, Inr _) \<Rightarrow>
                      run_host_program env argv cwd (json_opt ''stdin'' as_str args)
                        (case json_opt ''timeoutMs'' as_u64 args of Some n \<Rightarrow> n | None \<Rightarrow> 60000) gui s2)
          else if function = ''open'' then
            (case json_opt ''target'' as_str args of
               Some (c # cs) \<Rightarrow>
                 (case check_access env ''open'' [] None True (Some (c # cs)) s1 of
                    (s2, Inl e) \<Rightarrow> (s2, Inl e)
                  | (s2, Inr _) \<Rightarrow> run_host_program env (open_command env (c # cs)) None None 60000 True s2)
             | _ \<Rightarrow> (s1, Inl (''bad-request'', ''open needs a target'')))
          else if function \<notin> set (hp_functions p) then
            (s1, Inl (''unknown-function'', ''the host offers no function '' @ CHR 0x22 # function @ CHR 0x22 # '' (hostcall --list)''))
          else
            (case ask_app env (AskCall function args) (fst (read_policy env s1)) of
               (s2, Some (ReplyResult v)) \<Rightarrow> (s2, Inr v)
             | (s2, Some (ReplyError kind message)) \<Rightarrow> (s2, Inl (kind, message))
             | (s2, Some (ReplyAllow _ _)) \<Rightarrow> (s2, Inl (''failed'', ''the app answered a call with a permission''))
             | (s2, None) \<Rightarrow> (s2, Inl (''timeout'', ''the app did not answer''))))"

subsection \<open>One connection\<close>

datatype line_read = LineRead bytes | LineBad string | LineWaiting

definition stream_text :: "stream_error \<Rightarrow> string" where
  "stream_text e = (case e of Closed reason \<Rightarrow> reason | ReadTimeout \<Rightarrow> ''the guest did not answer in time'')"

function read_line :: "'s stream_ops \<Rightarrow> bytes \<Rightarrow> 's \<Rightarrow> 's \<times> line_read" where
  "read_line ops acc s =
     (if 10 \<in> set acc then (s, LineRead (takeWhile (\<lambda>b. b \<noteq> 10) acc))
      else if length acc > MAX_REQUEST then (s, LineBad ''request too large'')
      else case st_read ops s 4096 of
          (s1, Waiting) \<Rightarrow> (s1, LineWaiting)
        | (s1, Failed e) \<Rightarrow> (s1, LineBad (stream_text e))
        | (s1, Ready part) \<Rightarrow>
            if part = [] then (s1, LineBad ''connection closed before the request line ended'') else read_line ops (acc @ part) s1)"
  by pat_completeness auto
termination by (relation "measure (\<lambda>(ops, acc, s). Suc MAX_REQUEST - length acc)") (auto simp flip: length_greater_0_conv)

declare read_line.simps [simp del]

definition dq :: "string \<Rightarrow> string" where
  "dq s = CHR 0x22 # s @ [CHR 0x22]"

definition parse_call :: "hostfn_env \<Rightarrow> bytes \<Rightarrow> (string \<times> string) + (string \<times> json)" where
  "parse_call env line =
     (case he_parse env (string_of line) of
        Inl e \<Rightarrow> Inl (''bad-request'', ''the request is not valid JSON: '' @ e)
      | Inr request \<Rightarrow>
          (case json_opt ''fn'' as_str request of
             Some function \<Rightarrow> Inr (function, case json_get ''args'' request of Some a \<Rightarrow> a | None \<Rightarrow> JObject [])
           | None \<Rightarrow> Inl (''bad-request'', ''expected {'' @ dq ''fn'' @ '': '' @ dq ''...'' @ '', '' @ dq ''args'' @ '': {...}}'')))"

definition error_json :: "string \<times> string \<Rightarrow> json" where
  "error_json e =
     JObject [(''ok'', JBool False), (''error'', JObject [(''kind'', JString (fst e)), (''message'', JString (snd e))])]"

definition call_response :: "hostfn_env \<Rightarrow> bytes \<Rightarrow> hostfn_state \<Rightarrow> hostfn_state \<times> json" where
  "call_response env line s =
     (case parse_call env line of
        Inl e \<Rightarrow> (s, error_json e)
      | Inr (function, args) \<Rightarrow>
          (case dispatch env function args s of
             (s1, Inr result) \<Rightarrow> (s1, JObject [(''ok'', JBool True), (''result'', result)])
           | (s1, Inl e) \<Rightarrow> (s1, error_json e)))"

definition handle_call :: "'s stream_ops \<Rightarrow> hostfn_env \<Rightarrow> 's \<Rightarrow> hostfn_state \<Rightarrow> 's \<times> hostfn_state" where
  "handle_call ops env t s =
     (case read_line ops [] t of
        (t1, LineWaiting) \<Rightarrow> (t1, s)
      | (t1, got) \<Rightarrow>
          (let (s1, response) = (case got of LineRead line \<Rightarrow> call_response env line s
                 | LineBad e \<Rightarrow> (s, error_json (''bad-request'', e)) | LineWaiting \<Rightarrow> (s, JNull));
               (t2, _) = st_write_all ops t1 (bytes_of (he_show env response @ [LF]))
           in (st_close ops t2, s1)))"

subsection \<open>Waiting for the app\<close>

text \<open>
  The table of calls that wait for the app, over the threads that use it: a question is put (the id is new), the app's
  \<open>reply\<close> takes the id out of the table and hands its answer over, the asking thread takes the answer or, when its time is
  up, takes the id out itself; \<open>close\<close> empties the table, which wakes every asking thread without an answer.
\<close>

datatype wait_state = Asking | Handed reply | Dropped | Expired | Answered "reply option"

record wait_table =
  wt_next :: nat
  wt_waiting :: "nat set"
  wt_calls :: "nat \<rightharpoonup> wait_state"

inductive wait_step :: "wait_table \<Rightarrow> wait_table \<Rightarrow> bool" where
  put: "wait_step w (w\<lparr>wt_next := wt_next w + 1, wt_waiting := insert (wt_next w) (wt_waiting w),
          wt_calls := (wt_calls w)(wt_next w \<mapsto> Asking)\<rparr>)"
| hand: "\<lbrakk>i \<in> wt_waiting w; wt_calls w i = Some Asking\<rbrakk> \<Longrightarrow>
     wait_step w (w\<lparr>wt_waiting := wt_waiting w - {i}, wt_calls := (wt_calls w)(i \<mapsto> Handed r)\<rparr>)"
| hand_late: "\<lbrakk>i \<in> wt_waiting w; wt_calls w i = Some Expired\<rbrakk> \<Longrightarrow> wait_step w (w\<lparr>wt_waiting := wt_waiting w - {i}\<rparr>)"
| take: "wt_calls w i = Some (Handed r) \<Longrightarrow> wait_step w (w\<lparr>wt_calls := (wt_calls w)(i \<mapsto> Answered (Some r))\<rparr>)"
| expire: "wt_calls w i = Some Asking \<Longrightarrow> wait_step w (w\<lparr>wt_calls := (wt_calls w)(i \<mapsto> Expired)\<rparr>)"
| dropped: "wt_calls w i = Some Dropped \<Longrightarrow> wait_step w (w\<lparr>wt_calls := (wt_calls w)(i \<mapsto> Expired)\<rparr>)"
| give_up: "wt_calls w i = Some Expired \<Longrightarrow>
     wait_step w (w\<lparr>wt_waiting := wt_waiting w - {i}, wt_calls := (wt_calls w)(i \<mapsto> Answered None)\<rparr>)"
| closing: "wait_step w (w\<lparr>wt_waiting := {},
     wt_calls := (\<lambda>i. if i \<in> wt_waiting w \<and> wt_calls w i = Some Asking then Some Dropped else wt_calls w i)\<rparr>)"

definition wait_start :: wait_table where
  "wait_start = \<lparr>wt_next = 1, wt_waiting = {}, wt_calls = Map.empty\<rparr>"

definition reply_found :: "wait_table \<Rightarrow> nat \<Rightarrow> bool" where
  "reply_found w i \<longleftrightarrow> i \<in> wt_waiting w"

subsection \<open>Consent\<close>

text \<open>The program the app was asked about, and said yes to.\<close>

definition asked_for :: "hostfn_env \<Rightarrow> asked \<Rightarrow> program \<Rightarrow> bool" where
  "asked_for env q p \<longleftrightarrow>
     (case q of
        AskPermission kind argv cwd gui goal \<Rightarrow>
          gui = pr_gui p \<and>
          (kind = ''exec'' \<and> goal = None \<and> argv = pr_argv p \<and> pr_dir p = (case cwd of Some (c # cs) \<Rightarrow> Some (c # cs) | _ \<Rightarrow> he_home env) \<or>
           kind = ''open'' \<and> (\<exists>what. goal = Some what \<and> pr_argv p = open_command env what))
      | AskCall _ _ \<Rightarrow> False)"

definition consented :: "hostfn_env \<Rightarrow> hostfn_state \<Rightarrow> hostfn_state \<Rightarrow> program \<Rightarrow> bool" where
  "consented env s s' p \<longleftrightarrow>
     (case hp_host_exec (he_policy env (hf_reads s)) of
        Allow \<Rightarrow> True
      | Deny \<Rightarrow> False
      | Ask \<Rightarrow>
          (\<exists>q remember. hf_asked s' = hf_asked s @ [(hf_next_id s, q)] \<and> asked_for env q p \<and>
             he_answer env (hf_next_id s) q = Some (ReplyAllow True remember)))"

lemma check_access_ok:
  assumes "check_access env kind argv cwd gui goal s = (s', r)"
  shows "hf_ran s' = hf_ran s"
    "r = Inr () \<Longrightarrow> hp_host_exec (he_policy env (hf_reads s)) \<noteq> Allow \<Longrightarrow>
      hp_host_exec (he_policy env (hf_reads s)) = Ask \<and> hf_asked s' = hf_asked s @ [(hf_next_id s, AskPermission kind argv cwd gui goal)] \<and>
      (\<exists>remember. he_answer env (hf_next_id s) (AskPermission kind argv cwd gui goal) = Some (ReplyAllow True remember))"
  using assms
  by (auto simp: check_access_def read_policy_def ask_app_def split: host_exec.splits option.splits reply.splits bool.splits)

lemma run_host_program_ran:
  "run_host_program env argv cwd stdin t gui s = (s', r) \<Longrightarrow>
     \<exists>p. hf_ran s' = hf_ran s @ [p] \<and> hf_asked s' = hf_asked s \<and> pr_argv p = argv \<and> pr_gui p = gui \<and>
       pr_dir p = (case cwd of Some (c # cs) \<Rightarrow> Some (c # cs) | _ \<Rightarrow> he_home env)"
  by (auto simp: run_host_program_def Let_def)

lemma checked_run:
  assumes "check_access env kind argv cwd gui goal s = (s1, Inr u)" "run_host_program env argv' cwd' stdin t gui s1 = (s', r)"
    "kind = ''exec'' \<and> goal = None \<and> argv' = argv \<and> cwd' = cwd \<or> kind = ''open'' \<and> (\<exists>what. goal = Some what \<and> argv' = open_command env what)"
  shows "\<exists>p. hf_ran s' = hf_ran s @ [p] \<and> consented env s s' p"
proof -
  obtain p where p: "hf_ran s' = hf_ran s1 @ [p]" "hf_asked s' = hf_asked s1" "pr_argv p = argv'" "pr_gui p = gui"
    "pr_dir p = (case cwd' of Some (c # cs) \<Rightarrow> Some (c # cs) | _ \<Rightarrow> he_home env)"
    using run_host_program_ran [OF assms(2)] by blast
  have a: "asked_for env (AskPermission kind argv cwd gui goal) p" using assms(3) p by (auto simp: asked_for_def)
  have "consented env s s' p"
    using check_access_ok(2) [OF assms(1)] p(2) a
    by (cases "hp_host_exec (he_policy env (hf_reads s))") (auto simp: consented_def)
  then show ?thesis using p(1) check_access_ok(1) [OF assms(1)] by auto
qed

lemma exec_ran:
  assumes "dispatch env function args s = (s', r)" "hf_ran s' \<noteq> hf_ran s" "function = ''exec''"
  shows "\<exists>p. hf_ran s' = hf_ran s @ [p] \<and> consented env (fst (read_policy env s)) s' p"
proof -
  let ?s1 = "s\<lparr>hf_reads := hf_reads s + 1\<rparr>"
  have r1: "read_policy env s = (?s1, he_policy env (hf_reads s))" by (simp add: read_policy_def)
  define argv where "argv = (case json_opt ''argv'' as_array args of Some items \<Rightarrow> List.map_filter as_str items | None \<Rightarrow> [])"
  define cwd where "cwd = json_opt ''cwd'' as_str args"
  define gui where "gui = (case json_opt ''gui'' as_bool args of Some b \<Rightarrow> b | None \<Rightarrow> False)"
  obtain s2 c where c: "check_access env ''exec'' argv cwd gui None ?s1 = (s2, c)" by fastforce
  have d: "dispatch env function args s = (if argv = [] then (?s1, Inl (''bad-request'', ''argv must be a non-empty list of strings''))
      else case c of Inl e \<Rightarrow> (s2, Inl e) | Inr _ \<Rightarrow> run_host_program env argv cwd (json_opt ''stdin'' as_str args)
        (case json_opt ''timeoutMs'' as_u64 args of Some n \<Rightarrow> n | None \<Rightarrow> 60000) gui s2)"
    using assms(3) c by (simp add: dispatch_def r1 argv_def [symmetric] cwd_def [symmetric] gui_def [symmetric] split: sum.splits)
  show ?thesis
  proof (cases c)
    case (Inl e)
    then show ?thesis using d assms check_access_ok(1) [OF c] by (auto split: if_splits)
  next
    case (Inr u)
    then have "run_host_program env argv cwd (json_opt ''stdin'' as_str args)
        (case json_opt ''timeoutMs'' as_u64 args of Some n \<Rightarrow> n | None \<Rightarrow> 60000) gui s2 = (s', r)"
      using d assms by (auto split: if_splits)
    from checked_run [OF c [unfolded Inr] this] show ?thesis using r1 by auto
  qed
qed

lemma open_ran:
  assumes "dispatch env function args s = (s', r)" "hf_ran s' \<noteq> hf_ran s" "function = ''open''"
  shows "\<exists>p. hf_ran s' = hf_ran s @ [p] \<and> consented env (fst (read_policy env s)) s' p"
proof -
  let ?s1 = "s\<lparr>hf_reads := hf_reads s + 1\<rparr>"
  have r1: "read_policy env s = (?s1, he_policy env (hf_reads s))" by (simp add: read_policy_def)
  show ?thesis
  proof (cases "\<exists>c cs. json_opt ''target'' as_str args = Some (c # cs)")
    case True
    then obtain c cs where t: "json_opt ''target'' as_str args = Some (c # cs)" by blast
    obtain s2 k where k: "check_access env ''open'' [] None True (Some (c # cs)) ?s1 = (s2, k)" by fastforce
    show ?thesis
    proof (cases k)
      case (Inl e)
      then show ?thesis using assms(3) t k assms check_access_ok(1) [OF k] by (auto simp: dispatch_def r1)
    next
      case (Inr u)
      then have "run_host_program env (open_command env (c # cs)) None None 60000 True s2 = (s', r)"
        using assms(3) t k assms by (auto simp: dispatch_def r1)
      from checked_run [OF k [unfolded Inr] this] show ?thesis using r1 by auto
    qed
  next
    case False
    then show ?thesis using assms by (auto simp: dispatch_def r1 split: option.splits list.splits)
  qed
qed

lemma dispatch_ran:
  assumes "dispatch env function args s = (s', r)" "hf_ran s' \<noteq> hf_ran s"
  shows "\<exists>p. hf_ran s' = hf_ran s @ [p] \<and> consented env (fst (read_policy env s)) s' p"
proof (cases "function \<in> {''exec'', ''open''}")
  case True
  then show ?thesis using exec_ran [OF assms] open_ran [OF assms] by auto
next
  case False
  then have "hf_ran s' = hf_ran s"
    using assms(1) by (auto simp: dispatch_def ask_app_def read_policy_def split: if_splits option.splits reply.splits)
  then show ?thesis using assms(2) by simp
qed

text \<open>C8: Nothing runs on the host without consent. One connection of the guest starts at most one host program, whatever it
  sends and however the reads arrive; and it starts one only when the \<open>hostExec\<close> policy in force at the check is Allow, or is
  Ask and the app, asked about exactly this program (its argv, folder and kind, or the target to open), answered yes. Under
  Deny nothing is ever started.\<close>

theorem host_programs_consented:
  "hf_ran (snd (handle_call ops env t s)) = hf_ran s \<or>
   (\<exists>p. hf_ran (snd (handle_call ops env t s)) = hf_ran s @ [p] \<and>
      consented env (fst (read_policy env s)) (snd (handle_call ops env t s)) p)"
proof -
  obtain t1 line where l: "read_line ops [] t = (t1, line)" by fastforce
  have err: "snd (handle_call ops env t s) = s" if "\<nexists>said. line = LineRead said"
    using l that by (cases line) (auto simp: handle_call_def split: prod.splits)
  show ?thesis
  proof (cases "\<exists>said. line = LineRead said")
    case True
    then obtain said where t: "line = LineRead said" by blast
    have h: "snd (handle_call ops env t s) = fst (call_response env said s)"
      using l t by (auto simp: handle_call_def split: prod.splits)
    show ?thesis
    proof (cases "parse_call env said")
      case (Inl e)
      then show ?thesis using h by (simp add: call_response_def)
    next
      case (Inr fa)
      obtain fn args where fa: "fa = (fn, args)" by fastforce
      obtain s1 r where d: "dispatch env fn args s = (s1, r)" by fastforce
      have "fst (call_response env said s) = s1" using Inr fa d by (auto simp: call_response_def split: sum.splits)
      then show ?thesis using h dispatch_ran [OF d] by auto
    qed
  qed (use err in simp)
qed

subsection \<open>The table of waiting calls\<close>

definition wait_ok :: "wait_table \<Rightarrow> bool" where
  "wait_ok w \<longleftrightarrow>
     (\<forall>i. i \<in> wt_waiting w \<longrightarrow> wt_calls w i \<in> {Some Asking, Some Expired}) \<and>
     (\<forall>i. wt_calls w i = Some Asking \<longrightarrow> i \<in> wt_waiting w) \<and> (\<forall>i. wt_next w \<le> i \<longrightarrow> wt_calls w i = None)"

inductive_cases wait_stepE: "wait_step w w'"

lemma wait_ok_start: "wait_ok wait_start"
  by (simp add: wait_ok_def wait_start_def)

lemma wait_ok_step: "wait_step w w' \<Longrightarrow> wait_ok w \<Longrightarrow> wait_ok w'"
proof (induction rule: wait_step.induct)
  case (put w)
  then show ?case unfolding wait_ok_def by simp
next
  case (closing w)
  then show ?case unfolding wait_ok_def by auto
qed (unfold wait_ok_def, (auto split: if_splits)+)

lemma wait_ok_reach: "wait_step\<^sup>*\<^sup>* wait_start w \<Longrightarrow> wait_ok w"
  by (induction rule: rtranclp_induct) (auto intro: wait_ok_start wait_ok_step)

definition settled :: "wait_state option \<Rightarrow> wait_state option \<Rightarrow> bool" where
  "settled a b \<longleftrightarrow>
     (case a of Some (Handed r) \<Rightarrow> b = Some (Handed r) \<or> b = Some (Answered (Some r)) | Some (Answered x) \<Rightarrow> b = Some (Answered x) | _ \<Rightarrow> True)"

lemma settled_step: "wait_step w w' \<Longrightarrow> wait_ok w \<Longrightarrow> settled (wt_calls w i) (wt_calls w' i)"
proof (induction rule: wait_step.induct)
  case (put w)
  then show ?case by (auto simp: settled_def wait_ok_def split: option.splits wait_state.splits)
qed (auto simp: settled_def split: option.splits wait_state.splits)

lemma settled_trans: "settled a b \<Longrightarrow> settled b c \<Longrightarrow> settled a c"
  by (auto simp: settled_def split: option.splits wait_state.splits)


definition wait_handed :: wait_table where
  "wait_handed = \<lparr>wt_next = 2, wt_waiting = {}, wt_calls = [1 \<mapsto> Handed (ReplyAllow True False)]\<rparr>"

lemma wait_asked: "wait_step wait_start \<lparr>wt_next = 2, wt_waiting = {1}, wt_calls = [1 \<mapsto> Asking]\<rparr>"
  using wait_step.put [of wait_start] by (simp add: wait_start_def numeral_2_eq_2)


text \<open>An id is answerable for a moment after its time is up: a reply then finds it, and nobody gets the answer.\<close>

lemma late_reply_found: "\<exists>w. wait_step\<^sup>*\<^sup>* wait_start w \<and> reply_found w 1 \<and> wt_calls w 1 = Some Expired"
proof -
  let ?a = "\<lparr>wt_next = 2, wt_waiting = {1}, wt_calls = [1 \<mapsto> Asking]\<rparr> :: wait_table"
  have "wait_step ?a (?a\<lparr>wt_calls := [1 \<mapsto> Expired]\<rparr>)" using wait_step.expire [of ?a 1] by simp
  then have "wait_step\<^sup>*\<^sup>* wait_start (?a\<lparr>wt_calls := [1 \<mapsto> Expired]\<rparr>)" using wait_asked by (meson r_into_rtranclp rtranclp_trans)
  then show ?thesis by (intro exI [of _ "?a\<lparr>wt_calls := [1 \<mapsto> Expired]\<rparr>"]) (simp add: reply_found_def)
qed

subsection \<open>The pipes of a host program\<close>

text \<open>
  \<open>run_host_program\<close> writes all of the program's input before it starts the threads that read its output. The pipes
  hold at most \<open>cap\<close> bytes each; the program below is one that copies its input to its output. The counts are of bytes: still to be
  written, in the program's input pipe, in its output pipe.
\<close>

inductive feed_step :: "nat \<Rightarrow> nat \<times> nat \<times> nat \<Rightarrow> nat \<times> nat \<times> nat \<Rightarrow> bool" for cap where
  feed: "i < cap \<Longrightarrow> feed_step cap (Suc n, i, j) (n, Suc i, j)"
| copy: "j < cap \<Longrightarrow> feed_step cap (n, Suc i, j) (n, i, Suc j)"

lemma feed_bound: "(feed_step cap)\<^sup>*\<^sup>* (n, 0, 0) (m, i, j) \<Longrightarrow> m + i + j = n \<and> i \<le> cap \<and> j \<le> cap"
proof (induction "(m, i, j)" arbitrary: m i j rule: rtranclp_induct)
  case (step y)
  then show ?case by (cases y) (auto elim!: feed_step.cases)
qed simp

text \<open>With more input than the two pipes hold, the writing never ends, and the deadline is not even set.\<close>

lemma feed_never_done: "2 * cap < n \<Longrightarrow> (feed_step cap)\<^sup>*\<^sup>* (n, 0, 0) (m, i, j) \<Longrightarrow> 0 < m"
  using feed_bound [of cap n m i j] by linarith

end
