(* ===== verification/Ssh_Agent.thy ===== *)
theory Ssh_Agent
  imports Streams Texts
begin

unbundle bit_operations_syntax

text \<open>
  The host's ssh-agent lent to the guest, \<open>engine/src/sshagent.rs\<close>: a filter between the guest's stream and
  the agent's socket. Both are byte streams (\<open>stream_ops\<close>); connecting to the agent, the app's answer to a
  question and SHA-256 (the crate \<open>ring\<close>) are parameters of \<open>ssh_env\<close>. What is written to the agent is noted in
  \<open>ss_sent\<close>, what the app is asked in \<open>ss_asked\<close>, what the observer hears in \<open>ss_events\<close>. The policy may change
  between two requests, so a session is given the policy of each request.
\<close>

abbreviation FAILURE :: byte where "FAILURE \<equiv> 5"
abbreviation REQUEST_IDENTITIES :: byte where "REQUEST_IDENTITIES \<equiv> 11"
abbreviation IDENTITIES_ANSWER :: byte where "IDENTITIES_ANSWER \<equiv> 12"
abbreviation SIGN_REQUEST :: byte where "SIGN_REQUEST \<equiv> 13"
definition MAX_MESSAGE :: nat where "MAX_MESSAGE = 256 * 1024"

datatype ssh_mode = Off | AskFirst | AllowAll

definition parse_mode :: "string \<Rightarrow> ssh_mode option" where
  "parse_mode s =
     (if s = ''off'' then Some Off else if s = ''ask'' then Some AskFirst else if s = ''allow'' then Some AllowAll else None)"

record ssh_policy =
  sp_mode :: ssh_mode
  sp_socket :: "string option"

record ssh_event =
  se_op :: string
  se_key :: "string option"
  se_allowed :: bool
  se_reason :: "string option"

record 'a ssh_env =
  ae_auth_sock :: "string option"
  ae_connect :: "nat \<Rightarrow> string \<Rightarrow> string + 'a"
  ae_ops :: "'a stream_ops"
  ae_ask :: "nat \<Rightarrow> string \<Rightarrow> (bool \<times> bool) option"
  ae_sha256 :: "bytes \<Rightarrow> bytes"

record 'a ssh_session =
  ss_agent :: "'a option"
  ss_comments :: "bytes \<rightharpoonup> string"
  ss_allowed :: "string \<rightharpoonup> bool"
  ss_events :: "ssh_event list"
  ss_asked :: "string list"
  ss_connects :: nat
  ss_sent :: "bytes list"

subsection \<open>Messages\<close>

datatype io_read = IoDone bytes | IoEof | IoFailed stream_error | IoWaiting

function io_read_exact :: "'s stream_ops \<Rightarrow> nat \<Rightarrow> bytes \<Rightarrow> 's \<Rightarrow> 's \<times> io_read" where
  "io_read_exact ops want acc s =
     (if want \<le> length acc then (s, IoDone acc)
      else case st_read ops s (want - length acc) of
          (s1, Waiting) \<Rightarrow> (s1, IoWaiting)
        | (s1, Failed e) \<Rightarrow> (s1, IoFailed e)
        | (s1, Ready part) \<Rightarrow> if part = [] then (s1, IoEof) else io_read_exact ops want (acc @ part) s1)"
  by pat_completeness auto

termination io_read_exact
proof (relation "measure (\<lambda>(ops, want, acc, s). want - length acc)", simp)
  fix ops :: "'s stream_ops" and want :: nat and acc part :: bytes and s s1 :: 's
  assume "\<not> want \<le> length acc" "part \<noteq> []"
  then show "((ops, want, acc @ part, s1), ops, want, acc, s) \<in> measure (\<lambda>(ops, want, acc, s). want - length acc)"
    by (cases part) auto
qed

declare io_read_exact.simps [simp del]

definition error_text :: "stream_error \<Rightarrow> string" where
  "error_text e = (case e of Closed reason \<Rightarrow> reason | ReadTimeout \<Rightarrow> ''the guest did not answer in time'')"

datatype message_read = Message bytes | EndOfMessages | BadMessage string | MessageWaiting

definition read_message :: "'s stream_ops \<Rightarrow> 's \<Rightarrow> 's \<times> message_read" where
  "read_message ops s =
     (case io_read_exact ops 4 [] s of
        (s1, IoWaiting) \<Rightarrow> (s1, MessageWaiting)
      | (s1, IoEof) \<Rightarrow> (s1, EndOfMessages)
      | (s1, IoFailed e) \<Rightarrow> (s1, BadMessage (error_text e))
      | (s1, IoDone header) \<Rightarrow>
          let len = unat (be32_at 0 header) in
          if len = 0 \<or> len > MAX_MESSAGE then (s1, BadMessage (''an agent message of '' @ decimal len @ '' bytes''))
          else (case io_read_exact ops len [] s1 of
              (s2, IoWaiting) \<Rightarrow> (s2, MessageWaiting)
            | (s2, IoEof) \<Rightarrow> (s2, BadMessage ''failed to fill whole buffer'')
            | (s2, IoFailed e) \<Rightarrow> (s2, BadMessage (error_text e))
            | (s2, IoDone message) \<Rightarrow> (s2, Message message)))"

definition ssh_frame :: "bytes \<Rightarrow> bytes" where
  "ssh_frame message = u32_be (word_of_nat (length message)) @ message"

definition write_message :: "'s stream_ops \<Rightarrow> bytes \<Rightarrow> 's \<Rightarrow> 's \<times> unit attempt" where
  "write_message ops message s = st_write_all ops s (ssh_frame message)"

definition read_string :: "bytes \<Rightarrow> (bytes \<times> bytes) option" where
  "read_string bs =
     (if length bs < 4 then None
      else
        let len = unat (be32_at 0 bs); rest = drop 4 bs in
        if len \<le> length rest then Some (take len rest, drop len rest) else None)"

fun read_pairs :: "nat \<Rightarrow> bytes \<Rightarrow> (bytes \<rightharpoonup> string) \<Rightarrow> (bytes \<rightharpoonup> string) option" where
  "read_pairs 0 rest keys = Some keys"
| "read_pairs (Suc n) rest keys =
     (case read_string rest of
        None \<Rightarrow> None
      | Some (blob, after) \<Rightarrow>
          (case read_string after of
             None \<Rightarrow> None
           | Some (comment, after2) \<Rightarrow> read_pairs n after2 (keys(blob \<mapsto> from_utf8_lossy (string_of comment)))))"

definition parse_identities :: "bytes \<Rightarrow> (bytes \<rightharpoonup> string) option" where
  "parse_identities resp =
     (if resp = [] \<or> hd resp \<noteq> IDENTITIES_ANSWER then None
      else if length resp < 5 then None
      else read_pairs (min (unat (be32_at 1 resp)) 1024) (drop 5 resp) (\<lambda>_. None))"

subsection \<open>Naming a key\<close>

definition alphabet :: string where
  "alphabet = ''ABCDEFGHIJKLMNOPQRSTUVWXYZabcdefghijklmnopqrstuvwxyz0123456789+/''"

definition base64_digit :: "u32 \<Rightarrow> nat \<Rightarrow> char" where
  "base64_digit n i = alphabet ! unat (drop_bit (18 - 6 * i) n AND 63)"

definition base64_group :: "bytes \<Rightarrow> u32" where
  "base64_group chunk =
     fold (\<lambda>(i, b) n. n OR push_bit (16 - 8 * i) (ucast b)) (enumerate 0 chunk) 0"

fun base64_nopad :: "bytes \<Rightarrow> string" where
  "base64_nopad [] = []"
| "base64_nopad [a] = map (base64_digit (base64_group [a])) [0..<2]"
| "base64_nopad [a, b] = map (base64_digit (base64_group [a, b])) [0..<3]"
| "base64_nopad (a # b # c # rest) = map (base64_digit (base64_group [a, b, c])) [0..<4] @ base64_nopad rest"

definition fingerprint :: "'a ssh_env \<Rightarrow> bytes \<Rightarrow> string" where
  "fingerprint env blob = ''SHA256:'' @ base64_nopad (ae_sha256 env blob)"

definition describe_key :: "'a ssh_env \<Rightarrow> bytes \<Rightarrow> string option \<Rightarrow> string" where
  "describe_key env blob comment =
     (let kind = (case read_string blob of Some (kind, _) \<Rightarrow> from_utf8_lossy (string_of kind) | None \<Rightarrow> ''key'') in
      case comment of
        Some c \<Rightarrow> if c \<noteq> [] then kind @ '' '' @ fingerprint env blob @ '' ('' @ c @ '')'' else kind @ '' '' @ fingerprint env blob
      | None \<Rightarrow> kind @ '' '' @ fingerprint env blob)"

subsection \<open>A session\<close>

definition open_agent :: "'a ssh_env \<Rightarrow> string option \<Rightarrow> nat \<Rightarrow> string + 'a" where
  "open_agent env socket n =
     (case (case socket of Some path \<Rightarrow> Some path | None \<Rightarrow> ae_auth_sock env) of
        None \<Rightarrow> Inl ''no ssh-agent: SSH_AUTH_SOCK is not set''
      | Some path \<Rightarrow>
          (case ae_connect env n path of
             Inl e \<Rightarrow> Inl (''cannot reach the ssh-agent at '' @ path @ '': '' @ e)
           | Inr a \<Rightarrow> Inr a))"

definition exchange_with :: "'a ssh_env \<Rightarrow> bytes \<Rightarrow> 'a \<Rightarrow> 'a ssh_session \<Rightarrow> 'a ssh_session \<times> (string + bytes) option" where
  "exchange_with env request a s =
     (let s1 = s\<lparr>ss_sent := ss_sent s @ [request]\<rparr> in
      case write_message (ae_ops env) request a of
        (a1, Waiting) \<Rightarrow> (s1\<lparr>ss_agent := Some a1\<rparr>, None)
      | (a1, Failed e) \<Rightarrow> (s1\<lparr>ss_agent := None\<rparr>, Some (Inl (error_text e)))
      | (a1, Ready _) \<Rightarrow>
          (case read_message (ae_ops env) a1 of
             (a2, MessageWaiting) \<Rightarrow> (s1\<lparr>ss_agent := Some a2\<rparr>, None)
           | (a2, Message response) \<Rightarrow> (s1\<lparr>ss_agent := Some a2\<rparr>, Some (Inr response))
           | (a2, EndOfMessages) \<Rightarrow> (s1\<lparr>ss_agent := None\<rparr>, Some (Inl ''the ssh-agent closed the connection''))
           | (a2, BadMessage e) \<Rightarrow> (s1\<lparr>ss_agent := None\<rparr>, Some (Inl e))))"

definition forward :: "'a ssh_env \<Rightarrow> ssh_policy \<Rightarrow> bytes \<Rightarrow> 'a ssh_session \<Rightarrow> 'a ssh_session \<times> (string + bytes) option" where
  "forward env p request s =
     (case ss_agent s of
        Some a \<Rightarrow> exchange_with env request a s
      | None \<Rightarrow>
          let s1 = s\<lparr>ss_connects := ss_connects s + 1\<rparr> in
          (case open_agent env (sp_socket p) (ss_connects s) of
             Inl e \<Rightarrow> (s1, Some (Inl e))
           | Inr a \<Rightarrow> exchange_with env request a (s1\<lparr>ss_agent := Some a\<rparr>)))"

definition tell :: "string \<Rightarrow> string option \<Rightarrow> bool \<Rightarrow> string option \<Rightarrow> 'a ssh_session \<Rightarrow> 'a ssh_session" where
  "tell op key allowed reason s =
     s\<lparr>ss_events := ss_events s @ [\<lparr>se_op = op, se_key = key, se_allowed = allowed, se_reason = reason\<rparr>]\<rparr>"

definition refuse_ssh :: "string \<Rightarrow> string option \<Rightarrow> string \<Rightarrow> 'a ssh_session \<Rightarrow> 'a ssh_session \<times> bytes option" where
  "refuse_ssh op key reason s = (tell op key False (Some reason) s, Some [FAILURE])"

definition permitted :: "'a ssh_env \<Rightarrow> bytes \<Rightarrow> string \<Rightarrow> 'a ssh_session \<Rightarrow> 'a ssh_session \<times> bool" where
  "permitted env blob key s =
     (case ss_allowed s (fingerprint env blob) of
        Some known \<Rightarrow> (s, known)
      | None \<Rightarrow>
          let q = ''sign with '' @ key;
              (allow, remember) = (case ae_ask env (length (ss_asked s)) q of Some r \<Rightarrow> r | None \<Rightarrow> (False, False));
              s1 = s\<lparr>ss_asked := ss_asked s @ [q]\<rparr>
          in (if remember then s1\<lparr>ss_allowed := (ss_allowed s1)(fingerprint env blob \<mapsto> allow)\<rparr> else s1, allow))"

definition ssh_answer :: "'a ssh_env \<Rightarrow> ssh_policy \<Rightarrow> bytes \<Rightarrow> 'a ssh_session \<Rightarrow> 'a ssh_session \<times> bytes option" where
  "ssh_answer env p request s =
     (if sp_mode p = Off then refuse_ssh ''list'' None ''the app does not lend its ssh-agent (sshAgent: off)'' s
      else case request of
          [] \<Rightarrow> (s, Some [FAILURE])
        | op # body \<Rightarrow>
            if op = REQUEST_IDENTITIES then
              (case forward env p request s of
                 (s1, None) \<Rightarrow> (s1, None)
               | (s1, Some (Inr response)) \<Rightarrow>
                   (tell ''list'' None True None
                      (s1\<lparr>ss_comments := (case parse_identities response of Some keys \<Rightarrow> keys | None \<Rightarrow> (\<lambda>_. None))\<rparr>),
                    Some response)
               | (s1, Some (Inl e)) \<Rightarrow> refuse_ssh ''list'' None e s1)
            else if op = SIGN_REQUEST then
              (case read_string body of
                 None \<Rightarrow> refuse_ssh ''sign'' None ''a malformed signature request'' s
               | Some (blob, _) \<Rightarrow>
                   let key = describe_key env blob (ss_comments s blob);
                       (s1, ok) = (if sp_mode p = AskFirst then permitted env blob key s else (s, True)) in
                   if \<not> ok then refuse_ssh ''sign'' (Some key) ''the app did not allow this signature'' s1
                   else (case forward env p request s1 of
                       (s2, None) \<Rightarrow> (s2, None)
                     | (s2, Some (Inr response)) \<Rightarrow> (tell ''sign'' (Some key) True None s2, Some response)
                     | (s2, Some (Inl e)) \<Rightarrow> refuse_ssh ''sign'' (Some key) e s2))
            else refuse_ssh ''other'' None (''agent request '' @ decimal (unat op) @ '' is not lent to the sandbox'') s)"

datatype session_end = Ended | ReadStopped string | WriteStopped stream_error | StillRunning | MoreRounds

text \<open>\<open>n\<close> bounds the rounds that are looked at; \<open>turns\<close> gives the policy in force at each, and what other sessions
  and the app did to the remembered answers before it. The requests and responses of the completed rounds
  are returned with the state.\<close>

type_synonym turn = "ssh_policy \<times> ((string \<rightharpoonup> bool) \<Rightarrow> (string \<rightharpoonup> bool))"

fun ssh_run :: "nat \<Rightarrow> 'g stream_ops \<Rightarrow> 'a ssh_env \<Rightarrow> (nat \<Rightarrow> turn) \<Rightarrow> 'g \<Rightarrow> 'a ssh_session
    \<Rightarrow> 'g \<times> 'a ssh_session \<times> (bytes \<times> bytes) list \<times> session_end" where
  "ssh_run 0 ops env turns g s = (g, s, [], MoreRounds)"
| "ssh_run (Suc n) ops env turns g s =
     (case read_message ops g of
        (g1, EndOfMessages) \<Rightarrow> (g1, s, [], Ended)
      | (g1, BadMessage e) \<Rightarrow> (g1, s, [], ReadStopped e)
      | (g1, MessageWaiting) \<Rightarrow> (g1, s, [], StillRunning)
      | (g1, Message request) \<Rightarrow>
          (case ssh_answer env (fst (turns 0)) request (s\<lparr>ss_allowed := snd (turns 0) (ss_allowed s)\<rparr>) of
             (s1, None) \<Rightarrow> (g1, s1, [], StillRunning)
           | (s1, Some response) \<Rightarrow>
               (case write_message ops response g1 of
                  (g2, Waiting) \<Rightarrow> (g2, s1, [], StillRunning)
                | (g2, Failed e) \<Rightarrow> (g2, s1, [], WriteStopped e)
                | (g2, Ready _) \<Rightarrow>
                    (case ssh_run n ops env (\<lambda>i. turns (Suc i)) g2 s1 of
                       (g3, s3, rounds, e) \<Rightarrow> (g3, s3, (request, response) # rounds, e)))))"

definition session_new :: "(string \<rightharpoonup> bool) \<Rightarrow> 'a ssh_session" where
  "session_new answers = \<lparr>ss_agent = None, ss_comments = (\<lambda>_. None), ss_allowed = answers, ss_events = [], ss_asked = [],
     ss_connects = 0, ss_sent = []\<rparr>"

subsection \<open>What reaches the agent\<close>

definition app_allows :: "'a ssh_env \<Rightarrow> 'a ssh_session \<Rightarrow> bytes \<Rightarrow> bool" where
  "app_allows env s blob =
     (case ss_allowed s (fingerprint env blob) of
        Some known \<Rightarrow> known
      | None \<Rightarrow>
          (case ae_ask env (length (ss_asked s)) (''sign with '' @ describe_key env blob (ss_comments s blob)) of
             Some (allow, _) \<Rightarrow> allow
           | None \<Rightarrow> False))"

definition lent :: "'a ssh_env \<Rightarrow> ssh_policy \<Rightarrow> 'a ssh_session \<Rightarrow> bytes \<Rightarrow> bool" where
  "lent env p s request \<longleftrightarrow> sp_mode p \<noteq> Off \<and>
     (case request of
        [] \<Rightarrow> False
      | op # body \<Rightarrow> op = REQUEST_IDENTITIES \<or>
          op = SIGN_REQUEST \<and> (case read_string body of
              None \<Rightarrow> False
            | Some (blob, _) \<Rightarrow> sp_mode p = AllowAll \<or> app_allows env s blob))"

lemma permitted_eq:
  "permitted env blob (describe_key env blob (ss_comments s blob)) s = (s1, ok) \<Longrightarrow>
    ok = app_allows env s blob \<and> ss_sent s1 = ss_sent s \<and> ss_agent s1 = ss_agent s"
  by (auto simp: permitted_def app_allows_def Let_def split: option.splits prod.splits if_splits)

lemma exchange_sent: "exchange_with env request a s = (s', r) \<Longrightarrow> ss_sent s' = ss_sent s @ [request]"
  by (auto simp: exchange_with_def Let_def split: prod.splits attempt.splits message_read.splits)

lemma forward_sent:
  "forward env p request s = (s', r) \<Longrightarrow> ss_sent s' = ss_sent s @ [request] \<or> ss_sent s' = ss_sent s \<and> (\<exists>e. r = Some (Inl e))"
  by (auto simp: forward_def Let_def dest: exchange_sent split: option.splits sum.splits)

lemma tell_same [simp]:
  "ss_sent (tell op key ok reason s) = ss_sent s" "ss_agent (tell op key ok reason s) = ss_agent s"
  by (simp_all add: tell_def)

lemma answer_lent:
  assumes "lent env p s request" "ssh_answer env p request s = (s', r)"
  shows "ss_sent s' = ss_sent s @ [request] \<or> ss_sent s' = ss_sent s \<and> r = Some [FAILURE]"
proof -
  obtain op body where r: "request = op # body" using assms(1) by (cases request) (auto simp: lent_def)
  show ?thesis
  proof (cases "op = REQUEST_IDENTITIES")
    case True
    then show ?thesis using assms r
      by (auto simp: ssh_answer_def lent_def refuse_ssh_def dest!: forward_sent split: prod.splits option.splits sum.splits)
  next
    case False
    then obtain blob rest where b: "op = SIGN_REQUEST" "read_string body = Some (blob, rest)"
      "sp_mode p = AllowAll \<or> app_allows env s blob" using assms(1) r by (auto simp: lent_def split: option.splits)
    let ?key = "describe_key env blob (ss_comments s blob)"
    obtain s1 ok where ask: "(if sp_mode p = AskFirst then permitted env blob ?key s else (s, True)) = (s1, ok)" by fastforce
    have ok: ok "ss_sent s1 = ss_sent s" using ask b(3) permitted_eq [of env blob s s1 ok] by (auto split: if_splits)
    have "sp_mode p \<noteq> Off" using assms(1) by (simp add: lent_def)
    then have "ssh_answer env p request s = (case forward env p request s1 of
         (s2, None) \<Rightarrow> (s2, None)
       | (s2, Some (Inr response)) \<Rightarrow> (tell ''sign'' (Some ?key) True None s2, Some response)
       | (s2, Some (Inl e)) \<Rightarrow> refuse_ssh ''sign'' (Some ?key) e s2)"
      using ok b(1,2) ask by (simp add: ssh_answer_def r Let_def)
    moreover obtain s2 out where f: "forward env p request s1 = (s2, out)" by fastforce
    ultimately show ?thesis
      using assms(2) forward_sent [OF f] ok(2) by (auto simp: refuse_ssh_def split: option.splits sum.splits)
  qed
qed

lemma answer_not_lent:
  assumes "\<not> lent env p s request" "ssh_answer env p request s = (s', r)"
  shows "ss_sent s' = ss_sent s \<and> ss_agent s' = ss_agent s \<and> r = Some [FAILURE]"
proof (cases request)
  case (Cons op body)
  show ?thesis
  proof (cases "op = SIGN_REQUEST \<and> sp_mode p = AskFirst \<and> read_string body \<noteq> None")
    case True
    then obtain blob rest where b: "read_string body = Some (blob, rest)" by auto
    obtain s1 ok where ask: "permitted env blob (describe_key env blob (ss_comments s blob)) s = (s1, ok)" by fastforce
    then show ?thesis
      using assms True Cons b permitted_eq [OF ask] by (auto simp: ssh_answer_def lent_def refuse_ssh_def)
  next
    case False
    then show ?thesis
      using assms Cons by (cases "sp_mode p") (auto simp: ssh_answer_def lent_def refuse_ssh_def split: option.splits if_splits)
  qed
qed (use assms in \<open>auto simp: ssh_answer_def refuse_ssh_def split: if_splits\<close>)

subsection \<open>A session over any stream\<close>

context byte_stream
begin

lemma io_read_takes:
  "live s \<Longrightarrow> io_read_exact ops want acc s = (s', IoDone out) \<Longrightarrow> length acc \<le> want \<Longrightarrow>
    live s' \<and> acc @ coming s = out @ coming s' \<and> length out = want \<and> sent s' = sent s"
proof (induction "want - length acc" arbitrary: acc s rule: less_induct)
  case less
  show ?case
  proof (cases "want \<le> length acc")
    case True
    then show ?thesis using less.prems unfolding io_read_exact.simps [of ops want acc s] by simp
  next
    case False
    then obtain s1 part where p: "st_read ops s (want - length acc) = (s1, Ready part)" "part \<noteq> []"
      "io_read_exact ops want (acc @ part) s1 = (s', IoDone out)"
      using less.prems(2) unfolding io_read_exact.simps [of ops want acc s] by (auto split: prod.splits attempt.splits if_splits)
    note t = read_takes [OF less.prems(1) p(1)]
    have "want - length (acc @ part) < want - length acc" "length (acc @ part) \<le> want"
      using False p(2) t by (cases part; auto)+
    from less.hyps [OF this(1) _ p(3) this(2)] show ?thesis using t by simp
  qed
qed

lemma read_message_takes:
  assumes "live s" "read_message ops s = (s', Message m)"
  shows "live s' \<and> coming s = ssh_frame m @ coming s' \<and> sent s' = sent s"
proof -
  obtain s1 header where h: "io_read_exact ops 4 [] s = (s1, IoDone header)"
    "io_read_exact ops (unat (be32_at 0 header)) [] s1 = (s', IoDone m)"
    using assms(2) by (auto simp: read_message_def Let_def split: prod.splits io_read.splits if_splits)
  note 1 = io_read_takes [OF assms(1) h(1)]
  then have l: "live s1" by simp
  note 2 = io_read_takes [OF l h(2)]
  have "from_be header < 2 ^ 32" using from_be_bound [of header] 1 by simp
  then have "u32_be (word_of_nat (length m)) = to_be 4 (from_be header)"
    using 1 2 by (simp add: u32_be_def be32_at_def bslice_def unat_of_nat)
  also have "\<dots> = header" using 1 to_le_from_le [of "rev header" 4] by (simp add: to_be_def from_be_def)
  finally show ?thesis using 1 2 by (simp add: ssh_frame_def)
qed

lemma run_exact:
  "live g \<Longrightarrow> ssh_run n ops env turns g s = (g', s', rounds, MoreRounds) \<Longrightarrow>
    live g' \<and> length rounds = n \<and> coming g = concat (map (ssh_frame \<circ> fst) rounds) @ coming g' \<and>
    sent g' = sent g @ concat (map (ssh_frame \<circ> snd) rounds)"
proof (induction n arbitrary: turns g s rounds)
  case (Suc n)
  obtain g1 request s1 response g2 rest where r: "read_message ops g = (g1, Message request)"
    "write_message ops response g1 = (g2, Ready ())"
    "ssh_run n ops env (\<lambda>i. turns (Suc i)) g2 s1 = (g', s', rest, MoreRounds)" "rounds = (request, response) # rest"
    using Suc.prems(2) by (auto split: prod.splits message_read.splits option.splits attempt.splits)
  note 1 = read_message_takes [OF Suc.prems(1) r(1)]
  then have l: "live g1" by simp
  note 2 = write_sends [OF l r(2) [unfolded write_message_def]]
  from Suc.IH [OF conjunct1 [OF 2] r(3)] 1 2 r(4) show ?case by simp
qed simp

end

lemma run_sent:
  "ssh_run n ops env turns g s = (g', s', rounds, e) \<Longrightarrow>
    \<exists>new. ss_sent s' = ss_sent s @ new \<and> list_all (\<lambda>m. m \<noteq> [] \<and> (hd m = REQUEST_IDENTITIES \<or> hd m = SIGN_REQUEST)) new"
proof (induction n arbitrary: turns g s rounds e)
  case (Suc n)
  show ?case
  proof (cases "read_message ops g")
    case (Pair g1 m)
    show ?thesis
    proof (cases m)
      case (Message request)
      let ?s = "s\<lparr>ss_allowed := snd (turns 0) (ss_allowed s)\<rparr>"
      obtain s1 r where a: "ssh_answer env (fst (turns 0)) request ?s = (s1, r)" by fastforce
      have one: "\<exists>new. ss_sent s1 = ss_sent s @ new \<and>
          list_all (\<lambda>m. m \<noteq> [] \<and> (hd m = REQUEST_IDENTITIES \<or> hd m = SIGN_REQUEST)) new"
      proof (cases "lent env (fst (turns 0)) ?s request")
        case True
        then have "request \<noteq> [] \<and> (hd request = REQUEST_IDENTITIES \<or> hd request = SIGN_REQUEST)"
          by (auto simp: lent_def split: list.splits)
        then show ?thesis using answer_lent [OF True a] by auto
      qed (use answer_not_lent [OF _ a] in auto)
      have "s' = s1 \<or> (\<exists>g2 rest e'. ssh_run n ops env (\<lambda>i. turns (Suc i)) g2 s1 = (g', s', rest, e'))"
        using Suc.prems Pair Message a by (auto split: option.splits attempt.splits prod.splits)
      then show ?thesis
      proof
        assume "\<exists>g2 rest e'. ssh_run n ops env (\<lambda>i. turns (Suc i)) g2 s1 = (g', s', rest, e')"
        then obtain g2 rest e' where "ssh_run n ops env (\<lambda>i. turns (Suc i)) g2 s1 = (g', s', rest, e')" by blast
        from Suc.IH [OF this] obtain new2 where "ss_sent s' = ss_sent s1 @ new2"
          "list_all (\<lambda>m. m \<noteq> [] \<and> (hd m = REQUEST_IDENTITIES \<or> hd m = SIGN_REQUEST)) new2" by blast
        moreover from one obtain new1 where "ss_sent s1 = ss_sent s @ new1"
          "list_all (\<lambda>m. m \<noteq> [] \<and> (hd m = REQUEST_IDENTITIES \<or> hd m = SIGN_REQUEST)) new1" by blast
        ultimately show ?thesis by (intro exI [of _ "new1 @ new2"]) simp
      qed (use one in simp)
    qed (use Suc.prems Pair in auto)
  qed
qed simp

subsection \<open>Properties of the ssh-agent bridge\<close>

text \<open>C9: Only two requests are lent to the guest. While the app does not lend its agent, for a request other than
  listing the keys and signing, for a malformed signature request, and, when the app is to be asked, for a
  signature it does not allow now and has not allowed before for that key, the guest gets a failure and
  nothing is written to the agent, not even a connection made. Any other request is written to the agent once
  and as it came, or the guest gets a failure because the agent could not be reached.\<close>

theorem ssh_only_lent:
  assumes "ssh_answer env p request s = (s', r)"
  shows "if lent env p s request then ss_sent s' = ss_sent s @ [request] \<or> ss_sent s' = ss_sent s \<and> r = Some [FAILURE]
    else ss_sent s' = ss_sent s \<and> ss_agent s' = ss_agent s \<and> r = Some [FAILURE]"
  using answer_lent [OF _ assms] answer_not_lent [OF _ assms] by simp

definition sample_env :: "nat ssh_env" where
  "sample_env = \<lparr>ae_auth_sock = Some ''/run/agent'', ae_connect = (\<lambda>n path. Inr 0),
     ae_ops = \<lparr>st_read = (\<lambda>s room. (s + 1, Ready (if s = 0 then [0, 0, 0, 1] else [5]))),
       st_read_exact = (\<lambda>s n. (s, Waiting)), st_write_all = (\<lambda>s bs. (s, Ready ())), st_set_deadline = (\<lambda>s d. s),
       st_now = (\<lambda>s. 0), st_close = (\<lambda>s. s)\<rparr>,
     ae_ask = (\<lambda>n q. None), ae_sha256 = (\<lambda>bs. bs)\<rparr>"

theorem ssh_only_lent_witness:
  "\<exists>s' r. ssh_answer sample_env \<lparr>sp_mode = AllowAll, sp_socket = None\<rparr> [17, 1, 2] (session_new (\<lambda>_. None)) = (s', r) \<and>
     ss_sent s' = [] \<and> r = Some [FAILURE]"
proof -
  obtain s' r where a: "ssh_answer sample_env \<lparr>sp_mode = AllowAll, sp_socket = None\<rparr> [17, 1, 2] (session_new (\<lambda>_. None)) = (s', r)"
    by fastforce
  show ?thesis using ssh_only_lent [OF a] a by (simp add: lent_def session_new_def)
qed

text \<open>A session is a faithful go-between over the guest's stream: after any number of completed rounds the guest
  has sent exactly the requests of these rounds, each as one framed message, and has been sent exactly one
  framed response for each, in the same order; and whatever happened, even when the session stopped in the
  middle, every message that was written to the host's agent is a listing or a signature request.\<close>

theorem ssh_session_exact:
  assumes "vt_live g" "ssh_run n vsock_stream env turns g (session_new answers) = (g', s', rounds, e)"
  shows "list_all (\<lambda>m. m \<noteq> [] \<and> (hd m = REQUEST_IDENTITIES \<or> hd m = SIGN_REQUEST)) (ss_sent s') \<and>
    (e = MoreRounds \<longrightarrow> length rounds = n \<and> vt_coming g = concat (map (ssh_frame \<circ> fst) rounds) @ vt_coming g' \<and>
       vt_data g' = vt_data g @ concat (map (ssh_frame \<circ> snd) rounds))"
  using run_sent [OF assms(2)] vs_stream.run_exact [OF assms(1), of n env turns "session_new answers" g' s' rounds] assms(2)
  by (auto simp: session_new_def)

definition quiet :: arrival where
  "quiet = \<lparr>ar_time = 0, ar_buf_alloc = 4096, ar_fwd_cnt = 0, ar_payload = []\<rparr>"

definition asking :: vstream where
  "asking = \<lparr>vt_conn = connection_new \<lparr>a_guest_cid = 3, a_local_port = 1082, a_peer_port = 2000\<rparr> True
     \<lparr>s_incoming := [0, 0, 0, 1, 11]\<rparr>, vt_arrivals = [quiet, quiet, quiet, quiet], vt_sent = []\<rparr>"

lemma off_round:
  "\<exists>g' s'. ssh_run 1 vsock_stream sample_env (\<lambda>_. (\<lparr>sp_mode = Off, sp_socket = None\<rparr>, id)) asking (session_new (\<lambda>_. None)) =
     (g', s', [([11], [FAILURE])], MoreRounds)"
  by (simp add: asking_def quiet_def read_message_def io_read_exact.simps vsock_stream_def vt_update_def read_def arrive_def
      enqueue_def update_credit_def connection_new_def be32_at_def from_be_def bslice_def ssh_answer_def refuse_ssh_def
      write_message_def ssh_frame_def u32_be_def to_be_def write_chunk_def MAX_MESSAGE_def Let_def)

theorem ssh_session_exact_witness:
  "\<exists>g'. fst (ssh_run 1 vsock_stream sample_env (\<lambda>_. (\<lparr>sp_mode = Off, sp_socket = None\<rparr>, id)) asking (session_new (\<lambda>_. None))) = g' \<and>
     vt_coming asking = ssh_frame [11] @ vt_coming g' \<and> vt_data g' = ssh_frame [FAILURE]"
proof -
  obtain g' s' where r: "ssh_run 1 vsock_stream sample_env (\<lambda>_. (\<lparr>sp_mode = Off, sp_socket = None\<rparr>, id)) asking (session_new (\<lambda>_. None)) =
     (g', s', [([11], [FAILURE])], MoreRounds)" using off_round by blast
  have "vt_live asking" by (simp add: vt_live_def asking_def connection_new_def)
  from ssh_session_exact [OF this r] r show ?thesis by (simp add: vt_data_def asking_def)
qed

end
