(* ===== verification/Serial.thy ===== *)
theory Serial
  imports Streams Json
begin

text \<open>
  The host's serial ports lent to the guest, \<open>engine/src/serial.rs\<close>: patterns and decisions, line settings, frames, and a
  session from its request line on. The devices the system lists, canonical paths, the system's \<open>open\<close> and the calls on an
  open port, JSON as text, the \<open>Debug\<close> text of an unknown \<open>op\<close> and the app's answers are parameters of \<open>serial_env\<close>.
  The code is taken as built for Unix (names are case-sensitive). What is done to ports is noted in \<open>sr_calls\<close>, what the app
  is asked in \<open>sr_asked\<close>, what the observer hears in \<open>sr_events\<close>.
\<close>

definition UNLISTED :: string where "UNLISTED = ''unlisted''"
abbreviation FRAME_DATA :: byte where "FRAME_DATA \<equiv> 0"
abbreviation FRAME_CONTROL :: byte where "FRAME_CONTROL \<equiv> 1"
definition MAX_FRAME :: nat where "MAX_FRAME = 64 * 1024"
definition SERIAL_REQUEST :: nat where "SERIAL_REQUEST = 64 * 1024"

datatype serial_mode = SerialOff | SerialAsk | SerialAllow

definition parse_serial_mode :: "string \<Rightarrow> serial_mode option" where
  "parse_serial_mode s =
     (if s = ''off'' then Some SerialOff else if s = ''ask'' then Some SerialAsk else if s = ''allow'' then Some SerialAllow else None)"

record serial_policy =
  sl_mode :: serial_mode
  sl_devices :: "string list"

record usb =
  ub_vid :: nat
  ub_pid :: nat
  ub_serial :: "string option"
  ub_manufacturer :: "string option"
  ub_product :: "string option"
  ub_interface :: "nat option"

record serial_device =
  sd_path :: string
  sd_by_id :: "string option"
  sd_bus :: string
  sd_driver :: "string option"
  sd_usb :: "usb option"

definition hex4 :: "nat \<Rightarrow> string" where
  "hex4 n = replicate (4 - length (hex n)) CHR ''0'' @ hex n"

definition describe_device :: "serial_device \<Rightarrow> string" where
  "describe_device d =
     sd_path d @
     (case sd_usb d of
        None \<Rightarrow> []
      | Some u \<Rightarrow>
          '' (USB '' @ hex4 (ub_vid u) @ '':'' @ hex4 (ub_pid u) @
          concat (map (\<lambda>part. case part of None \<Rightarrow> [] | Some t \<Rightarrow> '' '' @ t) [ub_manufacturer u, ub_product u]) @
          (case ub_serial u of None \<Rightarrow> [] | Some t \<Rightarrow> '', serial '' @ t) @ '')'') @
     (if sd_bus d = UNLISTED then '' (not a serial port this computer lists: a terminal or a pty)'' else [])"

definition opt_string :: "string option \<Rightarrow> json" where
  "opt_string s = (case s of None \<Rightarrow> JNull | Some t \<Rightarrow> JString t)"

definition device_json :: "serial_device \<Rightarrow> (string \<times> json) list" where
  "device_json d =
     [(''path'', JString (sd_path d)), (''bus'', JString (sd_bus d))] @
     (case sd_by_id d of None \<Rightarrow> [] | Some t \<Rightarrow> [(''byId'', JString t)]) @
     (case sd_driver d of None \<Rightarrow> [] | Some t \<Rightarrow> [(''driver'', JString t)]) @
     (case sd_usb d of
        None \<Rightarrow> []
      | Some u \<Rightarrow>
          [(''usb'', JObject
             [(''vid'', JString (hex4 (ub_vid u))), (''pid'', JString (hex4 (ub_pid u))), (''serial'', opt_string (ub_serial u)),
              (''manufacturer'', opt_string (ub_manufacturer u)), (''product'', opt_string (ub_product u)),
              (''interface'', case ub_interface u of None \<Rightarrow> JNull | Some n \<Rightarrow> JNumber (int n))])])"

definition bare_device :: "string \<Rightarrow> serial_device" where
  "bare_device path = \<lparr>sd_path = path, sd_by_id = None, sd_bus = UNLISTED, sd_driver = None, sd_usb = None\<rparr>"

subsection \<open>Patterns and decisions\<close>

partial_function (option) glob_loop ::
  "string list \<Rightarrow> string list \<Rightarrow> nat \<Rightarrow> nat \<Rightarrow> nat option \<Rightarrow> nat \<Rightarrow> bool option" where
  "glob_loop p t pi ti star mark =
     (if ti < length t then
        (if pi < length p \<and> (p ! pi = ''?'' \<or> p ! pi = t ! ti) then glob_loop p t (pi + 1) (ti + 1) star mark
         else if pi < length p \<and> p ! pi = ''*'' then glob_loop p t (pi + 1) ti (Some pi) ti
         else case star of
             Some s \<Rightarrow> glob_loop p t (s + 1) (mark + 1) star (mark + 1)
           | None \<Rightarrow> Some False)
      else Some (list_all (\<lambda>c. c = ''*'') (drop pi p)))"

definition glob :: "string \<Rightarrow> string \<Rightarrow> bool" where
  "glob pattern name = (glob_loop (utf8_chars pattern) (utf8_chars name) 0 0 None 0 = Some True)"

definition splitn3 :: "string \<Rightarrow> string list" where
  "splitn3 s =
     (case split_once '':'' s of
        None \<Rightarrow> [s]
      | Some (a, r) \<Rightarrow> (case split_once '':'' r of None \<Rightarrow> [a, r] | Some (b, c) \<Rightarrow> [a, b, c]))"

definition parse_hex16 :: "string \<Rightarrow> nat option" where
  "parse_hex16 s = (case parse_hex s of Some n \<Rightarrow> if n < 2 ^ 16 then Some n else None | None \<Rightarrow> None)"

definition usb_pattern :: "string \<Rightarrow> (nat \<times> nat \<times> string option) option" where
  "usb_pattern pattern =
     (case strip_prefix ''usb:'' pattern of
        None \<Rightarrow> None
      | Some rest \<Rightarrow>
          (let parts = splitn3 rest in
           case parse_hex16 (parts ! 0) of
             None \<Rightarrow> None
           | Some vid \<Rightarrow>
               if length parts < 2 then None
               else case parse_hex16 (parts ! 1) of
                   None \<Rightarrow> None
                 | Some pid \<Rightarrow> Some (vid, pid, if 2 < length parts \<and> parts ! 2 \<noteq> [] then Some (parts ! 2) else None)))"

definition device_matches :: "string \<Rightarrow> serial_device \<Rightarrow> bool" where
  "device_matches pattern d =
     (if pattern = ''*'' then True
      else case usb_pattern pattern of
          Some (vid, pid, serial) \<Rightarrow>
            (case sd_usb d of
               None \<Rightarrow> False
             | Some u \<Rightarrow> ub_vid u = vid \<and> ub_pid u = pid \<and> (serial = None \<or> ub_serial u = serial))
        | None \<Rightarrow> glob pattern (sd_path d) \<or> (case sd_by_id d of None \<Rightarrow> False | Some b \<Rightarrow> glob pattern b))"

datatype serial_decision = Allowed | AskAbout | Denied string

definition decide_device :: "serial_policy \<Rightarrow> serial_device \<Rightarrow> serial_decision" where
  "decide_device p d =
     (let unlisted = (sd_bus d = UNLISTED);
          listed = list_ex (\<lambda>pat. (\<not> unlisted \<or> pat \<noteq> ''*'') \<and> device_matches pat d) (sl_devices p);
          any = (sl_devices p = [] \<or> list_ex (\<lambda>pat. pat = ''*'') (sl_devices p))
      in case sl_mode p of
           SerialOff \<Rightarrow> Denied ''the app does not share serial ports (serial: off)''
         | SerialAllow \<Rightarrow>
             if listed \<or> (any \<and> \<not> unlisted) then Allowed
             else if any \<and> unlisted then
               Denied (sd_path d @ '' is not a serial port this computer lists (a terminal or a pty is shared only when the app names it)'')
             else Denied (sd_path d @ '' is not among the serial ports the app shares ('' @ join_with '', '' (sl_devices p) @ '')'')
         | SerialAsk \<Rightarrow> if listed then Allowed else AskAbout)"

subsection \<open>Line settings\<close>

datatype parity = NoParity | Even | Odd | Mark | Space
datatype flow = NoFlow | RtsCts | XonXoff

record line =
  ln_baud :: nat
  ln_data_bits :: nat
  ln_parity :: parity
  ln_stop_bits :: nat
  ln_flow :: flow

definition line_default :: line where
  "line_default = \<lparr>ln_baud = 115200, ln_data_bits = 8, ln_parity = NoParity, ln_stop_bits = 1, ln_flow = NoFlow\<rparr>"

definition given :: "string \<Rightarrow> (json \<Rightarrow> 'a option) \<Rightarrow> string \<Rightarrow> json \<Rightarrow> 'a \<Rightarrow> string + 'a" where
  "given key as message v old =
     (case json_get key v of None \<Rightarrow> Inr old | Some j \<Rightarrow> (case as j of Some x \<Rightarrow> Inr x | None \<Rightarrow> Inl message))"

definition as_range :: "nat \<Rightarrow> nat \<Rightarrow> json \<Rightarrow> nat option" where
  "as_range low high j = (case as_u64 j of Some n \<Rightarrow> if low \<le> n \<and> n \<le> high then Some n else None | None \<Rightarrow> None)"

definition as_parity :: "json \<Rightarrow> parity option" where
  "as_parity j =
     (case as_str j of
        None \<Rightarrow> None
      | Some s \<Rightarrow>
          if s \<in> {''none'', ''n''} then Some NoParity else if s \<in> {''even'', ''e''} then Some Even
          else if s \<in> {''odd'', ''o''} then Some Odd else if s \<in> {''mark'', ''m''} then Some Mark
          else if s \<in> {''space'', ''s''} then Some Space else None)"

definition as_flow :: "json \<Rightarrow> flow option" where
  "as_flow j =
     (case as_str j of
        None \<Rightarrow> None
      | Some s \<Rightarrow>
          if s = ''none'' then Some NoFlow else if s \<in> {''rtscts'', ''hardware''} then Some RtsCts
          else if s \<in> {''xonxoff'', ''software''} then Some XonXoff else None)"

definition line_from_json :: "json \<Rightarrow> line \<Rightarrow> string + line" where
  "line_from_json v base =
     (case given ''baud'' (as_range 50 16000000) ''baud: a rate from 50 to 16000000'' v (ln_baud base) of
        Inl e \<Rightarrow> Inl e
      | Inr baud \<Rightarrow>
          (case given ''dataBits'' (as_range 5 8) ''dataBits: 5 to 8'' v (ln_data_bits base) of
             Inl e \<Rightarrow> Inl e
           | Inr data_bits \<Rightarrow>
               (case given ''stopBits'' (as_range 1 2) ''stopBits: 1 or 2'' v (ln_stop_bits base) of
                  Inl e \<Rightarrow> Inl e
                | Inr stop_bits \<Rightarrow>
                    (case given ''parity'' as_parity ''parity: none, even, odd, mark or space'' v (ln_parity base) of
                       Inl e \<Rightarrow> Inl e
                     | Inr par \<Rightarrow>
                         (case given ''flow'' as_flow ''flow: none, rtscts or xonxoff'' v (ln_flow base) of
                            Inl e \<Rightarrow> Inl e
                          | Inr fl \<Rightarrow>
                              Inr \<lparr>ln_baud = baud, ln_data_bits = data_bits, ln_parity = par, ln_stop_bits = stop_bits, ln_flow = fl\<rparr>)))))"

definition parity_name :: "parity \<Rightarrow> string" where
  "parity_name p = (case p of NoParity \<Rightarrow> ''none'' | Even \<Rightarrow> ''even'' | Odd \<Rightarrow> ''odd'' | Mark \<Rightarrow> ''mark'' | Space \<Rightarrow> ''space'')"

definition flow_name :: "flow \<Rightarrow> string" where
  "flow_name f = (case f of NoFlow \<Rightarrow> ''none'' | RtsCts \<Rightarrow> ''rtscts'' | XonXoff \<Rightarrow> ''xonxoff'')"

definition line_json :: "line \<Rightarrow> json" where
  "line_json l =
     JObject [(''baud'', JNumber (int (ln_baud l))), (''dataBits'', JNumber (int (ln_data_bits l))),
       (''parity'', JString (parity_name (ln_parity l))), (''stopBits'', JNumber (int (ln_stop_bits l))),
       (''flow'', JString (flow_name (ln_flow l)))]"

subsection \<open>Ports\<close>

record modem_status =
  md_cts :: bool
  md_dsr :: bool
  md_dcd :: bool
  md_ri :: bool

record 'p port_ops =
  po_exclusive :: "'p \<Rightarrow> 'p"
  po_configure :: "'p \<Rightarrow> line \<Rightarrow> 'p \<times> (string + unit)"
  po_read :: "'p \<Rightarrow> 'p \<times> (string + bytes)"
  po_write_all :: "'p \<Rightarrow> bytes \<Rightarrow> 'p \<times> bool"
  po_send_break :: "'p \<Rightarrow> nat \<Rightarrow> 'p \<times> (string + unit)"
  po_set_dtr :: "'p \<Rightarrow> bool \<Rightarrow> 'p \<times> (string + unit)"
  po_set_rts :: "'p \<Rightarrow> bool \<Rightarrow> 'p \<times> (string + unit)"
  po_modem_status :: "'p \<Rightarrow> 'p \<times> (string + modem_status)"

record 'p serial_env =
  se_list :: "serial_device list"
  se_canonical :: "string \<Rightarrow> string"
  se_open :: "nat \<Rightarrow> string \<Rightarrow> string + 'p"
  se_terminal :: "'p \<Rightarrow> bool"
  se_port :: "'p port_ops"
  se_asker :: "string \<Rightarrow> (bool \<times> bool) option"
  se_parse :: "string \<Rightarrow> string + json"
  se_show :: "json \<Rightarrow> string"
  se_debug :: "string option \<Rightarrow> string"

datatype port_call =
    PortOpen string line
  | PortConfigure line
  | PortBreak nat
  | PortDtr bool
  | PortRts bool
  | PortStatus
  | PortWrite bytes
  | PortRead bytes
  | PortClose

record serial_event =
  sv_op :: string
  sv_device :: string
  sv_allowed :: bool
  sv_reason :: "string option"

record serial_state =
  sr_answers :: "string \<rightharpoonup> bool"
  sr_asked :: "string list"
  sr_events :: "serial_event list"
  sr_calls :: "port_call list"

definition port_open :: "'p serial_env \<Rightarrow> nat \<Rightarrow> string \<Rightarrow> line \<Rightarrow> string + 'p" where
  "port_open env attempt path l =
     (if NUL \<in> set path then
        Inl (''a NUL in the device path: nul byte found in provided data at position: '' @ decimal (length (takeWhile (\<lambda>c. c \<noteq> NUL) path)))
      else case se_open env attempt path of
          Inl e \<Rightarrow> Inl (''cannot open '' @ path @ '': '' @ e)
        | Inr fd \<Rightarrow>
            if \<not> se_terminal env fd then Inl (path @ '' is not a serial device'')
            else (case po_configure (se_port env) (po_exclusive (se_port env) fd) l of
                (port, Inl e) \<Rightarrow> Inl e
              | (port, Inr _) \<Rightarrow> Inr port))"

function open_port :: "'p serial_env \<Rightarrow> nat \<Rightarrow> string \<Rightarrow> line \<Rightarrow> port_call list \<times> (string + 'p)" where
  "open_port env attempt path l =
     (case port_open env attempt path l of
        Inr port \<Rightarrow> ([PortOpen path l], Inr port)
      | Inl e \<Rightarrow>
          if attempt < 10 \<and> contains ''busy'' e then
            (case open_port env (attempt + 1) path l of (calls, r) \<Rightarrow> (PortOpen path l # calls, r))
          else ([PortOpen path l], Inl e))"
  by pat_completeness auto
termination by (relation "measure (\<lambda>(env, attempt, path, l). 10 - attempt)") auto

declare open_port.simps [simp del]

subsection \<open>Frames\<close>

definition serial_frame :: "byte \<Rightarrow> bytes \<Rightarrow> bytes" where
  "serial_frame kind chunk = kind # u32_be (word_of_nat (length chunk)) @ chunk"

definition frame_chunks :: "bytes \<Rightarrow> bytes list" where
  "frame_chunks payload = chunks MAX_FRAME payload @ (if payload = [] then [[]] else [])"

fun send_chunks :: "'s stream_ops \<Rightarrow> byte \<Rightarrow> bytes list \<Rightarrow> 's \<Rightarrow> 's \<times> unit attempt" where
  "send_chunks ops kind [] t = (t, Ready ())"
| "send_chunks ops kind (c # cs) t =
     (case st_write_all ops t (serial_frame kind c) of
        (t1, Ready _) \<Rightarrow> send_chunks ops kind cs t1
      | (t1, r) \<Rightarrow> (t1, r))"

definition send_frame :: "'s stream_ops \<Rightarrow> byte \<Rightarrow> bytes \<Rightarrow> 's \<Rightarrow> 's \<times> unit attempt" where
  "send_frame ops kind payload t = send_chunks ops kind (frame_chunks payload) t"

datatype frame_read = Frame byte bytes | FrameEnd | FrameBad string | FrameWaiting

definition serial_error :: "stream_error \<Rightarrow> string" where
  "serial_error e = (case e of Closed reason \<Rightarrow> reason | ReadTimeout \<Rightarrow> ''the guest did not answer in time'')"

definition read_frame :: "'s stream_ops \<Rightarrow> 's \<Rightarrow> 's \<times> frame_read" where
  "read_frame ops t =
     (case st_read_exact ops t 5 of
        (t1, Waiting) \<Rightarrow> (t1, FrameWaiting)
      | (t1, Failed e) \<Rightarrow> (t1, FrameBad (serial_error e))
      | (t1, Ready head) \<Rightarrow>
          if length head < 5 then (t1, FrameEnd)
          else
            let len = unat (be32_at 1 head) in
            if len > MAX_FRAME then (t1, FrameBad (''a '' @ decimal len @ ''-byte frame''))
            else (case st_read_exact ops t1 len of
                (t2, Waiting) \<Rightarrow> (t2, FrameWaiting)
              | (t2, Failed e) \<Rightarrow> (t2, FrameBad (serial_error e))
              | (t2, Ready payload) \<Rightarrow> if length payload < len then (t2, FrameEnd) else (t2, Frame (head ! 0) payload)))"

definition send_line :: "'s stream_ops \<Rightarrow> 'p serial_env \<Rightarrow> json \<Rightarrow> 's \<Rightarrow> 's \<times> unit attempt" where
  "send_line ops env v t = st_write_all ops t (bytes_of (se_show env v @ [LF]))"

datatype serial_line = SerialLine bytes | SerialNoLine | SerialBad string | SerialWaiting

function read_serial_line :: "'s stream_ops \<Rightarrow> bytes \<Rightarrow> 's \<Rightarrow> 's \<times> serial_line" where
  "read_serial_line ops acc t =
     (if length acc > SERIAL_REQUEST then (t, SerialBad ''the request is too long'')
      else case st_read ops t 1 of
          (t1, Waiting) \<Rightarrow> (t1, SerialWaiting)
        | (t1, Failed e) \<Rightarrow> (t1, SerialBad (serial_error e))
        | (t1, Ready got) \<Rightarrow>
            if got = [] then (t1, if acc = [] then SerialNoLine else SerialLine acc)
            else if hd got = 10 then (t1, SerialLine acc)
            else read_serial_line ops (acc @ [hd got]) t1)"
  by pat_completeness auto
termination by (relation "measure (\<lambda>(ops, acc, t). Suc SERIAL_REQUEST - length acc)") auto

declare read_serial_line.simps [simp del]

subsection \<open>An open port\<close>

definition control_error :: "string \<Rightarrow> json" where
  "control_error e = JObject [(''ok'', JBool False), (''error'', JString e)]"

definition set_line :: "('p \<Rightarrow> bool \<Rightarrow> 'p \<times> (string + unit)) \<Rightarrow> (bool \<Rightarrow> port_call) \<Rightarrow> string \<Rightarrow> json \<Rightarrow> 'p
    \<Rightarrow> 'p \<times> port_call list \<times> (string + unit)" where
  "set_line put call key request port =
     (case json_opt key as_bool request of
        None \<Rightarrow> (port, [], Inr ())
      | Some on \<Rightarrow> (case put port on of (p1, r) \<Rightarrow> (p1, [call on], r)))"

definition run_control :: "'p serial_env \<Rightarrow> json \<Rightarrow> 'p \<Rightarrow> line \<Rightarrow> 'p \<times> line \<times> port_call list \<times> (string + json)" where
  "run_control env request port l =
     (let po = se_port env; done = JObject [(''ok'', JBool True)] in
      case json_opt ''op'' as_str request of
        None \<Rightarrow> (port, l, [], Inl (''unknown control op '' @ se_debug env None @ '' (break, set, config, status)''))
      | Some op \<Rightarrow>
          if op = ''break'' then
            (let ms = max 1 (min 10000 (case json_opt ''ms'' as_u64 request of Some n \<Rightarrow> n | None \<Rightarrow> 250)) in
             case po_send_break po port ms of
               (p1, Inl e) \<Rightarrow> (p1, l, [PortBreak ms], Inl e)
             | (p1, Inr _) \<Rightarrow> (p1, l, [PortBreak ms], Inr done))
          else if op = ''set'' then
            (case set_line (po_set_dtr po) PortDtr ''dtr'' request port of
               (p1, c1, Inl e) \<Rightarrow> (p1, l, c1, Inl e)
             | (p1, c1, Inr _) \<Rightarrow>
                 (case set_line (po_set_rts po) PortRts ''rts'' request p1 of
                    (p2, c2, Inl e) \<Rightarrow> (p2, l, c1 @ c2, Inl e)
                  | (p2, c2, Inr _) \<Rightarrow> (p2, l, c1 @ c2, Inr done)))
          else if op = ''config'' then
            (case line_from_json request l of
               Inl e \<Rightarrow> (port, l, [], Inl e)
             | Inr new \<Rightarrow>
                 (case po_configure po port new of
                    (p1, Inl e) \<Rightarrow> (p1, l, [PortConfigure new], Inl e)
                  | (p1, Inr _) \<Rightarrow> (p1, new, [PortConfigure new], Inr (JObject [(''ok'', JBool True), (''line'', line_json new)]))))
          else if op = ''status'' then
            (case po_modem_status po port of
               (p1, Inl e) \<Rightarrow> (p1, l, [PortStatus], Inl e)
             | (p1, Inr m) \<Rightarrow>
                 (p1, l, [PortStatus],
                  Inr (JObject [(''ok'', JBool True), (''line'', line_json l),
                    (''modem'', JObject [(''cts'', JBool (md_cts m)), (''dsr'', JBool (md_dsr m)), (''dcd'', JBool (md_dcd m)), (''ri'', JBool (md_ri m))])])))
          else (port, l, [], Inl (''unknown control op '' @ se_debug env (Some op) @ '' (break, set, config, status)'')))"

definition control :: "'p serial_env \<Rightarrow> 'p \<Rightarrow> line \<Rightarrow> bytes \<Rightarrow> 'p \<times> line \<times> port_call list \<times> json" where
  "control env port l payload =
     (case se_parse env (string_of payload) of
        Inl _ \<Rightarrow> (port, l, [], control_error ''a control message is JSON'')
      | Inr request \<Rightarrow>
          (case run_control env request port l of
             (p1, l1, calls, Inl e) \<Rightarrow> (p1, l1, calls, control_error e)
           | (p1, l1, calls, Inr v) \<Rightarrow> (p1, l1, calls, v)))"

definition asks_close :: "'p serial_env \<Rightarrow> bytes \<Rightarrow> bool" where
  "asks_close env payload =
     (case se_parse env (string_of payload) of Inl _ \<Rightarrow> False | Inr v \<Rightarrow> json_opt ''op'' as_str v = Some ''close'')"

text \<open>
  \<open>pump\<close> is two threads on one stream and one port. Each sends its frames under the \<open>writer\<close> lock, so their work
  interleaves in whole turns: a turn of the main loop (one frame of the guest), or a turn of the reader (one read of the port, and what
  it sends). A schedule says whose turn it is. A send that never returns holds the lock: \<open>pu_stuck\<close>. Once the main loop has
  left, the reader finishes at most the turn it is in.
\<close>

datatype serial_turn = GuestTurn | DeviceTurn | ReaderStops
datatype reader = Reading | ReaderDone "string option"
datatype guest_loop = Looping | Blocked | LeftLoop bool

record ('s, 'p) pump_state =
  pu_stream :: 's
  pu_port :: 'p
  pu_line :: line
  pu_calls :: "port_call list"
  pu_guest :: guest_loop
  pu_reader :: reader
  pu_stuck :: bool

definition guest_frame :: "'s stream_ops \<Rightarrow> 'p serial_env \<Rightarrow> byte \<Rightarrow> bytes \<Rightarrow> ('s, 'p) pump_state \<Rightarrow> ('s, 'p) pump_state" where
  "guest_frame ops env kind payload st =
     (if kind = FRAME_DATA then
        (case po_write_all (se_port env) (pu_port st) payload of
           (p1, ok) \<Rightarrow> st\<lparr>pu_port := p1, pu_calls := pu_calls st @ [PortWrite payload], pu_guest := (if ok then Looping else LeftLoop False)\<rparr>)
      else if kind = FRAME_CONTROL then
        if asks_close env payload then st\<lparr>pu_guest := LeftLoop True\<rparr>
        else (case control env (pu_port st) (pu_line st) payload of
            (p1, l1, calls, reply) \<Rightarrow>
              let st1 = st\<lparr>pu_port := p1, pu_line := l1, pu_calls := pu_calls st @ calls\<rparr> in
              (case send_frame ops FRAME_CONTROL (bytes_of (se_show env reply)) (pu_stream st) of
                 (t1, Ready _) \<Rightarrow> st1\<lparr>pu_stream := t1\<rparr>
               | (t1, Failed _) \<Rightarrow> st1\<lparr>pu_stream := t1, pu_guest := LeftLoop False\<rparr>
               | (t1, Waiting) \<Rightarrow> st1\<lparr>pu_stream := t1, pu_stuck := True\<rparr>))
      else
        (case send_frame ops FRAME_CONTROL (bytes_of (se_show env (control_error (''unknown frame kind '' @ decimal (unat kind))))) (pu_stream st) of
           (t1, Waiting) \<Rightarrow> st\<lparr>pu_stream := t1, pu_stuck := True\<rparr>
         | (t1, _) \<Rightarrow> st\<lparr>pu_stream := t1\<rparr>))"

definition guest_turn :: "'s stream_ops \<Rightarrow> 'p serial_env \<Rightarrow> ('s, 'p) pump_state \<Rightarrow> ('s, 'p) pump_state" where
  "guest_turn ops env st =
     (case read_frame ops (pu_stream st) of
        (t1, FrameWaiting) \<Rightarrow> st\<lparr>pu_stream := t1, pu_guest := Blocked\<rparr>
      | (t1, FrameEnd) \<Rightarrow> st\<lparr>pu_stream := t1, pu_guest := LeftLoop False\<rparr>
      | (t1, FrameBad _) \<Rightarrow> st\<lparr>pu_stream := t1, pu_guest := LeftLoop False\<rparr>
      | (t1, Frame kind payload) \<Rightarrow> guest_frame ops env kind payload (st\<lparr>pu_stream := t1\<rparr>))"

definition device_turn :: "'s stream_ops \<Rightarrow> 'p serial_env \<Rightarrow> ('s, 'p) pump_state \<Rightarrow> ('s, 'p) pump_state" where
  "device_turn ops env st =
     (let after = (case pu_guest st of LeftLoop _ \<Rightarrow> ReaderDone None | _ \<Rightarrow> Reading) in
      case po_read (se_port env) (pu_port st) of
        (p1, Inl e) \<Rightarrow>
          (let reason = ''the serial port went away: '' @ e;
               body = bytes_of (se_show env (JObject [(''event'', JString ''closed''), (''reason'', JString reason)])) in
           case send_frame ops FRAME_CONTROL body (pu_stream st) of
             (t1, Waiting) \<Rightarrow> st\<lparr>pu_port := p1, pu_stream := t1, pu_stuck := True\<rparr>
           | (t1, _) \<Rightarrow> st\<lparr>pu_port := p1, pu_stream := st_close ops t1, pu_reader := ReaderDone (Some reason)\<rparr>)
      | (p1, Inr data) \<Rightarrow>
          let st1 = st\<lparr>pu_port := p1, pu_calls := pu_calls st @ [PortRead data]\<rparr> in
          if data = [] then st1\<lparr>pu_reader := after\<rparr>
          else (case send_frame ops FRAME_DATA data (pu_stream st) of
              (t1, Ready _) \<Rightarrow> st1\<lparr>pu_stream := t1, pu_reader := after\<rparr>
            | (t1, Failed _) \<Rightarrow> st1\<lparr>pu_stream := t1, pu_reader := ReaderDone None\<rparr>
            | (t1, Waiting) \<Rightarrow> st1\<lparr>pu_stream := t1, pu_stuck := True\<rparr>))"

definition pump_turn :: "'s stream_ops \<Rightarrow> 'p serial_env \<Rightarrow> serial_turn \<Rightarrow> ('s, 'p) pump_state \<Rightarrow> ('s, 'p) pump_state" where
  "pump_turn ops env who st =
     (if pu_stuck st then st
      else case who of
          GuestTurn \<Rightarrow> if pu_guest st = Looping then guest_turn ops env st else st
        | DeviceTurn \<Rightarrow> if pu_reader st = Reading then device_turn ops env st else st
        | ReaderStops \<Rightarrow>
            (case (pu_reader st, pu_guest st) of (Reading, LeftLoop _) \<Rightarrow> st\<lparr>pu_reader := ReaderDone None\<rparr> | _ \<Rightarrow> st))"

definition pump_start :: "'s \<Rightarrow> 'p \<Rightarrow> line \<Rightarrow> ('s, 'p) pump_state" where
  "pump_start t port l =
     \<lparr>pu_stream = t, pu_port = port, pu_line = l, pu_calls = [], pu_guest = Looping, pu_reader = Reading, pu_stuck = False\<rparr>"

definition pump :: "'s stream_ops \<Rightarrow> 'p serial_env \<Rightarrow> serial_turn list \<Rightarrow> 's \<Rightarrow> 'p \<Rightarrow> line \<Rightarrow> ('s, 'p) pump_state" where
  "pump ops env turns t port l = fold (pump_turn ops env) turns (pump_start t port l)"

subsection \<open>A session\<close>

datatype session_result = SessionOk | SessionErr string | SessionWaiting

definition of_attempt :: "unit attempt \<Rightarrow> session_result" where
  "of_attempt r = (case r of Ready _ \<Rightarrow> SessionOk | Failed e \<Rightarrow> SessionErr (serial_error e) | Waiting \<Rightarrow> SessionWaiting)"

definition observe :: "string \<Rightarrow> string \<Rightarrow> bool \<Rightarrow> string option \<Rightarrow> serial_state \<Rightarrow> serial_state" where
  "observe op device allowed reason s =
     s\<lparr>sr_events := sr_events s @ [\<lparr>sv_op = op, sv_device = device, sv_allowed = allowed, sv_reason = reason\<rparr>]\<rparr>"

definition resolve_device :: "'p serial_env \<Rightarrow> string \<Rightarrow> string + serial_device" where
  "resolve_device env wanted =
     (if usb_pattern wanted \<noteq> None then
        (case filter (device_matches wanted) (se_list env) of
           [one] \<Rightarrow> Inr one
         | [] \<Rightarrow> Inl (''no serial device '' @ wanted @ '' is plugged in'')
         | many \<Rightarrow> Inl (decimal (length many) @ '' devices match '' @ wanted @ '' ('' @ join_with '', '' (map sd_path many) @ ''); add the serial number''))
      else
        let canonical = se_canonical env wanted in
        case find (\<lambda>d. sd_path d = canonical \<or> sd_path d = wanted \<or> sd_by_id d = Some wanted) (se_list env) of
          Some d \<Rightarrow> Inr d
        | None \<Rightarrow> Inr (bare_device canonical))"

definition ask_serial :: "'p serial_env \<Rightarrow> serial_device \<Rightarrow> serial_state \<Rightarrow> serial_state \<times> bool" where
  "ask_serial env d s =
     (case sr_answers s (sd_path d) of
        Some known \<Rightarrow> (s, known)
      | None \<Rightarrow>
          (let question = ''open the serial port '' @ describe_device d;
               (allow, remember) = (case se_asker env question of Some r \<Rightarrow> r | None \<Rightarrow> (False, False));
               s1 = s\<lparr>sr_asked := sr_asked s @ [question]\<rparr>
           in (if remember then s1\<lparr>sr_answers := (sr_answers s1)(sd_path d \<mapsto> allow)\<rparr> else s1, allow)))"

definition refuse_serial :: "serial_device \<Rightarrow> string \<Rightarrow> serial_state \<Rightarrow> serial_state \<times> session_result" where
  "refuse_serial d reason s = (observe ''open'' (sd_path d) False (Some reason) s, SessionErr reason)"

definition permit :: "'p serial_env \<Rightarrow> serial_policy \<Rightarrow> serial_device \<Rightarrow> serial_state \<Rightarrow> serial_state \<times> string option" where
  "permit env p d s =
     (case decide_device p d of
        Allowed \<Rightarrow> (s, None)
      | Denied reason \<Rightarrow> (s, Some reason)
      | AskAbout \<Rightarrow>
          (case ask_serial env d s of (s1, allow) \<Rightarrow> (s1, if allow then None else Some (''the app did not allow '' @ sd_path d))))"

definition lend :: "'s stream_ops \<Rightarrow> 'p serial_env \<Rightarrow> serial_turn list \<Rightarrow> serial_device \<Rightarrow> line \<Rightarrow> 'p \<Rightarrow> 's \<Rightarrow> serial_state
    \<Rightarrow> 's \<times> serial_state \<times> session_result" where
  "lend ops env turns d l port t s =
     (let s1 = observe ''open'' (sd_path d) True None s in
      case send_line ops env (JObject [(''ok'', JBool True), (''device'', JObject (device_json d)), (''line'', line_json l)]) t of
        (t1, Waiting) \<Rightarrow> (t1, s1, SessionWaiting)
      | (t1, Failed e) \<Rightarrow> (t1, s1\<lparr>sr_calls := sr_calls s1 @ [PortClose]\<rparr>, SessionErr (serial_error e))
      | (t1, Ready _) \<Rightarrow>
          let st = pump ops env turns t1 port l; s2 = s1\<lparr>sr_calls := sr_calls s1 @ pu_calls st\<rparr> in
          (case (pu_guest st, pu_reader st) of
             (LeftLoop asked_to_close, ReaderDone reason) \<Rightarrow>
               (let s3 = observe ''close'' (sd_path d) True reason (s2\<lparr>sr_calls := sr_calls s2 @ [PortClose]\<rparr>) in
                if asked_to_close then
                  (case send_frame ops FRAME_CONTROL (bytes_of (se_show env (JObject [(''ok'', JBool True), (''closed'', JBool True)]))) (pu_stream st) of
                     (t2, Waiting) \<Rightarrow> (t2, s3, SessionWaiting)
                   | (t2, _) \<Rightarrow> (t2, s3, SessionOk))
                else (pu_stream st, s3, SessionOk))
           | _ \<Rightarrow> (pu_stream st, s2, SessionWaiting)))"

definition session_open :: "'s stream_ops \<Rightarrow> 'p serial_env \<Rightarrow> serial_turn list \<Rightarrow> serial_policy \<Rightarrow> json \<Rightarrow> 's \<Rightarrow> serial_state
    \<Rightarrow> 's \<times> serial_state \<times> session_result" where
  "session_open ops env turns p request t s =
     (case json_opt ''device'' as_str request of
        None \<Rightarrow> (t, s, SessionErr ''open needs a device'')
      | Some wanted \<Rightarrow>
          (case line_from_json request line_default of
             Inl e \<Rightarrow> (t, s, SessionErr e)
           | Inr l \<Rightarrow>
               (case resolve_device env wanted of
                  Inl e \<Rightarrow> (t, observe ''open'' wanted False (Some e) s, SessionErr e)
                | Inr d \<Rightarrow>
                    (case permit env p d s of
                       (s1, Some reason) \<Rightarrow> (t, refuse_serial d reason s1)
                     | (s1, None) \<Rightarrow>
                         (case open_port env 0 (sd_path d) l of
                            (calls, Inl e) \<Rightarrow> (t, refuse_serial d e (s1\<lparr>sr_calls := sr_calls s1 @ calls\<rparr>))
                          | (calls, Inr port) \<Rightarrow> lend ops env turns d l port t (s1\<lparr>sr_calls := sr_calls s1 @ calls\<rparr>))))))"

definition mode_name :: "serial_mode \<Rightarrow> string" where
  "mode_name m = (case m of SerialOff \<Rightarrow> ''off'' | SerialAsk \<Rightarrow> ''ask'' | SerialAllow \<Rightarrow> ''allow'')"

definition access_name :: "serial_decision \<Rightarrow> string" where
  "access_name c = (case c of Allowed \<Rightarrow> ''allowed'' | AskAbout \<Rightarrow> ''ask'' | Denied _ \<Rightarrow> ''denied'')"

definition session_list :: "'s stream_ops \<Rightarrow> 'p serial_env \<Rightarrow> serial_policy \<Rightarrow> 's \<Rightarrow> serial_state \<Rightarrow> 's \<times> serial_state \<times> session_result" where
  "session_list ops env p t s =
     (let devices = map (\<lambda>d. JObject (device_json d @ [(''access'', JString (access_name (decide_device p d)))])) (se_list env);
          s1 = observe ''list'' [] (sl_mode p \<noteq> SerialOff) None s
      in case send_line ops env (JObject [(''ok'', JBool True), (''mode'', JString (mode_name (sl_mode p))), (''devices'', JArray devices)]) t of
           (t1, r) \<Rightarrow> (t1, s1, of_attempt r))"

definition serial_session :: "'s stream_ops \<Rightarrow> 'p serial_env \<Rightarrow> serial_turn list \<Rightarrow> serial_policy \<Rightarrow> 's \<Rightarrow> serial_state
    \<Rightarrow> 's \<times> serial_state \<times> session_result" where
  "serial_session ops env turns p t s =
     (case read_serial_line ops [] t of
        (t1, SerialWaiting) \<Rightarrow> (t1, s, SessionWaiting)
      | (t1, SerialBad e) \<Rightarrow> (t1, s, SessionErr e)
      | (t1, SerialNoLine) \<Rightarrow> (t1, s, SessionOk)
      | (t1, SerialLine text0) \<Rightarrow>
          (case se_parse env (string_of text0) of
             Inl e \<Rightarrow> (t1, s, SessionErr (''the request is not JSON: '' @ e))
           | Inr request \<Rightarrow>
               (case json_opt ''op'' as_str request of
                  None \<Rightarrow> (t1, s, SessionErr (''unknown op '' @ se_debug env None @ '' (list, open)''))
                | Some op \<Rightarrow>
                    if op = ''list'' then session_list ops env p t1 s
                    else if op = ''open'' then session_open ops env turns p request t1 s
                    else (t1, s, SessionErr (''unknown op '' @ se_debug env (Some op) @ '' (list, open)'')))))"

definition serve_serial :: "'s stream_ops \<Rightarrow> 'p serial_env \<Rightarrow> serial_turn list \<Rightarrow> serial_policy \<Rightarrow> 's \<Rightarrow> serial_state \<Rightarrow> 's \<times> serial_state" where
  "serve_serial ops env turns p t s =
     (case serial_session ops env turns p t s of
        (t1, s1, SessionWaiting) \<Rightarrow> (t1, s1)
      | (t1, s1, SessionErr e) \<Rightarrow>
          (case send_line ops env (control_error e) t1 of (t2, _) \<Rightarrow> (st_close ops t2, s1))
      | (t1, s1, SessionOk) \<Rightarrow> (st_close ops t1, s1))"

subsection \<open>Wildcards\<close>

text \<open>What a pattern means: \<open>*\<close> stands for any run of characters, \<open>?\<close> for one, anything else for itself.\<close>

fun wild :: "string list \<Rightarrow> string list \<Rightarrow> bool" where
  "wild [] t = (t = [])"
| "wild (c # p) t =
     (if c = ''*'' then wild p t \<or> (case t of [] \<Rightarrow> False | _ # t' \<Rightarrow> wild (c # p) t')
      else case t of [] \<Rightarrow> False | d # t' \<Rightarrow> (c = ''?'' \<or> c = d) \<and> wild p t')"

lemma wild_star: "wild (''*'' # p) t \<longleftrightarrow> (\<exists>k\<le>length t. wild p (drop k t))"
proof (induction t)
  case Nil
  then show ?case by simp
next
  case (Cons d t)
  have "(\<exists>k\<le>length (d # t). wild p (drop k (d # t))) \<longleftrightarrow> wild p (d # t) \<or> (\<exists>k\<le>length t. wild p (drop k t))"
    by (metis drop0 drop_Suc_Cons le0 length_Cons not0_implies_Suc Suc_le_mono)
  then show ?case using Cons.IH by simp
qed

lemma wild_segment:
  "\<lbrakk>wild (seg @ rest) u; ''*'' \<notin> set seg\<rbrakk> \<Longrightarrow> length seg \<le> length u \<and> wild rest (drop (length seg) u)"
proof (induction seg arbitrary: u)
  case (Cons c seg)
  then show ?case by (cases u) auto
qed simp

lemma wild_nil: "wild p [] = list_all (\<lambda>c. c = ''*'') p"
  by (induction p) auto

text \<open>
  Where the loop stands: the pattern read since the last \<open>*\<close> holds no other, and as many characters of the text have been
  read since its mark. What is left to find is a match from here on, or from a later mark.
\<close>

definition glob_at :: "string list \<Rightarrow> string list \<Rightarrow> nat \<Rightarrow> nat \<Rightarrow> nat option \<Rightarrow> nat \<Rightarrow> bool" where
  "glob_at p t pi ti star mark \<longleftrightarrow> pi \<le> length p \<and> ti \<le> length t \<and> mark \<le> ti \<and>
     (\<forall>s. star = Some s \<longrightarrow> s < pi \<and> pi - (s + 1) = ti - mark \<and> ''*'' \<notin> set (drop (s + 1) (take pi p)))"

definition still :: "string list \<Rightarrow> string list \<Rightarrow> nat \<Rightarrow> nat \<Rightarrow> nat option \<Rightarrow> nat \<Rightarrow> bool" where
  "still p t pi ti star mark \<longleftrightarrow> wild (drop pi p) (drop ti t) \<or>
     (\<exists>s m. star = Some s \<and> mark < m \<and> m \<le> length t \<and> wild (drop (s + 1) p) (drop m t))"

lemma drop_segment: "s < pi \<Longrightarrow> pi \<le> length p \<Longrightarrow> drop (s + 1) p = drop (s + 1) (take pi p) @ drop pi p"
  by (metis Suc_eq_plus1 Suc_leI append_take_drop_id diff_is_0_eq drop_0 drop_append length_take min.absorb2)

lemma later_mark:
  assumes "glob_at p t pi ti (Some s) mark" and "mark < m" and "m \<le> length t" and "wild (drop (s + 1) p) (drop m t)"
  shows "ti < length t" and "\<exists>k>ti. k \<le> length t \<and> wild (drop pi p) (drop k t)"
proof -
  let ?seg = "drop (s + 1) (take pi p)"
  have len: "length ?seg = ti - mark" and star: "''*'' \<notin> set ?seg" and le: "mark \<le> ti"
    using assms(1) by (auto simp: glob_at_def)
  have "wild (?seg @ drop pi p) (drop m t)" using assms(1,4) drop_segment [of s pi p] by (simp add: glob_at_def)
  from wild_segment [OF this star, unfolded len] have "ti - mark \<le> length t - m" and "wild (drop pi p) (drop (ti - mark + m) t)"
    by simp_all
  then show "ti < length t" "\<exists>k>ti. k \<le> length t \<and> wild (drop pi p) (drop k t)"
    using assms(2,3) le by (auto intro!: exI [of _ "ti - mark + m"])
qed

lemma still_end: "glob_at p t pi (length t) star mark \<Longrightarrow> still p t pi (length t) star mark = list_all (\<lambda>c. c = ''*'') (drop pi p)"
  using later_mark(1) [of p t pi "length t"] by (auto simp: still_def wild_nil)

lemma drop_step: "n < length xs \<Longrightarrow> drop n xs = xs ! n # drop (n + 1) xs"
  by (simp add: Cons_nth_drop_Suc)

lemma still_step:
  assumes "glob_at p t pi ti star mark" and "ti < length t" and "pi < length p" and "p ! pi \<noteq> ''*''" and "p ! pi = ''?'' \<or> p ! pi = t ! ti"
  shows "glob_at p t (pi + 1) (ti + 1) star mark" and "still p t (pi + 1) (ti + 1) star mark = still p t pi ti star mark"
proof -
  show "glob_at p t (pi + 1) (ti + 1) star mark"
    using assms by (auto simp: glob_at_def take_Suc_conv_app_nth)
  show "still p t (pi + 1) (ti + 1) star mark = still p t pi ti star mark"
    using assms(2-5) by (simp add: still_def drop_step)
qed

lemma still_star:
  assumes "glob_at p t pi ti star mark" and "pi < length p" and "p ! pi = ''*''"
  shows "glob_at p t (pi + 1) ti (Some pi) ti" and "still p t (pi + 1) ti (Some pi) ti = still p t pi ti star mark"
proof -
  show "glob_at p t (pi + 1) ti (Some pi) ti" using assms by (simp add: glob_at_def)
  have le: "ti \<le> length t" using assms(1) by (simp add: glob_at_def)
  have eq: "drop pi p = ''*'' # drop (pi + 1) p" using assms(2,3) by (simp add: drop_step)
  have any: "wild (drop pi p) (drop k t) \<longleftrightarrow> (\<exists>m\<ge>k. m \<le> length t \<and> wild (drop (pi + 1) p) (drop m t))" if "k \<le> length t" for k
  proof
    assume "wild (drop pi p) (drop k t)"
    then obtain j where "j \<le> length t - k" "wild (drop (pi + 1) p) (drop (j + k) t)" unfolding eq wild_star by auto
    then show "\<exists>m\<ge>k. m \<le> length t \<and> wild (drop (pi + 1) p) (drop m t)" using that by (intro exI [of _ "j + k"]) auto
  next
    assume "\<exists>m\<ge>k. m \<le> length t \<and> wild (drop (pi + 1) p) (drop m t)"
    then obtain m where "k \<le> m" "m \<le> length t" "wild (drop (pi + 1) p) (drop m t)" by blast
    then show "wild (drop pi p) (drop k t)" unfolding eq wild_star by (intro exI [of _ "m - k"]) simp
  qed
  have "still p t (pi + 1) ti (Some pi) ti = wild (drop pi p) (drop ti t)"
    unfolding still_def any [OF le] using le by (auto simp: le_less)
  moreover have "wild (drop pi p) (drop ti t)"
    if later: "star = Some s" "mark < m" "m \<le> length t" "wild (drop (s + 1) p) (drop m t)" for s m
  proof -
    obtain k where "ti < k" "k \<le> length t" "wild (drop pi p) (drop k t)"
      using later_mark(2) [of p t pi ti s mark m] assms(1) later by auto
    then show ?thesis using any [OF le] any [of k] by (metis less_imp_le order_trans)
  qed
  ultimately show "still p t (pi + 1) ti (Some pi) ti = still p t pi ti star mark" by (auto simp: still_def)
qed

lemma still_stuck:
  assumes "glob_at p t pi ti star mark" and "ti < length t" and "\<not> (pi < length p \<and> (p ! pi = ''?'' \<or> p ! pi = t ! ti))"
    and "\<not> (pi < length p \<and> p ! pi = ''*'')"
  shows "\<not> wild (drop pi p) (drop ti t)"
  using assms by (cases "pi < length p") (auto simp: drop_step glob_at_def)

lemma still_again:
  assumes "glob_at p t pi ti (Some s) mark" and "ti < length t" and "\<not> wild (drop pi p) (drop ti t)"
  shows "glob_at p t (s + 1) (mark + 1) (Some s) (mark + 1)" and "still p t (s + 1) (mark + 1) (Some s) (mark + 1) = still p t pi ti (Some s) mark"
proof -
  show "glob_at p t (s + 1) (mark + 1) (Some s) (mark + 1)" using assms by (simp add: glob_at_def)
  show "still p t (s + 1) (mark + 1) (Some s) (mark + 1) = still p t pi ti (Some s) mark"
  proof -
    have le: "mark + 1 \<le> length t" using assms(1,2) by (simp add: glob_at_def)
    have "Q (mark + 1) \<or> (\<exists>m. mark + 1 < m \<and> m \<le> length t \<and> Q m) \<longleftrightarrow> (\<exists>m. mark < m \<and> m \<le> length t \<and> Q m)" for Q
      using le by (metis Suc_eq_plus1 Suc_lessD Suc_lessI lessI)
    then show ?thesis using assms(3) unfolding still_def by simp
  qed
qed

text \<open>Each turn of the loop moves the last \<open>*\<close> on, or its mark, or the place in the text.\<close>

definition glob_left :: "string list \<Rightarrow> string list \<Rightarrow> nat \<Rightarrow> nat option \<Rightarrow> nat \<Rightarrow> nat \<times> nat \<times> nat" where
  "glob_left p t ti star mark = (case star of None \<Rightarrow> length p + 1 | Some s \<Rightarrow> length p - s, length t - mark, length t - ti)"

abbreviation glob_less :: "((nat \<times> nat \<times> nat) \<times> (nat \<times> nat \<times> nat)) set" where
  "glob_less \<equiv> less_than <*lex*> less_than <*lex*> less_than"

lemma glob_less_wf: "wf glob_less"
  by auto

lemma glob_loop_returns:
  "\<lbrakk>mark \<le> ti; ti \<le> length t; \<forall>s. star = Some s \<longrightarrow> s < pi\<rbrakk> \<Longrightarrow> \<exists>b. glob_loop p t pi ti star mark = Some b"
proof (induction "glob_left p t ti star mark" arbitrary: pi ti star mark rule: wf_induct_rule [OF glob_less_wf])
  case 1
  note IH = "1.hyps" and at = "1.prems"
  show ?case
  proof (cases "ti < length t")
    case True
    have match: "\<exists>b. glob_loop p t (pi + 1) (ti + 1) star mark = Some b"
      using True at by (intro IH) (auto simp: glob_left_def less_SucI)
    have star: "\<exists>b. glob_loop p t (pi + 1) ti (Some pi) ti = Some b" if "pi < length p"
      using that at by (intro IH) (auto simp: glob_left_def split: option.splits)
    have again: "\<exists>b. glob_loop p t (s + 1) (mark + 1) star (mark + 1) = Some b" if "star = Some s" for s
      using that True at by (intro IH) (auto simp: glob_left_def)
    show ?thesis using match star again by (subst glob_loop.simps) (auto split: option.splits)
  qed (simp add: glob_loop.simps [of p t pi])
qed

lemma glob_loop_wild:
  "\<lbrakk>glob_at p t pi ti star mark; ''*'' \<notin> set t\<rbrakk> \<Longrightarrow> glob_loop p t pi ti star mark = Some (still p t pi ti star mark)"
proof (induction "glob_left p t ti star mark" arbitrary: pi ti star mark rule: wf_induct_rule [OF glob_less_wf])
  case 1
  note at = "1.prems"(1) and IH = "1.hyps"
  show ?case
  proof (cases "ti < length t")
    case False
    then have "ti = length t" using at by (simp add: glob_at_def)
    then show ?thesis using still_end at by (simp add: glob_loop.simps [of p t pi])
  next
    case True
    consider (match) "pi < length p" "p ! pi = ''?'' \<or> p ! pi = t ! ti"
      | (star) "\<not> (pi < length p \<and> (p ! pi = ''?'' \<or> p ! pi = t ! ti))" "pi < length p" "p ! pi = ''*''"
      | (stuck) "\<not> (pi < length p \<and> (p ! pi = ''?'' \<or> p ! pi = t ! ti))" "\<not> (pi < length p \<and> p ! pi = ''*'')" by blast
    then show ?thesis
    proof cases
      case match
      then have "p ! pi \<noteq> ''*''" using True "1.prems"(2) nth_mem by fastforce
      note step = still_step [OF at True match(1) this match(2)]
      have "glob_loop p t (pi + 1) (ti + 1) star mark = Some (still p t (pi + 1) (ti + 1) star mark)"
        using True by (intro IH step(1) "1.prems"(2)) (simp add: glob_left_def)
      then show ?thesis using True match step(2) by (simp add: glob_loop.simps [of p t pi])
    next
      case star
      note step = still_star [OF at star(2,3)]
      have "glob_loop p t (pi + 1) ti (Some pi) ti = Some (still p t (pi + 1) ti (Some pi) ti)"
        using at star(2) by (intro IH step(1) "1.prems"(2)) (auto simp: glob_at_def glob_left_def split: option.splits)
      then show ?thesis using True star step(2) by (simp add: glob_loop.simps [of p t pi])
    next
      case stuck
      have no: "\<not> wild (drop pi p) (drop ti t)" using still_stuck [OF at True stuck] .
      show ?thesis
      proof (cases "star")
        case None
        then show ?thesis using True stuck no by (auto simp: glob_loop.simps [of p t pi] still_def)
      next
        case (Some s)
        note step = still_again [OF at [unfolded Some] True no]
        have "glob_loop p t (s + 1) (mark + 1) (Some s) (mark + 1) = Some (still p t (s + 1) (mark + 1) (Some s) (mark + 1))"
          using at True by (intro IH step(1) "1.prems"(2)) (auto simp: Some glob_at_def glob_left_def)
        then show ?thesis using True stuck step(2) Some by (subst glob_loop.simps) auto
      qed
    qed
  qed
qed

lemma glob_wild: "''*'' \<notin> set (utf8_chars name) \<Longrightarrow> glob pattern name = wild (utf8_chars pattern) (utf8_chars name)"
  by (simp add: glob_def glob_loop_wild glob_at_def still_def)

text \<open>
  A literal \<open>*\<close> in the text meets the pattern's \<open>*\<close> as an equal character before the loop sees a wildcard, so
  \<open>a*\<close> does not match \<open>a*b\<close>.
\<close>

lemma literal_star_missed: "\<not> glob ''a*'' ''a*b'' \<and> wild (utf8_chars ''a*'') (utf8_chars ''a*b'')"
proof -
  have chars: "utf8_chars ''a*'' = [''a'', ''*'']" "utf8_chars ''a*b'' = [''a'', ''*'', ''b'']" by code_simp+
  show ?thesis by (simp add: glob_def chars glob_loop.simps)
qed

subsection \<open>Line settings\<close>

definition line_ok :: "line \<Rightarrow> bool" where
  "line_ok l \<longleftrightarrow> 50 \<le> ln_baud l \<and> ln_baud l \<le> 16000000 \<and> 5 \<le> ln_data_bits l \<and> ln_data_bits l \<le> 8 \<and> 1 \<le> ln_stop_bits l \<and> ln_stop_bits l \<le> 2"

lemma given_range: "given key (as_range low high) m v old = Inr n \<Longrightarrow> n = old \<or> low \<le> n \<and> n \<le> high"
  by (auto simp: given_def as_range_def split: option.splits if_splits)

lemma line_from_json_ok: "\<lbrakk>line_from_json v base = Inr l; line_ok base\<rbrakk> \<Longrightarrow> line_ok l"
  unfolding line_from_json_def line_ok_def
  by (auto split: sum.splits dest!: given_range)

lemma line_default_ok: "line_ok line_default"
  by (simp add: line_ok_def line_default_def)

lemma line_json_back:
  assumes "line_ok l"
  shows "line_from_json (line_json l) base = Inr l"
proof -
  have range: "as_range low high (JNumber (int n)) = (if low \<le> n \<and> n \<le> high then Some n else None)" if "n < 2 ^ 64" for low high n
    using that by (simp add: as_range_def)
  have "ln_baud l < 2 ^ 64" "ln_data_bits l < 2 ^ 64" "ln_stop_bits l < 2 ^ 64" using assms by (simp_all add: line_ok_def)
  note r = this [THEN range]
  have p: "as_parity (JString (parity_name p)) = Some p" for p by (cases p) (simp_all add: as_parity_def parity_name_def)
  have f: "as_flow (JString (flow_name f)) = Some f" for f by (cases f) (simp_all add: as_flow_def flow_name_def)
  show ?thesis using assms by (simp add: line_from_json_def line_json_def given_def r p f line_ok_def)
qed

subsection \<open>Which ports are lent\<close>

definition named :: "serial_policy \<Rightarrow> serial_device \<Rightarrow> bool" where
  "named p d \<longleftrightarrow> (\<exists>pat\<in>set (sl_devices p). pat \<noteq> ''*'' \<and> device_matches pat d)"

definition shared :: "serial_policy \<Rightarrow> serial_device \<Rightarrow> bool" where
  "shared p d \<longleftrightarrow> sl_mode p \<noteq> SerialOff \<and>
     (named p d \<or> sd_bus d \<noteq> UNLISTED \<and> (''*'' \<in> set (sl_devices p) \<or> sl_mode p = SerialAllow \<and> sl_devices p = []))"

definition app_agrees :: "'p serial_env \<Rightarrow> (string \<rightharpoonup> bool) \<Rightarrow> serial_device \<Rightarrow> bool" where
  "app_agrees env answers d =
     (case answers (sd_path d) of
        Some known \<Rightarrow> known
      | None \<Rightarrow> (case se_asker env (''open the serial port '' @ describe_device d) of Some (allow, _) \<Rightarrow> allow | None \<Rightarrow> False))"

definition consented :: "'p serial_env \<Rightarrow> serial_policy \<Rightarrow> (string \<rightharpoonup> bool) \<Rightarrow> serial_device \<Rightarrow> bool" where
  "consented env p answers d \<longleftrightarrow> shared p d \<or> sl_mode p = SerialAsk \<and> app_agrees env answers d"

lemma any_pattern_matches [simp]: "device_matches ''*'' d"
  by (simp add: device_matches_def)

lemma decide_allowed: "decide_device p d = Allowed \<longleftrightarrow> shared p d"
proof -
  have listed: "list_ex (\<lambda>pat. (\<not> sd_bus d = UNLISTED \<or> pat \<noteq> ''*'') \<and> device_matches pat d) (sl_devices p)
      \<longleftrightarrow> named p d \<or> sd_bus d \<noteq> UNLISTED \<and> ''*'' \<in> set (sl_devices p)"
    unfolding named_def list_ex_iff by (cases "sd_bus d = UNLISTED") (auto 0 2 intro: bexI [of _ "''*''"], metis)
  have any: "list_ex (\<lambda>pat. pat = ''*'') (sl_devices p) \<longleftrightarrow> ''*'' \<in> set (sl_devices p)"
    by (auto simp: list_ex_iff)
  show ?thesis
    unfolding decide_device_def Let_def listed any shared_def by (cases "sl_mode p") simp_all
qed

lemma decide_asks: "decide_device p d = AskAbout \<longleftrightarrow> sl_mode p = SerialAsk \<and> \<not> shared p d"
  by (auto simp: decide_device_def Let_def decide_allowed [symmetric] split: serial_mode.splits)

lemma permit_consented:
  assumes "permit env p d s = (s1, r)"
  shows "(r = None) = consented env p (sr_answers s) d" and "sr_calls s1 = sr_calls s"
proof -
  have "ask_serial env d s = (s2, allow) \<Longrightarrow> allow = app_agrees env (sr_answers s) d \<and> sr_calls s2 = sr_calls s" for s2 allow
    by (auto simp: ask_serial_def app_agrees_def Let_def split: option.splits prod.splits if_splits)
  then show "(r = None) = consented env p (sr_answers s) d" "sr_calls s1 = sr_calls s"
    using assms decide_allowed [of p d] decide_asks [of p d]
    by (auto simp: permit_def consented_def split: serial_decision.splits prod.splits if_splits)
qed

subsection \<open>What is done to a port\<close>

fun port_use_ok :: "port_call \<Rightarrow> bool" where
  "port_use_ok (PortOpen path l) = False"
| "port_use_ok (PortConfigure l) = line_ok l"
| "port_use_ok (PortBreak ms) = (1 \<le> ms \<and> ms \<le> 10000)"
| "port_use_ok _ = True"

fun moves_data :: "port_call \<Rightarrow> bool" where
  "moves_data (PortWrite data) = True"
| "moves_data (PortRead data) = True"
| "moves_data _ = False"

definition setting :: "port_call \<Rightarrow> bool" where
  "setting c \<longleftrightarrow> port_use_ok c \<and> \<not> moves_data c"

lemma open_port_calls:
  "open_port env attempt path l = (calls, r) \<Longrightarrow> attempt \<le> 10 \<Longrightarrow>
    \<exists>n. calls = replicate n (PortOpen path l) \<and> 1 \<le> n \<and> n \<le> 11 - attempt"
proof (induction env attempt path l arbitrary: calls rule: open_port.induct)
  case (1 env attempt path l)
  show ?case
  proof (cases "\<exists>e. port_open env attempt path l = Inl e \<and> attempt < 10 \<and> contains ''busy'' e")
    case True
    then obtain e where e: "port_open env attempt path l = Inl e" "attempt < 10" "contains ''busy'' e" by blast
    obtain calls' where c: "open_port env (attempt + 1) path l = (calls', r)" "calls = PortOpen path l # calls'"
      using "1.prems"(1) e by (subst (asm) open_port.simps) (auto split: prod.splits)
    from "1.IH" [OF e(1) conjI [OF e(2,3)] c(1)] e(2) obtain n where
      "calls' = replicate n (PortOpen path l)" "n \<le> 11 - (attempt + 1)" by auto
    then show ?thesis using c(2) e(2) by (intro exI [of _ "Suc n"]) auto
  next
    case False
    then have "calls = [PortOpen path l]"
      using "1.prems"(1) by (subst (asm) open_port.simps) (auto split: sum.splits prod.splits if_splits)
    then show ?thesis using "1.prems"(2) by (intro exI [of _ 1]) auto
  qed
qed

lemma set_line_use: "\<lbrakk>set_line put call key request port = (p1, calls, r); \<And>on. setting (call on)\<rbrakk> \<Longrightarrow> list_all setting calls"
  by (auto simp: set_line_def split: option.splits prod.splits)

lemma settings [simp]:
  "setting (PortDtr on)" "setting (PortRts on)" "setting PortStatus" "setting (PortConfigure l) = line_ok l"
  "setting (PortBreak ms) = (1 \<le> ms \<and> ms \<le> 10000)"
  by (simp_all add: setting_def)

lemmas set_lines_use = set_line_use [of _ PortDtr, simplified] set_line_use [of _ PortRts, simplified]

lemma run_control_use:
  assumes "run_control env request port l = (p1, l1, calls, r)" and "line_ok l"
  shows "line_ok l1 \<and> list_all setting calls"
proof (cases "json_opt ''op'' as_str request")
  case None
  then show ?thesis using assms by (simp add: run_control_def)
next
  case (Some op)
  note start = assms(1) [unfolded run_control_def Let_def Some option.case]
  consider (break) "op = ''break''" | (put) "op \<noteq> ''break''" "op = ''set''" | (config) "op \<noteq> ''break''" "op \<noteq> ''set''" "op = ''config''"
    | (status) "op \<noteq> ''break''" "op \<noteq> ''set''" "op \<noteq> ''config''" "op = ''status''"
    | (other) "op \<noteq> ''break''" "op \<noteq> ''set''" "op \<noteq> ''config''" "op \<noteq> ''status''" by argo
  then show ?thesis
  proof cases
    case break
    then show ?thesis using start assms(2) by (auto split: prod.splits sum.splits)
  next
    case put
    then show ?thesis using start assms(2) by (auto split: prod.splits sum.splits dest!: set_lines_use)
  next
    case config
    then show ?thesis using start assms(2) line_from_json_ok [OF _ assms(2)] by (auto split: prod.splits sum.splits)
  next
    case status
    then show ?thesis using start assms(2) by (auto split: prod.splits sum.splits)
  next
    case other
    then show ?thesis using start assms(2) by simp
  qed
qed

lemma control_use:
  "\<lbrakk>control env port l payload = (p1, l1, calls, v); line_ok l\<rbrakk> \<Longrightarrow> line_ok l1 \<and> list_all setting calls"
  by (auto simp: control_def split: sum.splits prod.splits dest!: run_control_use)

lemma control_settings:
  "\<lbrakk>control env port l payload = (p1, l1, calls, v); line_ok l\<rbrakk> \<Longrightarrow> list_all port_use_ok calls"
  by (auto simp: list_all_iff setting_def dest: control_use)

definition pump_ok :: "('s, 'p) pump_state \<Rightarrow> bool" where
  "pump_ok st \<longleftrightarrow> line_ok (pu_line st) \<and> list_all port_use_ok (pu_calls st)"

lemma guest_frame_ok: "pump_ok st \<Longrightarrow> pump_ok (guest_frame ops env kind payload st)"
  unfolding guest_frame_def Let_def
  by (auto simp: pump_ok_def split: prod.splits attempt.splits dest: control_settings control_use)

lemma guest_turn_ok: "pump_ok st \<Longrightarrow> pump_ok (guest_turn ops env st)"
  unfolding guest_turn_def
  by (split prod.split, intro allI impI, split frame_read.split) (auto simp: pump_ok_def intro!: guest_frame_ok [unfolded pump_ok_def])

lemma device_turn_ok: "pump_ok st \<Longrightarrow> pump_ok (device_turn ops env st)"
  unfolding device_turn_def Let_def
  by (auto simp: pump_ok_def split: prod.splits attempt.splits sum.splits)

lemma pump_turn_ok: "pump_ok st \<Longrightarrow> pump_ok (pump_turn ops env who st)"
  unfolding pump_turn_def using guest_turn_ok [of st ops env] device_turn_ok [of st ops env]
  by (auto simp: pump_ok_def split: serial_turn.splits reader.splits guest_loop.splits)

lemma pump_use: "line_ok l \<Longrightarrow> pump_ok (pump ops env turns t port l)"
proof -
  have "pump_ok st \<Longrightarrow> pump_ok (fold (pump_turn ops env) turns st)" for st
    by (induction turns arbitrary: st) (simp_all add: pump_turn_ok)
  then show "line_ok l \<Longrightarrow> pump_ok (pump ops env turns t port l)" by (simp add: pump_def pump_start_def pump_ok_def)
qed

lemma lend_use:
  assumes "lend ops env turns d l port t s = (t', s', r)" and "line_ok l"
  shows "\<exists>calls. sr_calls s' = sr_calls s @ calls \<and> list_all port_use_ok calls"
proof -
  have "list_all port_use_ok (pu_calls (pump ops env turns t1 port l))" for t1
    using pump_use [OF assms(2), of ops env turns t1 port] by (simp add: pump_ok_def)
  then show ?thesis
    using assms(1) unfolding lend_def Let_def observe_def
    by (auto split: prod.splits attempt.splits guest_loop.splits reader.splits if_splits)
qed

text \<open>What a session may do to the host's ports, by the request it was sent.\<close>

definition session_calls_ok :: "'p serial_env \<Rightarrow> serial_policy \<Rightarrow> (string \<rightharpoonup> bool) \<Rightarrow> port_call list \<Rightarrow> bool" where
  "session_calls_ok env p answers calls \<longleftrightarrow>
     calls = [] \<or> (\<exists>wanted d l n use. calls = replicate n (PortOpen (sd_path d) l) @ use \<and> 1 \<le> n \<and> n \<le> 11 \<and>
       resolve_device env wanted = Inr d \<and> consented env p answers d \<and> line_ok l \<and> list_all port_use_ok use)"

lemma session_open_use:
  assumes "session_open ops env turns p request t s = (t', s', r)"
  shows "\<exists>calls. sr_calls s' = sr_calls s @ calls \<and> session_calls_ok env p (sr_answers s) calls"
proof (cases "\<exists>wanted l d s1. json_opt ''device'' as_str request = Some wanted \<and> line_from_json request line_default = Inr l \<and>
    resolve_device env wanted = Inr d \<and> permit env p d s = (s1, None)")
  case True
  then obtain wanted l d s1 where go: "json_opt ''device'' as_str request = Some wanted" "line_from_json request line_default = Inr l"
    "resolve_device env wanted = Inr d" "permit env p d s = (s1, None)" by blast
  have ok: "line_ok l" using line_from_json_ok [OF go(2) line_default_ok] .
  have yes: "consented env p (sr_answers s) d" "sr_calls s1 = sr_calls s" using permit_consented [OF go(4)] by auto
  obtain opens o1 where o: "open_port env 0 (sd_path d) l = (opens, o1)" by fastforce
  obtain n where n: "opens = replicate n (PortOpen (sd_path d) l)" "1 \<le> n" "n \<le> 11" using open_port_calls [OF o] by auto
  have "\<exists>use. sr_calls s' = sr_calls s @ opens @ use \<and> list_all port_use_ok use"
  proof (cases o1)
    case (Inl e)
    then show ?thesis using assms yes(2) by (auto simp: session_open_def go o refuse_serial_def observe_def)
  next
    case (Inr port)
    then have "lend ops env turns d l port t (s1\<lparr>sr_calls := sr_calls s1 @ opens\<rparr>) = (t', s', r)"
      using assms by (simp add: session_open_def go o)
    from lend_use [OF this ok] show ?thesis using yes(2) by auto
  qed
  then obtain use where "sr_calls s' = sr_calls s @ opens @ use" "list_all port_use_ok use" by blast
  then show ?thesis using n yes(1) ok go(3) unfolding session_calls_ok_def by blast
next
  case False
  then have "sr_calls s' = sr_calls s"
    using assms permit_consented(2) [of env p _ s]
    by (auto simp: session_open_def refuse_serial_def observe_def split: option.splits sum.splits prod.splits)
  then show ?thesis by (simp add: session_calls_ok_def)
qed

lemma serial_session_use:
  assumes "serial_session ops env turns p t s = (t', s', r)"
  shows "\<exists>calls. sr_calls s' = sr_calls s @ calls \<and> session_calls_ok env p (sr_answers s) calls"
proof (cases "\<exists>t1 request. session_open ops env turns p request t1 s = (t', s', r)")
  case True
  then show ?thesis by (elim exE) (rule session_open_use)
next
  case False
  then have "sr_calls s' = sr_calls s"
    using assms unfolding serial_session_def session_list_def Let_def observe_def
    by (auto split: prod.splits serial_line.splits sum.splits option.splits if_splits)
  then show ?thesis by (simp add: session_calls_ok_def)
qed


subsection \<open>Frames over a stream\<close>

abbreviation frames_of :: "(byte \<times> bytes) list \<Rightarrow> bytes" where
  "frames_of fs \<equiv> concat (map (\<lambda>(kind, payload). serial_frame kind payload) fs)"

definition data_in :: "(byte \<times> bytes) list \<Rightarrow> bytes list" where
  "data_in fs = map snd (filter (\<lambda>(kind, _). kind = FRAME_DATA) fs)"

lemma serial_frame_unique:
  assumes "serial_frame k p @ x = serial_frame k' p' @ y" "length p \<le> MAX_FRAME" "length p' \<le> MAX_FRAME"
  shows "k = k' \<and> p = p' \<and> x = y"
proof -
  have eq: "k = k'" "u32_be (word_of_nat (length p)) @ p @ x = u32_be (word_of_nat (length p')) @ p' @ y"
    using assms(1) by (simp_all add: serial_frame_def)
  then have len: "u32_be (word_of_nat (length p)) = u32_be (word_of_nat (length p'))" and rest: "p @ x = p' @ y"
    by (simp_all add: append_eq_append_conv)
  have small: "unat (word_of_nat n :: u32) = n" if "n \<le> MAX_FRAME" for n
    using that by (simp add: unat_of_nat MAX_FRAME_def)
  have "word_of_nat (length p) = (word_of_nat (length p') :: u32)" using len uN_roundtrip(5) by metis
  then have "length p = length p'" using assms(2,3) small by metis
  then show ?thesis using eq(1) rest by simp
qed

lemma frame_chunks_concat: "concat (frame_chunks payload) = payload"
  by (simp add: frame_chunks_def chunks_concat MAX_FRAME_def chunks.simps [of _ "[]"])

context byte_stream
begin

lemma send_chunks_sends:
  "\<lbrakk>live t; send_chunks ops kind cs t = (t', Ready r)\<rbrakk> \<Longrightarrow>
    live t' \<and> coming t' = coming t \<and> sent t' = sent t @ concat (map (serial_frame kind) cs)"
proof (induction cs arbitrary: t)
  case (Cons c cs)
  obtain t1 where w: "st_write_all ops t (serial_frame kind c) = (t1, Ready ())" "send_chunks ops kind cs t1 = (t', Ready r)"
    using Cons.prems(2) by (auto split: prod.splits attempt.splits)
  from Cons.IH [OF _ w(2)] write_sends [OF Cons.prems(1) w(1)] show ?case by simp
qed simp

lemma send_frame_sends:
  assumes "live t" "send_frame ops kind payload t = (t', Ready r)"
  shows "live t' \<and> coming t' = coming t \<and> (\<exists>out. sent t' = sent t @ frames_of out \<and>
    list_all (\<lambda>(k, p). k = kind \<and> length p \<le> MAX_FRAME) out \<and> concat (map snd out) = payload)"
proof -
  note s = send_chunks_sends [OF assms(1) assms(2) [unfolded send_frame_def]]
  have "list_all (\<lambda>c. length c \<le> MAX_FRAME) (frame_chunks payload)"
    by (auto simp: frame_chunks_def list_all_iff dest: chunks_small)
  then have "frames_of (map (\<lambda>c. (kind, c)) (frame_chunks payload)) = concat (map (serial_frame kind) (frame_chunks payload)) \<and>
      list_all (\<lambda>(k, p). k = kind \<and> length p \<le> MAX_FRAME) (map (\<lambda>c. (kind, c)) (frame_chunks payload)) \<and>
      concat (map snd (map (\<lambda>c. (kind, c)) (frame_chunks payload))) = payload"
    by (simp add: comp_def list_all_iff frame_chunks_concat)
  with s show ?thesis by metis
qed

lemma read_frame_takes:
  assumes "live t" "read_frame ops t = (t', Frame kind payload)"
  shows "live t' \<and> coming t = serial_frame kind payload @ coming t' \<and> length payload \<le> MAX_FRAME \<and> sent t' = sent t"
proof -
  obtain t1 head where h: "st_read_exact ops t 5 = (t1, Ready head)" "unat (be32_at 1 head) \<le> MAX_FRAME" "kind = head ! 0"
    "st_read_exact ops t1 (unat (be32_at 1 head)) = (t', Ready payload)"
    using assms(2) by (auto simp: read_frame_def Let_def not_less split: prod.splits attempt.splits if_splits)
  note 1 = exact_takes [OF assms(1) h(1)]
  then have l: "live t1" by simp
  note 2 = exact_takes [OF l h(4)]
  obtain body where head: "head = kind # body" "length body = 4" using 1 h(3) by (cases head) auto
  have "u32_be (word_of_nat (length payload)) = u32_be (be32_at 1 head)" using 2 by simp
  also have "\<dots> = to_be 4 (from_be body)"
    using from_be_bound [of body] head by (simp add: u32_be_def be32_at_def bslice_def unat_of_nat)
  also have "\<dots> = body" using head(2) to_le_from_le [of "rev body" 4] by (simp add: to_be_def from_be_def)
  finally show ?thesis using 1 2 head h(2) by (simp add: serial_frame_def)
qed

end

subsection \<open>Both directions\<close>

fun written :: "port_call list \<Rightarrow> bytes list" where
  "written [] = []"
| "written (PortWrite data # calls) = data # written calls"
| "written (_ # calls) = written calls"

fun taken :: "port_call list \<Rightarrow> bytes" where
  "taken [] = []"
| "taken (PortRead data # calls) = data @ taken calls"
| "taken (_ # calls) = taken calls"

lemma written_append [simp]: "written (xs @ ys) = written xs @ written ys"
  by (induction xs rule: written.induct) simp_all

lemma taken_append [simp]: "taken (xs @ ys) = taken xs @ taken ys"
  by (induction xs rule: taken.induct) simp_all

lemma settings_move_nothing: "list_all setting calls \<Longrightarrow> written calls = [] \<and> taken calls = []"
  by (induction calls rule: written.induct) (auto simp: setting_def)

definition going :: "('s, 'p) pump_state \<Rightarrow> bool" where
  "going st \<longleftrightarrow> pu_guest st = Looping \<and> pu_reader st = Reading \<and> \<not> pu_stuck st"

lemma guest_turn_sides: "pu_reader (guest_turn ops env st) = pu_reader st \<and> (pu_stuck st \<longrightarrow> pu_stuck (guest_turn ops env st))"
  unfolding guest_turn_def guest_frame_def Let_def by (auto split: prod.splits frame_read.splits attempt.splits)

lemma device_turn_sides: "pu_guest (device_turn ops env st) = pu_guest st \<and> (pu_stuck st \<longrightarrow> pu_stuck (device_turn ops env st))"
  unfolding device_turn_def Let_def by (auto split: prod.splits sum.splits attempt.splits)

lemma going_before: "going (pump_turn ops env who st) \<Longrightarrow> going st"
  using guest_turn_sides [of ops env st] device_turn_sides [of ops env st]
  by (auto simp: pump_turn_def going_def split: serial_turn.splits if_splits reader.splits guest_loop.splits)

lemma going_start: "going (fold (pump_turn ops env) turns st) \<Longrightarrow> going st"
  by (induction turns arbitrary: st) (auto dest: going_before)

context byte_stream
begin

lemma guest_turn_carries:
  assumes "live (pu_stream st)" "going (guest_turn ops env st)" "line_ok (pu_line st)"
    and "coming (pu_stream st) = serial_frame kind payload @ rest" "kind = FRAME_DATA \<or> kind = FRAME_CONTROL" "length payload \<le> MAX_FRAME"
  defines "st' \<equiv> guest_turn ops env st"
  shows "live (pu_stream st') \<and> coming (pu_stream st') = rest \<and> written (pu_calls st') = written (pu_calls st) @ data_in [(kind, payload)] \<and>
    taken (pu_calls st') = taken (pu_calls st) \<and>
    (\<exists>out. sent (pu_stream st') = sent (pu_stream st) @ frames_of out \<and> list_all (\<lambda>(k, p). k = FRAME_CONTROL \<and> length p \<le> MAX_FRAME) out)"
proof -
  obtain t1 k p where r: "read_frame ops (pu_stream st) = (t1, Frame k p)"
    using assms(2) by (auto simp: guest_turn_def going_def split: prod.splits frame_read.splits)
  note t = read_frame_takes [OF assms(1) r]
  have "k = kind" "p = payload" and rest: "coming t1 = rest"
    using serial_frame_unique [of k p "coming t1" kind payload rest] t assms(4,6) by simp_all
  then have go: "st' = guest_frame ops env kind payload (st\<lparr>pu_stream := t1\<rparr>)"
    by (simp add: st'_def guest_turn_def r)
  show ?thesis
  proof (cases "kind = FRAME_DATA")
    case True
    then show ?thesis using t rest unfolding go
      by (auto simp: guest_frame_def data_in_def split: prod.splits intro!: exI [of _ "[]"])
  next
    case False
    then have kind: "kind = FRAME_CONTROL" using assms(5) by simp
    obtain p1 l1 calls reply where c: "control env (pu_port st) (pu_line st) payload = (p1, l1, calls, reply)" by (metis prod.exhaust)
    obtain t2 where w: "send_frame ops FRAME_CONTROL (bytes_of (se_show env reply)) t1 = (t2, Ready ())"
      and st': "st' = st\<lparr>pu_port := p1, pu_line := l1, pu_calls := pu_calls st @ calls, pu_stream := t2\<rparr>"
      using assms(2) c kind unfolding st'_def [symmetric] go
      by (auto simp: guest_frame_def going_def Let_def split: prod.splits attempt.splits if_splits)
    have "written calls = [] \<and> taken calls = []" using settings_move_nothing control_use [OF c assms(3)] by blast
    moreover have "live t1" using t by simp
    note s = send_frame_sends [OF this w]
    moreover from s obtain out where "sent t2 = sent t1 @ frames_of out" "list_all (\<lambda>(k, p). k = FRAME_CONTROL \<and> length p \<le> MAX_FRAME) out" by blast
    ultimately show ?thesis using t rest kind by (auto simp: st' data_in_def)
  qed
qed

lemma device_turn_carries:
  assumes "live (pu_stream st)" "going (device_turn ops env st)"
  defines "st' \<equiv> device_turn ops env st"
  shows "live (pu_stream st') \<and> coming (pu_stream st') = coming (pu_stream st) \<and> written (pu_calls st') = written (pu_calls st) \<and>
    (\<exists>out. sent (pu_stream st') = sent (pu_stream st) @ frames_of out \<and> list_all (\<lambda>(k, p). k = FRAME_DATA \<and> length p \<le> MAX_FRAME) out \<and>
      taken (pu_calls st') = taken (pu_calls st) @ concat (map snd out))"
proof -
  obtain p1 data where r: "po_read (se_port env) (pu_port st) = (p1, Inr data)"
    using assms(2) by (auto simp: device_turn_def going_def Let_def split: prod.splits sum.splits attempt.splits)
  show ?thesis
  proof (cases "data = []")
    case True
    then show ?thesis using assms(1) r by (auto simp: st'_def device_turn_def Let_def intro!: exI [of _ "[]"])
  next
    case False
    then obtain t2 where w: "send_frame ops FRAME_DATA data (pu_stream st) = (t2, Ready ())"
      using assms(2) r by (auto simp: device_turn_def going_def Let_def split: prod.splits attempt.splits)
    have st': "pu_stream st' = t2" "pu_calls st' = pu_calls st @ [PortRead data]"
      using False r w by (simp_all add: st'_def device_turn_def Let_def)
    note s = send_frame_sends [OF assms(1) w]
    then obtain out where "sent t2 = sent (pu_stream st) @ frames_of out"
      "list_all (\<lambda>(k, p). k = FRAME_DATA \<and> length p \<le> MAX_FRAME) out" "concat (map snd out) = data" by blast
    then show ?thesis using s by (auto simp: st')
  qed
qed

end

lemma data_in_simps:
  "data_in (xs @ ys) = data_in xs @ data_in ys"
  "list_all (\<lambda>(k, p). k = FRAME_DATA \<and> Q p) out \<Longrightarrow> data_in out = map snd out"
  "list_all (\<lambda>(k, p). k = FRAME_CONTROL \<and> Q p) out \<Longrightarrow> data_in out = []"
  by (simp add: data_in_def, (induction out, auto simp: data_in_def)+)

abbreviation known_frame :: "byte \<times> bytes \<Rightarrow> bool" where
  "known_frame \<equiv> \<lambda>(k, p). (k = FRAME_DATA \<or> k = FRAME_CONTROL) \<and> length p \<le> MAX_FRAME"

definition guest_turns :: "serial_turn list \<Rightarrow> nat" where
  "guest_turns turns = length (filter (\<lambda>who. who = GuestTurn) turns)"

text \<open>From \<open>st\<close> to \<open>st'\<close> exactly the guest's frames \<open>fs\<close> were carried to the port, and what the port gave to the guest.\<close>

definition carried :: "('s \<Rightarrow> bytes) \<Rightarrow> ('s \<Rightarrow> bytes) \<Rightarrow> ('s, 'p) pump_state \<Rightarrow> (byte \<times> bytes) list \<Rightarrow> ('s, 'p) pump_state \<Rightarrow> bool" where
  "carried coming sent st fs st' \<longleftrightarrow>
     coming (pu_stream st) = frames_of fs @ coming (pu_stream st') \<and> written (pu_calls st') = written (pu_calls st) @ data_in fs \<and>
     (\<exists>out. sent (pu_stream st') = sent (pu_stream st) @ frames_of out \<and> list_all known_frame out \<and>
       taken (pu_calls st') = taken (pu_calls st) @ concat (data_in out))"

lemma carried_refl: "carried coming sent st [] st"
  by (auto simp: carried_def data_in_def intro!: exI [of _ "[]"])

lemma carried_trans:
  assumes "carried coming sent st fs st1" "carried coming sent st1 fs1 st2"
  shows "carried coming sent st (fs @ fs1) st2"
proof -
  obtain out where o: "sent (pu_stream st1) = sent (pu_stream st) @ frames_of out" "list_all known_frame out"
    "taken (pu_calls st1) = taken (pu_calls st) @ concat (data_in out)" using assms(1) unfolding carried_def by blast
  obtain out1 where o1: "sent (pu_stream st2) = sent (pu_stream st1) @ frames_of out1" "list_all known_frame out1"
    "taken (pu_calls st2) = taken (pu_calls st1) @ concat (data_in out1)" using assms(2) unfolding carried_def by blast
  have "sent (pu_stream st2) = sent (pu_stream st) @ frames_of (out @ out1) \<and> list_all known_frame (out @ out1) \<and>
    taken (pu_calls st2) = taken (pu_calls st) @ concat (data_in (out @ out1))"
    using o o1 by (simp add: data_in_simps(1))
  moreover have "coming (pu_stream st) = frames_of (fs @ fs1) @ coming (pu_stream st2) \<and>
    written (pu_calls st2) = written (pu_calls st) @ data_in (fs @ fs1)"
    using assms by (simp add: carried_def data_in_simps(1))
  ultimately show ?thesis unfolding carried_def by blast
qed

context byte_stream
begin

lemma guest_turn_carried:
  assumes "live (pu_stream st)" "going (guest_turn ops env st)" "pump_ok st"
    and "coming (pu_stream st) = frames_of (f # fs) @ rest" "known_frame f"
  shows "live (pu_stream (guest_turn ops env st)) \<and> carried coming sent st [f] (guest_turn ops env st)"
proof -
  obtain k p where f: "f = (k, p)" by fastforce
  have known: "k = FRAME_DATA \<or> k = FRAME_CONTROL" "length p \<le> MAX_FRAME" using assms(5) f by simp_all
  have start: "coming (pu_stream st) = serial_frame k p @ frames_of fs @ rest" using assms(4) f by simp
  have line: "line_ok (pu_line st)" using assms(3) by (simp add: pump_ok_def)
  note one = guest_turn_carries [OF assms(1,2) line start known]
  then obtain out where out: "sent (pu_stream (guest_turn ops env st)) = sent (pu_stream st) @ frames_of out"
    "list_all (\<lambda>(k, p). k = FRAME_CONTROL \<and> length p \<le> MAX_FRAME) out" by blast
  have "list_all known_frame out" "data_in out = []" using out(2) data_in_simps(3) [OF out(2)] by (auto simp: list_all_iff)
  then show ?thesis unfolding carried_def using one out(1) start f by auto
qed

lemma device_turn_carried:
  assumes "live (pu_stream st)" "going (device_turn ops env st)"
  shows "live (pu_stream (device_turn ops env st)) \<and> carried coming sent st [] (device_turn ops env st)"
proof -
  note one = device_turn_carries [OF assms]
  then obtain out where out: "sent (pu_stream (device_turn ops env st)) = sent (pu_stream st) @ frames_of out"
    "list_all (\<lambda>(k, p). k = FRAME_DATA \<and> length p \<le> MAX_FRAME) out"
    "taken (pu_calls (device_turn ops env st)) = taken (pu_calls st) @ concat (map snd out)" by blast
  have "list_all known_frame out" "data_in out = map snd out" using out(2) data_in_simps(2) [OF out(2)] by (auto simp: list_all_iff)
  moreover have "data_in [] = []" by (simp add: data_in_def)
  ultimately show ?thesis unfolding carried_def using one out(1,3) by auto
qed

lemma pump_carried:
  "\<lbrakk>going (fold (pump_turn ops env) turns st); live (pu_stream st); pump_ok st;
    coming (pu_stream st) = frames_of fs @ rest; list_all known_frame fs; guest_turns turns \<le> length fs\<rbrakk> \<Longrightarrow>
   carried coming sent st (take (guest_turns turns) fs) (fold (pump_turn ops env) turns st)"
proof (induction turns arbitrary: st fs)
  case Nil
  then show ?case by (simp add: guest_turns_def carried_refl)
next
  case (Cons who turns)
  let ?st = "pump_turn ops env who st" and ?n = "guest_turns turns"
  have final: "going (fold (pump_turn ops env) turns ?st)" using Cons.prems(1) by simp
  have go: "going ?st" using going_start [OF final] .
  have before: "going st" using going_before [OF go] .
  have ok: "pump_ok ?st" using pump_turn_ok Cons.prems(3) .
  have "\<exists>fs0 fs1. fs = fs0 @ fs1 \<and> live (pu_stream ?st) \<and> carried coming sent st fs0 ?st \<and> guest_turns (who # turns) = length fs0 + ?n"
  proof (cases who)
    case GuestTurn
    then obtain f fs1 where fs: "fs = f # fs1" using Cons.prems(6) by (cases fs) (auto simp: guest_turns_def)
    have g: "?st = guest_turn ops env st" using before GuestTurn by (simp add: pump_turn_def going_def)
    have "live (pu_stream ?st) \<and> carried coming sent st [f] ?st"
      unfolding g by (rule guest_turn_carried [OF Cons.prems(2) go [unfolded g] Cons.prems(3) Cons.prems(4) [unfolded fs]])
        (use Cons.prems(5) fs in simp)
    moreover have "guest_turns (who # turns) = length [f] + ?n" using GuestTurn by (simp add: guest_turns_def)
    ultimately show ?thesis using fs by (metis append_Cons append_Nil)
  next
    case DeviceTurn
    have g: "?st = device_turn ops env st" using before DeviceTurn by (simp add: pump_turn_def going_def)
    have "live (pu_stream ?st) \<and> carried coming sent st [] ?st"
      unfolding g by (rule device_turn_carried [OF Cons.prems(2) go [unfolded g]])
    then show ?thesis using DeviceTurn by (intro exI [of _ "[]"] exI [of _ fs]) (simp add: guest_turns_def)
  next
    case ReaderStops
    then have "?st = st" using before by (simp add: pump_turn_def going_def)
    then show ?thesis using ReaderStops Cons.prems(2) carried_refl
      by (intro exI [of _ "[]"] exI [of _ fs]) (simp add: guest_turns_def)
  qed
  then obtain fs0 fs1 where fs: "fs = fs0 @ fs1" and one: "live (pu_stream ?st)" "carried coming sent st fs0 ?st"
    and n: "guest_turns (who # turns) = length fs0 + ?n" by blast
  have "coming (pu_stream ?st) = frames_of fs1 @ rest" using one(2) Cons.prems(4) fs by (simp add: carried_def)
  then have "carried coming sent ?st (take ?n fs1) (fold (pump_turn ops env) turns ?st)"
    using Cons.prems(5,6) fs n by (intro Cons.IH [OF final one(1) ok]) auto
  with one(2) have "carried coming sent st (fs0 @ take ?n fs1) (fold (pump_turn ops env) turns ?st)" by (rule carried_trans)
  then show ?case using fs n by simp
qed

end

subsection \<open>Properties of the serial service\<close>

text \<open>C26: While a port is lent and both sides go on, whatever the order in which the two threads take their turns, each data frame the
  guest sent is written to the port once, whole and in order, none of its control frames reaches the port as data, and what the guest has
  been sent is a sequence of whole frames of at most 64 KiB whose data, put together, are exactly the bytes read from the port.\<close>

theorem serial_pump_carries:
  assumes "vt_live t" "line_ok l" "vt_coming t = frames_of fs @ rest" "list_all known_frame fs" "guest_turns turns \<le> length fs"
    and "going (pump vsock_stream env turns t port l)"
  shows "let st = pump vsock_stream env turns t port l; n = guest_turns turns in
    written (pu_calls st) = data_in (take n fs) \<and> vt_coming (pu_stream st) = frames_of (drop n fs) @ rest \<and>
    (\<exists>out. vt_data (pu_stream st) = vt_data t @ frames_of out \<and> list_all known_frame out \<and> concat (data_in out) = taken (pu_calls st))"
proof -
  let ?st = "pump vsock_stream env turns t port l" and ?n = "guest_turns turns"
  have ok: "pump_ok (pump_start t port l)" using assms(2) by (simp add: pump_ok_def pump_start_def)
  have c: "carried vt_coming vt_data (pump_start t port l) (take ?n fs) ?st"
    unfolding pump_def
    by (rule vs_stream.pump_carried [OF assms(6) [unfolded pump_def] _ ok _ assms(4,5)]) (simp_all add: pump_start_def assms(1,3))
  have "frames_of (take ?n fs) @ vt_coming (pu_stream ?st) = vt_coming t" using c by (simp add: carried_def pump_start_def)
  also have "\<dots> = frames_of (take ?n fs) @ frames_of (drop ?n fs) @ rest"
    using assms(3) by (simp flip: append.assoc concat_append map_append)
  finally show ?thesis using c unfolding Let_def carried_def pump_start_def by auto
qed

definition echo_port :: "nat port_ops" where
  "echo_port = \<lparr>po_exclusive = id, po_configure = (\<lambda>p l. (p, Inr ())), po_read = (\<lambda>p. (p + 1, Inr [66])), po_write_all = (\<lambda>p data. (p, True)),
     po_send_break = (\<lambda>p ms. (p, Inr ())), po_set_dtr = (\<lambda>p on. (p, Inr ())), po_set_rts = (\<lambda>p on. (p, Inr ())),
     po_modem_status = (\<lambda>p. (p, Inl ''none''))\<rparr>"

definition adapter :: serial_device where
  "adapter = \<lparr>sd_path = ''/dev/ttyUSB0'', sd_by_id = None, sd_bus = ''usb'', sd_driver = None, sd_usb = None\<rparr>"

definition one_port :: "nat serial_env" where
  "one_port = \<lparr>se_list = [adapter], se_canonical = id, se_open = (\<lambda>n path. if n = 0 then Inl ''busy'' else Inr 0), se_terminal = (\<lambda>_. True),
     se_port = echo_port, se_asker = (\<lambda>_. None),
     se_parse = (\<lambda>_. Inr (JObject [(''op'', JString ''open''), (''device'', JString ''/dev/ttyUSB0'')])),
     se_show = (\<lambda>_. ''x''), se_debug = (\<lambda>_. [])\<rparr>"

definition calm :: arrival where
  "calm = \<lparr>ar_time = 0, ar_buf_alloc = 4096, ar_fwd_cnt = 0, ar_payload = []\<rparr>"

definition typing :: vstream where
  "typing = \<lparr>vt_conn = connection_new \<lparr>a_guest_cid = 3, a_local_port = 1083, a_peer_port = 2000\<rparr> True
     \<lparr>s_incoming := [0, 0, 0, 0, 1, 65]\<rparr>, vt_arrivals = [calm, calm, calm, calm], vt_sent = []\<rparr>"

lemma typing_goes: "going (pump vsock_stream one_port [GuestTurn, DeviceTurn] typing 0 line_default)"
  by (simp add: pump_def pump_start_def pump_turn_def guest_turn_def guest_frame_def device_turn_def going_def read_frame_def send_frame_def
      frame_chunks_def chunks.simps MAX_FRAME_def typing_def calm_def vsock_stream_def vt_update_def read_def arrive_def enqueue_def
      update_credit_def connection_new_def be32_at_def from_be_def bslice_def serial_frame_def u32_be_def to_be_def write_chunk_def
      one_port_def echo_port_def Let_def)

theorem serial_pump_carries_witness:
  "written (pu_calls (pump vsock_stream one_port [GuestTurn, DeviceTurn] typing 0 line_default)) = [[65]]"
proof -
  have live: "vt_live typing" by (simp add: vt_live_def typing_def connection_new_def)
  have "serial_frame 0 [65] = [0, 0, 0, 0, 1, 65]" by code_simp
  then have coming: "vt_coming typing = frames_of [(0, [65])] @ []"
    by (simp add: vt_coming_def typing_def connection_new_def payloads_def calm_def)
  have frames: "list_all known_frame [(0, [65])]" and turns: "guest_turns [GuestTurn, DeviceTurn] \<le> length [(0 :: byte, [65 :: byte])]"
    by (simp_all add: MAX_FRAME_def guest_turns_def)
  show ?thesis
    using serial_pump_carries [OF live line_default_ok coming frames turns typing_goes] by (simp add: Let_def guest_turns_def data_in_def)
qed

text \<open>C37: The matcher of device patterns ends on every pattern and name, and for a name without a literal \<open>*\<close> it answers exactly
  whether the pattern means it, \<open>*\<close> standing for any run of characters and \<open>?\<close> for one.\<close>

theorem glob_means:
  "(\<exists>b. glob_loop (utf8_chars pattern) (utf8_chars name) 0 0 None 0 = Some b) \<and>
   (''*'' \<notin> set (utf8_chars name) \<longrightarrow> glob pattern name = wild (utf8_chars pattern) (utf8_chars name))"
  using glob_wild glob_loop_returns by simp

theorem glob_means_witness: "glob ''/dev/tty?SB*'' ''/dev/ttyUSB0''"
proof -
  have "''*'' \<notin> set (utf8_chars ''/dev/ttyUSB0'')" "wild (utf8_chars ''/dev/tty?SB*'') (utf8_chars ''/dev/ttyUSB0'')" by code_simp+
  then show ?thesis using glob_means [of "''/dev/tty?SB*''" "''/dev/ttyUSB0''"] by simp
qed

text \<open>C38: Line settings are well formed: reading a request over settings within their ranges gives settings within their ranges or an
  error, whatever the request holds, and settings printed for the guest are read back as themselves.\<close>

theorem line_settings_typed:
  "(line_ok base \<and> line_from_json v base = Inr l \<longrightarrow> line_ok l) \<and> (line_ok l \<longrightarrow> line_from_json (line_json l) base = Inr l) \<and> line_ok line_default"
  using line_from_json_ok line_json_back line_default_ok by blast

theorem line_settings_typed_witness:
  "line_from_json (line_json line_default) (line_default\<lparr>ln_baud := 9600\<rparr>) = Inr line_default"
  using line_settings_typed [of "line_default\<lparr>ln_baud := 9600\<rparr>" "line_json line_default" line_default] by simp

definition request_stream :: "nat stream_ops" where
  "request_stream = \<lparr>st_read = (\<lambda>s room. (s + 1, Ready [10])), st_read_exact = (\<lambda>s n. (s, Failed (Closed ''gone''))),
     st_write_all = (\<lambda>s bs. (s, Failed (Closed ''gone''))), st_set_deadline = (\<lambda>s d. s), st_now = (\<lambda>s. 0), st_close = (\<lambda>s. s)\<rparr>"

definition fresh :: serial_state where
  "fresh = \<lparr>sr_answers = (\<lambda>_. None), sr_asked = [], sr_events = [], sr_calls = []\<rparr>"

definition share_all :: serial_policy where
  "share_all = \<lparr>sl_mode = SerialAllow, sl_devices = []\<rparr>"

lemma one_session:
  "sr_calls (snd (serve_serial request_stream one_port [] share_all 0 fresh)) =
     [PortOpen ''/dev/ttyUSB0'' line_default, PortOpen ''/dev/ttyUSB0'' line_default, PortClose]"
proof -
  have r: "read_serial_line request_stream [] 0 = (1, SerialLine [])"
    by (simp add: read_serial_line.simps request_stream_def)
  have d: "resolve_device one_port ''/dev/ttyUSB0'' = Inr adapter"
    by (simp add: resolve_device_def usb_pattern_def strip_prefix_def starts_with_def one_port_def adapter_def)
  have p: "permit one_port share_all adapter fresh = (fresh, None)"
    by (simp add: permit_def decide_device_def share_all_def adapter_def UNLISTED_def)
  have o: "open_port one_port 0 ''/dev/ttyUSB0'' line_default = ([PortOpen ''/dev/ttyUSB0'' line_default, PortOpen ''/dev/ttyUSB0'' line_default], Inr 0)"
    by (simp add: open_port.simps [of _ 0] open_port.simps [of _ "Suc 0"] port_open_def one_port_def echo_port_def starts_with_def NUL_def)
  have l: "line_from_json (JObject [(''op'', JString ''open''), (''device'', JString ''/dev/ttyUSB0'')]) line_default = Inr line_default"
    by (simp add: line_from_json_def given_def line_default_def)
  have req: "se_parse one_port x = Inr (JObject [(''op'', JString ''open''), (''device'', JString ''/dev/ttyUSB0'')])" for x
    by (simp add: one_port_def)
  have path: "sd_path adapter = ''/dev/ttyUSB0''" by (simp add: adapter_def)
  have w: "st_write_all request_stream t bs = (t, Failed (Closed ''gone''))" for t bs by (simp add: request_stream_def)
  have "sr_calls fresh = []" by (simp add: fresh_def)
  then show ?thesis
    by (simp add: serve_serial_def serial_session_def r req json_opt_object session_open_def l d p path o lend_def send_line_def w
        observe_def Let_def)
qed


end
