(* ===== verification/Addons.thy ===== *)
theory Addons
  imports Image_Fs Policy Json
begin

text \<open>
  Add-ons, \<open>engine/src/addons.rs\<close>: which of them a sandbox boots with, the settings the guest gets and the keys it does not, and
  the archive the settings travel in (\<open>cpio_overlay\<close> of \<open>engine/src/protocol.rs\<close>), which the boot image server of \<open>Image_Fs\<close>
  reads. The add-on folder (its names, its files, what opening an image gives), JSON as text and \<open>str::to_lowercase\<close> (\<open>lc\<close>, as in
  \<open>Policy\<close>) are parameters. A \<open>serde_json::Map\<close> is the list of its members in key order.
\<close>

unbundle bit_operations_syntax

type_synonym members = "(string \<times> json) list"

subsection \<open>An overlay\<close>

definition hex08 :: "nat \<Rightarrow> string" where
  "hex08 n = replicate (8 - length (hex n)) CHR ''0'' @ hex n"

definition overlay_header :: "nat \<Rightarrow> nat \<Rightarrow> nat \<Rightarrow> nat \<Rightarrow> string" where
  "overlay_header ino mode data_len name_len =
     ''070701'' @ concat (map hex08 [ino, mode, 0, 0, 1, 0, data_len, 0, 0, 0, 0, name_len + 1, 0])"

definition overlay_add :: "nat \<Rightarrow> string \<Rightarrow> nat \<Rightarrow> bytes \<Rightarrow> bytes \<Rightarrow> bytes" where
  "overlay_add ino name mode data out =
     pad4 (pad4 (out @ bytes_of (overlay_header ino mode (length data) (length name)) @ bytes_of name @ [0]) @ data)"

fun overlay_entries :: "nat \<Rightarrow> (string \<times> bytes option) list \<Rightarrow> bytes \<Rightarrow> bytes" where
  "overlay_entries index [] out = out"
| "overlay_entries index ((name, data) # rest) out =
     overlay_entries (index + 1) rest
       (case data of
          None \<Rightarrow> overlay_add (index + 1) name 0x41ED [] out
        | Some d \<Rightarrow> overlay_add (index + 1) name 0x81A4 d out)"

definition cpio_overlay :: "(string \<times> bytes option) list \<Rightarrow> bytes" where
  "cpio_overlay entries = overlay_add 0 ''TRAILER!!!'' 0 [] (overlay_entries 0 entries [])"

subsection \<open>The add-on folder\<close>

datatype meta_file = MetaMissing | MetaError string | MetaBytes string

record addon_dir =
  ad_path :: string
  ad_names :: "string list"
  ad_is_file :: "string \<Rightarrow> bool"
  ad_open :: "string \<Rightarrow> string + bytes \<times> (nat \<Rightarrow> nat \<Rightarrow> io_error + bytes)"
  ad_read :: "string \<Rightarrow> meta_file"
  ad_parse :: "string \<Rightarrow> json option"
  ad_pretty :: "json \<Rightarrow> string"

record resolved =
  rs_names :: "string list"
  rs_layers :: "layer list"
  rs_headers :: "string list"
  rs_secrets :: "secret list"

definition resolved_default :: resolved where
  "resolved_default = \<lparr>rs_names = [], rs_layers = [], rs_headers = [], rs_secrets = []\<rparr>"

definition path_join :: "string \<Rightarrow> string \<Rightarrow> string" where
  "path_join dir name = dir @ (if dir = [] \<or> last dir = CHR ''/'' then [] else ''/'') @ name"

definition strip_suffix :: "string \<Rightarrow> string \<Rightarrow> string option" where
  "strip_suffix pat s = (if ends_with pat s then Some (take (length s - length pat) s) else None)"

definition available :: "addon_dir option \<Rightarrow> string list" where
  "available dir = (case dir of None \<Rightarrow> [] | Some d \<Rightarrow> sort (List.map_filter (strip_suffix ''.cpio'') (ad_names d)))"

definition read_meta :: "addon_dir \<Rightarrow> string \<Rightarrow> string + members" where
  "read_meta d path =
     (case ad_read d path of
        MetaMissing \<Rightarrow> Inr []
      | MetaError e \<Rightarrow> Inl (''reading '' @ path @ '': '' @ e)
      | MetaBytes bs \<Rightarrow>
          (case ad_parse d bs of
             Some (JObject meta) \<Rightarrow> Inr meta
           | _ \<Rightarrow> Inl (path @ '' is not a JSON object'')))"

subsection \<open>An API key\<close>

definition key_variant :: "json \<Rightarrow> members \<Rightarrow> string" where
  "key_variant spec settings =
     (let standard = (case json_opt ''default'' as_str spec of Some d \<Rightarrow> d | None \<Rightarrow> []) in
      case json_opt ''selector'' as_str spec of
        Some selector \<Rightarrow> (case json_opt selector as_str (JObject settings) of Some v \<Rightarrow> v | None \<Rightarrow> standard)
      | None \<Rightarrow> standard)"

definition key_rule :: "string \<Rightarrow> members \<Rightarrow> members \<Rightarrow> string + json \<times> string" where
  "key_rule name meta settings =
     (case map_of meta ''apiKey'' of
        None \<Rightarrow> Inl (''addons.'' @ name @ '': this add-on takes no apiKey'')
      | Some spec \<Rightarrow>
          let variant = key_variant spec settings in
          case (case json_get ''variants'' spec of None \<Rightarrow> None | Some vs \<Rightarrow> json_get variant vs) of
            None \<Rightarrow> Inl (''addons.'' @ name @ '': no API key rule for '' @ quoted variant)
          | Some rule \<Rightarrow>
              (case (case json_opt ''baseUrl'' as_str (JObject settings) of Some u \<Rightarrow> Some u | None \<Rightarrow> json_opt ''baseUrl'' as_str rule) of
                 None \<Rightarrow> Inl (''addons.'' @ name @ '': apiKey needs a baseUrl'')
               | Some url \<Rightarrow> Inr (rule, url)))"

definition url_host :: "string \<Rightarrow> string" where
  "url_host rest =
     (let authority = last (split_on CHR ''@'' (hd (split_by (\<lambda>c. c \<in> set ''/?#'') rest))) in
      case strip_prefix ''['' authority of
        Some v6 \<Rightarrow> hd (split_on CHR '']'' v6)
      | None \<Rightarrow> hd (split_on CHR '':'' authority))"

definition api_key_secret :: "(string \<Rightarrow> string) \<Rightarrow> string \<Rightarrow> members \<Rightarrow> members \<Rightarrow> string \<Rightarrow> string + secret option" where
  "api_key_secret lc name meta settings key =
     (case key_rule name meta settings of
        Inl e \<Rightarrow> Inl e
      | Inr (rule, url) \<Rightarrow>
          (case split_once ''://'' url of
             None \<Rightarrow> Inl (''addons.'' @ name @ ''.baseUrl: not a URL: '' @ url)
           | Some (scheme, rest) \<Rightarrow>
               if map ascii_lower scheme = ''http'' then Inr None
               else
                 let host = url_host rest in
                 if host = [] then Inl (''addons.'' @ name @ ''.baseUrl: no host in '' @ url)
                 else
                   let header = (case json_opt ''header'' as_str rule of Some h \<Rightarrow> h | None \<Rightarrow> ''authorization'');
                       v = replace_all ''{key}'' key (case json_opt ''what'' as_str rule of Some t \<Rightarrow> t | None \<Rightarrow> ''Bearer {key}'')
                   in Inr (Some \<lparr>sec_host = lc host, sec_header = lc header, sec_value = v\<rparr>)))"

subsection \<open>Turning add-ons on\<close>

fun asked_names :: "json list \<Rightarrow> string + (string \<times> members) list" where
  "asked_names [] = Inr []"
| "asked_names (j # js) =
     (case as_str j of
        None \<Rightarrow> Inl ''addons: a list of names''
      | Some name \<Rightarrow> (case asked_names js of Inl e \<Rightarrow> Inl e | Inr rest \<Rightarrow> Inr ((name, []) # rest)))"

fun asked_settings :: "members \<Rightarrow> string + (string \<times> members) list" where
  "asked_settings [] = Inr []"
| "asked_settings ((name, settings) # others) =
     (if settings = JBool False \<or> settings = JNull then asked_settings others
      else case settings of
          JBool _ \<Rightarrow> (case asked_settings others of Inl e \<Rightarrow> Inl e | Inr rest \<Rightarrow> Inr ((name, []) # rest))
        | JObject given0 \<Rightarrow> (case asked_settings others of Inl e \<Rightarrow> Inl e | Inr rest \<Rightarrow> Inr ((name, given0) # rest))
        | _ \<Rightarrow> Inl (''addons.'' @ name @ '': true or an object of settings''))"

definition asked_for :: "json option \<Rightarrow> string + (string \<times> members) list" where
  "asked_for requested =
     (case requested of
        None \<Rightarrow> Inr []
      | Some JNull \<Rightarrow> Inr []
      | Some (JArray names) \<Rightarrow> asked_names names
      | Some (JObject entries) \<Rightarrow> asked_settings entries
      | Some _ \<Rightarrow> Inl (''addons: an object of name '' @ map char_of [0xE2 :: nat, 0x86, 0x92] @ '' settings, or a list of names''))"

definition addon_name :: "string \<Rightarrow> bool" where
  "addon_name name \<longleftrightarrow> list_all (\<lambda>c. ascii_alnum c \<or> c = CHR ''-'' \<or> c = CHR ''_'') name \<and> name \<noteq> []"

definition extra_headers :: "(string \<Rightarrow> string) \<Rightarrow> members \<Rightarrow> string list" where
  "extra_headers lc meta =
     (case json_opt ''extraAllowedHeaders'' as_array (JObject meta) of
        None \<Rightarrow> []
      | Some headers \<Rightarrow> map lc (List.map_filter as_str headers))"

definition take_key :: "(string \<Rightarrow> string) \<Rightarrow> string \<Rightarrow> members \<Rightarrow> members \<Rightarrow> string + secret list \<times> members" where
  "take_key lc name meta settings =
     (case map_of settings ''apiKey'' of
        None \<Rightarrow> Inr ([], settings)
      | Some v \<Rightarrow>
          let rest = filter (\<lambda>(k, _). k \<noteq> ''apiKey'') settings in
          case as_str v of
            None \<Rightarrow> Inl (''addons.'' @ name @ ''.apiKey: a string'')
          | Some key \<Rightarrow>
              (case api_key_secret lc name meta rest key of
                 Inl e \<Rightarrow> Inl e
               | Inr (Some s) \<Rightarrow> Inr ([s], rest)
               | Inr None \<Rightarrow> Inr ([], bt_insert ''apiKey'' (JString key) rest)))"

definition settings_path :: "string \<Rightarrow> string" where
  "settings_path name = ''etc/collabo/addons/'' @ name @ ''.json''"

definition resolve_one :: "(string \<Rightarrow> string) \<Rightarrow> addon_dir \<Rightarrow> string \<Rightarrow> members \<Rightarrow> resolved \<times> (string \<times> bytes) list
    \<Rightarrow> string + resolved \<times> (string \<times> bytes) list" where
  "resolve_one lc d name settings s =
     (case s of (r, files) \<Rightarrow>
        if \<not> addon_name name then Inl (''addons: '' @ quoted name @ '' is not an add-on name'')
        else
          let image = path_join (ad_path d) (name @ ''.cpio'') in
          if \<not> ad_is_file d image then
            (let known = available (Some d) in
             Inl (''no add-on '' @ quoted name @ '' (this runtime has: '' @ (if known = [] then ''none'' else join_with '', '' known) @ '')''))
          else
            (case read_meta d (path_join (ad_path d) (name @ ''.json'')) of
               Inl e \<Rightarrow> Inl e
             | Inr meta \<Rightarrow>
                 (case take_key lc name meta settings of
                    Inl e \<Rightarrow> Inl e
                  | Inr (secrets, seen) \<Rightarrow>
                      Inr (\<lparr>rs_names = rs_names r @ [name], rs_layers = rs_layers r @ [LFile image (ad_open d image)],
                            rs_headers = rs_headers r @ extra_headers lc meta, rs_secrets = rs_secrets r @ secrets\<rparr>,
                           files @ [(settings_path name, bytes_of (ad_pretty d (JObject seen)))]))))"

fun resolve_each :: "(string \<Rightarrow> string) \<Rightarrow> addon_dir \<Rightarrow> (string \<times> members) list \<Rightarrow> resolved \<times> (string \<times> bytes) list
    \<Rightarrow> string + resolved \<times> (string \<times> bytes) list" where
  "resolve_each lc d [] s = Inr s"
| "resolve_each lc d ((name, settings) # rest) s =
     (case resolve_one lc d name settings s of Inl e \<Rightarrow> Inl e | Inr s1 \<Rightarrow> resolve_each lc d rest s1)"

definition overlay_folders :: "(string \<times> bytes option) list" where
  "overlay_folders = [(''etc'', None), (''etc/collabo'', None), (''etc/collabo/addons'', None)]"

definition resolve_addons :: "(string \<Rightarrow> string) \<Rightarrow> addon_dir option \<Rightarrow> json option \<Rightarrow> string + resolved" where
  "resolve_addons lc dir requested =
     (case asked_for requested of
        Inl e \<Rightarrow> Inl e
      | Inr asked \<Rightarrow>
          if asked = [] then Inr resolved_default
          else (case dir of
              None \<Rightarrow> Inl ''this runtime has no add-ons (no --addon-dir)''
            | Some d \<Rightarrow>
                (case resolve_each lc d asked (resolved_default, []) of
                   Inl e \<Rightarrow> Inl e
                 | Inr (r, files) \<Rightarrow>
                     Inr (r\<lparr>rs_layers := rs_layers r @
                       [LBytes (cpio_overlay (overlay_folders @ map (\<lambda>(path, data). (path, Some data)) files))]\<rparr>))))"

definition parse_setting :: "(string \<Rightarrow> json option) \<Rightarrow> string \<Rightarrow> members \<Rightarrow> string + members" where
  "parse_setting parse spec into =
     (case split_once '':'' spec of
        None \<Rightarrow> Inl ''--addon-config needs NAME:KEY=VALUE''
      | Some (name, assignment) \<Rightarrow>
          (case split_once ''='' assignment of
             None \<Rightarrow> Inl ''--addon-config needs NAME:KEY=VALUE''
           | Some (key, what) \<Rightarrow>
               let v = (case parse what of Some (JNumber n) \<Rightarrow> JNumber n | Some (JBool b) \<Rightarrow> JBool b | _ \<Rightarrow> JString what);
                   settings = (case map_of into name of Some (JObject given0) \<Rightarrow> given0 | _ \<Rightarrow> [])
               in Inr (bt_insert name (JObject (bt_insert key v settings)) into)))"

subsection \<open>The overlay is read as it was written\<close>

definition overlay_file :: "nat \<Rightarrow> string \<times> bytes option \<Rightarrow> newc_file" where
  "overlay_file ino entry =
     \<lparr>w_fields = [word_of_nat ino, (case snd entry of None \<Rightarrow> 0x41ED | Some _ \<Rightarrow> 0x81A4), 0, 0, 1, 0], w_dev = [0, 0, 0, 0],
      w_name = fst entry, w_data = (case snd entry of None \<Rightarrow> [] | Some d \<Rightarrow> d)\<rparr>"

definition overlay_trailer :: newc_file where
  "overlay_trailer = \<lparr>w_fields = [0, 0, 0, 0, 1, 0], w_dev = [0, 0, 0, 0], w_name = ''TRAILER!!!'', w_data = []\<rparr>"

definition overlay_files :: "(string \<times> bytes option) list \<Rightarrow> newc_file list" where
  "overlay_files entries = map (\<lambda>(i, e). overlay_file (i + 1) e) (enumerate 0 entries)"

lemma hex08_hexn: "n < 2 ^ 32 \<Longrightarrow> hex08 n = hexn 8 n"
  using hexn_hex [of n 8] by (simp add: hex08_def)

lemma pad4_aligned: "length out mod 4 = 0 \<Longrightarrow> pad4 (out @ bs) = out @ pad4 bs"
  using align4_mod(3) [of "length out" "length bs"] by (simp add: pad4_def)

lemma overlay_add_newc:
  assumes "length out mod 4 = 0" "ino < 2 ^ 32" "mode < 2 ^ 32" "length data < 2 ^ 32" "length name + 1 < 2 ^ 32"
    and f: "f = \<lparr>w_fields = [word_of_nat ino, word_of_nat mode, 0, 0, 1, 0], w_dev = [0, 0, 0, 0], w_name = name, w_data = data\<rparr>"
  shows "overlay_add ino name mode data out = out @ newc_encode f"
proof -
  have small: "hex08 n = hexn 8 (unat (word_of_nat n :: u32))" if "n < 2 ^ 32" for n
    using that hex08_hexn by (simp add: unat_of_nat)
  have "bytes_of (overlay_header ino mode (length data) (length name)) = newc_header f"
    using assms(2-5) small [of ino] small [of mode] small [of "length data"] small [of "length name + 1"] small [of 0] hex08_hexn [of 1]
    by (simp add: overlay_header_def newc_header_def newc_fields_def f bytes_of_def del: of_nat_Suc of_nat_add)
  then show ?thesis
    using assms(1) unfolding overlay_add_def newc_encode_def f by (simp add: pad4_aligned)
qed

definition overlay_ok :: "string \<times> bytes option \<Rightarrow> bool" where
  "overlay_ok entry \<longleftrightarrow> newc_ok (overlay_file 0 entry) \<and> fst entry \<noteq> ''TRAILER!!!''"

lemma overlay_entries_newc:
  "\<lbrakk>list_all overlay_ok entries; length out mod 4 = 0; index + length entries < 2 ^ 32\<rbrakk> \<Longrightarrow>
   overlay_entries index entries out = out @ concat (map newc_encode (map (\<lambda>(i, e). overlay_file (i + 1) e) (enumerate index entries)))"
proof (induction entries arbitrary: index out)
  case (Cons e entries)
  obtain name data where e: "e = (name, data)" by fastforce
  let ?out = "out @ newc_encode (overlay_file (index + 1) e)"
  have "length name + 1 < 2 ^ 32" "length (case data of None \<Rightarrow> [] | Some d \<Rightarrow> d) < 2 ^ 32"
    using Cons.prems(1) by (auto simp: overlay_ok_def newc_ok_def overlay_file_def e)
  then have "(case data of None \<Rightarrow> overlay_add (index + 1) name 0x41ED [] out | Some d \<Rightarrow> overlay_add (index + 1) name 0x81A4 d out) = ?out"
    using Cons.prems(2,3) by (cases data) (auto simp: e overlay_file_def intro!: overlay_add_newc)
  moreover have "length ?out mod 4 = 0" using Cons.prems(2) newc_encode_aligned by (simp add: mod_add_eq [symmetric] del: mod_add_eq)
  ultimately show ?case using Cons.IH [of ?out "index + 1"] Cons.prems e by simp
qed simp

lemma cpio_overlay_newc:
  assumes "list_all overlay_ok entries" "length entries < 2 ^ 32"
  shows "cpio_overlay entries = concat (map newc_encode (overlay_files entries)) @ newc_encode overlay_trailer @ replicate 0 0"
proof -
  let ?all = "concat (map newc_encode (overlay_files entries))"
  have "overlay_entries 0 entries [] = ?all" using overlay_entries_newc [OF assms(1), of "[]" 0] assms(2) by (simp add: overlay_files_def)
  moreover have "length (concat (map newc_encode fs)) mod 4 = 0" for fs
    by (induction fs) (simp_all add: newc_encode_aligned mod_add_eq [symmetric] del: mod_add_eq)
  then have "overlay_add 0 ''TRAILER!!!'' 0 [] ?all = ?all @ newc_encode overlay_trailer"
    by (intro overlay_add_newc) (simp_all add: overlay_trailer_def)
  ultimately show ?thesis by (simp add: cpio_overlay_def)
qed

lemma newc_entries_names: "map x_name (newc_entries at fs) = map w_name fs"
  by (induction fs arbitrary: at) (simp_all add: newc_entry_def)

lemma overlay_ok_any: "overlay_ok e \<Longrightarrow> newc_ok (overlay_file i e)"
  by (simp add: overlay_ok_def newc_ok_def overlay_file_def)

lemma trailer_ok: "newc_ok overlay_trailer"
  by (simp add: newc_ok_def overlay_trailer_def NUL_def) (rule ascii_valid, simp add: ascii_def)

lemma overlay_read:
  assumes "list_all overlay_ok entries" "length entries < 2 ^ 32"
  shows "\<exists>xs. cpio_entries (cpio_overlay entries) 0 [] = Inr xs \<and> map x_name xs = map fst entries \<and>
    map (\<lambda>x. bslice (x_offset x) (unat (x_size x)) (cpio_overlay entries)) xs = map (\<lambda>e. case snd e of None \<Rightarrow> [] | Some d \<Rightarrow> d) entries"
proof -
  have ok: "list_all (\<lambda>f. newc_ok f \<and> w_name f \<noteq> ''TRAILER!!!'') (overlay_files entries)"
  proof -
    have "\<exists>i. \<exists>e\<in>set entries. f = overlay_file i e" if "f \<in> set (overlay_files entries)" for f
      using that nth_mem by (fastforce simp: overlay_files_def in_set_enumerate_eq)
    moreover have "w_name (overlay_file i e) = fst e" for i e by (simp add: overlay_file_def)
    ultimately show ?thesis
      using assms(1) overlay_ok_any unfolding list_all_iff by (metis overlay_ok_def)
  qed
  note read = archive_read [OF ok trailer_ok _ cpio_overlay_newc [OF assms]]
  have names: "map w_name (overlay_files entries) = map fst entries" and data: "map w_data (overlay_files entries) = map (\<lambda>e. case snd e of None \<Rightarrow> [] | Some d \<Rightarrow> d) entries"
    by (auto simp: overlay_files_def overlay_file_def enumerate_eq_zip zip_commute [of "[0..<_]"] intro!: nth_equalityI)
  have "w_name overlay_trailer = ''TRAILER!!!''" by (simp add: overlay_trailer_def)
  from read [OF this] newc_entries_names [of 0 "overlay_files entries"] show ?thesis unfolding names data by blast
qed

subsection \<open>What the guest is given\<close>

lemma map_of_without: "map_of (filter (\<lambda>(k, _). k \<noteq> x) xs) x = None"
  by (induction xs) auto

lemma bt_insert_found: "map_of (bt_insert k v xs) k = Some v"
  by (induction k v xs rule: bt_insert.induct) auto

definition plain_http :: "string \<Rightarrow> bool" where
  "plain_http url = (case split_once ''://'' url of Some (scheme, _) \<Rightarrow> map ascii_lower scheme = ''http'' | None \<Rightarrow> False)"

text \<open>
  What the guest sees of the settings, and what the host keeps: a key stays in the settings only when the add-on's address is
  plain http; otherwise it is the what of a secret for that address's host.
\<close>

definition key_kept :: "(string \<Rightarrow> string) \<Rightarrow> string \<Rightarrow> members \<Rightarrow> members \<Rightarrow> members \<Rightarrow> secret list \<Rightarrow> bool" where
  "key_kept lc name meta settings seen secrets =
     (case map_of settings ''apiKey'' of
        None \<Rightarrow> seen = settings \<and> secrets = []
      | Some k \<Rightarrow>
          \<exists>key rule url. k = JString key \<and> key_rule name meta (filter (\<lambda>(k, _). k \<noteq> ''apiKey'') settings) = Inr (rule, url) \<and>
            (if plain_http url then map_of seen ''apiKey'' = Some k \<and> secrets = []
             else map_of seen ''apiKey'' = None \<and>
               (\<exists>scheme rest header what. split_once ''://'' url = Some (scheme, rest) \<and> url_host rest \<noteq> [] \<and>
                 secrets = [\<lparr>sec_host = lc (url_host rest), sec_header = header, sec_value = replace_all ''{key}'' key what\<rparr>])))"

lemma take_key_kept: "take_key lc name meta settings = Inr (secrets, seen) \<Longrightarrow> key_kept lc name meta settings seen secrets"
proof -
  assume t: "take_key lc name meta settings = Inr (secrets, seen)"
  let ?rest = "filter (\<lambda>(k, _). k \<noteq> ''apiKey'') settings"
  show ?thesis
  proof (cases "map_of settings ''apiKey''")
    case None
    then show ?thesis using t by (simp add: take_key_def key_kept_def)
  next
    case (Some k)
    then obtain key where k: "k = JString key" using t by (cases k) (simp_all add: take_key_def Let_def)
    obtain o1 where o: "api_key_secret lc name meta ?rest key = Inr o1"
      and seen: "(secrets, seen) = (case o1 of Some s \<Rightarrow> ([s], ?rest) | None \<Rightarrow> ([], bt_insert ''apiKey'' (JString key) ?rest))"
      using t Some k by (auto simp: take_key_def Let_def split: sum.splits option.splits)
    obtain rule url scheme rest where r: "key_rule name meta ?rest = Inr (rule, url)" "split_once ''://'' url = Some (scheme, rest)"
      using o by (auto simp: api_key_secret_def split: sum.splits option.splits prod.splits)
    show ?thesis
    proof (cases "map ascii_lower scheme = ''http''")
      case True
      then have "o1 = None" using o r by (simp add: api_key_secret_def)
      then show ?thesis using seen True r Some k by (simp add: key_kept_def plain_http_def bt_insert_found)
    next
      case False
      then obtain header v where "o1 = Some \<lparr>sec_host = lc (url_host rest), sec_header = header, sec_value = replace_all ''{key}'' key v\<rparr>"
        "url_host rest \<noteq> []"
        using o r by (auto simp: api_key_secret_def Let_def split: if_splits)
      then show ?thesis using seen False r Some k by (auto simp: key_kept_def plain_http_def map_of_without)
    qed
  qed
qed

definition image_path :: "addon_dir \<Rightarrow> string \<Rightarrow> string" where
  "image_path d name = path_join (ad_path d) (name @ ''.cpio'')"

definition addon_given :: "(string \<Rightarrow> string) \<Rightarrow> addon_dir \<Rightarrow> string \<times> members \<Rightarrow> members \<times> secret list \<Rightarrow> bool" where
  "addon_given lc d asked got \<longleftrightarrow>
     addon_name (fst asked) \<and> ad_is_file d (image_path d (fst asked)) \<and>
     (\<exists>meta. read_meta d (path_join (ad_path d) (fst asked @ ''.json'')) = Inr meta \<and>
       key_kept lc (fst asked) meta (snd asked) (fst got) (snd got))"

definition settings_file :: "addon_dir \<Rightarrow> string \<times> members \<Rightarrow> members \<times> secret list \<Rightarrow> string \<times> bytes" where
  "settings_file d asked got = (settings_path (fst asked), bytes_of (ad_pretty d (JObject (fst got))))"

lemma resolve_one_given:
  assumes "resolve_one lc d name settings (r, files) = Inr (r1, files1)"
  shows "\<exists>got. addon_given lc d (name, settings) got \<and> rs_names r1 = rs_names r @ [name] \<and>
    rs_layers r1 = rs_layers r @ [LFile (image_path d name) (ad_open d (image_path d name))] \<and>
    rs_secrets r1 = rs_secrets r @ snd got \<and> files1 = files @ [settings_file d (name, settings) got]"
proof -
  obtain meta secrets seen where m: "addon_name name" "ad_is_file d (image_path d name)"
    "read_meta d (path_join (ad_path d) (name @ ''.json'')) = Inr meta" "take_key lc name meta settings = Inr (secrets, seen)"
    using assms by (auto simp: resolve_one_def image_path_def Let_def split: if_splits sum.splits prod.splits)
  then have "addon_given lc d (name, settings) (seen, secrets)" using take_key_kept by (auto simp: addon_given_def)
  moreover have "rs_names r1 = rs_names r @ [name]" "rs_secrets r1 = rs_secrets r @ secrets"
    "rs_layers r1 = rs_layers r @ [LFile (image_path d name) (ad_open d (image_path d name))]"
    "files1 = files @ [settings_file d (name, settings) (seen, secrets)]"
    using assms m by (auto simp: resolve_one_def image_path_def settings_file_def Let_def)
  ultimately show ?thesis by (intro exI [of _ "(seen, secrets)"]) simp
qed

lemma resolve_each_given:
  "resolve_each lc d asked (r, files) = Inr (r1, files1) \<Longrightarrow>
   \<exists>gots. list_all2 (addon_given lc d) asked gots \<and> rs_names r1 = rs_names r @ map fst asked \<and>
    rs_layers r1 = rs_layers r @ map (\<lambda>a. LFile (image_path d (fst a)) (ad_open d (image_path d (fst a)))) asked \<and>
    rs_secrets r1 = rs_secrets r @ concat (map snd gots) \<and> files1 = files @ map2 (settings_file d) asked gots"
proof (induction asked arbitrary: r files)
  case (Cons a asked)
  obtain name settings where a: "a = (name, settings)" by fastforce
  obtain r2 files2 where one: "resolve_one lc d name settings (r, files) = Inr (r2, files2)" "resolve_each lc d asked (r2, files2) = Inr (r1, files1)"
    using Cons.prems a by (auto split: sum.splits)
  obtain got where got: "addon_given lc d (name, settings) got" "rs_names r2 = rs_names r @ [name]"
    "rs_layers r2 = rs_layers r @ [LFile (image_path d name) (ad_open d (image_path d name))]"
    "rs_secrets r2 = rs_secrets r @ snd got" "files2 = files @ [settings_file d (name, settings) got]"
    using resolve_one_given [OF one(1)] by blast
  obtain gots where gots: "list_all2 (addon_given lc d) asked gots" "rs_names r1 = rs_names r2 @ map fst asked"
    "rs_layers r1 = rs_layers r2 @ map (\<lambda>a. LFile (image_path d (fst a)) (ad_open d (image_path d (fst a)))) asked"
    "rs_secrets r1 = rs_secrets r2 @ concat (map snd gots)" "files1 = files2 @ map2 (settings_file d) asked gots"
    using Cons.IH [OF one(2)] by blast
  show ?case using got gots a by (intro exI [of _ "got # gots"]) simp
qed auto

lemma url_host_agrees:
  assumes "split_url lc url = Inr (host, https)" "split_once ''://'' url = Some (scheme, rest)"
  shows "url_host rest = host \<and> host \<noteq> []"
proof -
  define authority where "authority = hd (split_by (\<lambda>c. c \<in> set ''/?#'') rest)"
  note start = assms(1) [unfolded split_url_def assms(2) option.case prod.case Let_def, folded authority_def]
  have no: "CHR ''@'' \<notin> set authority" using start by (simp split: if_splits)
  have "(case strip_prefix ''['' authority of
           Some v6 \<Rightarrow> (case split_once '']'' v6 of Some (v6host, _) \<Rightarrow> Inr v6host | None \<Rightarrow> Inl (''bad-request'', ''invalid IPv6 host''))
         | None \<Rightarrow> Inr (hd (split_on CHR '':'' authority))) = Inr host \<and> host \<noteq> []"
    using start no by (simp split: if_splits sum.splits)
  then show ?thesis
    unfolding url_host_def authority_def [symmetric] split_on_none [OF no] Let_def
    by (auto split: option.splits dest: split_on_hd)
qed

lemma key_for_host:
  assumes "api_key_secret lc name meta settings key = Inr (Some s)" "key_rule name meta settings = Inr (rule, url)"
    and "split_url lc url = Inr (host, https)"
  shows "sec_host s = lc host"
proof -
  obtain scheme rest where r: "split_once ''://'' url = Some (scheme, rest)" using assms(3) by (auto simp: split_url_def split: option.splits)
  have "sec_host s = lc (url_host rest)" using assms(1,2) r by (auto simp: api_key_secret_def Let_def split: if_splits)
  then show ?thesis using url_host_agrees [OF assms(3) r] by simp
qed

lemma own_host_matches:
  assumes "trim_end_matches (\<lambda>c. c = CHR ''.'') host = host"
  shows "host_matches lc (lc host) host"
proof (cases "strip_prefix ''*.'' (lc host)")
  case (Some suffix)
  then have "lc host = ''*.'' @ suffix" by (auto simp: strip_prefix_def starts_with_iff split: if_splits)
  moreover from this have "ends_with (''.'' @ suffix) (lc host)" by (auto simp: ends_with_iff)
  ultimately show ?thesis using assms Some by (simp add: host_matches_def)
qed (use assms in \<open>simp add: host_matches_def\<close>)

lemma file_names_ok:
  assumes "list_all2 (addon_given lc d) asked gots" "\<forall>a\<in>set asked. length (fst a) < 2 ^ 31" "\<forall>j. length (ad_pretty d j) < 2 ^ 32"
  shows "list_all overlay_ok (map (\<lambda>(path, data). (path, Some data)) (map2 (settings_file d) asked gots))"
  using assms(1,2)
proof (induction rule: list_all2_induct)
  case (Cons a asked got gots)
  have "list_all ascii (settings_path (fst a))"
  proof -
    have "list_all ascii (fst a)" using Cons.hyps(1) by (auto simp: addon_given_def addon_name_def list_all_iff ascii_alnum_def ascii_alphabetic_def ascii_digit_def ascii_def)
    moreover have "list_all ascii ''etc/collabo/addons/''" "list_all ascii ''.json''" by code_simp+
    ultimately show ?thesis unfolding settings_path_def by simp
  qed
  then have utf8: "from_utf8_ok (settings_path (fst a) @ [NUL])" by (intro ascii_valid) (simp add: NUL_def ascii_def)
  have "NUL \<notin> set (fst a)"
    using Cons.hyps(1) by (auto simp: addon_given_def addon_name_def list_all_iff NUL_def ascii_alnum_def ascii_alphabetic_def ascii_digit_def)
  then have nul: "NUL \<notin> set (settings_path (fst a))" by (simp add: settings_path_def NUL_def)
  have "length (settings_path (fst a)) + 1 < 2 ^ 32" using Cons.prems by (simp add: settings_path_def)
  then have "overlay_ok (settings_path (fst a), Some (bytes_of (ad_pretty d (JObject (fst got)))))"
    using utf8 nul assms(3) by (simp add: overlay_ok_def newc_ok_def overlay_file_def settings_path_def)
  then show ?case using Cons by (simp add: settings_file_def)
qed simp

lemma folders_ok: "list_all overlay_ok overlay_folders"
proof -
  have "overlay_ok (name, None)" if "list_all ascii name" "NUL \<notin> set name" "length name < 100" "name \<noteq> ''TRAILER!!!''" for name
  proof -
    have "from_utf8_ok (name @ [NUL])" using that(1) by (intro ascii_valid) (simp add: NUL_def ascii_def)
    then show ?thesis using that(2-4) by (simp add: overlay_ok_def newc_ok_def overlay_file_def)
  qed
  then show ?thesis by (simp add: overlay_folders_def NUL_def ascii_def)
qed

lemma resolved_overlay:
  assumes "resolve_addons lc (Some d) requested = Inr r" "asked_for requested = Inr asked" "asked \<noteq> []"
  obtains gots where "list_all2 (addon_given lc d) asked gots" "rs_names r = map fst asked" "rs_secrets r = concat (map snd gots)"
    "rs_layers r = map (\<lambda>a. LFile (image_path d (fst a)) (ad_open d (image_path d (fst a)))) asked @
       [LBytes (cpio_overlay (overlay_folders @ map (\<lambda>(path, data). (path, Some data)) (map2 (settings_file d) asked gots)))]"
proof -
  obtain r1 files where e: "resolve_each lc d asked (resolved_default, []) = Inr (r1, files)"
    and r: "r = r1\<lparr>rs_layers := rs_layers r1 @ [LBytes (cpio_overlay (overlay_folders @ map (\<lambda>(path, data). (path, Some data)) files))]\<rparr>"
    using assms by (auto simp: resolve_addons_def split: sum.splits prod.splits)
  from resolve_each_given [OF e] that show ?thesis by (auto simp: r resolved_default_def)
qed

subsection \<open>Properties of the add-ons\<close>


definition sample_dir :: addon_dir where
  "sample_dir = \<lparr>ad_path = ''/addons'', ad_names = [''agent.cpio'', ''agent.json''], ad_is_file = (\<lambda>p. True),
     ad_open = (\<lambda>p. Inr ([], \<lambda>_ _. Inr [])),
     ad_read = (\<lambda>p. MetaBytes []),
     ad_parse = (\<lambda>_. Some (JObject [(''apiKey'', JObject [(''default'', JString ''a''), (''variants'',
        JObject [(''a'', JObject [(''baseUrl'', JString ''https://api.test/v1'')])])])])),
     ad_pretty = (\<lambda>j. if j = JObject [] then ''{}'' else ''other'')\<rparr>"

definition sample_request :: json where
  "sample_request = JObject [(''agent'', JObject [(''apiKey'', JString ''sk-1'')])]"

lemma sample_asked: "asked_for (Some sample_request) = Inr [(''agent'', [(''apiKey'', JString ''sk-1'')])]"
  by (simp add: asked_for_def sample_request_def)

lemma sample_key:
  "take_key (map ascii_lower) ''agent'' [(''apiKey'', JObject [(''default'', JString ''a''), (''variants'',
     JObject [(''a'', JObject [(''baseUrl'', JString ''https://api.test/v1'')])])])] [(''apiKey'', JString ''sk-1'')] =
   Inr ([\<lparr>sec_host = ''api.test'', sec_header = ''authorization'', sec_value = ''Bearer sk-1''\<rparr>], [])"
  by code_simp

lemma sample_resolved:
  "\<exists>overlay. resolve_addons (map ascii_lower) (Some sample_dir) (Some sample_request) = Inr \<lparr>rs_names = [''agent''],
     rs_layers = [LFile ''/addons/agent.cpio'' (Inr ([], \<lambda>_ _. Inr [])), LBytes overlay], rs_headers = [],
     rs_secrets = [\<lparr>sec_host = ''api.test'', sec_header = ''authorization'', sec_value = ''Bearer sk-1''\<rparr>]\<rparr>"
proof -
  have n: "addon_name ''agent''" by code_simp
  have "resolve_one (map ascii_lower) sample_dir ''agent'' [(''apiKey'', JString ''sk-1'')] (resolved_default, []) = Inr (\<lparr>rs_names = [''agent''],
     rs_layers = [LFile ''/addons/agent.cpio'' (Inr ([], \<lambda>_ _. Inr []))], rs_headers = [],
     rs_secrets = [\<lparr>sec_host = ''api.test'', sec_header = ''authorization'', sec_value = ''Bearer sk-1''\<rparr>]\<rparr>,
     [(settings_path ''agent'', bytes_of ''{}'')])"
    using sample_key n
    by (simp add: resolve_one_def sample_dir_def path_join_def read_meta_def extra_headers_def json_opt_def resolved_default_def Let_def)
  then show ?thesis by (simp add: resolve_addons_def sample_asked)
qed



definition sample_meta :: members where
  "sample_meta = [(''apiKey'', JObject [(''default'', JString ''a''), (''variants'',
     JObject [(''a'', JObject [(''baseUrl'', JString ''https://api.test/v1'')])])])]"


text \<open>An address whose host ends in a dot makes a secret no request gets: the bridge drops the dot of the host it compares.\<close>

lemma dotted_base_url_unused:
  "\<exists>s. api_key_secret (map ascii_lower) ''x'' sample_meta [(''baseUrl'', JString ''https://api.test./v1'')] ''k'' = Inr (Some s) \<and>
     split_url (map ascii_lower) ''https://api.test./v1'' = Inr (''api.test.'', True) \<and>
     secrets_for (map ascii_lower) (policy_default\<lparr>p_addon_secrets := [s]\<rparr>) True ''api.test.'' = []"
proof -
  let ?s = "\<lparr>sec_host = ''api.test.'', sec_header = ''authorization'', sec_value = ''Bearer k''\<rparr>"
  have "api_key_secret (map ascii_lower) ''x'' sample_meta [(''baseUrl'', JString ''https://api.test./v1'')] ''k'' = Inr (Some ?s)" by code_simp
  moreover have "split_url (map ascii_lower) ''https://api.test./v1'' = Inr (''api.test.'', True)" by code_simp
  moreover have "secrets_for (map ascii_lower) (policy_default\<lparr>p_addon_secrets := [?s]\<rparr>) True ''api.test.'' = []" by code_simp
  ultimately show ?thesis by blast
qed

text \<open>A setting given on the command line is the one the add-on is asked for with; the others stay.\<close>

lemma parse_setting_sets:
  assumes "parse_setting parse (name @ '':'' @ key @ ''='' @ what) into = Inr into'" "CHR '':'' \<notin> set name" "CHR ''='' \<notin> set key"
  shows "\<exists>members v. map_of into' name = Some (JObject members) \<and> map_of members key = Some v \<and>
    (\<forall>n. n \<noteq> name \<longrightarrow> map_of into' n = map_of into n)"
proof -
  have once_split: "split_once [c] (a @ c # b) = Some (a, b)" if "c \<notin> set a" for c a b
    using that by (induction a) (auto simp: starts_with_def)
  have other: "n \<noteq> k \<Longrightarrow> map_of (bt_insert k v xs) n = map_of xs n" for n k v and xs :: members
    by (induction k v xs rule: bt_insert.induct) auto
  show ?thesis
    using assms once_split [of "CHR '':''" name "key @ ''='' @ what"] once_split [of "CHR ''=''" key what]
    by (auto simp: parse_setting_def Let_def bt_insert_found other)
qed

end
