(* ===== verification/Devicetree.thy ===== *)
theory Devicetree
  imports Prelude
begin

text \<open>
  The flattened device tree the kernel reads at boot, \<open>engine/src/devicetree.rs\<close>: the writer with its table of
  property names and the references to them that are patched at the end, the walk over a tree, and the blob with
  its header. A string is its UTF-8 bytes. An assertion that fails (a name too long) is None.
\<close>

definition FDT_MAGIC :: u32 where "FDT_MAGIC = 0xd00dfeed"
definition FDT_BEGIN_NODE :: u32 where "FDT_BEGIN_NODE = 1"
definition FDT_END_NODE :: u32 where "FDT_END_NODE = 2"
definition FDT_PROP :: u32 where "FDT_PROP = 3"
definition FDT_END :: u32 where "FDT_END = 9"
definition NAME_MAX :: nat where "NAME_MAX = 31"

lemmas fdt_tokens = FDT_BEGIN_NODE_def FDT_END_NODE_def FDT_PROP_def FDT_END_def

datatype dt_value = DtU32 u32 | DtU64 u64 | DtStr bytes | DtCells "u32 list" | DtBytes bytes | DtEmpty

primrec dt_encode :: "dt_value \<Rightarrow> bytes" where
  "dt_encode (DtU32 v) = u32_be v"
| "dt_encode (DtU64 v) = u64_be v"
| "dt_encode (DtStr s) = s @ [0]"
| "dt_encode (DtCells cells) = concat (map u32_be cells)"
| "dt_encode (DtBytes b) = b"
| "dt_encode DtEmpty = []"

datatype 'v dt_node = DtNode (dt_properties: "(bytes \<times> 'v) list") (dt_children: "(bytes \<times> 'v dt_node) list")

definition dt_prop :: "'v dt_node \<Rightarrow> bytes \<Rightarrow> 'v \<Rightarrow> 'v dt_node" where
  "dt_prop node name v = DtNode (dt_properties node @ [(name, v)]) (dt_children node)"

definition dt_child :: "'v dt_node \<Rightarrow> bytes \<Rightarrow> 'v dt_node \<Rightarrow> 'v dt_node" where
  "dt_child node name c = DtNode (dt_properties node) (dt_children node @ [(name, c)])"

subsection \<open>The writer\<close>

record dt_writer =
  dw_bytes :: bytes
  dw_strings :: "(bytes \<times> nat list) list"

definition put_bytes :: "bytes \<Rightarrow> dt_writer \<Rightarrow> dt_writer" where
  "put_bytes bs w = w\<lparr>dw_bytes := dw_bytes w @ bs\<rparr>"

definition dt_align :: "nat \<Rightarrow> dt_writer \<Rightarrow> dt_writer" where
  "dt_align a w = put_bytes (replicate ((a - length (dw_bytes w) mod a) mod a) 0) w"

definition put_u32 :: "u32 \<Rightarrow> dt_writer \<Rightarrow> dt_writer" where
  "put_u32 v w = put_bytes (u32_be v) w"

definition patch_u32 :: "nat \<Rightarrow> u32 \<Rightarrow> bytes \<Rightarrow> bytes" where
  "patch_u32 at v bs = take at bs @ u32_be v @ drop (at + 4) bs"

fun add_ref :: "bytes \<Rightarrow> nat \<Rightarrow> (bytes \<times> nat list) list \<Rightarrow> (bytes \<times> nat list) list" where
  "add_ref name at [] = [(name, [at])]"
| "add_ref name at ((s, refs) # rest) = (if s = name then (s, refs @ [at]) # rest else (s, refs) # add_ref name at rest)"

definition string_ref :: "bytes \<Rightarrow> nat \<Rightarrow> dt_writer \<Rightarrow> dt_writer" where
  "string_ref name at w = w\<lparr>dw_strings := add_ref name at (dw_strings w)\<rparr>"

fun walk_props :: "(bytes \<times> dt_value) list \<Rightarrow> dt_writer \<Rightarrow> dt_writer option" where
  "walk_props [] w = Some w"
| "walk_props ((name, v) # props) w =
     (if length name > NAME_MAX then None
      else
        let encoded = dt_encode v;
            w1 = put_u32 (word_of_nat (length encoded)) (put_u32 FDT_PROP (dt_align 4 w));
            nameoff_at = length (dw_bytes w1);
            w2 = string_ref name nameoff_at (put_u32 0 w1)
        in walk_props props (dt_align 4 (put_bytes encoded w2)))"

fun walk :: "dt_value dt_node \<Rightarrow> bytes \<Rightarrow> dt_writer \<Rightarrow> dt_writer option"
  and walk_children :: "(bytes \<times> dt_value dt_node) list \<Rightarrow> dt_writer \<Rightarrow> dt_writer option" where
  "walk (DtNode props children) name w =
     (if length name > NAME_MAX then None
      else
        case walk_props props (dt_align 4 (put_bytes [0] (put_bytes name (put_u32 FDT_BEGIN_NODE (dt_align 4 w))))) of
          None \<Rightarrow> None
        | Some w1 \<Rightarrow>
            (case walk_children children w1 of
               None \<Rightarrow> None
             | Some w2 \<Rightarrow> Some (put_u32 FDT_END_NODE (dt_align 4 w2))))"
| "walk_children [] w = Some w"
| "walk_children ((name, node) # rest) w =
     (case walk node name w of None \<Rightarrow> None | Some w1 \<Rightarrow> walk_children rest w1)"

subsection \<open>The blob\<close>

fun write_strings :: "nat \<Rightarrow> (bytes \<times> nat list) list \<Rightarrow> bytes \<Rightarrow> bytes" where
  "write_strings at [] bs = bs"
| "write_strings at ((name, refs) # rest) bs =
     (let offset = length bs - at
      in write_strings at rest (fold (\<lambda>p. patch_u32 p (word_of_nat offset)) refs (bs @ name @ [0])))"

definition dt_header :: "nat \<Rightarrow> nat \<Rightarrow> nat \<Rightarrow> nat \<Rightarrow> u32 \<Rightarrow> nat \<Rightarrow> nat \<Rightarrow> (nat \<times> u32) list" where
  "dt_header total_size off_dt_struct off_dt_strings off_mem_rsvmap boot_cpu_id size_dt_strings size_dt_struct =
     [(0, FDT_MAGIC), (4, word_of_nat total_size), (8, word_of_nat off_dt_struct), (12, word_of_nat off_dt_strings),
      (16, word_of_nat off_mem_rsvmap), (20, 17), (24, 16), (28, boot_cpu_id), (32, word_of_nat size_dt_strings),
      (36, word_of_nat size_dt_struct)]"

definition generate :: "dt_value dt_node \<Rightarrow> (u64 \<times> u64) list \<Rightarrow> u32 \<Rightarrow> bytes option" where
  "generate root memory_reservations boot_cpu_id =
     (let w0 = dt_align 8 \<lparr>dw_bytes = replicate 40 0, dw_strings = []\<rparr>;
          off_mem_rsvmap = length (dw_bytes w0);
          w1 = put_bytes (concat (map (\<lambda>(address, size). u64_be address @ u64_be size) memory_reservations)) w0;
          w2 = put_bytes (u64_be 0 @ u64_be 0) w1;
          off_dt_struct = length (dw_bytes w2)
      in case walk root [] w2 of
           None \<Rightarrow> None
         | Some w3 \<Rightarrow>
             let w4 = put_u32 FDT_END w3;
                 size_dt_struct = length (dw_bytes w4) - off_dt_struct;
                 off_dt_strings = length (dw_bytes w4);
                 bs = write_strings off_dt_strings (dw_strings w4) (dw_bytes w4);
                 size_dt_strings = length bs - off_dt_strings;
                 total_size = length bs
             in Some (fold (\<lambda>(at, v). patch_u32 at v)
                  (dt_header total_size off_dt_struct off_dt_strings off_mem_rsvmap boot_cpu_id size_dt_strings size_dt_struct) bs))"

subsection \<open>The blob in parts\<close>

text \<open>The bytes of the structure block, for given offsets of the property names.\<close>

definition pad4 :: "nat \<Rightarrow> bytes" where
  "pad4 n = replicate ((4 - n mod 4) mod 4) 0"

definition padded :: "bytes \<Rightarrow> bytes" where
  "padded bs = bs @ pad4 (length bs)"

definition prop_bytes :: "(bytes \<Rightarrow> nat) \<Rightarrow> bytes \<times> dt_value \<Rightarrow> bytes" where
  "prop_bytes off p =
     u32_be FDT_PROP @ u32_be (word_of_nat (length (dt_encode (snd p)))) @ u32_be (word_of_nat (off (fst p))) @
     padded (dt_encode (snd p))"

fun node_bytes :: "(bytes \<Rightarrow> nat) \<Rightarrow> bytes \<Rightarrow> dt_value dt_node \<Rightarrow> bytes" where
  "node_bytes off name (DtNode props children) =
     u32_be FDT_BEGIN_NODE @ padded (name @ [0]) @ concat (map (prop_bytes off) props) @
     concat (map (\<lambda>c. node_bytes off (fst c) (snd c)) children) @ u32_be FDT_END_NODE"

lemma length_padded: "length (padded bs) mod 4 = 0"
proof -
  have "(n + (4 - n mod 4) mod 4) mod 4 = 0" for n :: nat
  proof -
    have "n mod 4 = 0 \<or> n mod 4 = 1 \<or> n mod 4 = 2 \<or> n mod 4 = 3" by linarith
    then show ?thesis by (elim disjE) (simp, presburger+)
  qed
  then show ?thesis by (simp add: padded_def pad4_def)
qed

lemma align_padded:
  "length (dw_bytes w) = n + length bs \<Longrightarrow> n mod 4 = 0 \<Longrightarrow> dt_align 4 w = put_bytes (pad4 (length bs)) w"
proof -
  assume "length (dw_bytes w) = n + length bs" "n mod 4 = 0"
  then have "length (dw_bytes w) mod 4 = length bs mod 4" by presburger
  then show ?thesis by (simp add: dt_align_def pad4_def)
qed

lemma align_noop: "length (dw_bytes w) mod 4 = 0 \<Longrightarrow> dt_align 4 w = w"
  by (simp add: dt_align_def put_bytes_def)

subsection \<open>Patches\<close>

definition patch_all :: "(nat \<times> u32) list \<Rightarrow> bytes \<Rightarrow> bytes" where
  "patch_all ps bs = fold (\<lambda>(at, v). patch_u32 at v) ps bs"

definition patches_within :: "nat \<Rightarrow> (nat \<times> u32) list \<Rightarrow> bool" where
  "patches_within n ps \<longleftrightarrow> list_all (\<lambda>(at, v). at + 4 \<le> n) ps"

lemma patch_simps [simp]: "patch_all [] bs = bs" "patch_all ((at, v) # ps) bs = patch_all ps (patch_u32 at v bs)"
  "patch_all (ps @ qs) bs = patch_all qs (patch_all ps bs)"
  by (simp_all add: patch_all_def)

lemma within_simps [simp]: "patches_within n []" "patches_within n ((at, v) # ps) \<longleftrightarrow> at + 4 \<le> n \<and> patches_within n ps"
  "patches_within n (ps @ qs) \<longleftrightarrow> patches_within n ps \<and> patches_within n qs"
  by (simp_all add: patches_within_def)

lemma within_mono: "patches_within n ps \<Longrightarrow> n \<le> m \<Longrightarrow> patches_within m ps"
  by (auto simp: patches_within_def list_all_iff)

lemma length_patch [simp]: "at + 4 \<le> length bs \<Longrightarrow> length (patch_u32 at v bs) = length bs"
  by (simp add: patch_u32_def)

lemma length_patch_all: "patches_within (length bs) ps \<Longrightarrow> length (patch_all ps bs) = length bs"
  by (induction ps arbitrary: bs) (auto simp del: append_take_drop_id)

lemma patch_append: "at + 4 \<le> length bs \<Longrightarrow> patch_u32 at v (bs @ cs) = patch_u32 at v bs @ cs"
  by (simp add: patch_u32_def)

lemma patch_all_append: "patches_within (length bs) ps \<Longrightarrow> patch_all ps (bs @ cs) = patch_all ps bs @ cs"
  by (induction ps arbitrary: bs) (auto simp: patch_append)

lemma patch_end: "length z = 4 \<Longrightarrow> patch_u32 (length bs) v (bs @ z) = bs @ u32_be v"
  by (simp add: patch_u32_def)

lemma patch_insert:
  assumes "patches_within (length bs) (ps @ qs)" "length z = 4"
  shows "patch_all (ps @ (length bs, v) # qs) (bs @ z) = patch_all (ps @ qs) bs @ u32_be v"
proof -
  have "length (patch_all ps bs) = length bs" using assms(1) by (simp add: length_patch_all)
  then show ?thesis
    using assms patch_all_append [of bs ps z] patch_end [of z "patch_all ps bs" v] patch_all_append [of "patch_all ps bs" qs "u32_be v"]
    by simp
qed

subsection \<open>References to names\<close>

definition sites :: "(bytes \<Rightarrow> nat) \<Rightarrow> (bytes \<times> nat list) list \<Rightarrow> (nat \<times> u32) list" where
  "sites off strings = concat (map (\<lambda>(name, refs). map (\<lambda>at. (at, word_of_nat (off name))) refs) strings)"

lemma sites_simps [simp]: "sites off [] = []"
  "sites off ((name, refs) # rest) = map (\<lambda>at. (at, word_of_nat (off name))) refs @ sites off rest"
  by (simp_all add: sites_def)

lemma sites_add_ref:
  "\<exists>ps qs. sites off strings = ps @ qs \<and> sites off (add_ref name at strings) = ps @ (at, word_of_nat (off name)) # qs"
proof (induction name at strings rule: add_ref.induct)
  case (2 name at s refs rest)
  show ?case
  proof (cases "s = name")
    case True
    then show ?thesis
      by (intro exI [of _ "map (\<lambda>at. (at, word_of_nat (off name))) refs"] exI [of _ "sites off rest"]) simp
  next
    case False
    then obtain ps qs where "sites off rest = ps @ qs" "sites off (add_ref name at rest) = ps @ (at, word_of_nat (off name)) # qs"
      using 2 by blast
    then show ?thesis using False
      by (intro exI [of _ "map (\<lambda>at. (at, word_of_nat (off s))) refs @ ps"] exI [of _ qs]) simp
  qed
qed simp

lemma add_ref_names: "fst ` set (add_ref name at strings) = insert name (fst ` set strings)"
  by (induction name at strings rule: add_ref.induct) auto

lemma add_ref_distinct: "distinct (map fst strings) \<Longrightarrow> distinct (map fst (add_ref name at strings))"
  by (induction name at strings rule: add_ref.induct) (simp_all add: add_ref_names, auto)

text \<open>The bytes of a writer once its references are filled in.\<close>

definition filled :: "(bytes \<Rightarrow> nat) \<Rightarrow> dt_writer \<Rightarrow> bytes" where
  "filled off w = patch_all (sites off (dw_strings w)) (dw_bytes w)"

definition dt_ok :: "dt_writer \<Rightarrow> bool" where
  "dt_ok w \<longleftrightarrow> patches_within (length (dw_bytes w)) (sites (\<lambda>_. 0) (dw_strings w)) \<and> distinct (map fst (dw_strings w))"

lemma sites_within: "patches_within n (sites off strings) \<longleftrightarrow> patches_within n (sites off' strings)"
proof (induction strings)
  case (Cons s strings)
  have "patches_within n (map (\<lambda>at. (at, v)) refs) \<longleftrightarrow> list_all (\<lambda>at. at + 4 \<le> n) refs" for v refs
    by (simp add: patches_within_def list.pred_map comp_def)
  then show ?case using Cons by (cases s) simp
qed simp

lemma ok_within: "dt_ok w \<Longrightarrow> patches_within (length (dw_bytes w)) (sites off (dw_strings w))"
  using sites_within by (auto simp: dt_ok_def)

lemma put_bytes_simps [simp]: "dw_bytes (put_bytes bs w) = dw_bytes w @ bs" "dw_strings (put_bytes bs w) = dw_strings w"
  by (simp_all add: put_bytes_def)

lemma filled_put: "dt_ok w \<Longrightarrow> filled off (put_bytes bs w) = filled off w @ bs"
  using ok_within [of w off] by (simp add: filled_def patch_all_append)

lemma ok_put: "dt_ok w \<Longrightarrow> dt_ok (put_bytes bs w)"
  by (auto simp: dt_ok_def intro: within_mono)

lemma length_filled: "dt_ok w \<Longrightarrow> length (filled off w) = length (dw_bytes w)"
  using ok_within by (simp add: filled_def length_patch_all)

lemma filled_ref:
  assumes "dt_ok w"
  shows "filled off (string_ref name (length (dw_bytes w)) (put_u32 0 w)) = filled off w @ u32_be (word_of_nat (off name))"
    "dt_ok (string_ref name (length (dw_bytes w)) (put_u32 0 w))"
proof -
  let ?at = "length (dw_bytes w)"
  obtain ps qs where p: "sites off (dw_strings w) = ps @ qs"
    "sites off (add_ref name ?at (dw_strings w)) = ps @ (?at, word_of_nat (off name)) # qs" using sites_add_ref by blast
  show "filled off (string_ref name ?at (put_u32 0 w)) = filled off w @ u32_be (word_of_nat (off name))"
    using patch_insert [of "dw_bytes w" ps qs "u32_be 0"] ok_within [OF assms, of off] p
    by (simp add: filled_def string_ref_def put_u32_def)
  obtain ps qs where "sites (\<lambda>_. 0) (dw_strings w) = ps @ qs"
    "sites (\<lambda>_. 0) (add_ref name ?at (dw_strings w)) = ps @ (?at, word_of_nat 0) # qs"
    using sites_add_ref [of "\<lambda>_. 0"] by blast
  then show "dt_ok (string_ref name ?at (put_u32 0 w))"
    using assms within_mono [of ?at _ "?at + 4"] by (auto simp: dt_ok_def string_ref_def put_u32_def add_ref_names add_ref_distinct)
qed

subsection \<open>The walk\<close>

definition aligned :: "dt_writer \<Rightarrow> bool" where
  "aligned w \<longleftrightarrow> length (dw_bytes w) mod 4 = 0"

definition names_of :: "dt_writer \<Rightarrow> bytes set" where
  "names_of w = fst ` set (dw_strings w)"

lemma aligned_word: "aligned w \<Longrightarrow> aligned (put_u32 v w)"
  by (simp add: aligned_def put_u32_def)

lemma filled_padded:
  assumes "dt_ok w" "aligned w"
  shows "dt_align 4 (put_bytes bs w) = put_bytes (padded bs) w"
    "filled off (put_bytes (padded bs) w) = filled off w @ padded bs" "aligned (put_bytes (padded bs) w)"
proof -
  show "dt_align 4 (put_bytes bs w) = put_bytes (padded bs) w"
    using align_padded [of "put_bytes bs w" "length (dw_bytes w)" bs] assms(2) by (simp add: aligned_def padded_def put_bytes_def)
  show "filled off (put_bytes (padded bs) w) = filled off w @ padded bs" by (rule filled_put [OF assms(1)])
  show "aligned (put_bytes (padded bs) w)" using assms(2) length_padded [of bs] by (auto simp: aligned_def mod_add_eq [symmetric])
qed

lemma walk_props_filled:
  "dt_ok w \<Longrightarrow> aligned w \<Longrightarrow> walk_props props w = Some w' \<Longrightarrow>
     filled off w' = filled off w @ concat (map (prop_bytes off) props) \<and> dt_ok w' \<and> aligned w' \<and>
     names_of w' = names_of w \<union> fst ` set props"
proof (induction props w rule: walk_props.induct)
  case (2 name v props w)
  let ?e = "dt_encode v"
  let ?w1 = "put_u32 (word_of_nat (length ?e)) (put_u32 FDT_PROP w)"
  let ?w2 = "string_ref name (length (dw_bytes ?w1)) (put_u32 0 ?w1)"
  let ?w3 = "put_bytes (padded ?e) ?w2"
  have w1: "dt_ok ?w1" "aligned ?w1"
    "filled off ?w1 = filled off w @ u32_be FDT_PROP @ u32_be (word_of_nat (length ?e))"
    using 2(2,3) aligned_word by (simp_all add: put_u32_def ok_put filled_put)
  note w2 = filled_ref(1) [OF w1(1), of off name] filled_ref(2) [OF w1(1), of name]
  have a2: "aligned ?w2" using w1(2) by (simp add: aligned_def string_ref_def put_u32_def) presburger
  have n2: "names_of ?w2 = insert name (names_of w)" by (simp add: names_of_def string_ref_def put_u32_def add_ref_names)
  note w3 = filled_padded [OF w2(2) a2, where bs = ?e]
  have step: "length name \<le> NAME_MAX" "walk_props props ?w3 = Some w'"
    using 2(4) align_noop [of w] 2(3) w3(1) by (auto simp: aligned_def Let_def split: if_splits)
  have f3: "filled off ?w3 = filled off w @ prop_bytes off (name, v)" using w3(2) w2(1) w1(3) by (simp add: prop_bytes_def)
  have "names_of ?w3 = names_of ?w2" by (simp add: names_of_def)
  moreover have "filled off w' = filled off ?w3 @ concat (map (prop_bytes off) props) \<and> dt_ok w' \<and> aligned w' \<and>
      names_of w' = names_of ?w3 \<union> fst ` set props"
    using "2.IH" step ok_put [OF w2(2)] w3 align_noop [of w] 2(3) by (auto simp: Let_def aligned_def)
  ultimately show ?case using f3 n2 by auto
qed simp

fun dt_names :: "'v dt_node \<Rightarrow> bytes set" where
  "dt_names (DtNode props children) = fst ` set props \<union> (\<Union>c\<in>set children. dt_names (snd c))"

lemma walk_filled:
  "walk node name w = Some w' \<Longrightarrow> dt_ok w \<Longrightarrow> aligned w \<Longrightarrow>
     filled off w' = filled off w @ node_bytes off name node \<and> dt_ok w' \<and> aligned w' \<and> names_of w' = names_of w \<union> dt_names node"
  "walk_children children w = Some w' \<Longrightarrow> dt_ok w \<Longrightarrow> aligned w \<Longrightarrow>
     filled off w' = filled off w @ concat (map (\<lambda>c. node_bytes off (fst c) (snd c)) children) \<and> dt_ok w' \<and> aligned w' \<and>
     names_of w' = names_of w \<union> (\<Union>c\<in>set children. dt_names (snd c))"
proof (induction node name w and children w arbitrary: w' and w' rule: walk_walk_children.induct)
  case (1 props children name w)
  let ?w1 = "put_bytes (padded (name @ [0])) (put_u32 FDT_BEGIN_NODE w)"
  have b: "dt_ok (put_u32 FDT_BEGIN_NODE w)" "aligned (put_u32 FDT_BEGIN_NODE w)"
    "filled off (put_u32 FDT_BEGIN_NODE w) = filled off w @ u32_be FDT_BEGIN_NODE"
    using 1(3,4) aligned_word by (simp_all add: put_u32_def ok_put filled_put)
  note p = filled_padded [OF b(1,2), where bs = "name @ [0]"]
  have start: "dt_align 4 (put_bytes [0] (put_bytes name (put_u32 FDT_BEGIN_NODE (dt_align 4 w)))) = ?w1"
    using p(1) align_noop [of w] 1(4) by (simp add: aligned_def put_bytes_def)
  obtain w2 w3 where s: "length name \<le> NAME_MAX" "walk_props props ?w1 = Some w2" "walk_children children w2 = Some w3"
    "w' = put_u32 FDT_END_NODE (dt_align 4 w3)"
    using 1(2) start by (auto split: if_splits option.splits)
  note w2 = walk_props_filled [OF ok_put [OF b(1)] p(3) s(2), of off]
  have w3: "filled off w3 = filled off w2 @ concat (map (\<lambda>c. node_bytes off (fst c) (snd c)) children) \<and> dt_ok w3 \<and> aligned w3 \<and>
      names_of w3 = names_of w2 \<union> (\<Union>c\<in>set children. dt_names (snd c))"
    using "1.IH" s(1-3) start w2 by auto
  have w': "w' = put_bytes (u32_be FDT_END_NODE) w3" using s(4) w3 align_noop [of w3] by (simp add: aligned_def put_u32_def)
  have "filled off w' = filled off w @ node_bytes off name (DtNode props children)"
    using w' w3 w2 p(2) b(3) by (simp add: filled_put)
  moreover have "aligned w'" using aligned_word w3 w' by (simp add: put_u32_def)
  moreover have "names_of w' = names_of w \<union> dt_names (DtNode props children)"
    using w' w3 w2 by (auto simp: names_of_def put_u32_def)
  ultimately show ?case using w' w3 by (simp add: ok_put)
next
  case (3 name node rest w)
  obtain w1 where s: "walk node name w = Some w1" "walk_children rest w1 = Some w'" using "3.prems"(1) by (auto split: option.splits)
  note a = "3.IH"(1) [OF s(1) "3.prems"(2,3)]
  have "filled off w' = filled off w1 @ concat (map (\<lambda>c. node_bytes off (fst c) (snd c)) rest) \<and> dt_ok w' \<and> aligned w' \<and>
     names_of w' = names_of w1 \<union> (\<Union>c\<in>set rest. dt_names (snd c))" using "3.IH"(2) s a by blast
  then show ?case using a by auto
qed auto

fun names_fit :: "'v dt_node \<Rightarrow> bytes \<Rightarrow> bool" where
  "names_fit (DtNode props children) name \<longleftrightarrow> length name \<le> NAME_MAX \<and> list_all (\<lambda>p. length (fst p) \<le> NAME_MAX) props \<and>
     list_all (\<lambda>c. names_fit (snd c) (fst c)) children"

lemma walk_props_total: "(walk_props props w \<noteq> None) = list_all (\<lambda>p. length (fst p) \<le> NAME_MAX) props"
  by (induction props w rule: walk_props.induct) (simp_all add: Let_def not_less)

lemma walk_total:
  "(walk node name w \<noteq> None) = names_fit node name"
  "(walk_children children w \<noteq> None) = list_all (\<lambda>c. names_fit (snd c) (fst c)) children"
proof (induction node name w and children w rule: walk_walk_children.induct)
  case (1 props children name w)
  show ?case
  proof (cases "length name \<le> NAME_MAX")
    case True
    let ?w = "dt_align 4 (put_bytes [0] (put_bytes name (put_u32 FDT_BEGIN_NODE (dt_align 4 w))))"
    show ?thesis using True 1 walk_props_total [of props ?w] by (cases "walk_props props ?w") (auto split: option.splits)
  qed simp
next
  case (3 name node rest w)
  then show ?case by (cases "walk node name w") auto
qed simp_all

subsection \<open>The strings and the header\<close>

fun string_offset :: "(bytes \<times> nat list) list \<Rightarrow> bytes \<Rightarrow> nat" where
  "string_offset [] name = 0"
| "string_offset ((s, refs) # rest) name = (if s = name then 0 else length s + 1 + string_offset rest name)"

definition strings_block :: "(bytes \<times> nat list) list \<Rightarrow> bytes" where
  "strings_block strings = concat (map (\<lambda>(s, refs). s @ [0]) strings)"

lemma sites_cong: "(\<And>n. n \<in> fst ` set strings \<Longrightarrow> off n = off' n) \<Longrightarrow> sites off strings = sites off' strings"
  by (induction strings) auto

lemma patch_fold: "fold (\<lambda>p. patch_u32 p v) refs bs = patch_all (map (\<lambda>at. (at, v)) refs) bs"
  by (induction refs arbitrary: bs) simp_all

lemma write_strings_filled:
  assumes "distinct (map fst strings)" "at \<le> length bs" "patches_within (length bs) (sites (\<lambda>_. 0) strings)"
  shows "write_strings at strings bs =
    patch_all (sites (\<lambda>n. length bs - at + string_offset strings n) strings) bs @ strings_block strings"
  using assms
proof (induction strings arbitrary: bs)
  case (Cons s rest)
  obtain name refs where s: "s = (name, refs)" by fastforce
  let ?v = "word_of_nat (length bs - at) :: u32" and ?ps = "\<lambda>v :: u32. map (\<lambda>at. (at, v)) refs"
  let ?bs = "patch_all (?ps ?v) bs"
  have in0: "patches_within (length bs) (?ps 0)" using Cons.prems(3) s by simp
  then have in1: "patches_within (length bs) (?ps ?v)" by (simp add: patches_within_def list.pred_map comp_def)
  have l: "length ?bs = length bs" using in1 by (rule length_patch_all)
  have step: "write_strings at (s # rest) bs = write_strings at rest (?bs @ name @ [0])"
    using s patch_all_append [OF in1, of "name @ [0]"] by (simp add: patch_fold)
  let ?off = "\<lambda>n. length (?bs @ name @ [0]) - at + string_offset rest n"
  have rest: "patches_within (length bs) (sites (\<lambda>_. 0) rest)" using Cons.prems(3) s by simp
  then have restb: "patches_within (length ?bs) (sites ?off rest)" unfolding l by (subst sites_within)
  have "write_strings at rest (?bs @ name @ [0]) = patch_all (sites ?off rest) (?bs @ name @ [0]) @ strings_block rest"
    by (rule Cons.IH) (use Cons.prems s l rest within_mono [OF rest, of "length bs + Suc (length name)"] in auto)
  also have "\<dots> = patch_all (sites ?off rest) ?bs @ name @ [0] @ strings_block rest"
    using patch_all_append [OF restb, of "name @ [0]"] by simp
  also have "sites ?off rest = sites (\<lambda>n. length bs - at + string_offset (s # rest) n) rest"
    by (rule sites_cong) (use Cons.prems(1,2) s l in \<open>auto simp: image_iff\<close>)
  finally show ?case using step s by (simp add: strings_block_def)
qed (simp add: strings_block_def)

fun consecutive :: "nat \<Rightarrow> u32 list \<Rightarrow> (nat \<times> u32) list" where
  "consecutive at [] = []"
| "consecutive at (v # vs) = (at, v) # consecutive (at + 4) vs"

lemma patch_consecutive:
  "length pre = at \<Longrightarrow> length z = 4 * length vs \<Longrightarrow> patch_all (consecutive at vs) (pre @ z @ rest) = pre @ concat (map u32_be vs) @ rest"
proof (induction vs arbitrary: pre at z)
  case (Cons v vs)
  have "patch_u32 at v (pre @ z @ rest) = (pre @ u32_be v) @ drop 4 z @ rest" using Cons.prems by (simp add: patch_u32_def)
  then show ?case using Cons.IH [of "pre @ u32_be v" "at + 4" "drop 4 z"] Cons.prems by simp
qed simp

definition rsv_bytes :: "(u64 \<times> u64) list \<Rightarrow> bytes" where
  "rsv_bytes rs = concat (map (\<lambda>(address, size). u64_be address @ u64_be size) rs)"

lemma length_rsv: "length (rsv_bytes rs) = 16 * length rs"
  by (induction rs) (auto simp: rsv_bytes_def)

definition dt_blob :: "dt_value dt_node \<Rightarrow> (u64 \<times> u64) list \<Rightarrow> u32 \<Rightarrow> (bytes \<times> nat list) list \<Rightarrow> bytes" where
  "dt_blob root rs boot strings =
     (let struct = node_bytes (string_offset strings) [] root @ u32_be FDT_END;
          at = 56 + 16 * length rs;
          block = strings_block strings
      in concat (map u32_be
           [FDT_MAGIC, word_of_nat (at + length struct + length block), word_of_nat at, word_of_nat (at + length struct), 40, 17, 16,
            boot, word_of_nat (length block), word_of_nat (length struct)]) @
         rsv_bytes rs @ u64_be 0 @ u64_be 0 @ struct @ block)"

lemma generate_layout:
  assumes "generate root rs boot = Some blob"
  obtains strings where "blob = dt_blob root rs boot strings" "distinct (map fst strings)" "fst ` set strings = dt_names root"
proof -
  let ?w2 = "\<lparr>dw_bytes = replicate 40 0 @ rsv_bytes rs @ u64_be 0 @ u64_be 0, dw_strings = []\<rparr>"
  have al: "dt_align 8 \<lparr>dw_bytes = replicate 40 0, dw_strings = []\<rparr> = \<lparr>dw_bytes = replicate 40 0, dw_strings = []\<rparr>"
    by (simp add: dt_align_def put_bytes_def)
  obtain w3 where w: "walk root [] ?w2 = Some w3"
    using assms by (auto simp: generate_def al put_bytes_def rsv_bytes_def Let_def split: option.splits)
  let ?w4 = "put_u32 FDT_END w3"
  let ?at = "56 + 16 * length rs"
  let ?off = "string_offset (dw_strings w3)"
  have ok: "dt_ok ?w2" "aligned ?w2" by (simp_all add: dt_ok_def aligned_def length_rsv)
  have filled2: "filled off ?w2 = dw_bytes ?w2" for off by (simp add: filled_def)
  note f = walk_filled(1) [OF w ok, of ?off]
  have ok4: "dt_ok ?w4" using f by (simp add: put_u32_def ok_put)
  let ?struct = "node_bytes ?off [] root @ u32_be FDT_END"
  have f4: "filled ?off ?w4 = replicate 40 0 @ rsv_bytes rs @ u64_be 0 @ u64_be 0 @ ?struct"
    using f filled2 by (simp add: put_u32_def filled_put)
  have l4: "length (dw_bytes ?w4) = ?at + length ?struct" using length_filled [OF ok4, of ?off] f4 by (simp add: length_rsv)
  have bs: "write_strings (length (dw_bytes ?w4)) (dw_strings ?w4) (dw_bytes ?w4) = filled ?off ?w4 @ strings_block (dw_strings w3)"
    using write_strings_filled [of "dw_strings ?w4" "length (dw_bytes ?w4)" "dw_bytes ?w4"] ok4
    by (simp add: dt_ok_def filled_def put_u32_def)
  have h: "dt_header a b c d e g i = consecutive 0 [FDT_MAGIC, word_of_nat a, word_of_nat b, word_of_nat c, word_of_nat d, 17, 16, e, word_of_nat g, word_of_nat i]"
    for a b c d e g i by (simp add: dt_header_def)
  have "blob = patch_all (dt_header (?at + length ?struct + length (strings_block (dw_strings w3))) ?at (?at + length ?struct) 40 boot
      (length (strings_block (dw_strings w3))) (length ?struct)) (filled ?off ?w4 @ strings_block (dw_strings w3))"
    using assms w bs l4 length_filled [OF ok4, of ?off]
    by (simp add: generate_def al put_bytes_def length_rsv Let_def patch_all_def ac_simps flip: rsv_bytes_def)
  then have "blob = dt_blob root rs boot (dw_strings w3)"
    using patch_consecutive [of "[]" 0 "replicate 40 0"] f4 by (simp add: h dt_blob_def Let_def del: consecutive.simps)
  moreover have "distinct (map fst (dw_strings w3))" "fst ` set (dw_strings w3) = dt_names root"
    using f by (simp_all add: dt_ok_def names_of_def)
  ultimately show thesis by (rule that)
qed

subsection \<open>A reader\<close>

text \<open>A reader of the flattened format, as its specification gives it; the nodes with fuel, the length of the block.\<close>

definition be64_at :: "nat \<Rightarrow> bytes \<Rightarrow> u64" where
  "be64_at i bs = word_of_nat (from_be (bslice i 8 bs))"

definition cstr :: "bytes \<Rightarrow> bytes" where
  "cstr bs = takeWhile (\<lambda>b. b \<noteq> 0) bs"

fun read_items :: "nat \<Rightarrow> bytes \<Rightarrow> bytes \<Rightarrow> (bytes dt_node \<times> bytes) option" where
  "read_items 0 strings s = None"
| "read_items (Suc k) strings s =
     (let token = be32_at 0 s in
      if token = FDT_PROP then
        let len = unat (be32_at 4 s);
            name = cstr (drop (unat (be32_at 8 s)) strings);
            data = take len (drop 12 s)
        in case read_items k strings (drop (12 + length (padded data)) s) of
             None \<Rightarrow> None
           | Some (n, rest) \<Rightarrow> Some (DtNode ((name, data) # dt_properties n) (dt_children n), rest)
      else if token = FDT_BEGIN_NODE then
        let name = cstr (drop 4 s)
        in case read_items k strings (drop (4 + length (padded (name @ [0]))) s) of
             None \<Rightarrow> None
           | Some (child, rest) \<Rightarrow>
               (case read_items k strings rest of
                  None \<Rightarrow> None
                | Some (n, rest') \<Rightarrow> Some (DtNode (dt_properties n) ((name, child) # dt_children n), rest'))
      else if token = FDT_END_NODE then Some (DtNode [] [], drop 4 s)
      else None)"

fun read_rsv :: "nat \<Rightarrow> bytes \<Rightarrow> (u64 \<times> u64) list option" where
  "read_rsv 0 s = None"
| "read_rsv (Suc k) s =
     (let r = (be64_at 0 s, be64_at 8 s) in
      if r = (0, 0) then Some [] else map_option (\<lambda>rs. r # rs) (read_rsv k (drop 16 s)))"

definition read_tree :: "bytes \<Rightarrow> bytes \<Rightarrow> bytes dt_node option" where
  "read_tree strings struct =
     (if be32_at 0 struct = FDT_BEGIN_NODE \<and> cstr (drop 4 struct) = [] then
        case read_items (length struct) strings (drop 8 struct) of
          Some (node, rest) \<Rightarrow> if rest = u32_be FDT_END then Some node else None
        | None \<Rightarrow> None
      else None)"

definition read_blob :: "bytes \<Rightarrow> ((u64 \<times> u64) list \<times> u32 \<times> bytes dt_node) option" where
  "read_blob blob =
     (let struct = bslice (unat (be32_at 8 blob)) (unat (be32_at 36 blob)) blob;
          strings = bslice (unat (be32_at 12 blob)) (unat (be32_at 32 blob)) blob
      in if be32_at 0 blob = FDT_MAGIC \<and> unat (be32_at 4 blob) = length blob then
           case (read_rsv (length blob) (drop (unat (be32_at 16 blob)) blob), read_tree strings struct) of
             (Some rs, Some tree) \<Rightarrow> Some (rs, be32_at 28 blob, tree)
           | _ \<Rightarrow> None
         else None)"

subsection \<open>What the reader reads\<close>

fun no_nul :: "'v dt_node \<Rightarrow> bool" where
  "no_nul (DtNode props children) \<longleftrightarrow> list_all (\<lambda>p. 0 \<notin> set (fst p)) props \<and> list_all (\<lambda>c. 0 \<notin> set (fst c) \<and> no_nul (snd c)) children"

lemma be32_first [simp]: "be32_at 0 (u32_be v @ s) = v" "be32_at 0 (u32_be v) = v"
  by (simp_all add: be32_at_def bslice_first bslice_whole)

lemma be32_later: "be32_at (i + 4) (u32_be v @ s) = be32_at i s"
  by (simp add: be32_at_def bslice_skip)

lemma cstr_padded: "0 \<notin> set name \<Longrightarrow> cstr (padded (name @ [0]) @ s) = name"
  by (simp add: cstr_def padded_def) (subst takeWhile_append2; auto)

lemma read_end: "0 < k \<Longrightarrow> read_items k strings (u32_be FDT_END_NODE @ s) = Some (DtNode [] [], s)"
  by (cases k) (simp_all add: Let_def fdt_tokens)

definition names_at :: "(bytes \<Rightarrow> nat) \<Rightarrow> bytes \<Rightarrow> bytes set \<Rightarrow> bool" where
  "names_at off strings names \<longleftrightarrow> (\<forall>n\<in>names. off n < 2 ^ 32 \<and> cstr (drop (off n) strings) = n)"

lemma unat_u32: "n < 2 ^ 32 \<Longrightarrow> unat (word_of_nat n :: u32) = n"
  by (simp add: unat_of_nat take_bit_nat_eq_self_iff)

lemma read_prop:
  assumes "off (fst p) < 2 ^ 32" "cstr (drop (off (fst p)) strings) = fst p" "length (dt_encode (snd p)) < 2 ^ 32"
    "read_items k strings t = Some (DtNode ps cs, rest)"
  shows "read_items (Suc k) strings (prop_bytes off p @ t) = Some (DtNode ((fst p, dt_encode (snd p)) # ps) cs, rest)"
proof -
  let ?e = "dt_encode (snd p)" and ?s = "prop_bytes off p @ t"
  let ?n = "word_of_nat (length ?e) :: u32" and ?o = "word_of_nat (off (fst p)) :: u32"
  have s: "?s = u32_be FDT_PROP @ u32_be ?n @ u32_be ?o @ padded ?e @ t" by (simp add: prop_bytes_def)
  have f: "be32_at 0 ?s = FDT_PROP" "be32_at 4 ?s = ?n" "be32_at 8 ?s = ?o"
    unfolding s using be32_later [of 0 FDT_PROP] be32_later [of 4 FDT_PROP] be32_later [of 0 ?n] by simp_all
  have d: "drop 12 ?s = padded ?e @ t" unfolding s by simp
  have "take (length ?e) (drop 12 ?s) = ?e" unfolding d by (simp add: padded_def)
  moreover have "drop (12 + length (padded ?e)) ?s = t" unfolding s by simp
  ultimately show ?thesis using f assms by (simp add: Let_def unat_u32)
qed

lemma length_prop: "length (dt_encode (snd p)) + 12 \<le> length (prop_bytes off p)"
  by (simp add: prop_bytes_def padded_def)

lemma read_props:
  assumes "names_at off strings (fst ` set props)" "length (concat (map (prop_bytes off) props)) < 2 ^ 32"
    "\<And>k. m \<le> k \<Longrightarrow> read_items k strings t = Some (DtNode [] cs, rest)"
    "length (concat (map (prop_bytes off) props)) + m \<le> k"
  shows "read_items k strings (concat (map (prop_bytes off) props) @ t) =
    Some (DtNode (map (\<lambda>p. (fst p, dt_encode (snd p))) props) cs, rest)"
  using assms(1,2,4)
proof (induction props arbitrary: k)
  case (Cons p props)
  have l: "length (dt_encode (snd p)) + 12 \<le> length (prop_bytes off p)" by (rule length_prop)
  then obtain k' where k: "k = Suc k'" using Cons.prems(3) by (cases k) auto
  have "read_items k' strings (concat (map (prop_bytes off) props) @ t) =
      Some (DtNode (map (\<lambda>p. (fst p, dt_encode (snd p))) props) cs, rest)"
    by (rule Cons.IH) (use Cons.prems k l in \<open>auto simp: names_at_def\<close>)
  then show ?case
    using read_prop [of off p strings k'] Cons.prems l k by (auto simp: names_at_def)
qed (use assms(3) in simp)

lemma read_begin:
  assumes "0 \<notin> set name" "read_items k strings t = Some (child, t')" "read_items k strings t' = Some (DtNode ps cs, rest)"
  shows "read_items (Suc k) strings (u32_be FDT_BEGIN_NODE @ padded (name @ [0]) @ t) = Some (DtNode ps ((name, child) # cs), rest)"
proof -
  let ?s = "u32_be FDT_BEGIN_NODE @ padded (name @ [0]) @ t"
  have d: "drop 4 ?s = padded (name @ [0]) @ t" by simp
  then have "cstr (drop 4 ?s) = name" using cstr_padded [OF assms(1)] by simp
  moreover have "drop (4 + length (padded (name @ [0]))) ?s = t" by simp
  ultimately show ?thesis using assms(2,3) by (simp add: Let_def fdt_tokens)
qed

definition node_body :: "(bytes \<Rightarrow> nat) \<Rightarrow> dt_value dt_node \<Rightarrow> bytes" where
  "node_body off node = concat (map (prop_bytes off) (dt_properties node)) @
     concat (map (\<lambda>c. node_bytes off (fst c) (snd c)) (dt_children node)) @ u32_be FDT_END_NODE"

lemma node_bytes_body: "node_bytes off name node = u32_be FDT_BEGIN_NODE @ padded (name @ [0]) @ node_body off node"
  by (cases node) (simp add: node_body_def)

lemma read_children:
  assumes "list_all (\<lambda>c. 0 \<notin> set (fst c)) children"
    "\<And>c k s. c \<in> set children \<Longrightarrow> length (node_body off (snd c)) \<le> k \<Longrightarrow>
       read_items k strings (node_body off (snd c) @ s) = Some (map_dt_node dt_encode (snd c), s)"
    "length (concat (map (\<lambda>c. node_bytes off (fst c) (snd c)) children)) + 4 \<le> k"
  shows "read_items k strings (concat (map (\<lambda>c. node_bytes off (fst c) (snd c)) children) @ u32_be FDT_END_NODE @ s) =
    Some (DtNode [] (map (\<lambda>c. (fst c, map_dt_node dt_encode (snd c))) children), s)"
  using assms
proof (induction children arbitrary: k)
  case (Cons c children)
  obtain k' where k: "k = Suc k'" using Cons.prems(3) by (cases k) auto
  let ?t = "concat (map (\<lambda>c. node_bytes off (fst c) (snd c)) children) @ u32_be FDT_END_NODE @ s"
  have "read_items k' strings (node_body off (snd c) @ ?t) = Some (map_dt_node dt_encode (snd c), ?t)"
    by (rule Cons.prems(2)) (use Cons.prems(3) k in \<open>simp_all add: node_bytes_body\<close>)
  moreover have "read_items k' strings ?t = Some (DtNode [] (map (\<lambda>c. (fst c, map_dt_node dt_encode (snd c))) children), s)"
    by (rule Cons.IH) (use Cons.prems k in \<open>auto simp: node_bytes_body\<close>)
  ultimately show ?case using read_begin [of "fst c" k' strings] Cons.prems(1) k by (simp add: node_bytes_body)
qed (simp add: read_end)

lemma read_node:
  "no_nul node \<Longrightarrow> names_at off strings (dt_names node) \<Longrightarrow> length (node_body off node) < 2 ^ 32 \<Longrightarrow>
     length (node_body off node) \<le> k \<Longrightarrow> read_items k strings (node_body off node @ s) = Some (map_dt_node dt_encode node, s)"
proof (induction node arbitrary: k s)
  case (DtNode props children)
  let ?cs = "concat (map (\<lambda>c. node_bytes off (fst c) (snd c)) children)"
  have small: "length (node_body off (snd c)) \<le> length ?cs" if "c \<in> set children" for c
  proof -
    have "length (node_bytes off (fst c) (snd c)) \<le> length ?cs"
      using that by (induction children) auto
    then show ?thesis by (simp add: node_bytes_body)
  qed
  have body: "node_body off (DtNode props children) = concat (map (prop_bytes off) props) @ ?cs @ u32_be FDT_END_NODE"
    by (simp add: node_body_def)
  have child: "read_items k strings (node_body off (snd c) @ s) = Some (map_dt_node dt_encode (snd c), s)"
    if "c \<in> set children" "length (node_body off (snd c)) \<le> k" for c k s
  proof (rule DtNode.IH)
    show "c \<in> set children" "snd c \<in> Basic_BNFs.snds c" "length (node_body off (snd c)) \<le> k" using that by (auto simp: snds.simps)
    show "length (node_body off (snd c)) < 2 ^ 32" using small [OF that(1)] DtNode.prems(3) body by simp
    show "no_nul (snd c)" using DtNode.prems(1) that(1) by (auto simp: list_all_iff)
    show "names_at off strings (dt_names (snd c))" using DtNode.prems(2) that(1) by (auto simp: names_at_def)
  qed
  have children: "read_items k strings (?cs @ u32_be FDT_END_NODE @ s) =
      Some (DtNode [] (map (\<lambda>c. (fst c, map_dt_node dt_encode (snd c))) children), s)" if "length ?cs + 4 \<le> k" for k
    by (rule read_children [OF _ child that]) (use DtNode.prems(1) in \<open>auto simp: list_all_iff\<close>)
  have "read_items k strings (concat (map (prop_bytes off) props) @ ?cs @ u32_be FDT_END_NODE @ s) =
      Some (DtNode (map (\<lambda>p. (fst p, dt_encode (snd p))) props) (map (\<lambda>c. (fst c, map_dt_node dt_encode (snd c))) children), s)"
    by (rule read_props [OF _ _ children]) (use DtNode.prems(2-4) body in \<open>auto simp: names_at_def\<close>)
  then show ?case using body by (simp add: map_prod_def case_prod_beta)
qed

lemma cstr_nul: "0 \<notin> set name \<Longrightarrow> cstr (name @ 0 # s) = name"
  unfolding cstr_def by (induction name) auto

lemma walk_none: "walk node name w = None \<longleftrightarrow> \<not> names_fit node name"
  using walk_total(1) [of node name w] by blast

lemma generate_none: "generate root rs boot = None \<longleftrightarrow> \<not> names_fit root []"
proof -
  have "names_fit root []" if "walk root [] w = Some w'" for w w' using that walk_none [of root "[]" w] by auto
  then show ?thesis by (auto simp: generate_def Let_def walk_none split: option.splits)
qed

lemma strings_at:
  "n \<in> fst ` set strings \<Longrightarrow> 0 \<notin> \<Union> (set ` fst ` set strings) \<Longrightarrow>
     string_offset strings n < length (strings_block strings) \<and> cstr (drop (string_offset strings n) (strings_block strings)) = n"
proof (induction strings)
  case (Cons s strings)
  obtain name refs where s: "s = (name, refs)" by fastforce
  have block: "strings_block (s # strings) = name @ 0 # strings_block strings" by (simp add: strings_block_def s)
  show ?case
  proof (cases "name = n")
    case True
    have "cstr (name @ 0 # strings_block strings) = name" using Cons.prems(2) s by (simp add: cstr_nul)
    then show ?thesis using True s block by simp
  next
    case False
    then have "string_offset strings n < length (strings_block strings) \<and> cstr (drop (string_offset strings n) (strings_block strings)) = n"
      using Cons s by auto
    then show ?thesis using False s block by simp
  qed
qed simp

lemma no_nul_names: "no_nul node \<Longrightarrow> 0 \<notin> \<Union> (set ` dt_names node)"
proof (induction node)
  case (DtNode props children)
  have "0 \<notin> \<Union> (set ` dt_names (snd c))" if "c \<in> set children" for c
    using DtNode.IH [of c "snd c"] DtNode.prems that by (auto simp: list_all_iff snds.simps)
  then show ?case using DtNode.prems by (auto simp: list_all_iff)
qed

lemma be64_first: "be64_at 0 (u64_be v @ s) = v" "be64_at 8 (u64_be u @ u64_be v @ s) = v"
  by (simp_all add: be64_at_def bslice_first bslice_skip)

lemma read_rsv_bytes: "(0, 0) \<notin> set rs \<Longrightarrow> length rs < k \<Longrightarrow> read_rsv k (rsv_bytes rs @ u64_be 0 @ u64_be 0 @ s) = Some rs"
proof (induction rs arbitrary: k)
  case (Cons r rs)
  obtain k' where k: "k = Suc k'" "length rs < k'" using Cons.prems(2) by (cases k) auto
  obtain a b where r: "r = (a, b)" by fastforce
  have "rsv_bytes (r # rs) = u64_be a @ u64_be b @ rsv_bytes rs" by (simp add: rsv_bytes_def r)
  then show ?case using Cons.IH [of k'] Cons.prems(1) k r by (auto simp: be64_first Let_def)
next
  case Nil
  then show ?case by (cases k) (simp_all add: rsv_bytes_def be64_first)
qed

lemma be32_skip: "4 \<le> i \<Longrightarrow> be32_at i (u32_be v @ s) = be32_at (i - 4) s"
  by (simp add: be32_at_def bslice_skip)

lemma read_tree_blob:
  assumes "no_nul root" "names_at off strings (dt_names root)" "length (node_bytes off [] root) < 2 ^ 32"
  shows "read_tree strings (node_bytes off [] root @ u32_be FDT_END) = Some (map_dt_node dt_encode root)"
proof -
  let ?s = "node_bytes off [] root @ u32_be FDT_END"
  have p: "padded [0] = [0, 0, 0, 0]" by code_simp
  have s: "?s = u32_be FDT_BEGIN_NODE @ [0, 0, 0, 0] @ node_body off root @ u32_be FDT_END"
    using p by (simp add: node_bytes_body)
  have "be32_at 0 ?s = FDT_BEGIN_NODE" "cstr (drop 4 ?s) = []" "drop 8 ?s = node_body off root @ u32_be FDT_END"
    unfolding s by (simp_all add: cstr_def)
  moreover have "read_items (length ?s) strings (node_body off root @ u32_be FDT_END) = Some (map_dt_node dt_encode root, u32_be FDT_END)"
    by (rule read_node) (use assms in \<open>simp_all add: node_bytes_body\<close>)
  ultimately show ?thesis unfolding read_tree_def by simp
qed

lemma read_blob_layout:
  assumes "length (dt_blob root rs boot strings) < 2 ^ 32" "no_nul root" "(0, 0) \<notin> set rs" "fst ` set strings = dt_names root"
  shows "read_blob (dt_blob root rs boot strings) = Some (rs, boot, map_dt_node dt_encode root)"
proof -
  let ?off = "string_offset strings" and ?block = "strings_block strings" and ?at = "56 + 16 * length rs"
  let ?struct = "node_bytes ?off [] root @ u32_be FDT_END" and ?blob = "dt_blob root rs boot strings"
  define rest where "rest = rsv_bytes rs @ u64_be 0 @ u64_be 0 @ ?struct @ ?block"
  define n1 n2 n3 n4 n5 where n: "n1 = ?at + length ?struct + length ?block" "n2 = ?at" "n3 = ?at + length ?struct"
    "n4 = length ?block" "n5 = length ?struct"
  have blob: "?blob = u32_be FDT_MAGIC @ u32_be (word_of_nat n1) @ u32_be (word_of_nat n2) @ u32_be (word_of_nat n3) @ u32_be 40 @
      u32_be 17 @ u32_be 16 @ u32_be boot @ u32_be (word_of_nat n4) @ u32_be (word_of_nat n5) @ rest"
    by (simp add: dt_blob_def Let_def rest_def n)
  have len: "length ?blob = n1" unfolding blob by (simp add: rest_def length_rsv n)
  have small: "n1 < 2 ^ 32" "n2 < 2 ^ 32" "n3 < 2 ^ 32" "n4 < 2 ^ 32" "n5 < 2 ^ 32" using assms(1) len n by auto
  have h: "be32_at 0 ?blob = FDT_MAGIC" "unat (be32_at 4 ?blob) = n1" "unat (be32_at 8 ?blob) = n2"
    "unat (be32_at 12 ?blob) = n3" "unat (be32_at 16 ?blob) = 40" "be32_at 28 ?blob = boot"
    "unat (be32_at 32 ?blob) = n4" "unat (be32_at 36 ?blob) = n5"
    unfolding blob using small by (simp_all add: be32_skip unat_u32)
  have d: "drop 40 ?blob = rest" unfolding blob by simp
  have at: "drop (40 + n) ?blob = drop n rest" for n using d by (metis drop_drop add.commute)
  have parts: "bslice n2 n5 ?blob = ?struct" "bslice n3 n4 ?blob = ?block"
    using at [of "16 + 16 * length rs"] at [of "16 + 16 * length rs + length ?struct"]
    by (simp_all add: bslice_def rest_def length_rsv n)
  have rsv: "read_rsv (length ?blob) (drop 40 ?blob) = Some rs"
    unfolding d unfolding rest_def using assms(3) read_rsv_bytes [of rs "length ?blob"] len n by simp
  have "names_at ?off ?block (dt_names root)"
    using strings_at [of _ strings] no_nul_names [OF assms(2)] assms(4) small(4) n(4) unfolding names_at_def by fastforce
  then have "read_tree ?block ?struct = Some (map_dt_node dt_encode root)"
    by (rule read_tree_blob [OF assms(2)]) (use small(5) n(5) in simp)
  then show ?thesis unfolding read_blob_def Let_def h parts len rsv [unfolded len] by simp
qed

text \<open>C22: The device tree blob is refused only for a name longer than the format allows, and a reader of the
  flattened format gets back from it exactly what went in: the memory reservations, the boot CPU and the tree, every node with its name,
  properties and children in order and every property with its name, found through the patched offset into the
  shared string table, and its encoded value.\<close>

theorem devicetree_roundtrip:
  assumes "no_nul root" "(0, 0) \<notin> set rs"
  shows "(generate root rs boot = None \<longleftrightarrow> \<not> names_fit root []) \<and>
    (\<forall>blob. generate root rs boot = Some blob \<longrightarrow> length blob < 2 ^ 32 \<longrightarrow>
       read_blob blob = Some (rs, boot, map_dt_node dt_encode root))"
proof (intro conjI allI impI)
  show "generate root rs boot = None \<longleftrightarrow> \<not> names_fit root []"
    by (rule generate_none)
  fix blob assume g: "generate root rs boot = Some blob" "length blob < 2 ^ 32"
  obtain strings where "blob = dt_blob root rs boot strings" "fst ` set strings = dt_names root"
    by (rule generate_layout [OF g(1)])
  then show "read_blob blob = Some (rs, boot, map_dt_node dt_encode root)"
    using read_blob_layout [of root rs boot strings] assms g(2) by simp
qed

definition sample_tree :: "dt_value dt_node" where
  "sample_tree = DtNode [([1, 2], DtU32 7)] [([3], DtNode [([1, 2], DtStr [5])] [])]"

theorem devicetree_roundtrip_witness:
  "map_option read_blob (generate sample_tree [(5, 6)] 0) = Some (Some ([(5, 6)], 0, map_dt_node dt_encode sample_tree))"
proof -
  have "no_nul sample_tree" "names_fit sample_tree []" by (simp_all add: sample_tree_def NAME_MAX_def)
  moreover from this obtain blob where b: "generate sample_tree [(5, 6)] 0 = Some blob"
    using generate_none [of sample_tree "[(5, 6)]" 0] by auto
  moreover have "length blob < 2 ^ 32"
  proof -
    obtain strings where s: "blob = dt_blob sample_tree [(5, 6)] 0 strings" "distinct (map fst strings)" "fst ` set strings = {[1, 2]}"
      by (rule generate_layout [OF b]) (simp add: sample_tree_def)
    then have "card (set (map fst strings)) = 1" by simp
    then have "length strings = 1" using s(2) by (metis distinct_card length_map)
    then obtain refs where "strings = [([1, 2], refs)]" using s(3) by (cases strings) auto
    then show ?thesis unfolding s(1)
      by (simp add: dt_blob_def Let_def sample_tree_def strings_block_def length_rsv prop_bytes_def padded_def pad4_def)
  qed
  ultimately show ?thesis using devicetree_roundtrip [of sample_tree "[(5, 6)]" 0] by simp
qed

end
