(* ===== verification/Zip.thy ===== *)
theory Zip
  imports Texts "HOL-Library.Char_ord" "HOL-Library.List_Lexorder" "HOL-Library.Multiset"
begin

unbundle bit_operations_syntax

text \<open>
  The zip archive of a host folder, \<open>engine/src/zip.rs\<close>: the checksum, the time stamps, the walk over the folder
  and the archive's bytes. The folder on the host is a tree (\<open>host_node\<close>) with the result of every call on it,
  an error or a value; the archive is the bytes written, whose writing is taken to succeed.
\<close>

definition SIG_LOCAL :: u32 where "SIG_LOCAL = 0x04034b50"
definition SIG_CENTRAL :: u32 where "SIG_CENTRAL = 0x02014b50"
definition SIG_END :: u32 where "SIG_END = 0x06054b50"
definition ZIP_UNIX :: u16 where "ZIP_UNIX = 3"
definition Z_IFDIR :: u32 where "Z_IFDIR = 0x4000"
definition Z_IFREG :: u32 where "Z_IFREG = 0x8000"
definition Z_IFLNK :: u32 where "Z_IFLNK = 0xA000"

definition crc_bit :: "u32 \<Rightarrow> u32" where
  "crc_bit crc = drop_bit 1 crc XOR (0xedb88320 AND (- (crc AND 1)))"

definition crc_byte :: "byte \<Rightarrow> u32 \<Rightarrow> u32" where
  "crc_byte b crc = (crc_bit ^^ 8) (crc XOR ucast b)"

definition crc32 :: "bytes \<Rightarrow> u32" where
  "crc32 bs = NOT (fold crc_byte bs 0xffffffff)"

datatype zip_kind = ZFile bytes | ZDirectory | ZSymlink bytes

record zip_entry =
  ze_path :: string
  ze_kind :: zip_kind
  ze_mode :: u32
  ze_mtime :: nat

definition ze_data :: "zip_entry \<Rightarrow> bytes" where
  "ze_data e = (case ze_kind e of ZFile bs \<Rightarrow> bs | ZSymlink bs \<Rightarrow> bs | ZDirectory \<Rightarrow> [])"

definition ze_external :: "zip_entry \<Rightarrow> u32" where
  "ze_external e =
     (let kind = (case ze_kind e of ZFile _ \<Rightarrow> Z_IFREG | ZDirectory \<Rightarrow> Z_IFDIR | ZSymlink _ \<Rightarrow> Z_IFLNK) in
      push_bit 16 (kind OR (ze_mode e AND 0xFFF)) OR (if ze_kind e = ZDirectory then 1 else 0))"

definition ut_extra :: "nat \<Rightarrow> bytes" where
  "ut_extra mtime = u16_le 0x5455 @ u16_le 5 @ [1] @ u32_le (word_of_nat mtime)"

subsection \<open>Dates\<close>

definition civil_from_days :: "int \<Rightarrow> int \<times> nat \<times> nat" where
  "civil_from_days days =
     (let z = days + 719468;
          era = z div 146097;
          doe = z mod 146097;
          yoe = (doe - doe div 1460 + doe div 36524 - doe div 146096) div 365;
          year = yoe + era * 400;
          doy = doe - (365 * yoe + yoe div 4 - yoe div 100);
          mp = (5 * doy + 2) div 153;
          day = doy - (153 * mp + 2) div 5 + 1;
          month = (if mp < 10 then mp + 3 else mp - 9)
      in (if month \<le> 2 then year + 1 else year, nat month, nat day))"

definition dos_time :: "nat \<Rightarrow> u16 \<times> u16" where
  "dos_time mtime =
     (let days = mtime div 86400;
          seconds = mtime mod 86400;
          (year0, month, day) = civil_from_days (int days);
          year = nat (max year0 1980);
          time = push_bit 11 (seconds div 3600) OR push_bit 5 (seconds mod 3600 div 60) OR (seconds mod 60 div 2);
          date = push_bit 9 (year - 1980) OR push_bit 5 month OR day
      in (word_of_nat time, word_of_nat date))"

subsection \<open>The folder\<close>

record node_meta =
  nm_mode :: u32
  nm_mtime :: "int option"

datatype host_node =
    HFile node_meta "string + bytes"
  | HDir node_meta "string + (string \<times> host_node) list"
  | HLink node_meta "string + string"
  | HOther node_meta
  | HGone string

primrec node_meta_of :: "host_node \<Rightarrow> node_meta" where
  "node_meta_of (HFile m _) = m"
| "node_meta_of (HDir m _) = m"
| "node_meta_of (HLink m _) = m"
| "node_meta_of (HOther m) = m"
| "node_meta_of (HGone _) = \<lparr>nm_mode = 0, nm_mtime = None\<rparr>"

definition stamp :: "node_meta \<Rightarrow> nat" where
  "stamp m = (case nm_mtime m of Some t \<Rightarrow> if 0 \<le> t then nat t else 0 | None \<Rightarrow> 0)"

definition join_path :: "string \<Rightarrow> string \<Rightarrow> string" where
  "join_path parent name = (if parent = [] then from_utf8_lossy name else parent @ ''/'' @ from_utf8_lossy name)"

lemma size_sorted: "size_list f (sort_key g xs) = size_list f xs"
proof -
  have "size_list f ys = sum_list (map f ys) + length ys" for ys :: "'a list" by (induction ys) auto
  moreover have "sum_list (map f (sort_key g xs)) = sum_list (map f xs)"
    by (metis mset_map mset_sort sum_mset_sum_list)
  ultimately show ?thesis by simp
qed

function collect_node :: "string \<Rightarrow> host_node \<Rightarrow> string + zip_entry list"
  and collect_list :: "string \<Rightarrow> (string \<times> host_node) list \<Rightarrow> string + zip_entry list" where
  "collect_node path node =
     (let m = node_meta_of node;
          entry = (\<lambda>p k. \<lparr>ze_path = p, ze_kind = k, ze_mode = nm_mode m AND 0xFFF, ze_mtime = stamp m\<rparr>)
      in case node of
           HLink _ (Inl e) \<Rightarrow> Inl e
         | HLink _ (Inr goal) \<Rightarrow> Inr [entry path (ZSymlink (bytes_of (from_utf8_lossy goal)))]
         | HDir _ (Inl e) \<Rightarrow> Inl e
         | HDir _ (Inr kids) \<Rightarrow>
             (case collect_list path (sort_key fst kids) of
                Inl e \<Rightarrow> Inl e
              | Inr es \<Rightarrow> Inr (entry (path @ ''/'') ZDirectory # es))
         | HFile _ (Inl e) \<Rightarrow> Inl e
         | HFile _ (Inr bs) \<Rightarrow> Inr [entry path (ZFile bs)]
         | HOther _ \<Rightarrow> Inr []
         | HGone e \<Rightarrow> Inl e)"
| "collect_list parent [] = Inr []"
| "collect_list parent ((name, node) # rest) =
     (case collect_node (join_path parent name) node of
        Inl e \<Rightarrow> Inl e
      | Inr es \<Rightarrow> (case collect_list parent rest of Inl e \<Rightarrow> Inl e | Inr es' \<Rightarrow> Inr (es @ es')))"
  by pat_completeness auto
termination
  by (relation "measure (\<lambda>x. case x of Inl (_, n) \<Rightarrow> 2 * size n | Inr (_, ns) \<Rightarrow> 2 * size_list (size_prod (\<lambda>_. 0) size) ns + 1)")
    (auto simp: size_sorted)

definition collect_folder :: "string + (string \<times> host_node) list \<Rightarrow> string + zip_entry list" where
  "collect_folder kids = (case kids of Inl e \<Rightarrow> Inl e | Inr ns \<Rightarrow> collect_list [] (sort_key fst ns))"

subsection \<open>The archive\<close>

definition local_header :: "zip_entry \<Rightarrow> bytes" where
  "local_header e =
     (let n = word_of_nat (length (ze_data e)); (time, date) = dos_time (ze_mtime e); name = bytes_of (ze_path e) in
      u32_le SIG_LOCAL @ u16_le 20 @ u16_le (push_bit 11 1) @ u16_le 0 @ u16_le time @ u16_le date @
      u32_le (crc32 (ze_data e)) @ u32_le n @ u32_le n @ u16_le (word_of_nat (length name)) @
      u16_le (word_of_nat (length (ut_extra (ze_mtime e)))))"

definition local_record :: "zip_entry \<Rightarrow> bytes" where
  "local_record e = local_header e @ bytes_of (ze_path e) @ ut_extra (ze_mtime e) @ ze_data e"

definition central_header :: "nat \<Rightarrow> zip_entry \<Rightarrow> bytes" where
  "central_header offset e =
     (let n = word_of_nat (length (ze_data e)); (time, date) = dos_time (ze_mtime e); name = bytes_of (ze_path e) in
      u32_le SIG_CENTRAL @ u16_le (push_bit 8 ZIP_UNIX OR 20) @ u16_le 20 @ u16_le (push_bit 11 1) @ u16_le 0 @ u16_le time @
      u16_le date @ u32_le (crc32 (ze_data e)) @ u32_le n @ u32_le n @ u16_le (word_of_nat (length name)) @
      u16_le (word_of_nat (length (ut_extra (ze_mtime e)))) @ u16_le 0 @ u16_le 0 @ u16_le 0 @ u32_le (ze_external e) @
      u32_le (word_of_nat offset))"

definition central_record :: "nat \<Rightarrow> zip_entry \<Rightarrow> bytes" where
  "central_record offset e = central_header offset e @ bytes_of (ze_path e) @ ut_extra (ze_mtime e)"

fun write_entries :: "zip_entry list \<Rightarrow> bytes \<Rightarrow> bytes \<Rightarrow> bytes \<times> bytes" where
  "write_entries [] out central = (out, central)"
| "write_entries (e # es) out central =
     (let offset = length out in write_entries es (out @ local_record e) (central @ central_record offset e))"

definition end_record :: "nat \<Rightarrow> nat \<Rightarrow> nat \<Rightarrow> bytes" where
  "end_record entries central_size central_at =
     u32_le SIG_END @ u16_le 0 @ u16_le 0 @ u16_le (word_of_nat entries) @ u16_le (word_of_nat entries) @
     u32_le (word_of_nat central_size) @ u32_le (word_of_nat central_at) @ u16_le 0"

definition write_folder :: "string + (string \<times> host_node) list \<Rightarrow> string + (bytes \<times> nat \<times> nat)" where
  "write_folder folder =
     (case collect_folder folder of
        Inl e \<Rightarrow> Inl e
      | Inr entries \<Rightarrow>
          if length entries > 0xffff then Inl (decimal (length entries) @ '' entries is more than a zip without zip64 can hold'')
          else
            let (out, central) = write_entries entries [] [];
                central_at = length out;
                end_at = length (out @ central)
            in Inr (out @ central @ end_record (length entries) (end_at - central_at) central_at, length entries, end_at + 22))"

subsection \<open>A reader\<close>

text \<open>How an unzip program finds the files: the end record, the central directory it points to, and through it each local record.\<close>

record zip_view =
  zv_path :: string
  zv_data :: bytes
  zv_external :: u32
  zv_mtime :: u32

definition read_local :: "bytes \<Rightarrow> nat \<Rightarrow> nat \<Rightarrow> bytes option" where
  "read_local arc offset len =
     (let s = drop offset arc;
          at = 30 + unat (le16_at 26 s) + unat (le16_at 28 s)
      in if le32_at 0 s = SIG_LOCAL \<and> at + len \<le> length s then Some (bslice at len s) else None)"

fun read_central :: "nat \<Rightarrow> bytes \<Rightarrow> bytes \<Rightarrow> zip_view list option" where
  "read_central 0 arc s = Some []"
| "read_central (Suc k) arc s =
     (let names = unat (le16_at 28 s); extras = unat (le16_at 30 s) in
      if le32_at 0 s \<noteq> SIG_CENTRAL then None
      else
        case read_local arc (unat (le32_at 42 s)) (unat (le32_at 20 s)) of
          None \<Rightarrow> None
        | Some data \<Rightarrow>
            if crc32 data \<noteq> le32_at 16 s then None
            else
              (case read_central k arc (drop (46 + names + extras) s) of
                 None \<Rightarrow> None
               | Some vs \<Rightarrow>
                   Some (\<lparr>zv_path = string_of (bslice 46 names s), zv_data = data, zv_external = le32_at 38 s,
                      zv_mtime = le32_at 5 (bslice (46 + names) extras s)\<rparr> # vs)))"

definition read_zip :: "bytes \<Rightarrow> zip_view list option" where
  "read_zip arc =
     (let s = drop (length arc - 22) arc in
      if length arc < 22 \<or> le32_at 0 s \<noteq> SIG_END then None
      else read_central (unat (le16_at 10 s)) arc (drop (unat (le32_at 16 s)) arc))"

definition view_of :: "zip_entry \<Rightarrow> zip_view" where
  "view_of e =
     \<lparr>zv_path = ze_path e, zv_data = ze_data e, zv_external = ze_external e, zv_mtime = word_of_nat (ze_mtime e)\<rparr>"

subsection \<open>Records\<close>

lemma length_extra [simp]: "length (ut_extra t) = 9"
  by (simp add: ut_extra_def)

lemma length_local_header [simp]: "length (local_header e) = 30"
  by (simp add: local_header_def Let_def split: prod.splits)

lemma length_central_header [simp]: "length (central_header offset e) = 46"
  by (simp add: central_header_def Let_def split: prod.splits)

lemmas field_simps_le = le16_at_def le32_at_def codec_simps Let_def

lemma local_fields:
  "le32_at 0 (local_header e @ s) = SIG_LOCAL" "le16_at 26 (local_header e @ s) = word_of_nat (length (ze_path e))"
  "le16_at 28 (local_header e @ s) = 9"
  by (simp_all add: local_header_def field_simps_le split: prod.splits)

lemma central_fields:
  "le32_at 0 (central_header offset e @ s) = SIG_CENTRAL" "le32_at 16 (central_header offset e @ s) = crc32 (ze_data e)"
  "le32_at 20 (central_header offset e @ s) = word_of_nat (length (ze_data e))"
  "le16_at 28 (central_header offset e @ s) = word_of_nat (length (ze_path e))"
  "le16_at 30 (central_header offset e @ s) = 9" "le32_at 38 (central_header offset e @ s) = ze_external e"
  "le32_at 42 (central_header offset e @ s) = word_of_nat offset"
  by (simp_all add: central_header_def field_simps_le split: prod.splits)

lemma extra_field: "le32_at 5 (ut_extra t) = word_of_nat t"
proof -
  have "bslice 5 4 ((u16_le 0x5455 @ u16_le 5 @ [1]) @ u32_le (word_of_nat t)) = u32_le (word_of_nat t)"
    by (simp add: bslice_def)
  then show ?thesis by (simp add: ut_extra_def le32_at_def)
qed

definition entry_fits :: "zip_entry \<Rightarrow> bool" where
  "entry_fits e \<longleftrightarrow> length (ze_path e) < 2 ^ 16"

lemma unat_nat16: "n < 2 ^ 16 \<Longrightarrow> unat (word_of_nat n :: u16) = n"
  by (simp add: unat_of_nat take_bit_nat_eq_self_iff)

lemma unat_nat32: "n < 2 ^ 32 \<Longrightarrow> unat (word_of_nat n :: u32) = n"
  by (simp add: unat_of_nat take_bit_nat_eq_self_iff)

lemma read_local_record:
  assumes "entry_fits e" "arc = before @ local_record e @ after" "offset = length before" "len = length (ze_data e)"
  shows "read_local arc offset len = Some (ze_data e)"
proof -
  have d: "drop offset arc = local_header e @ bytes_of (ze_path e) @ ut_extra (ze_mtime e) @ ze_data e @ after"
    using assms(2,3) by (simp add: local_record_def)
  have n: "unat (word_of_nat (length (ze_path e)) :: u16) = length (ze_path e)" using assms(1) by (simp add: entry_fits_def unat_nat16)
  show ?thesis using assms(4) n unfolding read_local_def Let_def d local_fields
    by (simp add: bslice_def)
qed

fun locals :: "zip_entry list \<Rightarrow> bytes" where
  "locals [] = []"
| "locals (e # es) = local_record e @ locals es"

fun centrals :: "nat \<Rightarrow> zip_entry list \<Rightarrow> bytes" where
  "centrals at [] = []"
| "centrals at (e # es) = central_record at e @ centrals (at + length (local_record e)) es"

lemma write_entries_parts: "write_entries es out central = (out @ locals es, central @ centrals (length out) es)"
  by (induction es arbitrary: out central) (simp_all add: Let_def)

lemma length_local_record: "length (local_record e) = 39 + length (ze_path e) + length (ze_data e)"
  by (simp add: local_record_def)

lemma read_centrals:
  assumes "list_all entry_fits es" "arc = before @ locals es @ after" "length arc < 2 ^ 32"
  shows "read_central (length es) arc (centrals (length before) es @ s) = Some (map view_of es)"
  using assms(1,2)
proof (induction es arbitrary: before)
  case (Cons e es)
  let ?at = "length before"
  let ?next = "centrals (?at + length (local_record e)) es @ s"
  let ?name = "bytes_of (ze_path e)" and ?extra = "ut_extra (ze_mtime e)"
  have c: "centrals ?at (e # es) @ s = central_header ?at e @ ?name @ ?extra @ ?next" by (simp add: central_record_def)
  have fit: "entry_fits e" "arc = before @ local_record e @ (locals es @ after)" using Cons.prems by simp_all
  have small: "length (ze_data e) < 2 ^ 32" "?at < 2 ^ 32" using assms(3) fit(2) by (simp_all add: length_local_record)
  have n: "unat (word_of_nat (length (ze_path e)) :: u16) = length (ze_path e)" using fit(1) by (simp add: entry_fits_def unat_nat16)
  have l: "read_local arc ?at (length (ze_data e)) = Some (ze_data e)" by (rule read_local_record [OF fit]) simp_all
  have rest: "read_central (length es) arc ?next = Some (map view_of es)"
    using Cons.IH [of "before @ local_record e"] Cons.prems by simp
  show ?case unfolding c using l rest n small
    by (simp add: central_fields unat_nat32 unat_nat16 bslice_def view_of_def Let_def extra_field)
qed simp

lemma length_end_record [simp]: "length (end_record a b c) = 22"
  by (simp add: end_record_def)

lemma end_fields:
  "le32_at 0 (end_record a b c) = SIG_END" "le16_at 10 (end_record a b c) = word_of_nat a" "le32_at 16 (end_record a b c) = word_of_nat c"
  by (simp_all add: end_record_def field_simps_le)


definition sample_folder :: "string + (string \<times> host_node) list" where
  "sample_folder = Inr [(''b'', HFile \<lparr>nm_mode = 0x1A4, nm_mtime = Some 5\<rparr> (Inr [1, 2])),
     (''a'', HDir \<lparr>nm_mode = 0x1ED, nm_mtime = None\<rparr> (Inr [(''l'', HLink \<lparr>nm_mode = 0x1FF, nm_mtime = Some 6\<rparr> (Inr ''b''))]))]"

lemma sample_entries:
  "collect_folder sample_folder = Inr
     [\<lparr>ze_path = ''a/'', ze_kind = ZDirectory, ze_mode = 0x1ED, ze_mtime = 0\<rparr>,
      \<lparr>ze_path = ''a/l'', ze_kind = ZSymlink [0x62], ze_mode = 0x1FF, ze_mtime = 6\<rparr>,
      \<lparr>ze_path = ''b'', ze_kind = ZFile [1, 2], ze_mode = 0x1A4, ze_mtime = 5\<rparr>]"
  by code_simp


subsection \<open>The calendar\<close>

text \<open>The calendar counted day by day from 1970: the lengths of the years and months before the date.\<close>

definition leap :: "nat \<Rightarrow> bool" where
  "leap y \<longleftrightarrow> 4 dvd y \<and> \<not> 100 dvd y \<or> 400 dvd y"

definition month_days :: "nat \<Rightarrow> nat \<Rightarrow> nat" where
  "month_days y m = (if m = 2 then (if leap y then 29 else 28) else if m \<in> {4, 6, 9, 11} then 30 else 31)"

primrec year_start :: "nat \<Rightarrow> nat" where
  "year_start 0 = 0"
| "year_start (Suc n) = year_start n + (if leap (1970 + n) then 366 else 365)"

definition date_days :: "nat \<Rightarrow> nat \<Rightarrow> nat \<Rightarrow> nat" where
  "date_days y m d = year_start (y - 1970) + sum_list (map (month_days y) [1..<m]) + (d - 1)"

text \<open>Days from 0000-03-01 to the first of March of a year.\<close>

definition march :: "int \<Rightarrow> int" where
  "march y = 365 * y + y div 4 - y div 100 + y div 400"

lemma div_step: "0 < k \<Longrightarrow> (y + 1) div k = y div k + (if k dvd y + 1 then 1 else 0)" for y k :: int
proof -
  assume k: "0 < k"
  have y: "y = k * (y div k) + y mod k" "0 \<le> y mod k" "y mod k < k" using k by simp_all
  have "k dvd y + 1 \<longleftrightarrow> y mod k + 1 = k"
  proof -
    have "k dvd y + 1 \<longleftrightarrow> k dvd y mod k + 1" by (simp add: dvd_eq_mod_eq_0 mod_add_left_eq)
    also have "\<dots> \<longleftrightarrow> y mod k + 1 = k" using y(2,3) by (auto dest: zdvd_imp_le)
    finally show ?thesis .
  qed
  moreover have "(y + 1) div k = y div k + 1" if "y mod k + 1 = k"
  proof (rule int_div_pos_eq [of _ _ _ 0])
    have "y + 1 = k * (y div k) + k" using y(1) that by linarith
    then show "y + 1 = k * (y div k + 1) + 0" by (simp add: distrib_left)
  qed (use k in simp_all)
  moreover have "(y + 1) div k = y div k" if "y mod k + 1 \<noteq> k"
    by (rule int_div_pos_eq [of _ _ _ "y mod k + 1"]) (use y that in simp_all)
  ultimately show ?thesis by simp
qed

lemma march_step: "march (int y + 1) = march (int y) + 365 + (if leap (y + 1) then 1 else 0)"
proof -
  have d: "k dvd int y + 1 \<longleftrightarrow> nat k dvd y + 1" if "0 < k" for k :: int
    using that by (metis Suc_eq_plus1 int_dvd_int_iff nat_int of_nat_Suc of_nat_0_less_iff zero_less_imp_eq_int add.commute)
  have "100 dvd y + 1 \<Longrightarrow> 4 dvd y + 1" "400 dvd y + 1 \<Longrightarrow> 100 dvd y + 1" by presburger+
  then show ?thesis using div_step [of 4 "int y"] div_step [of 100 "int y"] div_step [of 400 "int y"] d [of 4] d [of 100] d [of 400]
    by (auto simp: march_def leap_def)
qed

lemma year_start_march: "int (year_start n) = march (int (1970 + n)) - 59 - (if leap (1970 + n) then 1 else 0) - 719468"
proof (induction n)
  case 0
  have "\<not> leap 1970" by (simp add: leap_def)
  then show ?case by (simp add: march_def)
next
  case (Suc n)
  have "march (int (1970 + Suc n)) = march (int (1970 + n)) + 365 + (if leap (1970 + Suc n) then 1 else 0)"
    using march_step [of "1970 + n"] by (simp add: algebra_simps)
  then show ?case using Suc by simp
qed

subsection \<open>Back to a date\<close>

lemma yoe_exact:
  fixes c q r doy :: int
  assumes "0 \<le> c" "c \<le> 3" "0 \<le> q" "q \<le> 24" "0 \<le> r" "r \<le> 3" "0 \<le> doy" "doy \<le> 365"
    "doy = 365 \<Longrightarrow> r = 3 \<and> (q \<noteq> 24 \<or> c = 3)" "doe = 36524 * c + 1461 * q + 365 * r + doy"
  shows "(doe - doe div 1460 + doe div 36524 - doe div 146096) div 365 = 100 * c + 4 * q + r"
proof -
  let ?t = "24 * c + q + 365 * r + doy" and ?u = "1461 * q + 365 * r + doy"
  have "doe = ?t + 1460 * (25 * c + q)" using assms(10) by simp
  then have a: "doe div 1460 = 25 * c + q + ?t div 1460" by simp
  have "doe = ?u + 36524 * c" using assms(10) by simp
  then have b: "doe div 36524 = c + ?u div 36524" by simp
  have t: "?t div 1460 = (if 1460 \<le> ?t then 1 else 0)" using assms(1-8) by (auto intro!: div_pos_pos_trivial int_div_pos_eq [of _ _ _ "?t - 1460"])
  have "?u \<le> 36524" "0 \<le> ?u" using assms(1-9) by linarith+
  then have u: "?u div 36524 = (if ?u = 36524 then 1 else 0)" by auto
  have "doe \<le> 146096" "0 \<le> doe" using assms by linarith+
  then have e: "doe div 146096 = (if doe = 146096 then 1 else 0)" by auto
  have last: "?u = 36524 \<longleftrightarrow> doe = 146096"
  proof
    assume "?u = 36524"
    then have "q = 24" "r = 3" "doy = 365" using assms(3-8) by linarith+
    then show "doe = 146096" using assms(9,10) by simp
  next
    assume "doe = 146096"
    then show "?u = 36524" using assms by linarith
  qed
  have "doe - doe div 1460 + doe div 36524 - doe div 146096 = (doy - (if 1460 \<le> ?t then 1 else 0)) + 365 * (100 * c + 4 * q + r)"
    unfolding a b t u e using last assms(10) by auto
  moreover have "0 \<le> doy - (if 1460 \<le> ?t then 1 else 0)" "doy - (if 1460 \<le> ?t then 1 else 0) < 365"
    using assms(1-9) by (cases "doy = 365"; auto split: if_splits)+
  ultimately show ?thesis by (simp add: div_pos_pos_trivial)
qed

lemma year_parts:
  fixes n :: int
  assumes "0 \<le> n" "n \<le> 399"
  defines "c \<equiv> n div 100" and "q \<equiv> n mod 100 div 4" and "r \<equiv> n mod 4"
  shows "n = 100 * c + 4 * q + r" "0 \<le> c" "c \<le> 3" "0 \<le> q" "q \<le> 24" "0 \<le> r" "r \<le> 3"
    "365 * n + n div 4 - n div 100 = 36524 * c + 1461 * q + 365 * r"
proof -
  have "(n mod 100) mod 4 = n mod 4" by (rule mod_mod_cancel) simp
  then have "n mod 100 = 4 * q + r" unfolding q_def r_def by (metis mult_div_mod_eq)
  moreover have "n = 100 * c + n mod 100" unfolding c_def by simp
  ultimately show n: "n = 100 * c + 4 * q + r" by linarith
  have m: "0 \<le> n mod 100" "n mod 100 < 100" by simp_all
  show "0 \<le> c" "c \<le> 3" "0 \<le> q" "q \<le> 24" "0 \<le> r" "r \<le> 3" using assms(1,2) m unfolding c_def q_def r_def by linarith+
  then have "n div 4 = 25 * c + q" using n by (intro int_div_pos_eq [of _ _ _ r]) simp_all
  then show "365 * n + n div 4 - n div 100 = 36524 * c + 1461 * q + 365 * r" using n unfolding c_def [symmetric] by linarith
qed

lemma leap_part:
  fixes c q r :: int
  assumes "leap (y + 1)" "int y = 400 * e + n" "n = 100 * c + 4 * q + r" "0 \<le> c" "c \<le> 3" "0 \<le> q" "q \<le> 24" "0 \<le> r" "r \<le> 3"
  shows "r = 3 \<and> (q \<noteq> 24 \<or> c = 3)"
proof -
  have d: "k dvd 400 * e + (n + 1) \<longleftrightarrow> nat k dvd y + 1" if "0 < k" for k :: int
  proof -
    have "400 * e + (n + 1) = int (y + 1)" using assms(2) by simp
    then show ?thesis using that by (metis int_dvd_int_iff int_nat_eq order_less_imp_le)
  qed
  have i: "k dvd 400 * e + (n + 1) \<longleftrightarrow> k dvd n + 1" if "k dvd 400" for k :: int
    by (rule dvd_add_right_iff) (use that in simp)
  have l: "nat 4 dvd y + 1 \<and> (nat 100 dvd y + 1 \<longrightarrow> nat 400 dvd y + 1)" using assms(1) by (auto simp: leap_def intro: dvd_trans)
  have "4 dvd n + 1" "100 dvd n + 1 \<longrightarrow> 400 dvd n + 1" using l d [of 4] d [of 100] d [of 400] i [of 4] i [of 100] i [of 400] by simp_all
  moreover have "r = 3" if "4 dvd n + 1" using that assms(3,8,9) by presburger
  moreover have "c = 3" if "q = 24" "r = 3" "100 dvd n + 1 \<longrightarrow> 400 dvd n + 1" using that assms(3-5) by presburger
  ultimately show ?thesis by blast
qed

lemma civil_march:
  fixes y :: nat and doy :: int
  assumes "0 \<le> doy" "doy \<le> 364 + (if leap (y + 1) then 1 else 0)"
  defines "mp \<equiv> (5 * doy + 2) div 153"
  shows "civil_from_days (march (int y) + doy - 719468) =
    (if (if mp < 10 then mp + 3 else mp - 9) \<le> 2 then int y + 1 else int y, nat (if mp < 10 then mp + 3 else mp - 9), nat (doy - (153 * mp + 2) div 5 + 1))"
proof -
  define e where "e = int y div 400"
  define n where "n = int y mod 400"
  have n: "int y = 400 * e + n" "0 \<le> n" "n \<le> 399" using pos_mod_bound [of 400 "int y"] unfolding e_def n_def by simp_all
  note parts = year_parts [OF n(2,3)]
  let ?c = "n div 100" and ?q = "n mod 100 div 4" and ?r = "n mod 4" and ?g = "365 * n + n div 4 - n div 100"
  have m: "march (int y) = ?g + 146097 * e"
  proof -
    have "int y = n + 4 * (100 * e)" "int y = n + 100 * (4 * e)" using n(1) by simp_all
    then have "int y div 4 = 100 * e + n div 4" "int y div 100 = 4 * e + n div 100" by (metis add.commute div_mult_self2 zero_neq_numeral)+
    then show ?thesis unfolding march_def e_def [symmetric] using n(1) by linarith
  qed
  have leap: "doy = 365 \<Longrightarrow> ?r = 3 \<and> (?q \<noteq> 24 \<or> ?c = 3)"
    using leap_part [OF _ n(1) parts(1-7)] assms(2) by (simp split: if_splits)
  have d365: "doy \<le> 365" using assms(2) by (simp split: if_splits)
  have range: "0 \<le> ?g + doy" "?g + doy < 146097" unfolding parts(8) using parts(2-7) assms(1) d365 leap by linarith+
  have sum: "march (int y) + doy = 146097 * e + (?g + doy)" using m by linarith
  have z: "(march (int y) + doy) div 146097 = e" "(march (int y) + doy) mod 146097 = ?g + doy"
    by (rule int_div_pos_eq [OF sum range], rule int_mod_pos_eq [OF sum range])
  have yoe: "((?g + doy) - (?g + doy) div 1460 + (?g + doy) div 36524 - (?g + doy) div 146096) div 365 = n"
    using yoe_exact [OF parts(2-7) assms(1) d365 leap, of "?g + doy"] unfolding parts(8) parts(1) [symmetric] by (simp only: refl)
  have doy: "(?g + doy) - (365 * n + n div 4 - n div 100) = doy" by simp
  have y: "n + e * 400 = int y" using n(1) by simp
  show ?thesis unfolding civil_from_days_def Let_def diff_add_cancel z yoe doy y mp_def ..
qed

text \<open>Months counted from March: the day of the year of a month's first day, and the way back.\<close>

definition month_start :: "nat \<Rightarrow> int" where
  "month_start m = (if m \<le> 2 then 306 + (if m = 2 then 31 else 0) else (153 * (int m - 3) + 2) div 5)"

lemma month_cases: "1 \<le> m \<Longrightarrow> m \<le> 12 \<Longrightarrow> m \<in> {1, 2, 3, 4, 5, 6, 7, 8, 9, 10, 11, 12 :: nat}"
  by simp presburger

lemma month_back:
  assumes "1 \<le> m" "m \<le> 12" "0 \<le> d" "d < int (month_days y m)"
  defines "doy \<equiv> month_start m + d"
  defines "mp \<equiv> (5 * doy + 2) div 153"
  shows "(if mp < 10 then mp + 3 else mp - 9) = int m" "doy - (153 * mp + 2) div 5 = d" "0 \<le> doy" "m \<le> 2 \<longleftrightarrow> \<not> mp < 10"
    "doy \<le> (if m = 2 then 336 + int (month_days y 2) else 364)"
proof -
  have r: "d \<le> 30" "m \<in> {4, 6, 9, 11} \<Longrightarrow> d \<le> 29" "m = 2 \<Longrightarrow> d \<le> 28" using assms(4) by (auto simp: month_days_def split: if_splits)
  have mp: "mp = (if m \<le> 2 then int m + 9 else int m - 3)"
    unfolding mp_def doy_def month_start_def using month_cases [OF assms(1,2)] assms(3) r
    by (elim insertE emptyE; intro int_div_pos_eq [of _ _ _ "(5 * doy + 2) - 153 * (if m \<le> 2 then int m + 9 else int m - 3)"])
      (simp_all add: doy_def month_start_def)
  show "(if mp < 10 then mp + 3 else mp - 9) = int m" "m \<le> 2 \<longleftrightarrow> \<not> mp < 10" unfolding mp using assms(1,2) by auto
  show "doy - (153 * mp + 2) div 5 = d" unfolding mp doy_def month_start_def using month_cases [OF assms(1,2)] by auto
  show "0 \<le> doy" unfolding doy_def month_start_def using month_cases [OF assms(1,2)] assms(3) by auto
  show "doy \<le> (if m = 2 then 336 + int (month_days y 2) else 364)"
    unfolding doy_def month_start_def using month_cases [OF assms(1,2)] assms(4) r by auto
qed

lemma month_sum:
  assumes "1 \<le> m" "m \<le> 12"
  shows "int (sum_list (map (month_days y) [1..<m])) =
    (if m \<le> 2 then month_start m - 306 else month_start m + 59 + (if leap y then 1 else 0))"
  using month_cases [OF assms] by (elim insertE emptyE; simp add: month_start_def month_days_def upt_rec eval_nat_numeral)

text \<open>The calendar is the real one, for every date from 1970 on.\<close>

lemma civil_exact:
  assumes "1970 \<le> y" "1 \<le> m" "m \<le> 12" "1 \<le> d" "d \<le> month_days y m"
  shows "civil_from_days (int (date_days y m d)) = (int y, m, d)"
proof -
  let ?Y = "if m \<le> 2 then y - 1 else y" and ?d = "int d - 1"
  have d: "0 \<le> ?d" "?d < int (month_days y m)" using assms(4,5) by simp_all
  note b = month_back [OF assms(2,3) d]
  have ys: "int (year_start (y - 1970)) = march (int y) - 59 - (if leap y then 1 else 0) - 719468"
    using year_start_march [of "y - 1970"] assms(1) by simp
  have my: "march (int y) = march (int (y - 1)) + 365 + (if leap y then 1 else 0)"
    using march_step [of "y - 1"] assms(1) by (simp add: of_nat_diff)
  have days: "int (date_days y m d) = march (int ?Y) + (month_start m + ?d) - 719468"
    using month_sum [OF assms(2,3), of y] ys my assms(4) by (auto simp: date_days_def)
  have leap: "month_start m + ?d \<le> 364 + (if leap (?Y + 1) then 1 else 0)"
    using b(5) assms(1) by (auto simp: month_days_def split: if_splits)
  show ?thesis unfolding days civil_march [OF b(3) leap] b(1) b(2) using assms(1-4) by auto
qed

lemma or_fields:
  fixes a b c :: nat
  assumes "c < 2 ^ 5" "b < 2 ^ k"
  shows "push_bit (5 + k) a OR push_bit 5 b OR c = a * 2 ^ (5 + k) + b * 2 ^ 5 + c"
proof -
  have or: "push_bit n x OR y = x * 2 ^ n + y" if "y < 2 ^ n" for n x y :: nat
  proof -
    have "push_bit n x AND y = 0"
      using that by (auto simp: bit_eq_iff bit_simps) (metis bit_take_bit_iff linorder_not_less take_bit_nat_eq_self)
    then have "push_bit n x OR y = push_bit n x + y" by (simp add: disjunctive_add_eq_or)
    then show ?thesis by (simp add: push_bit_eq_mult)
  qed
  have "push_bit 5 b OR c = b * 2 ^ 5 + c" by (rule or [OF assms(1)])
  moreover have "b * 2 ^ 5 + c < 2 ^ (5 + k)"
  proof -
    have "b * 2 ^ 5 + c < (b + 1) * 2 ^ 5" using assms(1) by simp
    also have "\<dots> \<le> 2 ^ k * 2 ^ 5" using assms(2) by (intro mult_right_mono) simp_all
    finally show ?thesis by (simp add: power_add)
  qed
  ultimately show ?thesis using or [of "b * 2 ^ 5 + c" "5 + k" a] by (simp add: or.assoc)
qed



end
