(* ===== verification/Log_Lines.thy ===== *)
theory Log_Lines
  imports Texts
begin

text \<open>
  The command line's logs, \<open>engine/src/log.rs\<close>: every line is made safe (control characters escaped, long lines
  cut), arguments are quoted as a shell needs them, and a file is kept below its size limit, by dropping
  lines or by rotation. A string is its UTF-8 bytes; a character is the bytes of one.
\<close>

definition LINE_LIMIT :: nat where "LINE_LIMIT = 4096"
definition MARKER_ROOM :: nat where "MARKER_ROOM = 40"

subsection \<open>Characters\<close>

definition controls :: "nat \<Rightarrow> bool" where
  "controls p \<longleftrightarrow> p < 0x20 \<or> p = 0x7F"

definition reorders :: "nat \<Rightarrow> bool" where
  "reorders p \<longleftrightarrow> 0x80 \<le> p \<and> p \<le> 0x9F \<or> 0x202A \<le> p \<and> p \<le> 0x202E \<or> 0x2066 \<le> p \<and> p \<le> 0x2069"

definition backslash :: char where "backslash = CHR 0x5C"

definition hex2 :: "nat \<Rightarrow> string" where
  "hex2 n = (if n < 16 then CHR ''0'' # hex n else hex n)"

definition escape :: "string \<Rightarrow> string" where
  "escape c =
     (let p = code_point c in
      if p = 10 then [backslash, CHR ''n'']
      else if p = 13 then [backslash, CHR ''r'']
      else if p = 9 then [backslash, CHR ''t'']
      else if controls p then backslash # CHR ''x'' # hex2 p
      else if reorders p then backslash # ''u{'' @ hex p @ ''}''
      else c)"

subsection \<open>Lines\<close>

fun clean_loop :: "string list \<Rightarrow> nat \<Rightarrow> string \<Rightarrow> (nat \<times> nat) option \<Rightarrow> string \<times> (nat \<times> nat) option" where
  "clean_loop [] at out mark = (out, mark)"
| "clean_loop (c # cs) at out mark =
     (let out1 = out @ escape c;
          mark1 = (if length out1 > LINE_LIMIT - MARKER_ROOM \<and> mark = None then Some (length out, at) else mark)
      in if length out1 > LINE_LIMIT then (out1, mark1) else clean_loop cs (at + length c) out1 mark1)"

definition marker :: "nat \<Rightarrow> string" where
  "marker n = CHR '' '' # CHR 0xE2 # CHR 0x80 # CHR 0xA6 # ''[+'' @ decimal n @ '' bytes]''"

definition clean_cut :: "string \<Rightarrow> nat \<Rightarrow> string" where
  "clean_cut line missing =
     (let (out, mark) = clean_loop (utf8_chars line) 0 [] None;
          fits = length out \<le> (if missing > 0 then LINE_LIMIT - MARKER_ROOM else LINE_LIMIT)
      in case (if fits then None else mark) of
           Some (len, at) \<Rightarrow> take len out @ marker (length line - at + missing)
         | None \<Rightarrow> if missing > 0 then out @ marker missing else out)"

definition clean :: "string \<Rightarrow> string" where
  "clean line = clean_cut line 0"

definition is_char_boundary :: "string \<Rightarrow> nat \<Rightarrow> bool" where
  "is_char_boundary s i \<longleftrightarrow> i = 0 \<or> i = length s \<or> (i < length s \<and> \<not> utf8_cont (of_char (s ! i)))"

definition shorten :: "string \<Rightarrow> nat \<Rightarrow> string" where
  "shorten s limit =
     (if length s \<le> limit then s
      else
        let at = (case find (is_char_boundary s) (rev [0..<limit + 1]) of Some i \<Rightarrow> i | None \<Rightarrow> 0)
        in take at s @ marker (length s - at))"

subsection \<open>Arguments\<close>

definition plain_char :: "char \<Rightarrow> bool" where
  "plain_char c \<longleftrightarrow> ascii_alnum c \<or> c \<in> set ''@%+=:,./-_'' \<or> \<not> ascii c"

definition quote :: "string \<Rightarrow> string" where
  "quote argument =
     (if argument \<noteq> [] \<and> list_all plain_char argument then argument
      else CHR 0x27 # replace_all [CHR 0x27] [CHR 0x27, backslash, CHR 0x27, CHR 0x27] argument @ [CHR 0x27])"

definition quote_all :: "string list \<Rightarrow> string" where
  "quote_all argv = join_with '' '' (map quote argv)"

subsection \<open>Sizes\<close>

definition unit_shift :: "char \<Rightarrow> nat option" where
  "unit_shift u =
     (let l = ascii_lower u in
      if u = CHR ''B'' \<or> l = CHR ''b'' then Some 0 else if l = CHR ''k'' then Some 10 else if l = CHR ''m'' then Some 20
      else if l = CHR ''g'' then Some 30 else None)"

definition parse_size :: "string \<Rightarrow> string + nat" where
  "parse_size given =
     (let s = trim given;
          (number, u) = (if s \<noteq> [] \<and> ascii_alphabetic (last s) then (butlast s, last s) else (s, CHR ''B''));
          bad = s @ '': a size is bytes, or a number with K, M or G''
      in case unit_shift u of
           None \<Rightarrow> Inl bad
         | Some shift \<Rightarrow>
             (case parse_uint (2 ^ 64 - 1) (trim number) of
                None \<Rightarrow> Inl bad
              | Some n \<Rightarrow>
                  if n = 0 then Inl (s @ '': a size limit must be more than 0'')
                  else if n * 2 ^ shift < 2 ^ 64 then Inr (n * 2 ^ shift)
                  else Inl (s @ '': too large'')))"

subsection \<open>Files\<close>

text \<open>
  The files on the host are \<open>lf_files\<close>: 0 is the log file itself, \<open>k\<close> the one named FILE.k. Whether a call on
  them succeeds is up to the host: \<open>lh_append n\<close> is \<open>Some k\<close> when the \<open>n\<close>-th call, an append, fails after \<open>k\<close> bytes.
\<close>

record limits =
  lm_max_size :: "nat option"
  lm_rotate :: nat

record log_host =
  lh_append :: "nat \<Rightarrow> nat option"
  lh_rename :: "nat \<Rightarrow> bool"
  lh_open :: "nat \<Rightarrow> bool"

record log_file =
  lf_open :: bool
  lf_size :: nat
  lf_limits :: limits
  lf_full :: bool
  lf_files :: "nat \<rightharpoonup> string"
  lf_calls :: nat

definition held :: "log_file \<Rightarrow> nat \<Rightarrow> string" where
  "held f k = (case lf_files f k of Some s \<Rightarrow> s | None \<Rightarrow> [])"

definition append_text :: "log_host \<Rightarrow> string \<Rightarrow> log_file \<Rightarrow> log_file" where
  "append_text host s f =
     (if \<not> lf_open f then f
      else
        let f1 = f\<lparr>lf_calls := lf_calls f + 1\<rparr> in
        case lh_append host (lf_calls f) of
          None \<Rightarrow> f1\<lparr>lf_files := (lf_files f)(0 \<mapsto> held f 0 @ s), lf_size := lf_size f + length s\<rparr>
        | Some k \<Rightarrow> f1\<lparr>lf_files := (lf_files f)(0 \<mapsto> held f 0 @ take k s)\<rparr>)"

definition rename_file :: "log_host \<Rightarrow> nat \<Rightarrow> nat \<Rightarrow> log_file \<Rightarrow> log_file \<times> bool" where
  "rename_file host a b f =
     (let f1 = f\<lparr>lf_calls := lf_calls f + 1\<rparr> in
      if lf_files f a \<noteq> None \<and> lh_rename host (lf_calls f)
      then (f1\<lparr>lf_files := (lf_files f)(b := lf_files f a, a := None)\<rparr>, True) else (f1, False))"

definition remove_old :: "log_host \<Rightarrow> nat \<Rightarrow> log_file \<Rightarrow> log_file" where
  "remove_old host k f =
     f\<lparr>lf_calls := lf_calls f + 1,
       lf_files := (if lh_rename host (lf_calls f) then (lf_files f)(k := None) else lf_files f)\<rparr>"

definition reopen :: "log_host \<Rightarrow> log_file \<Rightarrow> log_file" where
  "reopen host f =
     (let f1 = f\<lparr>lf_calls := lf_calls f + 1\<rparr> in
      if lh_open host (lf_calls f) then f1\<lparr>lf_open := True, lf_files := (lf_files f)(0 \<mapsto> held f 0)\<rparr>
      else f1\<lparr>lf_open := False\<rparr>)"

definition reopen_empty :: "log_host \<Rightarrow> log_file \<Rightarrow> log_file" where
  "reopen_empty host f =
     (let f1 = f\<lparr>lf_calls := lf_calls f + 1\<rparr> in
      if lh_open host (lf_calls f) then f1\<lparr>lf_open := True, lf_files := (lf_files f)(0 \<mapsto> [])\<rparr>
      else f1\<lparr>lf_open := False\<rparr>)"

definition renumber :: "log_host \<Rightarrow> nat \<Rightarrow> log_file \<Rightarrow> log_file" where
  "renumber host n f = fold (\<lambda>k f. fst (rename_file host k (k + 1) f)) (rev [1..<n]) f"

definition rotate_files :: "log_host \<Rightarrow> log_file \<Rightarrow> log_file" where
  "rotate_files host f =
     (let n = lm_rotate (lf_limits f);
          r = rename_file host 0 1 (renumber host n (remove_old host n (f\<lparr>lf_open := False\<rparr>)));
          reopened = (if snd r then reopen host (fst r) else reopen_empty host (fst r))
      in reopened\<lparr>lf_size := 0\<rparr>)"

definition limit_note :: "string \<Rightarrow> nat \<Rightarrow> string" where
  "limit_note now limit = now @ '' [log] reached its size limit ('' @ decimal limit @ '' bytes): later lines are dropped'' @ [LF]"

definition write_line :: "log_host \<Rightarrow> string \<Rightarrow> string \<Rightarrow> log_file \<Rightarrow> log_file" where
  "write_line host now line f =
     (case lm_max_size (lf_limits f) of
        None \<Rightarrow> append_text host line f
      | Some limit \<Rightarrow>
          if lm_rotate (lf_limits f) = 0 then
            (if lf_full f then f
             else
               let note = limit_note now limit in
               if lf_size f + (length line + length note) \<le> limit then append_text host line f
               else
                 let f1 = f\<lparr>lf_full := True\<rparr> in
                 if lf_size f + length note \<le> limit then append_text host note f1 else f1)
          else
            append_text host line
              (if lf_size f + length line > limit \<and> lf_size f > 0 then rotate_files host f else f))"

definition log_event :: "log_host \<Rightarrow> string \<Rightarrow> string \<Rightarrow> log_file \<Rightarrow> log_file" where
  "log_event host now line f = write_line host now (now @ '' '' @ clean line @ [LF]) f"

subsection \<open>Characters of a text\<close>

lemma utf8_next_prefix:
  assumes "xs \<noteq> []" "fst (utf8_next xs)"
  shows "snd (utf8_next xs) \<le> length xs \<and> utf8_next (xs @ ys) = utf8_next xs"
proof -
  consider a where "xs = [a]" | a b where "xs = [a, b]" | a b c where "xs = [a, b, c]" | a b c d r where "xs = a # b # c # d # r"
    using assms(1) by (metis list.exhaust)
  then show ?thesis
  proof cases
    case 4
    then show ?thesis by (simp add: utf8_next_def Let_def)
  qed (use assms(2) in \<open>simp_all add: utf8_next_def Let_def split: if_splits\<close>)
qed

lemma chars_cons:
  assumes "s \<noteq> []" "fst (utf8_next (map of_char s))"
  shows "utf8_chars (s @ t) = take (snd (utf8_next (map of_char s))) s # utf8_chars (drop (snd (utf8_next (map of_char s))) s @ t)"
proof -
  have "utf8_next (map of_char (s @ t)) = utf8_next (map of_char s)" "snd (utf8_next (map of_char s)) \<le> length s"
    using utf8_next_prefix [of "map of_char s" "map of_char t"] assms by simp_all
  then show ?thesis using assms(1) by (simp add: utf8_chars.simps [of "s @ t"] Let_def)
qed

lemma chars_append: "from_utf8_ok s \<Longrightarrow> utf8_chars (s @ t) = utf8_chars s @ utf8_chars t"
proof (induction s rule: from_utf8_ok.induct)
  case (1 s)
  show ?case
  proof (cases "s = []")
    case True
    then show ?thesis by (simp add: utf8_chars.simps [of "[]"])
  next
    case False
    let ?w = "snd (utf8_next (map of_char s))"
    have ok: "fst (utf8_next (map of_char s))" "from_utf8_ok (drop ?w s)"
      using 1(2) False by (auto simp: from_utf8_ok.simps [of s] Let_def split: if_splits)
    have "utf8_chars (drop ?w s @ t) = utf8_chars (drop ?w s) @ utf8_chars t" using 1(1) [OF False refl ok(1) ok(2)] .
    then show ?thesis using chars_cons [OF False ok(1), of t] chars_cons [OF False ok(1), of "[]"] by simp
  qed
qed

lemma ok_append: "from_utf8_ok s \<Longrightarrow> from_utf8_ok t \<Longrightarrow> from_utf8_ok (s @ t)"
proof (induction s rule: from_utf8_ok.induct)
  case (1 s)
  show ?case
  proof (cases "s = []")
    case False
    let ?w = "snd (utf8_next (map of_char s))"
    have ok: "fst (utf8_next (map of_char s))" "from_utf8_ok (drop ?w s)"
      using 1(2) False by (auto simp: from_utf8_ok.simps [of s] Let_def split: if_splits)
    have "from_utf8_ok (drop ?w s @ t)" by (rule 1(1) [OF False refl ok(1) ok(2) 1(3)])
    moreover have "utf8_next (map of_char (s @ t)) = utf8_next (map of_char s)" "?w \<le> length s"
      using utf8_next_prefix [of "map of_char s" "map of_char t"] False ok(1) by simp_all
    ultimately show ?thesis using False ok(1) by (simp add: from_utf8_ok.simps [of "s @ t"] Let_def)
  qed (use 1(3) in simp)
qed

lemma concat_chars: "concat (utf8_chars s) = s"
proof (induction s rule: utf8_chars.induct)
  case (1 s)
  then show ?case by (cases "s = []") (simp_all add: utf8_chars.simps [of s] utf8_chars.simps [of "[]"] Let_def)
qed

text \<open>The characters of a valid text are valid on their own.\<close>

lemma chars_valid:
  "from_utf8_ok s \<Longrightarrow> list_all (\<lambda>c. from_utf8_ok c \<and> utf8_chars c = [c]) (utf8_chars s)"
proof (induction s rule: from_utf8_ok.induct)
  case (1 s)
  show ?case
  proof (cases "s = []")
    case False
    let ?w = "snd (utf8_next (map of_char s))"
    have ok: "fst (utf8_next (map of_char s))" "from_utf8_ok (drop ?w s)"
      using 1(2) False by (auto simp: from_utf8_ok.simps [of s] Let_def split: if_splits)
    have w: "?w \<le> length s" "0 < ?w" using utf8_next_prefix [of "map of_char s" "[]"] False ok(1) utf8_next_pos by auto
    have "utf8_next (map of_char (take ?w s)) = utf8_next (map of_char s)"
      using ok(1) False w unfolding utf8_next_def Let_def by (cases s) (auto split: if_splits simp: min_def)
    then have "utf8_chars (take ?w s) = [take ?w s]" "from_utf8_ok (take ?w s)"
      using w False ok(1) by (simp_all add: utf8_chars.simps [of "take ?w s"] from_utf8_ok.simps [of "take ?w s"]
          utf8_chars.simps [of "[]"] from_utf8_ok.simps [of "[]"] Let_def)
    then show ?thesis using 1(1) [OF False refl ok(1) ok(2)] chars_cons [OF False ok(1), of "[]"] by simp
  qed (simp add: utf8_chars.simps)
qed

subsection \<open>Safe lines\<close>

definition printable :: "string \<Rightarrow> bool" where
  "printable c \<longleftrightarrow> \<not> controls (code_point c) \<and> \<not> reorders (code_point c)"

definition line_safe :: "string \<Rightarrow> bool" where
  "line_safe s \<longleftrightarrow> from_utf8_ok s \<and> list_all printable (utf8_chars s)"

definition escaped :: "string list \<Rightarrow> string" where
  "escaped cs = concat (map escape cs)"

lemma escaped_simps [simp]: "escaped [] = []" "escaped (c # cs) = escape c @ escaped cs" "escaped (cs @ ds) = escaped cs @ escaped ds"
  by (simp_all add: escaped_def)

lemma safe_append: "line_safe s \<Longrightarrow> line_safe t \<Longrightarrow> line_safe (s @ t)"
  by (simp add: line_safe_def ok_append chars_append)

lemma safe_ascii: "list_all (\<lambda>c. (32 :: nat) \<le> of_char c \<and> of_char c < (127 :: nat)) s \<Longrightarrow> line_safe s"
proof -
  assume *: "list_all (\<lambda>c. (32 :: nat) \<le> of_char c \<and> of_char c < (127 :: nat)) s"
  then have "list_all ascii s" by (auto simp: list_all_iff ascii_def)
  with * show ?thesis
    by (auto simp: line_safe_def ascii_chars ascii_valid list_all_iff printable_def code_point_def controls_def reorders_def)
qed

lemma hex_plain: "list_all (\<lambda>c. (32 :: nat) \<le> of_char c \<and> of_char c < (127 :: nat)) (hex n)"
proof (induction n rule: hex.induct)
  case (1 n)
  show ?case
  proof (cases "n < 16")
    case False
    have "n mod 16 < 16" by simp
    then have "n mod 16 < 40" by linarith
    then show ?thesis using 1 False by (simp add: hex.simps [of n] Let_def)
  qed (simp add: hex.simps [of n] Let_def)
qed

lemma decimal_plain: "list_all (\<lambda>c. (32 :: nat) \<le> of_char c \<and> of_char c < (127 :: nat)) (decimal n)"
  using decimal_digits [of n] by (auto simp: list_all_iff ascii_digit_def)

lemma safe_char: "from_utf8_ok c \<Longrightarrow> utf8_chars c = [c] \<Longrightarrow> line_safe (escape c)"
proof -
  assume c: "from_utf8_ok c" "utf8_chars c = [c]"
  show ?thesis
  proof (cases "controls (code_point c) \<or> reorders (code_point c)")
    case True
    then have "list_all (\<lambda>x. (32 :: nat) \<le> of_char x \<and> of_char x < (127 :: nat)) (escape c)"
      using hex_plain [of "code_point c"] by (auto simp: escape_def backslash_def hex2_def Let_def)
    then show ?thesis by (rule safe_ascii)
  next
    case False
    then have "escape c = c" by (auto simp: escape_def controls_def Let_def)
    with False c show ?thesis by (simp add: line_safe_def printable_def)
  qed
qed

lemma safe_nil [simp]: "line_safe []"
  by (simp add: line_safe_def from_utf8_ok.simps utf8_chars.simps)

lemma safe_escaped: "list_all (\<lambda>c. from_utf8_ok c \<and> utf8_chars c = [c]) cs \<Longrightarrow> line_safe (escaped cs)"
  by (induction cs) (auto intro: safe_append safe_char)

lemma ellipsis_safe: "line_safe [CHR 0xE2, CHR 0x80, CHR 0xA6]"
  by (simp add: line_safe_def from_utf8_ok.simps utf8_chars.simps utf8_next_def utf8_width_def utf8_second_def utf8_cont_def
      printable_def code_point_def controls_def reorders_def Let_def)

lemma marker_safe: "line_safe (marker n)"
proof -
  have "marker n = '' '' @ [CHR 0xE2, CHR 0x80, CHR 0xA6] @ ''[+'' @ decimal n @ '' bytes]''" by (simp add: marker_def)
  moreover have "line_safe '' ''" "line_safe (''[+'' @ decimal n @ '' bytes]'')"
    by (rule safe_ascii, simp) (rule safe_ascii, simp add: decimal_plain)
  ultimately show ?thesis using ellipsis_safe by (simp only: safe_append)
qed

lemma length_decimal: "n < 10 ^ k \<Longrightarrow> 0 < k \<Longrightarrow> length (decimal n) \<le> k"
proof (induction k arbitrary: n)
  case (Suc k)
  show ?case
  proof (cases "n < 10")
    case False
    then have "k \<noteq> 0" "n div 10 < 10 ^ k" using Suc.prems by (cases k; auto simp: less_mult_imp_div_less mult.commute)+
    then show ?thesis using Suc.IH [of "n div 10"] False by (simp add: decimal.simps [of n])
  qed (simp add: decimal.simps [of n])
qed simp

lemma length_marker: "n < 2 ^ 64 \<Longrightarrow> length (marker n) \<le> MARKER_ROOM"
proof -
  assume "n < 2 ^ 64"
  then have "n < 10 ^ 20" by simp
  then have "length (decimal n) \<le> 20" by (rule length_decimal) simp
  then show ?thesis by (simp add: marker_def MARKER_ROOM_def)
qed

subsection \<open>Cutting\<close>

lemma clean_loop_spec:
  assumes "clean_loop cs at out mark = (out', mark')" "length out \<le> LINE_LIMIT"
    "mark = None \<longleftrightarrow> length out \<le> LINE_LIMIT - MARKER_ROOM"
  shows "(length out' \<le> LINE_LIMIT \<longrightarrow> out' = out @ escaped cs) \<and> (mark' = None \<longleftrightarrow> length out' \<le> LINE_LIMIT - MARKER_ROOM) \<and>
    (\<exists>more. out' = out @ more) \<and> (mark \<noteq> None \<longrightarrow> mark' = mark) \<and>
    (mark = None \<longrightarrow> (\<forall>len at'. mark' = Some (len, at') \<longrightarrow> (\<exists>ds es. cs = ds @ es \<and> es \<noteq> [] \<and> take len out' = out @ escaped ds \<and>
       len = length (out @ escaped ds) \<and> len \<le> LINE_LIMIT - MARKER_ROOM \<and> at' = at + length (concat ds))))"
  using assms
proof (induction cs arbitrary: at out mark)
  case (Cons c cs)
  let ?room = "LINE_LIMIT - MARKER_ROOM" and ?out = "out @ escape c"
  let ?mark = "if length ?out > ?room \<and> mark = None then Some (length out, at) else mark"
  show ?case
  proof (cases "length ?out > LINE_LIMIT")
    case True
    then have r: "out' = ?out" "mark' = ?mark" using Cons.prems(1) by (auto simp: Let_def)
    have big: "length ?out > ?room" using True by simp
    show ?thesis
    proof (cases "mark = None")
      case none: True
      have "\<exists>ds es. c # cs = ds @ es \<and> es \<noteq> [] \<and> take (length out) out' = out @ escaped ds \<and> length out = length (out @ escaped ds) \<and>
          length out \<le> ?room \<and> at = at + length (concat ds)"
        using r none Cons.prems(3) by (intro exI [of _ "[]"] exI [of _ "c # cs"]) simp
      then show ?thesis using r big none True by auto
    qed (use r big True in auto)
  next
    case False
    then have l: "clean_loop cs (at + length c) ?out ?mark = (out', mark')" using Cons.prems(1) by (simp add: Let_def)
    have m: "?mark = None \<longleftrightarrow> length ?out \<le> ?room" using Cons.prems(3) by auto
    note IH = Cons.IH [OF l _ m]
    have small: "length ?out \<le> LINE_LIMIT" using False by simp
    show ?thesis
    proof (cases "mark = None \<and> length ?out > ?room")
      case True
      then have mk: "mark' = Some (length out, at)" using IH [OF small] by simp
      obtain more where o: "out' = ?out @ more" using IH [OF small] by blast
      have "\<exists>ds es. c # cs = ds @ es \<and> es \<noteq> [] \<and> take (length out) out' = out @ escaped ds \<and> length out = length (out @ escaped ds) \<and>
          length out \<le> ?room \<and> at = at + length (concat ds)"
        using o True Cons.prems(3) by (intro exI [of _ "[]"] exI [of _ "c # cs"]) simp
      then show ?thesis using IH [OF small] True mk by auto
    next
      case no: False
      show ?thesis
      proof (cases "mark = None")
        case True
        have "\<exists>ds es. c # cs = ds @ es \<and> es \<noteq> [] \<and> take len out' = out @ escaped ds \<and> len = length (out @ escaped ds) \<and> len \<le> ?room \<and>
            at' = at + length (concat ds)" if mk: "mark' = Some (len, at')" for len at'
        proof -
          obtain ds es where "cs = ds @ es" "es \<noteq> []" "take len out' = ?out @ escaped ds" "len = length (?out @ escaped ds)" "len \<le> ?room"
            "at' = at + length c + length (concat ds)" using IH [OF small] no True mk by auto
          then show ?thesis by (intro exI [of _ "c # ds"] exI [of _ es]) simp
        qed
        then show ?thesis using IH [OF small] no True by auto
      qed (use IH [OF small] no in auto)
    qed
  qed
qed auto

lemma chars_nonempty: "c \<in> set (utf8_chars s) \<Longrightarrow> c \<noteq> []"
proof (induction s rule: utf8_chars.induct)
  case (1 s)
  then show ?case using utf8_next_pos [of "map of_char s"]
    by (cases "s = []") (auto simp: utf8_chars.simps [of s] utf8_chars.simps [of "[]"] Let_def)
qed

lemma clean_cut_spec:
  assumes "length line + missing < 2 ^ 64"
  shows "\<exists>cs ds. utf8_chars line = cs @ ds \<and>
    clean_cut line missing = escaped cs @ (if length (concat ds) + missing = 0 then [] else marker (length (concat ds) + missing)) \<and>
    length (clean_cut line missing) \<le> LINE_LIMIT"
proof -
  let ?room = "LINE_LIMIT - MARKER_ROOM"
  obtain out mark where l: "clean_loop (utf8_chars line) 0 [] None = (out, mark)" by fastforce
  note spec = clean_loop_spec [OF l]
  have limits: "MARKER_ROOM \<le> LINE_LIMIT" by (simp add: LINE_LIMIT_def MARKER_ROOM_def)
  have parts: "length line = length (concat cs) + length (concat ds)" if "utf8_chars line = cs @ ds" for cs ds
    using arg_cong [OF that, of concat] concat_chars [of line] by (metis concat_append length_append)
  show ?thesis
  proof (cases "length out \<le> (if missing > 0 then ?room else LINE_LIMIT)")
    case True
    then have "out = escaped (utf8_chars line)" using spec by (auto split: if_splits)
    moreover have "clean_cut line missing = out @ (if missing = 0 then [] else marker missing)"
      using l True by (simp add: clean_cut_def Let_def)
    moreover have "length (marker missing) \<le> MARKER_ROOM" by (rule length_marker) (use assms in simp)
    ultimately show ?thesis using True limits by (intro exI [of _ "utf8_chars line"] exI [of _ "[]"]) (auto split: if_splits)
  next
    case False
    then have "length out > ?room" by (auto split: if_splits)
    then obtain len at where m: "mark = Some (len, at)" using spec by fastforce
    then obtain ds es where d: "utf8_chars line = ds @ es" "es \<noteq> []" "take len out = escaped ds" "len = length (escaped ds)"
      "len \<le> ?room" "at = length (concat ds)" using spec by auto
    have n: "length line - at = length (concat es)" using parts [OF d(1)] d(6) by simp
    have "clean_cut line missing = escaped ds @ marker (length (concat es) + missing)"
      using l False m d(3) n by (simp add: clean_cut_def Let_def)
    moreover have "length (concat es) > 0"
    proof -
      have "hd es \<in> set (utf8_chars line)" using d(1,2) by simp
      then show ?thesis using d(2) chars_nonempty [of "hd es" line] by (cases es) auto
    qed
    moreover have "length (marker (length (concat es) + missing)) \<le> MARKER_ROOM"
      by (rule length_marker) (use assms parts [OF d(1)] in simp)
    ultimately show ?thesis using d limits by (intro exI [of _ ds] exI [of _ es]) auto
  qed
qed

lemma clean_loop_prefix: "\<exists>more. out @ escaped cs = fst (clean_loop cs at out mark) @ more"
proof (induction cs arbitrary: at out mark)
  case (Cons c cs)
  show ?case
  proof (cases "length (out @ escape c) > LINE_LIMIT")
    case True
    then show ?thesis by (auto simp: Let_def)
  next
    case False
    then show ?thesis
      using Cons.IH [of "out @ escape c" "at + length c"
          "if length (out @ escape c) > LINE_LIMIT - MARKER_ROOM \<and> mark = None then Some (length out, at) else mark"]
      by (simp add: Let_def)
  qed
qed simp

lemma clean_whole: "length (escaped (utf8_chars line)) \<le> LINE_LIMIT \<Longrightarrow> clean line = escaped (utf8_chars line)"
proof -
  assume small: "length (escaped (utf8_chars line)) \<le> LINE_LIMIT"
  obtain out mark where l: "clean_loop (utf8_chars line) 0 [] None = (out, mark)" by fastforce
  obtain more where "escaped (utf8_chars line) = out @ more"
    using clean_loop_prefix [of "[]" "utf8_chars line" 0 None] l by auto
  then have "length out \<le> LINE_LIMIT" using small by simp
  moreover from this have "out = escaped (utf8_chars line)" using clean_loop_spec [OF l] by simp
  ultimately show ?thesis using l by (simp add: clean_def clean_cut_def Let_def)
qed

lemma escape_printable: "printable c \<Longrightarrow> escape c = c"
  by (auto simp: escape_def printable_def controls_def Let_def)

lemma escaped_safe: "line_safe s \<Longrightarrow> escaped (utf8_chars s) = s"
proof -
  assume "line_safe s"
  then have "map escape (utf8_chars s) = utf8_chars s"
    by (auto simp: line_safe_def list_all_iff escape_printable intro: map_idI)
  then show ?thesis by (simp add: escaped_def concat_chars)
qed

lemma clean_safe_id: "line_safe s \<Longrightarrow> length s \<le> LINE_LIMIT \<Longrightarrow> clean s = s"
  using clean_whole [of s] escaped_safe [of s] by simp

lemma clean_cut_safe: "from_utf8_ok line \<Longrightarrow> length line + missing < 2 ^ 64 \<Longrightarrow> line_safe (clean_cut line missing)"
proof -
  assume "from_utf8_ok line" "length line + missing < 2 ^ 64"
  then obtain cs ds where u: "utf8_chars line = cs @ ds"
    "clean_cut line missing = escaped cs @ (if length (concat ds) + missing = 0 then [] else marker (length (concat ds) + missing))"
    using clean_cut_spec [of line missing] by blast
  have "line_safe (escaped cs)"
    by (rule safe_escaped) (use chars_valid [OF \<open>from_utf8_ok line\<close>] u(1) in simp)
  then show ?thesis using u(2) marker_safe by (auto intro: safe_append)
qed

text \<open>C28: A line of a log, whatever a guest put into it, comes out of \<open>clean_cut\<close> as one safe line: valid UTF-8
  without a control character or one that reorders text (so no line break and no terminal escape), of at most
  LINE_LIMIT bytes. What it holds is the line's characters, each escaped, up to some character, and then a marker that
  counts exactly the bytes left out there and by the caller; a line that fits is kept whole; and cleaning it again
  changes nothing.\<close>

theorem log_line_safe:
  assumes "from_utf8_ok line" "length line + missing < 2 ^ 64"
  shows "line_safe (clean_cut line missing) \<and> length (clean_cut line missing) \<le> LINE_LIMIT \<and>
    (\<exists>kept left. utf8_chars line = kept @ left \<and>
       clean_cut line missing =
         escaped kept @ (if length (concat left) + missing = 0 then [] else marker (length (concat left) + missing))) \<and>
    (length (escaped (utf8_chars line)) \<le> LINE_LIMIT \<longrightarrow> clean line = escaped (utf8_chars line)) \<and>
    clean (clean_cut line missing) = clean_cut line missing"
proof (intro conjI)
  show safe: "line_safe (clean_cut line missing)" by (rule clean_cut_safe [OF assms])
  show small: "length (clean_cut line missing) \<le> LINE_LIMIT" using clean_cut_spec [OF assms(2)] by blast
  show "clean (clean_cut line missing) = clean_cut line missing" by (rule clean_safe_id [OF safe small])
qed (use clean_cut_spec [OF assms(2)] clean_whole in blast)+

theorem log_line_safe_witness:
  "clean_cut [CHR ''a'', LF, CHR 0x1B] 7 = ''a'' @ [backslash, CHR ''n'', backslash] @ ''x1b'' @ marker 7 \<and>
   line_safe (clean_cut [CHR ''a'', LF, CHR 0x1B] 7)"
proof -
  let ?line = "[CHR ''a'', LF, CHR 0x1B]"
  have a: "list_all ascii ?line" by (simp add: ascii_def LF_def)
  have "utf8_chars ?line = [''a'', [LF], [CHR 0x1B]]" using ascii_chars [OF a] by simp
  moreover have "escape ''a'' = ''a''" "escape [LF] = [backslash, CHR ''n'']" "escape [CHR 0x1B] = backslash # ''x1b''"
    by (simp_all add: escape_def code_point_def controls_def reorders_def hex2_def hex.simps char_of_eq_iff LF_def)
  ultimately have "clean_cut ?line 7 = ''a'' @ [backslash, CHR ''n'', backslash] @ ''x1b'' @ marker 7"
    by (simp add: clean_cut_def LINE_LIMIT_def MARKER_ROOM_def)
  then show ?thesis using log_line_safe [of ?line 7] ascii_valid [OF a] by simp
qed

subsection \<open>Files within their limit\<close>

definition write_lines :: "log_host \<Rightarrow> (string \<times> string) list \<Rightarrow> log_file \<Rightarrow> log_file" where
  "write_lines host events f = fold (\<lambda>(now, line) f. write_line host now line f) events f"

definition within :: "nat \<Rightarrow> string set \<Rightarrow> string \<Rightarrow> bool" where
  "within limit lines s \<longleftrightarrow> length s \<le> limit \<or> s \<in> lines"

text \<open>An append that fails leaves the file as it was.\<close>

definition atomic_appends :: "log_host \<Rightarrow> bool" where
  "atomic_appends host \<longleftrightarrow> (\<forall>n. lh_append host n = None \<or> lh_append host n = Some 0)"

definition host_fine :: "log_host \<Rightarrow> bool" where
  "host_fine host \<longleftrightarrow> (\<forall>n. lh_append host n = None \<and> lh_rename host n \<and> lh_open host n)"

definition counted :: "log_file \<Rightarrow> bool" where
  "counted f \<longleftrightarrow> (if lf_open f then lf_size f = length (held f 0) \<and> lf_files f 0 \<noteq> None else lf_size f = 0)"

definition all_within :: "string set \<Rightarrow> nat \<Rightarrow> nat \<Rightarrow> log_file \<Rightarrow> bool" where
  "all_within lines limit n f \<longleftrightarrow> (\<forall>k\<le>n. within limit lines (held f k))"

lemma within_nil [simp]: "within limit lines []"
  by (simp add: within_def)

lemma held_simps [simp]:
  "held (f\<lparr>lf_open := b\<rparr>) k = held f k" "held (f\<lparr>lf_size := s\<rparr>) k = held f k" "held (f\<lparr>lf_calls := c\<rparr>) k = held f k"
  "held (f\<lparr>lf_full := b\<rparr>) k = held f k"
  "held (f\<lparr>lf_files := m\<rparr>) k = (case m k of Some s \<Rightarrow> s | None \<Rightarrow> [])"
  by (simp_all add: held_def)

lemma append_text_result:
  assumes "atomic_appends host" "counted f"
  shows "counted (append_text host s f) \<and>
    (held (append_text host s f) = held f \<or> lf_open f \<and> held (append_text host s f) = (held f)(0 := held f 0 @ s))"
proof (cases "lf_open f")
  case True
  have "lh_append host (lf_calls f) = None \<or> lh_append host (lf_calls f) = Some 0" using assms(1) by (simp add: atomic_appends_def)
  then show ?thesis using True assms(2) by (auto simp: append_text_def counted_def held_def fun_eq_iff Let_def split: if_splits)
qed (use assms(2) in \<open>simp add: append_text_def\<close>)

lemma append_keeps [simp]:
  "lf_limits (append_text host s f) = lf_limits f" "lf_open (append_text host s f) = lf_open f" "lf_full (append_text host s f) = lf_full f"
  by (simp_all add: append_text_def Let_def split: option.splits)

lemma rename_keeps [simp]:
  "lf_limits (fst (rename_file host a b f)) = lf_limits f" "lf_open (fst (rename_file host a b f)) = lf_open f"
  "lf_full (fst (rename_file host a b f)) = lf_full f"
  by (simp_all add: rename_file_def Let_def)

lemma rename_within: "all_within lines limit n f \<Longrightarrow> a \<le> n \<Longrightarrow> all_within lines limit n (fst (rename_file host a b f))"
  by (auto simp: all_within_def rename_file_def Let_def held_def)

lemma renames_within:
  "all_within lines limit n f \<Longrightarrow> set ks \<subseteq> {..n} \<Longrightarrow>
     all_within lines limit n (fold (\<lambda>k f. fst (rename_file host k (k + 1) f)) ks f)"
  by (induction ks arbitrary: f) (simp_all add: rename_within)

lemma renumber_keeps [simp]:
  "lf_limits (renumber host n f) = lf_limits f" "lf_full (renumber host n f) = lf_full f" "lf_open (renumber host n f) = lf_open f"
proof -
  have "lf_limits (fold (\<lambda>k f. fst (rename_file host k (k + 1) f)) ks f) = lf_limits f \<and>
      lf_full (fold (\<lambda>k f. fst (rename_file host k (k + 1) f)) ks f) = lf_full f \<and>
      lf_open (fold (\<lambda>k f. fst (rename_file host k (k + 1) f)) ks f) = lf_open f" for ks
    by (induction ks arbitrary: f) simp_all
  then show "lf_limits (renumber host n f) = lf_limits f" "lf_full (renumber host n f) = lf_full f"
    "lf_open (renumber host n f) = lf_open f" by (simp_all add: renumber_def)
qed

lemma rotate_within: "all_within lines limit n f \<Longrightarrow> lm_rotate (lf_limits f) = n \<Longrightarrow> all_within lines limit n (rotate_files host f)"
proof -
  assume w: "all_within lines limit n f" and n: "lm_rotate (lf_limits f) = n"
  let ?f1 = "remove_old host n (f\<lparr>lf_open := False\<rparr>)"
  have "all_within lines limit n ?f1" using w by (auto simp: all_within_def remove_old_def held_def split: option.splits)
  then have "all_within lines limit n (renumber host n ?f1)" unfolding renumber_def by (rule renames_within) auto
  then have "all_within lines limit n (fst (rename_file host 0 1 (renumber host n ?f1)))" by (rule rename_within) simp
  then show ?thesis
    using n by (auto simp: rotate_files_def reopen_def reopen_empty_def all_within_def held_def Let_def)
qed

lemma rotate_keeps [simp]: "lf_limits (rotate_files host f) = lf_limits f"
  "lf_full (rotate_files host f) = lf_full f"
  by (simp_all add: rotate_files_def reopen_def reopen_empty_def remove_old_def Let_def)

lemma rotate_counted: "counted (rotate_files host f)" and rotate_empty: "lf_open (rotate_files host f) \<Longrightarrow> held (rotate_files host f) 0 = []"
  by (auto simp: rotate_files_def reopen_def reopen_empty_def rename_file_def counted_def held_def Let_def split: if_splits)

lemma write_within:
  assumes "atomic_appends host" "counted f" "all_within lines limit n f" "lf_limits f = \<lparr>lm_max_size = Some limit, lm_rotate = n\<rparr>" "line \<in> lines"
  shows "counted (write_line host now line f) \<and> all_within lines limit n (write_line host now line f) \<and>
    lf_limits (write_line host now line f) = lf_limits f"
proof (cases "n = 0")
  case True
  have add: "counted (append_text host s g) \<and> all_within lines limit n (append_text host s g)"
    if "counted g" "all_within lines limit n g" "lf_size g + length s \<le> limit" for s g
    using append_text_result [OF assms(1) that(1), of s] that unfolding all_within_def counted_def within_def by fastforce
  have "counted (f\<lparr>lf_full := True\<rparr>)" "all_within lines limit n (f\<lparr>lf_full := True\<rparr>)"
    using assms(2,3) by (simp_all add: counted_def all_within_def)
  then show ?thesis using True assms(2-4) add [of f line] add [of "f\<lparr>lf_full := True\<rparr>"]
    by (simp add: write_line_def Let_def)
next
  case False
  let ?g = "if lf_size f + length line > limit \<and> lf_size f > 0 then rotate_files host f else f"
  have g: "counted ?g" "all_within lines limit n ?g" using assms(2-4) by (simp_all add: rotate_counted rotate_within)
  have room: "within limit lines (held ?g 0 @ line)" if "lf_open ?g"
    using that assms(2,5) rotate_empty [of host f] by (auto simp: within_def counted_def)
  have w: "write_line host now line f = append_text host line ?g" using False assms(4) by (simp add: write_line_def)
  show ?thesis using append_text_result [OF assms(1) g(1), of line] w room g assms(4) by (auto simp: all_within_def)
qed

lemma write_lines_within:
  assumes "atomic_appends host" "counted f" "all_within lines limit n f" "lf_limits f = \<lparr>lm_max_size = Some limit, lm_rotate = n\<rparr>"
    "snd ` set events \<subseteq> lines"
  shows "counted (write_lines host events f) \<and> all_within lines limit n (write_lines host events f) \<and>
    lf_limits (write_lines host events f) = lf_limits f"
  using assms(2-5)
proof (induction events arbitrary: f)
  case (Cons e events)
  obtain now line where e: "e = (now, line)" by fastforce
  have "line \<in> lines" using Cons.prems(4) e by simp
  note w = write_within [OF assms(1) Cons.prems(1-3) this, of now]
  show ?case using Cons.IH [of "write_line host now line f"] w Cons.prems(3,4) e by (simp add: write_lines_def)
qed (simp add: write_lines_def)

subsection \<open>What rotation keeps\<close>

primrec kept :: "nat \<Rightarrow> log_file \<Rightarrow> string" where
  "kept 0 f = held f 0"
| "kept (Suc k) f = held f (Suc k) @ kept k f"

lemma kept_cong: "(\<And>k. k \<le> n \<Longrightarrow> held f k = held g k) \<Longrightarrow> kept n f = kept n g"
  by (induction n) simp_all

lemma kept_append: "held g = (held f)(0 := held f 0 @ s) \<Longrightarrow> kept n g = kept n f @ s"
  by (induction n) simp_all

lemma kept_move:
  "held g = (held f)(Suc k := held f k, k := []) \<Longrightarrow> held f (Suc k) = [] \<Longrightarrow> k < n \<Longrightarrow> kept n g = kept n f"
proof (induction n)
  case (Suc n)
  show ?case
  proof (cases "k = n")
    case True
    then show ?thesis using Suc.prems kept_cong [of "n - 1" g f] by (cases n) auto
  next
    case False
    then show ?thesis using Suc by simp
  qed
qed simp

lemma rename_kept:
  assumes "host_fine host" "lf_files f (Suc k) = None" "k < n"
  shows "kept n (fst (rename_file host k (Suc k) f)) = kept n f" "lf_files (fst (rename_file host k (Suc k) f)) k = None"
    "j \<noteq> k \<Longrightarrow> j \<noteq> Suc k \<Longrightarrow> lf_files (fst (rename_file host k (Suc k) f)) j = lf_files f j"
    "snd (rename_file host k (Suc k) f) \<longleftrightarrow> lf_files f k \<noteq> None"
proof -
  let ?g = "fst (rename_file host k (Suc k) f)"
  have "held ?g = (held f)(Suc k := held f k, k := [])"
    using assms(1,2) by (auto simp: rename_file_def host_fine_def held_def fun_eq_iff Let_def)
  then show "kept n ?g = kept n f" by (rule kept_move) (use assms in \<open>simp_all add: held_def\<close>)
qed (use assms in \<open>auto simp: rename_file_def host_fine_def Let_def\<close>)

lemma renumber_kept:
  assumes "host_fine host" "lf_files f m = None" "m \<le> n" "0 < m"
  shows "kept n (renumber host m f) = kept n f \<and> lf_files (renumber host m f) 1 = None \<and>
    lf_files (renumber host m f) 0 = lf_files f 0"
  using assms
proof (induction m arbitrary: f)
  case (Suc m)
  show ?case
  proof (cases "m = 0")
    case False
    let ?g = "fst (rename_file host m (Suc m) f)"
    have "renumber host (Suc m) f = renumber host m ?g" using False by (simp add: renumber_def)
    moreover have "kept n ?g = kept n f" "lf_files ?g m = None" "lf_files ?g 0 = lf_files f 0"
      using rename_kept(1,2) [of host f m n] rename_kept(3) [of host f m n 0] Suc.prems False by simp_all
    ultimately show ?thesis using Suc False by simp
  qed (use Suc in \<open>simp add: renumber_def\<close>)
qed simp

lemma kept_last: "kept n f = held f n @ kept n g" if "held g = (held f)(n := [])" "0 < n"
  using that kept_cong [of "n - 1" f g] by (cases n) auto

lemma rotate_kept:
  assumes "host_fine host" "0 < lm_rotate (lf_limits f)" "lf_files f 0 \<noteq> None"
  shows "kept (lm_rotate (lf_limits f)) f = held f (lm_rotate (lf_limits f)) @ kept (lm_rotate (lf_limits f)) (rotate_files host f) \<and>
    held (rotate_files host f) 0 = [] \<and> lf_open (rotate_files host f)"
proof -
  let ?n = "lm_rotate (lf_limits f)"
  let ?f1 = "remove_old host ?n (f\<lparr>lf_open := False\<rparr>)"
  let ?f2 = "renumber host ?n ?f1"
  let ?f3 = "fst (rename_file host 0 1 ?f2)"
  have h1: "held ?f1 = (held f)(?n := [])" "lf_files ?f1 ?n = None"
    using assms(1) by (auto simp: remove_old_def host_fine_def held_def fun_eq_iff)
  have f2: "kept ?n ?f2 = kept ?n ?f1" "lf_files ?f2 1 = None" "lf_files ?f2 0 \<noteq> None"
    using renumber_kept [OF assms(1) h1(2) order.refl assms(2)] assms(1,2,3) by (auto simp: remove_old_def host_fine_def)
  have f3: "kept ?n ?f3 = kept ?n ?f2" "lf_files ?f3 0 = None" "snd (rename_file host 0 1 ?f2)"
    using rename_kept(1,2,4) [OF assms(1), of ?f2 0 ?n] f2 assms(2) by simp_all
  then have "held (rotate_files host f) = held ?f3" "held (rotate_files host f) 0 = []" "lf_open (rotate_files host f)"
    using assms(1) by (auto simp: rotate_files_def reopen_def host_fine_def held_def fun_eq_iff Let_def)
  then show ?thesis
    using kept_last [OF h1(1) assms(2)] f2 f3 kept_cong [of ?n "rotate_files host f" ?f3] by simp
qed

lemma append_fine:
  assumes "host_fine host" "lf_open f"
  shows "held (append_text host s f) = (held f)(0 := held f 0 @ s)"
  using assms by (auto simp: append_text_def host_fine_def held_def fun_eq_iff Let_def)

lemma fine_atomic: "host_fine host \<Longrightarrow> atomic_appends host"
  by (simp add: host_fine_def atomic_appends_def)

lemma write_kept:
  assumes "host_fine host" "counted f" "lf_open f" "lf_limits f = \<lparr>lm_max_size = Some limit, lm_rotate = n\<rparr>" "0 < n"
  shows "\<exists>dropped before. kept n f @ line = dropped @ kept n (write_line host now line f) \<and>
    held (write_line host now line f) 0 = before @ line \<and> lf_open (write_line host now line f)"
proof -
  let ?g = "if lf_size f + length line > limit \<and> lf_size f > 0 then rotate_files host f else f"
  have w: "write_line host now line f = append_text host line ?g" using assms(4,5) by (simp add: write_line_def)
  have r: "kept n f = held f n @ kept n (rotate_files host f) \<and> lf_open (rotate_files host f)"
    using rotate_kept [OF assms(1), of f] assms(2-5) by (simp add: counted_def)
  then have g: "lf_open ?g" "\<exists>dropped. kept n f = dropped @ kept n ?g" using assms(3) by auto
  note a = append_fine [OF assms(1) g(1), of line]
  obtain dropped where d: "kept n f = dropped @ kept n ?g" using g(2) by blast
  have "kept n f @ line = dropped @ kept n (write_line host now line f)" unfolding w using d kept_append [OF a] by simp
  moreover have "held (write_line host now line f) 0 = held ?g 0 @ line" "lf_open (write_line host now line f)"
    unfolding w using a g(1) by simp_all
  ultimately show ?thesis by blast
qed

lemma write_lines_kept:
  assumes "host_fine host" "counted f" "lf_open f" "lf_limits f = \<lparr>lm_max_size = Some limit, lm_rotate = n\<rparr>" "0 < n"
  shows "\<exists>dropped. kept n f @ concat (map snd events) = dropped @ kept n (write_lines host events f)"
  using assms(2-4)
proof (induction events arbitrary: f)
  case (Cons e events)
  obtain now line where e: "e = (now, line)" by fastforce
  let ?g = "write_line host now line f"
  obtain d where d: "kept n f @ line = d @ kept n ?g" "lf_open ?g" using write_kept [OF assms(1) Cons.prems assms(5)] by blast
  have g: "counted ?g" "lf_limits ?g = lf_limits f"
    using write_within [OF fine_atomic [OF assms(1)] Cons.prems(1) _ Cons.prems(3), of UNIV line now] by (auto simp: all_within_def within_def)
  obtain d' where "kept n ?g @ concat (map snd events) = d' @ kept n (write_lines host events ?g)"
    using Cons.IH [OF g(1) d(2)] g(2) Cons.prems(3) by auto
  then have "kept n f @ concat (map snd (e # events)) = (d @ d') @ kept n (write_lines host (e # events) f)"
    using d(1) e by (simp add: write_lines_def) (metis append_assoc)
  then show ?case by blast
qed (simp add: write_lines_def)

lemma write_lines_full: "lf_full f \<Longrightarrow> lf_limits f = \<lparr>lm_max_size = Some limit, lm_rotate = 0\<rparr> \<Longrightarrow> write_lines host events f = f"
  by (induction events) (auto simp: write_lines_def write_line_def)

lemma write_lines_dropped:
  assumes "host_fine host" "lf_open f" "lf_limits f = \<lparr>lm_max_size = Some limit, lm_rotate = 0\<rparr>"
  shows "\<exists>m note. held (write_lines host events f) 0 = held f 0 @ concat (map snd (take m events)) @ note \<and>
    (note = [] \<or> note \<in> range (\<lambda>now. limit_note now limit))"
  using assms(2,3)
proof (induction events arbitrary: f)
  case (Cons e events)
  obtain now line where e: "e = (now, line)" by fastforce
  let ?note = "limit_note now limit" and ?f = "f\<lparr>lf_full := True\<rparr>"
  consider "lf_full f" | "\<not> lf_full f" "lf_size f + (length line + length ?note) \<le> limit"
    | "\<not> lf_full f" "\<not> lf_size f + (length line + length ?note) \<le> limit" by blast
  then show ?case
  proof cases
    case 1
    then show ?thesis using write_lines_full [OF _ Cons.prems(2)] by (intro exI [of _ 0] exI [of _ "[]"]) simp
  next
    case 2
    let ?g = "append_text host line f"
    have "write_lines host (e # events) f = write_lines host events ?g"
      using 2 e Cons.prems(2) by (simp add: write_lines_def write_line_def)
    moreover obtain m nt where "held (write_lines host events ?g) 0 = held ?g 0 @ concat (map snd (take m events)) @ nt"
      "nt = [] \<or> nt \<in> range (\<lambda>now. limit_note now limit)" using Cons.IH [of ?g] Cons.prems by auto
    ultimately show ?thesis
      using append_fine [OF assms(1) Cons.prems(1)] e by (intro exI [of _ "Suc m"] exI [of _ nt]) simp
  next
    case 3
    let ?g = "if lf_size f + length ?note \<le> limit then append_text host ?note ?f else ?f"
    have "write_lines host (e # events) f = write_lines host events ?g"
      using 3 e Cons.prems(2) by (simp add: write_lines_def write_line_def Let_def)
    moreover have "write_lines host events ?g = ?g" by (rule write_lines_full) (use Cons.prems(2) in simp_all)
    moreover have "held ?g 0 = held f 0 \<or> held ?g 0 = held f 0 @ ?note"
      using append_fine [OF assms(1), of ?f ?note] Cons.prems(1) by simp
    ultimately have "held (write_lines host (e # events) f) 0 = held f 0 \<or> held (write_lines host (e # events) f) 0 = held f 0 @ ?note"
      by simp
    then show ?thesis
      by (elim disjE) (rule exI [of _ 0], rule exI [of _ "[]"], simp, rule exI [of _ 0], rule exI [of _ ?note], simp)
  qed
qed (auto simp: write_lines_def intro!: exI [of _ "[]"])


definition all_succeed :: log_host where
  "all_succeed = \<lparr>lh_append = (\<lambda>_. None), lh_rename = (\<lambda>_. True), lh_open = (\<lambda>_. True)\<rparr>"

definition fresh_log :: log_file where
  "fresh_log = \<lparr>lf_open = True, lf_size = 0, lf_limits = \<lparr>lm_max_size = Some 5, lm_rotate = 1\<rparr>, lf_full = False,
     lf_files = [0 \<mapsto> []], lf_calls = 0\<rparr>"


subsection \<open>Quoted arguments\<close>

text \<open>
  How a shell reads a line of words: blanks end a word, single quotes keep everything up to the next one, a backslash
  keeps the next character, and a character that could mean something else to it is refused (None).
\<close>

fun sh_words :: "string option \<Rightarrow> bool \<Rightarrow> string \<Rightarrow> string list option" where
  "sh_words word True [] = None"
| "sh_words word False [] = Some (case word of None \<Rightarrow> [] | Some w \<Rightarrow> [w])"
| "sh_words word True (c # s) =
     (let w = (case word of None \<Rightarrow> [] | Some w \<Rightarrow> w) in
      if c = CHR 0x27 then sh_words (Some w) False s else sh_words (Some (w @ [c])) True s)"
| "sh_words word False (c # s) =
     (let w = (case word of None \<Rightarrow> [] | Some w \<Rightarrow> w) in
      if c = CHR '' '' then map_option (\<lambda>ws. (case word of None \<Rightarrow> ws | Some w \<Rightarrow> w # ws)) (sh_words None False s)
      else if c = CHR 0x27 then sh_words (Some w) True s
      else if c = backslash then (case s of [] \<Rightarrow> None | d # t \<Rightarrow> sh_words (Some (w @ [d])) False t)
      else if plain_char c then sh_words (Some (w @ [c])) False s
      else None)"

lemma sh_plain:
  "list_all plain_char a \<Longrightarrow> sh_words (Some w) False (a @ s) = sh_words (Some (w @ a)) False s"
proof (induction a arbitrary: w)
  case (Cons c a)
  then have "c \<noteq> CHR '' ''" "c \<noteq> CHR 0x27" "c \<noteq> backslash"
    by (auto simp: plain_char_def backslash_def ascii_alnum_def ascii_alphabetic_def ascii_digit_def ascii_def)
  then show ?case using Cons by (simp add: Let_def)
qed simp

lemma sh_quoted:
  "sh_words (Some w) True (concat (map (\<lambda>c. if c = CHR 0x27 then [CHR 0x27, backslash, CHR 0x27, CHR 0x27] else [c]) a) @ CHR 0x27 # s) =
     sh_words (Some (w @ a)) False s"
  by (induction a arbitrary: w) (simp_all add: Let_def backslash_def)

lemma replace_char: "replace_all [c] t a = concat (map (\<lambda>x. if x = c then t else [x]) a)"
  by (induction a) (simp_all add: starts_with_def)

lemma sh_quote:
  "sh_words None False (quote a @ s) = sh_words (Some a) False s"
proof (cases "a \<noteq> [] \<and> list_all plain_char a")
  case True
  then obtain c b where a: "a = c # b" by (cases a) auto
  then have "c \<noteq> CHR '' ''" "c \<noteq> CHR 0x27" "c \<noteq> backslash" "plain_char c" "list_all plain_char b" using True
    by (auto simp: plain_char_def backslash_def ascii_alnum_def ascii_alphabetic_def ascii_digit_def ascii_def)
  then show ?thesis using True a sh_plain [of b "[c]" s] by (simp add: quote_def Let_def)
next
  case False
  then show ?thesis using sh_quoted [of "[]" a s] unfolding quote_def if_not_P [OF False] by (simp add: Let_def replace_char)
qed

text \<open>argv printed as one line of shell words is read back by a shell as exactly argv, whatever the
  arguments hold: empty ones, blanks, quotes and line breaks, and nothing in them is left for the shell to interpret.\<close>

theorem quote_all_roundtrip: "sh_words None False (quote_all argv) = Some argv"
proof (induction argv)
  case (Cons a as)
  show ?case
  proof (cases as)
    case Nil
    then show ?thesis using sh_quote [of a "[]"] by (simp add: quote_all_def)
  next
    case (Cons b bs)
    then have "quote_all (a # as) = quote a @ '' '' @ quote_all as" by (simp add: quote_all_def)
    then show ?thesis using Cons.IH sh_quote [of a "'' '' @ quote_all as"] by (simp add: Let_def)
  qed
qed (simp add: quote_all_def)

end
