(* ===== verification/Lfs_Pointer.thy ===== *)
theory Lfs_Pointer
  imports Log_Lines
begin

text \<open>
  Two formats of the guest's \<open>git-lfs\<close> (\<open>tools/rust/git-lfs/src\<close>): git's pkt-lines (\<open>pktline.rs\<close>) and the pointer files kept in the
  place of large files (\<open>pointer.rs\<close>), with the errors they report (\<open>errors.rs\<close>) and Go's quoting (\<open>quote\<close> of \<open>tools.rs\<close>). Bytes
  and text are both \<open>string\<close> here. The Unicode tables behind \<open>\d\<close> and \<open>\w\<close> (the crate \<open>regex\<close>) are the parameter \<open>tables\<close>; what is relied on is that
  they class ASCII as usual.
\<close>

subsection \<open>Errors\<close>

datatype lfs_kind =
    Plain | Fatal | NotAPointer | BadPointerKey | Auth | Smudge | NotImplemented | Retriable | RetriableLater | DownloadDeclined
  | Unprocessable | Protocol | PointerScan | LfsNotFound

text \<open>Of an error, the kind, the message and the cause; the times and status codes it may carry are not set by what is modelled here.\<close>

datatype lfs_error = LfsError lfs_kind string "lfs_error option"

definition new_error :: "string \<Rightarrow> lfs_error" where
  "new_error msg = LfsError Plain msg None"

fun lfs_error_kind :: "lfs_error \<Rightarrow> lfs_kind" where
  "lfs_error_kind (LfsError k _ _) = k"

definition wrap_error :: "string \<Rightarrow> lfs_error \<Rightarrow> lfs_error" where
  "wrap_error msg e = LfsError (lfs_error_kind e) msg (Some e)"

fun with_kind :: "lfs_kind \<Rightarrow> lfs_error \<Rightarrow> lfs_error" where
  "with_kind k (LfsError _ msg cause) = LfsError k msg cause"

definition not_a_pointer :: "lfs_error \<Rightarrow> lfs_error" where
  "not_a_pointer cause = with_kind NotAPointer (wrap_error ''Pointer file error'' cause)"

fun error_is :: "lfs_kind \<Rightarrow> lfs_error \<Rightarrow> bool" where
  "error_is k (LfsError k1 _ cause) = (k1 = k \<or> (case cause of None \<Rightarrow> False | Some e \<Rightarrow> error_is k e))"

fun show_error :: "lfs_error \<Rightarrow> string" where
  "show_error (LfsError _ msg cause) =
     (case cause of
        None \<Rightarrow> msg
      | Some e \<Rightarrow> if msg = [] then show_error e else msg @ '': '' @ show_error e)"

definition go_escape :: "string \<Rightarrow> string" where
  "go_escape c =
     (if c = [CHR 0x22] then [CHR 0x5C, CHR 0x22]
      else if c = [CHR 0x5C] then [CHR 0x5C, CHR 0x5C]
      else if c = [LF] then [CHR 0x5C, CHR ''n'']
      else if c = [TAB] then [CHR 0x5C, CHR ''t'']
      else if c = [CR] then [CHR 0x5C, CHR ''r'']
      else if c = [CHR 0x07] then [CHR 0x5C, CHR ''a'']
      else if c = [CHR 0x08] then [CHR 0x5C, CHR ''b'']
      else if c = [CHR 0x0C] then [CHR 0x5C, CHR ''f'']
      else if c = [CHR 0x0B] then [CHR 0x5C, CHR ''v'']
      else if code_point c < 0x20 \<or> code_point c = 0x7f then [CHR 0x5C, CHR ''x''] @ hex2 (code_point c)
      else c)"

definition go_quote :: "string \<Rightarrow> string" where
  "go_quote s = [CHR 0x22] @ concat (map go_escape (utf8_chars s)) @ [CHR 0x22]"

subsection \<open>pkt-lines\<close>

definition MAX_PACKET_LENGTH :: nat where "MAX_PACKET_LENGTH = 65516"

record pkt_out =
  pk_text :: string
  pk_room :: "nat option"

definition pk_write :: "string \<Rightarrow> pkt_out \<Rightarrow> pkt_out \<times> (string + unit)" where
  "pk_write s w =
     (case pk_room w of
        None \<Rightarrow> (w\<lparr>pk_text := pk_text w @ s\<rparr>, Inr ())
      | Some room \<Rightarrow>
          if length s \<le> room then (w\<lparr>pk_text := pk_text w @ s, pk_room := Some (room - length s)\<rparr>, Inr ())
          else (w\<lparr>pk_text := pk_text w @ take room s, pk_room := Some 0\<rparr>, Inl ''broken pipe''))"

definition hex04 :: "nat \<Rightarrow> string" where
  "hex04 n = replicate (4 - length (hex n)) CHR ''0'' @ hex n"

definition take_exact :: "nat \<Rightarrow> string \<Rightarrow> string + string \<times> string" where
  "take_exact n input = (if length input < n then Inl ''failed to fill whole buffer'' else Inr (take n input, drop n input))"

definition read_packet_with_length :: "string \<Rightarrow> string + (string \<times> nat) \<times> string" where
  "read_packet_with_length input =
     (case take_exact 4 input of
        Inl e \<Rightarrow> Inl e
      | Inr (h, rest) \<Rightarrow>
          if \<not> from_utf8_ok h then Inl ''strconv.ParseInt: invalid syntax''
          else case parse_hex h of
              None \<Rightarrow> Inl (''strconv.ParseInt: parsing '' @ go_quote h @ '': invalid syntax'')
            | Some len \<Rightarrow>
                if len = 0 \<or> len = 1 then Inr (([], len), rest)
                else if len < 4 then Inl ''Invalid packet length.''
                else (case take_exact (len - 4) rest of Inl e \<Rightarrow> Inl e | Inr (buf, after) \<Rightarrow> Inr ((buf, len), after)))"

lemma read_packet_shrinks: "read_packet_with_length input = Inr (x, rest) \<Longrightarrow> length rest < length input"
  by (auto simp: read_packet_with_length_def take_exact_def split: sum.splits if_splits option.splits)

definition strip_newline :: "string \<Rightarrow> string" where
  "strip_newline s = (if s \<noteq> [] \<and> last s = LF then butlast s else s)"

definition read_packet_text :: "string \<Rightarrow> string + (string \<times> nat) \<times> string" where
  "read_packet_text input =
     (case read_packet_with_length input of
        Inl e \<Rightarrow> Inl e
      | Inr ((d, l), rest) \<Rightarrow> Inr ((strip_newline (from_utf8_lossy d), l), rest))"

lemma read_packet_text_shrinks: "read_packet_text input = Inr (x, rest) \<Longrightarrow> length rest < length input"
  by (auto simp: read_packet_text_def split: sum.splits prod.splits dest: read_packet_shrinks)

function read_packet_list :: "string list \<Rightarrow> string \<Rightarrow> string + string list \<times> string" where
  "read_packet_list acc input =
     (case read_packet_text input of
        Inl e \<Rightarrow> Inl e
      | Inr ((d, l), rest) \<Rightarrow> if l = 0 then Inr (acc, rest) else read_packet_list (acc @ [d]) rest)"
  by pat_completeness auto
termination by (relation "measure (\<lambda>(acc, input). length input)") (auto dest: read_packet_text_shrinks)

function read_payload :: "string \<Rightarrow> string \<Rightarrow> string + string \<times> string" where
  "read_payload out input =
     (case read_packet_with_length input of
        Inl e \<Rightarrow> Inl e
      | Inr ((d, l), rest) \<Rightarrow> if l = 0 then Inr (out, rest) else read_payload (out @ d) rest)"
  by pat_completeness auto
termination by (relation "measure (\<lambda>(out, input). length input)") (auto dest: read_packet_shrinks)

declare read_packet_list.simps [simp del] read_payload.simps [simp del]

definition write_packet :: "string \<Rightarrow> pkt_out \<Rightarrow> pkt_out \<times> (string + unit)" where
  "write_packet data w =
     (if length data > MAX_PACKET_LENGTH then (w, Inl ''Packet length exceeds maximal length'')
      else case pk_write (hex04 (length data + 4)) w of
          (w1, Inl e) \<Rightarrow> (w1, Inl e)
        | (w1, Inr _) \<Rightarrow> pk_write data w1)"

definition write_flush :: "pkt_out \<Rightarrow> pkt_out \<times> (string + unit)" where
  "write_flush w = pk_write ''0000'' w"

fun write_packets :: "string list \<Rightarrow> pkt_out \<Rightarrow> pkt_out \<times> (string + unit)" where
  "write_packets [] w = write_flush w"
| "write_packets (d # ds) w = (case write_packet d w of (w1, Inl e) \<Rightarrow> (w1, Inl e) | (w1, Inr _) \<Rightarrow> write_packets ds w1)"

definition write_packet_list :: "string list \<Rightarrow> pkt_out \<Rightarrow> pkt_out \<times> (string + unit)" where
  "write_packet_list items w = write_packets (map (\<lambda>i. i @ [LF]) items) w"

fun string_chunks :: "nat \<Rightarrow> nat \<Rightarrow> string \<Rightarrow> string list" where
  "string_chunks 0 n s = []"
| "string_chunks (Suc fuel) n s = (if s = [] then [] else take n s # string_chunks fuel n (drop n s))"

text \<open>\<open>chunks (0)\<close> panics: the result of \<open>write_payload\<close> is \<open>None\<close> then.\<close>

definition write_payload :: "string \<Rightarrow> nat \<Rightarrow> pkt_out \<Rightarrow> (pkt_out \<times> (string + unit)) option" where
  "write_payload data cap w =
     (let n = min cap MAX_PACKET_LENGTH in
      if n = 0 then None else Some (write_packets (string_chunks (length data) n data) w))"

subsection \<open>Pointers\<close>

definition LATEST :: string where "LATEST = ''https://git-lfs.github.com/spec/v1''"

definition V1_ALIASES :: "string list" where
  "V1_ALIASES = [''http://git-media.io/v/2'', ''https://hawser.github.com/spec/v1'', ''https://git-lfs.github.com/spec/v1'']"

definition BLOB_SIZE_CUTOFF :: nat where "BLOB_SIZE_CUTOFF = 1024"

definition EMPTY_OBJECT_SHA256 :: string where
  "EMPTY_OBJECT_SHA256 = ''e3b0c44298fc1c149afbf4c8996fb92427ae41e4649b934ca495991b7852b855''"

record extension =
  ex_name :: string
  ex_priority :: int
  ex_oid :: string

record pointer =
  pt_oid :: string
  pt_size :: int
  pt_extensions :: "extension list"
  pt_canonical :: bool

record tables =
  tb_digit :: "string \<Rightarrow> bool"
  tb_word :: "string \<Rightarrow> bool"

definition new_pointer :: "string \<Rightarrow> int \<Rightarrow> extension list \<Rightarrow> pointer" where
  "new_pointer oid sz exts = \<lparr>pt_oid = oid, pt_size = sz, pt_extensions = exts, pt_canonical = True\<rparr>"

definition empty_pointer :: pointer where
  "empty_pointer = new_pointer EMPTY_OBJECT_SHA256 0 []"

definition show_int :: "int \<Rightarrow> string" where
  "show_int n = (if n < 0 then CHR ''-'' # decimal (nat (- n)) else decimal (nat n))"

definition parse_i64 :: "string \<Rightarrow> int option" where
  "parse_i64 s =
     (case s of
        c # cs \<Rightarrow>
          if c = CHR ''-'' then
            (if cs \<noteq> [] \<and> list_all ascii_digit cs \<and> digits_value cs \<le> 2 ^ 63 then Some (- int (digits_value cs)) else None)
          else map_option int (parse_uint (2 ^ 63 - 1) s)
      | [] \<Rightarrow> None)"

definition extension_line :: "extension \<Rightarrow> string" where
  "extension_line e = ''ext-'' @ show_int (ex_priority e) @ ''-'' @ ex_name e @ '' sha256:'' @ ex_oid e @ [LF]"

definition encoded :: "pointer \<Rightarrow> string" where
  "encoded p =
     (if pt_size p = 0 then []
      else ''version '' @ LATEST @ [LF] @ concat (map extension_line (pt_extensions p)) @
        ''oid sha256:'' @ pt_oid p @ [LF] @ ''size '' @ show_int (pt_size p) @ [LF])"

definition is_oid :: "string \<Rightarrow> bool" where
  "is_oid s \<longleftrightarrow> length s = 64 \<and> list_all (\<lambda>c. c \<in> set ''0123456789abcdef'') s"

definition parse_oid :: "string \<Rightarrow> lfs_error + string" where
  "parse_oid v =
     (case split_once '':'' v of
        None \<Rightarrow> Inl (new_error (''Invalid OID value: '' @ v))
      | Some (typ, oid) \<Rightarrow>
          if typ \<noteq> ''sha256'' then Inl (new_error (''Invalid OID type: '' @ typ))
          else if \<not> is_oid oid then Inl (new_error (''Invalid OID: '' @ oid))
          else Inr oid)"

definition go_space :: "char \<Rightarrow> bool" where
  "go_space c \<longleftrightarrow> c = CHR '' '' \<or> c = TAB \<or> c = LF \<or> c = CR \<or> c = CHR 0x0B \<or> c = CHR 0x0C"

definition trim_space :: "string \<Rightarrow> string" where
  "trim_space b = trim_matches go_space b"

definition ext_key :: "tables \<Rightarrow> string \<Rightarrow> bool" where
  "ext_key tb key =
     (case utf8_chars key of
        e # x # t # d1 # digit # d2 # w # _ \<Rightarrow> [e, x, t, d1] = [''e'', ''x'', ''t'', ''-''] \<and> tb_digit tb digit \<and> d2 = ''-'' \<and> tb_word tb w
      | _ \<Rightarrow> False)"

fun put_pair :: "string \<Rightarrow> string \<Rightarrow> (string \<times> string) list \<Rightarrow> (string \<times> string) list" where
  "put_pair k v [] = [(k, v)]"
| "put_pair k v ((k1, v1) # rest) = (if k1 = k then (k, v) # rest else (k1, v1) # put_pair k v rest)"

definition pointer_keys :: "string list" where
  "pointer_keys = [''version'', ''oid'', ''size'']"

fun kv_lines :: "tables \<Rightarrow> string list \<Rightarrow> (string \<times> string) list \<Rightarrow> (string \<times> string) list
    \<Rightarrow> lfs_error + (string \<times> string) list \<times> (string \<times> string) list" where
  "kv_lines tb [] kv exts = Inr (kv, exts)"
| "kv_lines tb (t0 # ts) kv exts =
     (let t = (if t0 \<noteq> [] \<and> last t0 = CR then butlast t0 else t0); line = length kv in
      if t = [] then kv_lines tb ts kv exts
      else case split_once '' '' t of
          None \<Rightarrow> Inl (not_a_pointer (new_error (''error reading line '' @ decimal line @ '': '' @ t)))
        | Some (key, v) \<Rightarrow>
            if line \<ge> length pointer_keys then Inl (not_a_pointer (new_error (''extra line: '' @ t)))
            else
              let expected = pointer_keys ! line in
              if key \<noteq> expected then
                (if \<not> ext_key tb key then
                   (let e = with_kind BadPointerKey (wrap_error ''pointer parsing'' (new_error (''Expected key '' @ expected @ '', got '' @ key)))
                    in Inl (if expected = ''version'' then not_a_pointer e else e))
                 else kv_lines tb ts kv (put_pair key v exts))
              else kv_lines tb ts (kv @ [(key, v)]) exts)"

fun parse_extensions :: "(string \<times> string) list \<Rightarrow> lfs_error + extension list" where
  "parse_extensions [] = Inr []"
| "parse_extensions ((k, v) # rest) =
     (case split_once ''-'' k of
        None \<Rightarrow> Inl (new_error (''Invalid extension value: '' @ v))
      | Some (p0, r) \<Rightarrow>
          (case split_once ''-'' r of
             None \<Rightarrow> Inl (new_error (''Invalid extension value: '' @ v))
           | Some (p1, p2) \<Rightarrow>
               if p0 \<noteq> ''ext'' then Inl (new_error (''Invalid extension value: '' @ v))
               else case parse_i64 p1 of
                   None \<Rightarrow> Inl (new_error (''Invalid priority: '' @ p1))
                 | Some n \<Rightarrow>
                     if n < 0 then Inl (new_error (''Invalid priority: '' @ p1))
                     else case parse_oid v of
                         Inl e \<Rightarrow> Inl e
                       | Inr oid \<Rightarrow>
                           (case parse_extensions rest of
                              Inl e \<Rightarrow> Inl e
                            | Inr es \<Rightarrow> Inr (\<lparr>ex_name = p2, ex_priority = n, ex_oid = oid\<rparr> # es))))"

fun first_duplicate :: "int list \<Rightarrow> extension list \<Rightarrow> int option" where
  "first_duplicate seen [] = None"
| "first_duplicate seen (e # es) = (if ex_priority e \<in> set seen then Some (ex_priority e) else first_duplicate (ex_priority e # seen) es)"

definition decode_kv :: "tables \<Rightarrow> string \<Rightarrow> lfs_error + pointer" where
  "decode_kv tb data =
     (let text0 = from_utf8_lossy data in
      if \<not> (contains ''git-media'' text0 \<or> contains ''hawser'' text0 \<or> contains ''git-lfs'' text0) then
        Inl (not_a_pointer (new_error ''invalid header''))
      else case kv_lines tb (split_on LF text0) [] [] of
          Inl e \<Rightarrow> Inl e
        | Inr (kv, exts) \<Rightarrow>
            let get = map_of (rev kv); version = (case get ''version'' of Some v \<Rightarrow> v | None \<Rightarrow> []) in
            if version = [] then Inl (not_a_pointer (new_error ''Missing version''))
            else if version \<notin> set V1_ALIASES then Inl (new_error (''Invalid version: '' @ version))
            else case get ''oid'' of
                None \<Rightarrow> Inl (new_error ''Invalid OID'')
              | Some oidv \<Rightarrow>
                  (case parse_oid oidv of
                     Inl e \<Rightarrow> Inl e
                   | Inr oid \<Rightarrow>
                       (let sizev = (case get ''size'' of Some v \<Rightarrow> v | None \<Rightarrow> []) in
                        case parse_i64 sizev of
                          None \<Rightarrow> Inl (new_error (''invalid size: '' @ go_quote sizev))
                        | Some n \<Rightarrow>
                            if n < 0 then Inl (new_error (''invalid size: '' @ go_quote sizev))
                            else case parse_extensions exts of
                                Inl e \<Rightarrow> Inl e
                              | Inr es \<Rightarrow>
                                  (case first_duplicate [] es of
                                     Some p \<Rightarrow> Inl (new_error (''duplicate priority found: '' @ show_int p))
                                   | None \<Rightarrow> Inr (new_pointer oid n (sort_key ex_priority es))))))"

definition decode :: "tables \<Rightarrow> string \<Rightarrow> lfs_error + pointer" where
  "decode tb buf =
     (if buf = [] then Inr empty_pointer
      else case decode_kv tb (trim_space buf) of
          Inl e \<Rightarrow> Inl e
        | Inr p \<Rightarrow> Inr (p\<lparr>pt_canonical := (encoded p = buf)\<rparr>))"

subsection \<open>pkt-lines are read as they were written\<close>

definition pkt_line :: "string \<Rightarrow> string" where
  "pkt_line d = hex04 (length d + 4) @ d"

lemma hex04_hexn: "n < 65536 \<Longrightarrow> hex04 n = hexn 4 n"
  using hexn_hex [of n 4] by (simp add: hex04_def)

lemma read_packet:
  assumes "length d \<le> MAX_PACKET_LENGTH"
  shows "read_packet_with_length (pkt_line d @ rest) = Inr ((d, length d + 4), rest)"
proof -
  let ?h = "hexn 4 (length d + 4)"
  have small: "length d + 4 < 65536" using assms by (simp add: MAX_PACKET_LENGTH_def)
  have "from_utf8_ok ?h" using hexn_chars [of _ 4 "length d + 4"] hex_char_plain by (intro ascii_valid) (auto simp: list_all_iff)
  moreover have "parse_hex ?h = Some (length d + 4)" using parse_hex_hexn [of 3 "length d + 4"] small by simp
  moreover have "pkt_line d = ?h @ d" using small by (simp add: pkt_line_def hex04_hexn)
  ultimately show ?thesis by (simp add: read_packet_with_length_def take_exact_def)
qed

lemma read_flush: "read_packet_with_length (''0000'' @ rest) = Inr (([], 0), rest)"
proof -
  have "from_utf8_ok ''0000''" "parse_hex ''0000'' = Some 0" by code_simp+
  then show ?thesis by (simp add: read_packet_with_length_def take_exact_def)
qed

lemma write_packets_open:
  "\<lbrakk>pk_room w = None; list_all (\<lambda>d. length d \<le> MAX_PACKET_LENGTH) ds\<rbrakk> \<Longrightarrow>
   write_packets ds w = (w\<lparr>pk_text := pk_text w @ concat (map pkt_line ds) @ ''0000''\<rparr>, Inr ())"
proof (induction ds arbitrary: w)
  case (Cons d ds)
  have "write_packet d w = (w\<lparr>pk_text := pk_text w @ pkt_line d\<rparr>, Inr ())"
    using Cons.prems by (simp add: write_packet_def pk_write_def pkt_line_def)
  then show ?case using Cons by simp
qed (simp add: write_flush_def pk_write_def)

lemma read_list_packets:
  "list_all (\<lambda>i. from_utf8_ok i \<and> length i < MAX_PACKET_LENGTH) items \<Longrightarrow>
   read_packet_list acc (concat (map pkt_line (map (\<lambda>i. i @ [LF]) items)) @ ''0000'' @ rest) = Inr (acc @ items, rest)"
proof (induction items arbitrary: acc)
  case Nil
  have "read_packet_text (''0000'' @ rest) = Inr ((strip_newline (from_utf8_lossy []), 0), rest)"
    using read_flush by (simp add: read_packet_text_def)
  then show ?case by (subst read_packet_list.simps) simp
next
  case (Cons i items)
  have i: "from_utf8_ok (i @ [LF])" "length (i @ [LF]) \<le> MAX_PACKET_LENGTH"
    using Cons.prems ok_append [OF _ ascii_valid [of "[LF]"]] by (simp_all add: LF_def ascii_def)
  let ?rest = "concat (map pkt_line (map (\<lambda>i. i @ [LF]) items)) @ ''0000'' @ rest"
  have "read_packet_text (pkt_line (i @ [LF]) @ ?rest) = Inr ((i, length (i @ [LF]) + 4), ?rest)"
    using read_packet [OF i(2), of ?rest] lossy_of_valid [OF i(1)] by (simp add: read_packet_text_def strip_newline_def)
  then show ?case using Cons by (subst read_packet_list.simps) simp
qed

lemma read_payload_packets:
  "list_all (\<lambda>d. length d \<le> MAX_PACKET_LENGTH) ds \<Longrightarrow> read_payload out (concat (map pkt_line ds) @ ''0000'' @ rest) = Inr (out @ concat ds, rest)"
proof (induction ds arbitrary: out)
  case Nil
  then show ?case using read_flush by (subst read_payload.simps) simp
next
  case (Cons d ds)
  have "read_packet_with_length (pkt_line d @ concat (map pkt_line ds) @ ''0000'' @ rest) =
      Inr ((d, length d + 4), concat (map pkt_line ds) @ ''0000'' @ rest)"
    using Cons.prems by (intro read_packet) simp
  then show ?case using Cons by (subst read_payload.simps) simp
qed

lemma string_chunks_all:
  "\<lbrakk>0 < n; length s \<le> fuel\<rbrakk> \<Longrightarrow> concat (string_chunks fuel n s) = s \<and> list_all (\<lambda>c. length c \<le> n) (string_chunks fuel n s)"
proof (induction fuel n s rule: string_chunks.induct)
  case (2 fuel n s)
  then show ?case by (cases s) auto
qed simp

subsection \<open>Pointers are read as they were written\<close>

definition tables_ok :: "tables \<Rightarrow> bool" where
  "tables_ok tb \<longleftrightarrow> (\<forall>c. ascii c \<longrightarrow> tb_digit tb [c] = ascii_digit c \<and> tb_word tb [c] = (ascii_alnum c \<or> c = CHR ''_''))"

definition ext_ok :: "tables \<Rightarrow> extension \<Rightarrow> bool" where
  "ext_ok tb e \<longleftrightarrow> 0 \<le> ex_priority e \<and> ex_priority e \<le> 9 \<and> is_oid (ex_oid e) \<and> from_utf8_ok (ex_name e) \<and>
     CHR '' '' \<notin> set (ex_name e) \<and> LF \<notin> set (ex_name e) \<and> ex_name e \<noteq> [] \<and> tb_word tb (hd (utf8_chars (ex_name e)))"

definition pointer_ok :: "tables \<Rightarrow> pointer \<Rightarrow> bool" where
  "pointer_ok tb p \<longleftrightarrow> is_oid (pt_oid p) \<and> 0 < pt_size p \<and> pt_size p < 2 ^ 63 \<and> list_all (ext_ok tb) (pt_extensions p) \<and>
     sorted_wrt (<) (map ex_priority (pt_extensions p)) \<and> pt_canonical p"

lemma split_once_at: "c \<notin> set a \<Longrightarrow> split_once [c] (a @ c # b) = Some (a, b)"
  by (induction a) (auto simp: starts_with_def)

lemma split_on_at: "c \<notin> set a \<Longrightarrow> split_on c (a @ c # b) = a # split_on c b"
  by (induction a) auto

lemma split_on_lines: "\<forall>l\<in>set ls. c \<notin> set l \<Longrightarrow> c \<notin> set z \<Longrightarrow> split_on c (concat (map (\<lambda>l. l @ [c]) ls) @ z) = ls @ [z]"
  by (induction ls) (simp_all add: split_on_at split_on_none)

lemma oid_chars:
  assumes "is_oid s" "c \<in> set s"
  shows "ascii c" "c \<noteq> CR" "c \<noteq> LF" "c \<noteq> CHR '' ''" "c \<noteq> CHR '':''"
proof -
  have "list_all (\<lambda>c. ascii c \<and> c \<noteq> CR \<and> c \<noteq> LF \<and> c \<noteq> CHR '' '' \<and> c \<noteq> CHR '':'') ''0123456789abcdef''" by code_simp
  moreover have "c \<in> set ''0123456789abcdef''" using assms unfolding is_oid_def list_all_iff by blast
  ultimately show "ascii c" "c \<noteq> CR" "c \<noteq> LF" "c \<noteq> CHR '' ''" "c \<noteq> CHR '':''" unfolding list_all_iff by blast+
qed

lemma parse_oid_ok: "is_oid s \<Longrightarrow> parse_oid (''sha256:'' @ s) = Inr s"
  using split_once_at [of "CHR '':''" "''sha256''" s] by (simp add: parse_oid_def)

lemma parse_i64_show: "0 \<le> n \<Longrightarrow> n < 2 ^ 63 \<Longrightarrow> parse_i64 (show_int n) = Some n"
proof -
  assume n: "0 \<le> n" "n < 2 ^ 63"
  obtain c cs where d: "decimal (nat n) = c # cs" using decimal_nonempty by (metis list.exhaust)
  have "ascii_digit c" using decimal_digits [of "nat n"] d by simp
  then have "c \<noteq> CHR ''-''" by (auto simp: ascii_digit_def)
  moreover have "parse_uint (2 ^ 63 - 1) (decimal (nat n)) = Some (nat n)" using n by (intro parse_decimal) auto
  ultimately show ?thesis using n d by (simp add: parse_i64_def show_int_def)
qed

lemma show_digit: "0 \<le> n \<Longrightarrow> n \<le> 9 \<Longrightarrow> show_int n = [char_of (48 + nat n)]"
  by (simp add: show_int_def decimal.simps [of "nat n"] nat_less_iff)

definition ext_text :: "extension \<Rightarrow> string" where
  "ext_text e = ''ext-'' @ show_int (ex_priority e) @ ''-'' @ ex_name e"

definition ext_value :: "extension \<Rightarrow> string" where
  "ext_value e = ''sha256:'' @ ex_oid e"

lemma priority_char:
  assumes "ext_ok tb e"
  obtains c where "show_int (ex_priority e) = [c]" "ascii_digit c" "ascii c" "c \<noteq> CHR '' ''" "c \<noteq> CHR ''-''" "c \<noteq> LF"
proof -
  let ?c = "char_of (48 + nat (ex_priority e))"
  have show_c: "show_int (ex_priority e) = [?c]" using assms by (simp add: ext_ok_def show_digit)
  have "ascii_digit ?c" using decimal_digits [of "nat (ex_priority e)"] assms show_c by (simp add: ext_ok_def show_int_def)
  moreover have "ascii c \<and> c \<noteq> CHR '' '' \<and> c \<noteq> CHR ''-'' \<and> c \<noteq> LF" if "ascii_digit c" for c
    using that by (auto simp: ascii_digit_def ascii_def LF_def)
  ultimately show thesis using that [OF show_c] by blast
qed

lemma ext_key_ok:
  assumes "ext_ok tb e" "tables_ok tb"
  shows "ext_key tb (ext_text e)"
proof -
  obtain c where c: "show_int (ex_priority e) = [c]" "ascii_digit c" "ascii c" using priority_char [OF assms(1)] by metis
  have pre: "list_all ascii (''ext-'' @ [c] @ ''-'')" using c(3) by (simp add: ascii_def)
  have "utf8_chars (ext_text e) = utf8_chars ((''ext-'' @ [c] @ ''-'') @ ex_name e)" by (simp add: ext_text_def c(1))
  also have "\<dots> = map (\<lambda>c. [c]) (''ext-'' @ [c] @ ''-'') @ utf8_chars (ex_name e)"
    unfolding chars_append [OF ascii_valid [OF pre]] ascii_chars [OF pre] ..
  finally have chars: "utf8_chars (ext_text e) = [''e'', ''x'', ''t'', ''-'', [c], ''-''] @ utf8_chars (ex_name e)" by simp
  have "utf8_chars (ex_name e) \<noteq> []" using assms(1) concat_chars [of "ex_name e"] by (auto simp: ext_ok_def)
  then obtain w ws where "utf8_chars (ex_name e) = w # ws" by (cases "utf8_chars (ex_name e)") auto
  moreover have "tb_digit tb [c]" using assms(2) c(2,3) by (simp add: tables_ok_def)
  ultimately show ?thesis using assms(1) by (simp add: ext_key_def chars ext_ok_def)
qed

lemma put_pair_new: "k \<notin> fst ` set xs \<Longrightarrow> put_pair k v xs = xs @ [(k, v)]"
  by (induction k v xs rule: put_pair.induct) auto

lemma ext_text_plain:
  assumes "ext_ok tb e"
  shows "CHR '' '' \<notin> set (ext_text e) \<and> LF \<notin> set (ext_text e)"
proof -
  obtain c where "show_int (ex_priority e) = [c]" "c \<noteq> CHR '' ''" "c \<noteq> LF" using priority_char [OF assms] by metis
  moreover have "CHR '' '' \<notin> set (ex_name e)" "LF \<notin> set (ex_name e)" using assms by (simp_all add: ext_ok_def)
  ultimately show ?thesis by (auto simp: ext_text_def LF_def)
qed

lemma ext_value_last:
  assumes "is_oid oid"
  shows "last (a @ '' sha256:'' @ oid) \<noteq> CR"
proof -
  have "oid \<noteq> []" using assms by (auto simp: is_oid_def)
  then show ?thesis using oid_chars(2) [OF assms last_in_set [of oid]] by simp
qed

lemma kv_ext_line:
  assumes "ext_ok tb e" "tables_ok tb" "ext_text e \<notin> fst ` set exts" "length kv = 1"
  shows "kv_lines tb ((ext_text e @ '' '' @ ext_value e) # ts) kv exts = kv_lines tb ts kv (exts @ [(ext_text e, ext_value e)])"
proof -
  have "last (ext_text e @ '' '' @ ext_value e) \<noteq> CR"
    using ext_value_last [of "ex_oid e" "ext_text e"] assms(1) by (simp add: ext_value_def ext_ok_def)
  moreover have "split_once '' '' (ext_text e @ '' '' @ ext_value e) = Some (ext_text e, ext_value e)"
    using split_once_at [of "CHR '' ''" "ext_text e" "ext_value e"] ext_text_plain [OF assms(1)] by simp
  moreover have "ext_text e \<noteq> ''oid''" by (simp add: ext_text_def)
  ultimately show ?thesis
    using assms(4) ext_key_ok [OF assms(1,2)] put_pair_new [OF assms(3)] by (simp add: pointer_keys_def Let_def)
qed

lemma ext_text_distinct:
  assumes "ext_ok tb e" "ext_ok tb f" "ex_priority e \<noteq> ex_priority f"
  shows "ext_text e \<noteq> ext_text f"
proof
  assume eq: "ext_text e = ext_text f"
  obtain c d where "show_int (ex_priority e) = [c]" "show_int (ex_priority f) = [d]" using priority_char assms(1,2) by metis
  then have "show_int (ex_priority e) = show_int (ex_priority f)" using eq by (simp add: ext_text_def)
  then have "parse_i64 (show_int (ex_priority e)) = parse_i64 (show_int (ex_priority f))" by simp
  then show False using assms parse_i64_show [of "ex_priority e"] parse_i64_show [of "ex_priority f"] by (simp add: ext_ok_def)
qed

lemma kv_ext_lines:
  "\<lbrakk>list_all (ext_ok tb) es; tables_ok tb; sorted_wrt (<) (map ex_priority es); length kv = 1;
    \<forall>e\<in>set es. ext_text e \<notin> fst ` set exts\<rbrakk> \<Longrightarrow>
   kv_lines tb (map (\<lambda>e. ext_text e @ '' '' @ ext_value e) es @ ts) kv exts = kv_lines tb ts kv (exts @ map (\<lambda>e. (ext_text e, ext_value e)) es)"
proof (induction es arbitrary: exts)
  case (Cons e es)
  have "\<forall>f\<in>set es. ext_text f \<noteq> ext_text e"
  proof
    fix f assume f: "f \<in> set es"
    have "ext_ok tb f" using Cons.prems(1) f by (simp add: list_all_iff)
    moreover have "ex_priority f \<noteq> ex_priority e" using Cons.prems(3) f by auto
    moreover have "ext_ok tb e" using Cons.prems(1) by simp
    ultimately show "ext_text f \<noteq> ext_text e" using ext_text_distinct by blast
  qed
  then have "\<forall>f\<in>set es. ext_text f \<notin> fst ` set (exts @ [(ext_text e, ext_value e)])" using Cons.prems(5) by auto
  then have "kv_lines tb (map (\<lambda>e. ext_text e @ '' '' @ ext_value e) es @ ts) kv (exts @ [(ext_text e, ext_value e)]) =
      kv_lines tb ts kv ((exts @ [(ext_text e, ext_value e)]) @ map (\<lambda>e. (ext_text e, ext_value e)) es)"
    using Cons.prems by (intro Cons.IH) auto
  moreover have "kv_lines tb ((ext_text e @ '' '' @ ext_value e) # map (\<lambda>e. ext_text e @ '' '' @ ext_value e) es @ ts) kv exts =
      kv_lines tb (map (\<lambda>e. ext_text e @ '' '' @ ext_value e) es @ ts) kv (exts @ [(ext_text e, ext_value e)])"
    using Cons.prems by (intro kv_ext_line) auto
  ultimately show ?case by simp
qed simp

lemma parse_extensions_back: "list_all (ext_ok tb) es \<Longrightarrow> parse_extensions (map (\<lambda>e. (ext_text e, ext_value e)) es) = Inr es"
proof (induction es)
  case (Cons e es)
  obtain c where c: "show_int (ex_priority e) = [c]" "c \<noteq> CHR ''-''" using priority_char [of tb e] Cons.prems by auto
  have "split_once ''-'' (ext_text e) = Some (''ext'', c # ''-'' @ ex_name e)"
    using split_once_at [of "CHR ''-''" "''ext''" "c # ''-'' @ ex_name e"] by (simp add: ext_text_def c(1))
  moreover have "split_once ''-'' (c # ''-'' @ ex_name e) = Some ([c], ex_name e)"
    using split_once_at [of "CHR ''-''" "[c]" "ex_name e"] c(2) by simp
  moreover have "parse_i64 [c] = Some (ex_priority e)"
    using parse_i64_show [of "ex_priority e"] Cons.prems c(1) by (simp add: ext_ok_def)
  ultimately show ?case
    using Cons parse_oid_ok [of "ex_oid e"] by (simp add: ext_value_def ext_ok_def)
qed simp

lemma no_duplicate: "\<lbrakk>sorted_wrt (<) (map ex_priority es); \<forall>e\<in>set es. \<forall>q\<in>set seen. q < ex_priority e\<rbrakk> \<Longrightarrow> first_duplicate seen es = None"
proof (induction es arbitrary: seen)
  case (Cons e es)
  then have "first_duplicate (ex_priority e # seen) es = None" by (intro Cons.IH) auto
  then show ?case using Cons.prems(2) by auto
qed simp

lemma sorted_kept: "sorted_wrt (<) (map ex_priority es) \<Longrightarrow> sort_key ex_priority es = es"
  using sorted_wrt_mono_rel [of "map ex_priority es" "(<)" "(\<le>)"] by (intro sort_key_id_if_sorted) simp

subsection \<open>The whole text\<close>

definition pointer_lines :: "pointer \<Rightarrow> string list" where
  "pointer_lines p = [''version '' @ LATEST] @ map (\<lambda>e. ext_text e @ '' '' @ ext_value e) (pt_extensions p) @ [''oid sha256:'' @ pt_oid p]"

definition size_line :: "pointer \<Rightarrow> string" where
  "size_line p = ''size '' @ show_int (pt_size p)"

lemma encoded_lines: "0 < pt_size p \<Longrightarrow> encoded p = (concat (map (\<lambda>l. l @ [LF]) (pointer_lines p)) @ size_line p) @ [LF]"
proof -
  have "concat (map extension_line es) = concat (map (\<lambda>l. l @ [LF]) (map (\<lambda>e. ext_text e @ '' '' @ ext_value e) es))" for es
    by (induction es) (simp_all add: extension_line_def ext_text_def ext_value_def)
  then show "0 < pt_size p \<Longrightarrow> ?thesis" by (simp add: encoded_def pointer_lines_def size_line_def)
qed

lemma show_size: "0 < n \<Longrightarrow> show_int n \<noteq> [] \<and> list_all ascii_digit (show_int n)"
  using decimal_digits decimal_nonempty by (simp add: show_int_def)

lemma digit_plain: "ascii_digit c \<Longrightarrow> ascii c \<and> c \<noteq> LF \<and> c \<noteq> CR \<and> \<not> go_space c"
  by (auto simp: ascii_digit_def ascii_def LF_def CR_def TAB_def go_space_def)

lemma size_line_last: "0 < pt_size p \<Longrightarrow> size_line p \<noteq> [] \<and> ascii_digit (last (size_line p))"
proof -
  assume "0 < pt_size p"
  then have "show_int (pt_size p) \<noteq> []" "list_all ascii_digit (show_int (pt_size p))" using show_size by simp_all
  then have "ascii_digit (last (show_int (pt_size p)))" unfolding list_all_iff by (meson last_in_set)
  then show ?thesis using \<open>show_int (pt_size p) \<noteq> []\<close> by (simp add: size_line_def)
qed

lemma trim_encoded:
  assumes "pointer_ok tb p"
  shows "trim_space (encoded p) = concat (map (\<lambda>l. l @ [LF]) (pointer_lines p)) @ size_line p"
proof -
  let ?body = "concat (map (\<lambda>l. l @ [LF]) (pointer_lines p)) @ size_line p"
  have pos: "0 < pt_size p" using assms by (simp add: pointer_ok_def)
  have ends: "?body \<noteq> []" "\<not> go_space (last ?body)" using size_line_last [OF pos] digit_plain by simp_all
  obtain rest where start: "?body = CHR ''v'' # rest" by (simp add: pointer_lines_def)
  have "\<not> go_space CHR ''v''" "go_space LF" by code_simp+
  then have "dropWhile go_space (?body @ [LF]) = ?body @ [LF]" unfolding start by simp
  moreover have "trim_end_matches go_space (?body @ [LF]) = ?body"
    using ends \<open>go_space LF\<close> by (cases ?body rule: rev_cases) (simp_all add: trim_end_matches_def)
  ultimately show ?thesis unfolding trim_space_def trim_matches_def encoded_lines [OF pos] by simp
qed

lemma lines_plain:
  assumes "pointer_ok tb p"
  shows "\<forall>l\<in>set (pointer_lines p). LF \<notin> set l \<and> from_utf8_ok l" "LF \<notin> set (size_line p)" "from_utf8_ok (size_line p)"
proof -
  have lit: "LF \<notin> set (''version '' @ LATEST)" "LF \<notin> set ''oid sha256:''" "LF \<notin> set ''sha256:''" "LF \<notin> set '' ''" "LF \<notin> set ''size ''"
    "list_all ascii (''version '' @ LATEST)" "list_all ascii ''oid sha256:''" "list_all ascii '' sha256:''" "list_all ascii ''size ''"
    by code_simp+
  have oid: "LF \<notin> set oid \<and> list_all ascii oid" if "is_oid oid" for oid using oid_chars [OF that] by (auto simp: list_all_iff)
  have digits: "LF \<notin> set (show_int (pt_size p))" "list_all ascii (show_int (pt_size p))"
    using show_size [of "pt_size p"] digit_plain assms unfolding pointer_ok_def list_all_iff by blast+
  have ext: "LF \<notin> set (ext_text e @ '' '' @ ext_value e) \<and> from_utf8_ok (ext_text e @ '' '' @ ext_value e)" if ok: "ext_ok tb e" for e
  proof -
    obtain c where c: "show_int (ex_priority e) = [c]" "ascii c" using priority_char [OF ok] by metis
    have "list_all ascii (''ext-'' @ [c] @ ''-'')" using c(2) by (simp add: ascii_def)
    then have "from_utf8_ok (ext_text e)" using ok_append [OF ascii_valid] ok by (fastforce simp: ext_text_def ext_ok_def c(1))
    moreover have "list_all ascii ('' sha256:'' @ ex_oid e)" using lit(8) oid [of "ex_oid e"] ok by (simp add: ext_ok_def)
    ultimately have "from_utf8_ok (ext_text e @ '' sha256:'' @ ex_oid e)" using ok_append ascii_valid by blast
    then show ?thesis using ext_text_plain [OF ok] oid [of "ex_oid e"] ok lit(3,4) by (simp add: ext_value_def ext_ok_def)
  qed
  show "\<forall>l\<in>set (pointer_lines p). LF \<notin> set l \<and> from_utf8_ok l"
    using ext oid [of "pt_oid p"] lit assms ascii_valid [of "''version '' @ LATEST"] ascii_valid [of "''oid sha256:'' @ pt_oid p"]
    by (auto simp: pointer_lines_def pointer_ok_def list_all_iff)
  show "LF \<notin> set (size_line p)" using digits lit(5) by (simp add: size_line_def)
  show "from_utf8_ok (size_line p)" using digits lit(9) by (intro ascii_valid) (simp add: size_line_def)
qed

lemma concat_ok: "\<forall>l\<in>set ls. from_utf8_ok l \<Longrightarrow> from_utf8_ok z \<Longrightarrow> from_utf8_ok (concat (map (\<lambda>l. l @ [LF]) ls) @ z)"
proof (induction ls)
  case (Cons l ls)
  have "from_utf8_ok [LF]" by code_simp
  then have "from_utf8_ok (l @ [LF])" using Cons.prems(1) ok_append [of l "[LF]"] by simp
  then show ?case using Cons ok_append [of "l @ [LF]" "concat (map (\<lambda>l. l @ [LF]) ls) @ z"] by simp
qed simp

lemma kv_pointer:
  assumes "pointer_ok tb p" "tables_ok tb"
  shows "kv_lines tb (pointer_lines p @ [size_line p]) [] [] =
    Inr ([(''version'', LATEST), (''oid'', ''sha256:'' @ pt_oid p), (''size'', show_int (pt_size p))],
      map (\<lambda>e. (ext_text e, ext_value e)) (pt_extensions p))"
proof -
  let ?exts = "map (\<lambda>e. (ext_text e, ext_value e)) (pt_extensions p)"
  have v: "split_once '' '' (''version '' @ LATEST) = Some (''version'', LATEST)" "last (''version '' @ LATEST) \<noteq> CR" by code_simp+
  have first: "kv_lines tb ((''version '' @ LATEST) # ts) [] [] = kv_lines tb ts [(''version'', LATEST)] []" for ts
    using v by (simp add: pointer_keys_def Let_def)
  have o: "split_once '' '' (''oid sha256:'' @ pt_oid p) = Some (''oid'', ''sha256:'' @ pt_oid p)"
    using split_once_at [of "CHR '' ''" "''oid''" "''sha256:'' @ pt_oid p"] by simp
  have "last (''oid sha256:'' @ pt_oid p) \<noteq> CR" using ext_value_last [of "pt_oid p" "''oid''"] assms(1) by (simp add: pointer_ok_def)
  then have second: "kv_lines tb ((''oid sha256:'' @ pt_oid p) # ts) [(''version'', LATEST)] ?exts =
      kv_lines tb ts [(''version'', LATEST), (''oid'', ''sha256:'' @ pt_oid p)] ?exts" for ts
    using o by (simp add: pointer_keys_def Let_def)
  have s: "split_once '' '' (size_line p) = Some (''size'', show_int (pt_size p))"
    using split_once_at [of "CHR '' ''" "''size''" "show_int (pt_size p)"] by (simp add: size_line_def)
  have "size_line p \<noteq> []" "last (size_line p) \<noteq> CR" using size_line_last [of p] digit_plain assms(1) by (auto simp: pointer_ok_def)
  then have third: "kv_lines tb [size_line p] [(''version'', LATEST), (''oid'', ''sha256:'' @ pt_oid p)] ?exts =
      Inr ([(''version'', LATEST), (''oid'', ''sha256:'' @ pt_oid p), (''size'', show_int (pt_size p))], ?exts)"
    using s by (simp add: pointer_keys_def Let_def)
  have between: "kv_lines tb (map (\<lambda>e. ext_text e @ '' '' @ ext_value e) (pt_extensions p) @ ts) [(''version'', LATEST)] [] =
      kv_lines tb ts [(''version'', LATEST)] ([] @ ?exts)" for ts
    using assms by (intro kv_ext_lines) (simp_all add: pointer_ok_def)
  have "pointer_lines p @ [size_line p] = (''version '' @ LATEST) #
      map (\<lambda>e. ext_text e @ '' '' @ ext_value e) (pt_extensions p) @ [''oid sha256:'' @ pt_oid p, size_line p]"
    by (simp add: pointer_lines_def)
  then show ?thesis by (simp only: first between second third append_Nil)
qed

lemma decode_encoded:
  assumes "pointer_ok tb p" "tables_ok tb"
  shows "decode tb (encoded p) = Inr p"
proof -
  let ?data = "concat (map (\<lambda>l. l @ [LF]) (pointer_lines p)) @ size_line p"
  have pos: "0 < pt_size p" "pt_size p < 2 ^ 63" using assms(1) by (simp_all add: pointer_ok_def)
  have "from_utf8_ok ?data" using lines_plain [OF assms(1)] by (intro concat_ok) auto
  then have lossy: "from_utf8_lossy ?data = ?data" by (rule lossy_of_valid)
  have lines: "split_on LF ?data = pointer_lines p @ [size_line p]" using lines_plain [OF assms(1)] by (intro split_on_lines) auto
  have latest: "''version '' @ LATEST = ''version https://'' @ ''git-lfs'' @ ''.github.com/spec/v1''" by code_simp
  have "?data = ''version https://'' @ ''git-lfs'' @ (''.github.com/spec/v1'' @ [LF] @ concat (map (\<lambda>l. l @ [LF]) (tl (pointer_lines p))) @ size_line p)"
    using latest by (simp add: pointer_lines_def)
  then have "contains ''git-lfs'' ?data" unfolding contains_iff by blast
  moreover have "LATEST \<noteq> []" "LATEST \<in> set V1_ALIASES" by code_simp+
  moreover have "parse_oid (''sha256:'' @ pt_oid p) = Inr (pt_oid p)" using assms(1) by (intro parse_oid_ok) (simp add: pointer_ok_def)
  moreover have "parse_i64 (show_int (pt_size p)) = Some (pt_size p)" using pos by (intro parse_i64_show) simp_all
  moreover have "parse_extensions (map (\<lambda>e. (ext_text e, ext_value e)) (pt_extensions p)) = Inr (pt_extensions p)"
    using assms(1) by (intro parse_extensions_back [of tb]) (simp add: pointer_ok_def)
  moreover have "first_duplicate [] (pt_extensions p) = None" "sort_key ex_priority (pt_extensions p) = pt_extensions p"
    using assms(1) by (auto simp: pointer_ok_def intro!: no_duplicate sorted_kept)
  ultimately have kv: "decode_kv tb ?data = Inr (new_pointer (pt_oid p) (pt_size p) (pt_extensions p))"
    using pos kv_pointer [OF assms] unfolding decode_kv_def lossy lines Let_def by simp
  have same: "new_pointer (pt_oid p) (pt_size p) (pt_extensions p) = p" using assms(1) by (simp add: new_pointer_def pointer_ok_def)
  have "encoded p \<noteq> []" using encoded_lines [OF pos(1)] by simp
  then show ?thesis unfolding decode_def trim_encoded [OF assms(1)] kv same using assms(1) by (simp add: pointer_ok_def)
qed

subsection \<open>What a decoded pointer is\<close>

definition pointer_sound :: "pointer \<Rightarrow> bool" where
  "pointer_sound p \<longleftrightarrow> is_oid (pt_oid p) \<and> 0 \<le> pt_size p \<and> pt_size p < 2 ^ 63 \<and> sorted_wrt (<) (map ex_priority (pt_extensions p)) \<and>
     list_all (\<lambda>e. 0 \<le> ex_priority e \<and> is_oid (ex_oid e)) (pt_extensions p)"

lemma parse_oid_is: "parse_oid v = Inr oid \<Longrightarrow> is_oid oid"
  by (auto simp: parse_oid_def split: option.splits prod.splits if_splits)

lemma parse_i64_bound: "parse_i64 s = Some n \<Longrightarrow> n < 2 ^ 63"
  by (auto simp: parse_i64_def parse_uint_def Let_def split: list.splits if_splits)

lemma parse_extensions_sound: "parse_extensions xs = Inr es \<Longrightarrow> list_all (\<lambda>e. 0 \<le> ex_priority e \<and> is_oid (ex_oid e)) es"
  by (induction xs arbitrary: es rule: parse_extensions.induct)
    (auto split: option.splits prod.splits if_splits sum.splits dest: parse_oid_is)

lemma duplicate_none: "first_duplicate seen es = None \<Longrightarrow> distinct (map ex_priority es) \<and> (\<forall>e\<in>set es. ex_priority e \<notin> set seen)"
proof (induction es arbitrary: seen)
  case (Cons e es)
  then have "distinct (map ex_priority es) \<and> (\<forall>f\<in>set es. ex_priority f \<notin> set (ex_priority e # seen))"
    by (intro Cons.IH) (simp split: if_splits)
  then show ?case using Cons.prems by (auto split: if_splits)
qed simp

lemma strictly_sorted_key: "distinct (map f es) \<Longrightarrow> sorted_wrt (<) (map f (sort_key f es))"
  by (simp add: strict_sorted_iff distinct_map)

lemma decode_kv_sound: "decode_kv tb data = Inr p \<Longrightarrow> pointer_sound p"
  unfolding decode_kv_def Let_def
  by (auto split: if_splits sum.splits option.splits prod.splits
      simp: pointer_sound_def new_pointer_def list_all_iff
      intro!: strictly_sorted_key
      dest: parse_oid_is parse_i64_bound parse_extensions_sound duplicate_none)

subsection \<open>What the two formats promise\<close>

lemma write_payload_open:
  assumes "0 < cap" "pk_room w = None"
  shows "\<exists>ds. write_payload data cap w = Some (w\<lparr>pk_text := pk_text w @ concat (map pkt_line ds) @ ''0000''\<rparr>, Inr ()) \<and>
    concat ds = data \<and> list_all (\<lambda>d. length d \<le> MAX_PACKET_LENGTH) ds"
proof -
  let ?n = "min cap MAX_PACKET_LENGTH" and ?ds = "string_chunks (length data) (min cap MAX_PACKET_LENGTH) data"
  have n: "0 < ?n" using assms(1) by (simp add: MAX_PACKET_LENGTH_def)
  have all: "concat ?ds = data \<and> list_all (\<lambda>c. length c \<le> ?n) ?ds" using string_chunks_all [OF n order_refl] .
  then have "list_all (\<lambda>d. length d \<le> MAX_PACKET_LENGTH) ?ds" by (auto simp: list_all_iff)
  then show ?thesis using n all write_packets_open [OF assms(2), of ?ds] by (auto simp: write_payload_def Let_def)
qed

text \<open>Packets are read back as they were written. Over a stream that takes everything, \<open>write_packet_list\<close> and \<open>write_payload\<close> succeed,
  and what they append to the stream is read by \<open>read_packet_list\<close> and \<open>read_payload\<close> as the same items (UTF-8 texts of less than 65516
  bytes) and the same data (any bytes, however they are cut: every positive capacity), leaving exactly what follows in the stream.\<close>

theorem pktline_roundtrip:
  assumes "pk_room w = None" "list_all (\<lambda>i. from_utf8_ok i \<and> length i < MAX_PACKET_LENGTH) items" "0 < cap"
  shows "(\<exists>sent. write_packet_list items w = (w\<lparr>pk_text := pk_text w @ sent\<rparr>, Inr ()) \<and> read_packet_list [] (sent @ rest) = Inr (items, rest)) \<and>
    (\<exists>sent. write_payload data cap w = Some (w\<lparr>pk_text := pk_text w @ sent\<rparr>, Inr ()) \<and> read_payload [] (sent @ rest) = Inr (data, rest))"
proof (intro conjI)
  let ?lines = "map (\<lambda>i. i @ [LF]) items"
  have "list_all (\<lambda>d. length d \<le> MAX_PACKET_LENGTH) ?lines" using assms(2) by (auto simp: list_all_iff)
  from write_packets_open [OF assms(1) this] read_list_packets [OF assms(2), of "[]" rest]
  show "\<exists>sent. write_packet_list items w = (w\<lparr>pk_text := pk_text w @ sent\<rparr>, Inr ()) \<and> read_packet_list [] (sent @ rest) = Inr (items, rest)"
    by (intro exI [of _ "concat (map pkt_line ?lines) @ ''0000''"]) (simp add: write_packet_list_def)
  obtain ds where ds: "write_payload data cap w = Some (w\<lparr>pk_text := pk_text w @ concat (map pkt_line ds) @ ''0000''\<rparr>, Inr ())"
      "concat ds = data" "list_all (\<lambda>d. length d \<le> MAX_PACKET_LENGTH) ds"
    using write_payload_open [OF assms(3,1)] by blast
  then show "\<exists>sent. write_payload data cap w = Some (w\<lparr>pk_text := pk_text w @ sent\<rparr>, Inr ()) \<and> read_payload [] (sent @ rest) = Inr (data, rest)"
    using read_payload_packets [OF ds(3), of "[]" rest] by (intro exI [of _ "concat (map pkt_line ds) @ ''0000''"]) simp
qed

theorem pktline_roundtrip_witness:
  "\<exists>sent. write_payload ''hello'' 2 \<lparr>pk_text = [], pk_room = None\<rparr> = Some (\<lparr>pk_text = sent, pk_room = None\<rparr>, Inr ()) \<and>
    read_payload [] (sent @ ''0000'') = Inr (''hello'', ''0000'')"
proof -
  have "from_utf8_ok ''status=success''" by code_simp
  then show ?thesis
    using pktline_roundtrip [of "\<lparr>pk_text = [], pk_room = None\<rparr>" "[''status=success'']" 2 "''0000''" "''hello''"] by (simp add: MAX_PACKET_LENGTH_def)
qed

text \<open>C39: A pointer survives its file. For a pointer with a SHA-256 name, a size between 1 and \<open>2\<^sup>63 - 1\<close> and extensions of increasing
  one-digit priorities whose names begin with a word character and hold no space or newline, decoding what \<open>encoded\<close> writes gives the same pointer,
  marked canonical.\<close>

theorem pointer_roundtrip:
  assumes "tables_ok tb" "pointer_ok tb p"
  shows "decode tb (encoded p) = Inr p"
  using assms by (intro decode_encoded)

definition ascii_tables :: tables where
  "ascii_tables = \<lparr>tb_digit = (\<lambda>s. list_all ascii_digit s), tb_word = (\<lambda>s. list_all (\<lambda>c. ascii_alnum c \<or> c = CHR ''_'') s)\<rparr>"

lemma ascii_tables_ok: "tables_ok ascii_tables"
  by (simp add: tables_ok_def ascii_tables_def)

theorem pointer_roundtrip_witness:
  "let p = new_pointer (concat (replicate 32 ''4d'')) 12345 [\<lparr>ex_name = ''foo'', ex_priority = 0, ex_oid = concat (replicate 32 ''0a'')\<rparr>]
   in decode ascii_tables (encoded p) = Inr p"
proof -
  let ?p = "new_pointer (concat (replicate 32 ''4d'')) 12345 [\<lparr>ex_name = ''foo'', ex_priority = 0, ex_oid = concat (replicate 32 ''0a'')\<rparr>]"
  have "is_oid (concat (replicate 32 ''4d''))" "is_oid (concat (replicate 32 ''0a''))" "from_utf8_ok ''foo''"
    "tb_word ascii_tables (hd (utf8_chars ''foo''))" by code_simp+
  then have "pointer_ok ascii_tables ?p" by (simp add: pointer_ok_def ext_ok_def new_pointer_def LF_def)
  from pointer_roundtrip [OF ascii_tables_ok this] show ?thesis by (simp add: Let_def)
qed

text \<open>C40: Whatever bytes the decoder accepts, the pointer it returns is well-formed: its name is 64 lower-case hexadecimal digits, its size fits
  a signed 64-bit integer and is not negative, its extensions are strictly ordered by priorities that are not negative, each with
  a name of the same form, and it is marked canonical exactly when encoding it gives the bytes back.\<close>

theorem decoded_pointer_typed:
  assumes "decode tb buf = Inr p"
  shows "pointer_sound p \<and> pt_canonical p = (encoded p = buf)"
proof (cases "buf = []")
  case True
  have "is_oid EMPTY_OBJECT_SHA256" by code_simp
  moreover have "p = empty_pointer" using assms True by (simp add: decode_def)
  ultimately show ?thesis using True by (simp add: pointer_sound_def empty_pointer_def new_pointer_def encoded_def)
next
  case False
  then obtain q where q: "decode_kv tb (trim_space buf) = Inr q" "p = q\<lparr>pt_canonical := (encoded q = buf)\<rparr>"
    using assms by (auto simp: decode_def split: sum.splits)
  have "encoded p = encoded q" by (simp add: q(2) encoded_def)
  moreover have "pointer_sound p" using decode_kv_sound [OF q(1)] by (simp add: q(2) pointer_sound_def)
  ultimately show ?thesis using q(2) by simp
qed

theorem decoded_pointer_typed_witness:
  "let p = new_pointer (concat (replicate 32 ''4d'')) 5 [] in \<exists>q. decode ascii_tables (LF # encoded p) = Inr q \<and> pointer_sound q \<and> \<not> pt_canonical q"
proof -
  let ?p = "new_pointer (concat (replicate 32 ''4d'')) 5 []"
  have "is_oid (concat (replicate 32 ''4d''))" by code_simp
  then have ok: "pointer_ok ascii_tables ?p" by (simp add: pointer_ok_def new_pointer_def)
  have same: "trim_space (LF # encoded ?p) = trim_space (encoded ?p)" by (simp add: trim_space_def trim_matches_def go_space_def)
  have "encoded ?p \<noteq> []" by (simp add: encoded_def new_pointer_def)
  then obtain q0 where q0: "decode_kv ascii_tables (trim_space (encoded ?p)) = Inr q0" "?p = q0\<lparr>pt_canonical := (encoded q0 = encoded ?p)\<rparr>"
    using decode_encoded [OF ok ascii_tables_ok] by (auto simp: decode_def split: sum.splits)
  let ?q = "q0\<lparr>pt_canonical := (encoded q0 = LF # encoded ?p)\<rparr>"
  have dec: "decode ascii_tables (LF # encoded ?p) = Inr ?q" using q0(1) same by (simp add: decode_def)
  have "encoded ?q = encoded (q0\<lparr>pt_canonical := (encoded q0 = encoded ?p)\<rparr>)" by (simp add: encoded_def)
  then have "encoded ?q = encoded ?p" using q0(2) by metis
  then have "encoded ?q \<noteq> LF # encoded ?p" by simp
  then show ?thesis using decoded_pointer_typed [OF dec] dec unfolding Let_def by metis
qed

end
