(* ===== verification/Lfs_Filter.thy ===== *)
theory Lfs_Filter
  imports Lfs_Pointer "HOL-Library.Multiset"
begin

text \<open>
  The clean and smudge filters of the guest's \<open>git-lfs\<close> (\<open>tools/rust/git-lfs/src/gitfilter.rs\<close>, and \<open>do_clean\<close> and
  \<open>do_smudge\<close> of \<open>commands/filter.rs\<close>): content into the object store with a pointer in its place, and back, piped through the
  configured extensions. A \<open>Read\<close> is the list of what its reads give; SHA-256, running a program, downloads and the system calls that
  make folders, links and temporary files are parameters of \<open>lfs_env\<close>; the files are a map from paths to content. Progress lines,
  traces and errors of the output stream are not modelled.
\<close>

subsection \<open>Reading\<close>

datatype read_event = ReadData string | Interrupted | ReadFails string
datatype got = Got string | GotInterrupted | GotError string

fun read_some :: "nat \<Rightarrow> read_event list \<Rightarrow> read_event list \<times> got" where
  "read_some n [] = ([], Got [])"
| "read_some n (Interrupted # rd) = (rd, GotInterrupted)"
| "read_some n (ReadFails e # rd) = (rd, GotError e)"
| "read_some n (ReadData d # rd) = (if length d \<le> n then rd else ReadData (drop n d) # rd, Got (take n d))"

fun reads_left :: "read_event list \<Rightarrow> nat" where
  "reads_left [] = 0"
| "reads_left (ReadData d # rd) = Suc (length d + reads_left rd)"
| "reads_left (_ # rd) = Suc (reads_left rd)"

lemma read_some_left:
  "read_some n rd = (rd1, Got d) \<Longrightarrow> d \<noteq> [] \<Longrightarrow> reads_left rd1 < reads_left rd"
  "read_some n rd = (rd1, GotInterrupted) \<Longrightarrow> reads_left rd1 < reads_left rd"
  by (induction n rd rule: read_some.induct) (auto split: if_splits)

function fill_head :: "nat \<Rightarrow> string \<Rightarrow> read_event list \<Rightarrow> string + string \<times> read_event list" where
  "fill_head want acc rd =
     (if want \<le> length acc then Inr (acc, rd)
      else case read_some (want - length acc) rd of
          (rd1, GotInterrupted) \<Rightarrow> fill_head want acc rd1
        | (rd1, GotError e) \<Rightarrow> Inl e
        | (rd1, Got d) \<Rightarrow> if d = [] then Inr (acc, rd1) else fill_head want (acc @ d) rd1)"
  by pat_completeness auto
termination by (relation "measure (\<lambda>(want, acc, rd). reads_left rd)") (auto dest: read_some_left [OF sym])

function copy_with_progress :: "string \<Rightarrow> read_event list \<Rightarrow> string + string" where
  "copy_with_progress out rd =
     (case read_some 65536 rd of
        (rd1, GotInterrupted) \<Rightarrow> copy_with_progress out rd1
      | (rd1, GotError e) \<Rightarrow> Inl e
      | (rd1, Got d) \<Rightarrow> if d = [] then Inr out else copy_with_progress (out @ d) rd1)"
  by pat_completeness auto
termination by (relation "measure (\<lambda>(out, rd). reads_left rd)") (auto dest: read_some_left [OF sym])

function std_copy :: "string \<Rightarrow> read_event list \<Rightarrow> string \<times> string option" where
  "std_copy out rd =
     (case read_some 8192 rd of
        (rd1, GotInterrupted) \<Rightarrow> std_copy out rd1
      | (rd1, GotError e) \<Rightarrow> (out, Some e)
      | (rd1, Got d) \<Rightarrow> if d = [] then (out, None) else std_copy (out @ d) rd1)"
  by pat_completeness auto
termination by (relation "measure (\<lambda>(out, rd). reads_left rd)") (auto dest: read_some_left [OF sym])

declare fill_head.simps [simp del] copy_with_progress.simps [simp del] std_copy.simps [simp del]

subsection \<open>Extensions\<close>

record ext_config =
  xc_name :: string
  xc_clean :: string
  xc_smudge :: string
  xc_priority :: int

datatype run_result = SpawnError string | Ran bool string string string

type_synonym files = "string \<rightharpoonup> string"

record lfs_env =
  le_extensions :: "ext_config list"
  le_run :: "string \<Rightarrow> string list \<Rightarrow> string \<Rightarrow> run_result"
  le_sha256 :: "string \<Rightarrow> string"
  le_tables :: tables
  le_objects :: string
  le_temp :: "lfs_error option"
  le_mkdir :: "string \<Rightarrow> string option"
  le_alternates :: "string list"
  le_link :: "string \<Rightarrow> string \<Rightarrow> bool"
  le_download :: "pointer \<Rightarrow> lfs_error + string"
  le_fallback :: "pointer \<Rightarrow> (lfs_error + string) option"
  le_rename :: "string option"

fun first_taken :: "int list \<Rightarrow> ext_config list \<Rightarrow> ext_config option" where
  "first_taken seen [] = None"
| "first_taken seen (e # es) = (if xc_priority e \<in> set seen then Some e else first_taken (xc_priority e # seen) es)"

definition sorted_extensions :: "lfs_env \<Rightarrow> lfs_error + ext_config list" where
  "sorted_extensions env =
     (case first_taken [] (le_extensions env) of
        Some e \<Rightarrow> Inl (new_error (''duplicate priority '' @ show_int (xc_priority e) @ '' on '' @ xc_name e))
      | None \<Rightarrow> Inr (sort_key xc_priority (le_extensions env)))"

definition hex_text :: "string \<Rightarrow> string" where
  "hex_text bs = concat (map (\<lambda>b. hexn 2 (of_char b)) bs)"

definition oid_of :: "lfs_env \<Rightarrow> string \<Rightarrow> string" where
  "oid_of env data = hex_text (le_sha256 env data)"

definition run_extension :: "lfs_env \<Rightarrow> bool \<Rightarrow> string \<Rightarrow> ext_config \<Rightarrow> string \<Rightarrow> run_result" where
  "run_extension env cleaning file_name e data =
     (let pieces = split_on CHR '' '' (if cleaning then xc_clean e else xc_smudge e) in
      le_run env (trim (hd pieces)) (map (replace_all ''%f'' file_name) (tl pieces)) data)"

definition extension_command :: "bool \<Rightarrow> ext_config \<Rightarrow> string" where
  "extension_command cleaning e = trim (hd (split_on CHR '' '' (if cleaning then xc_clean e else xc_smudge e)))"

fun pipe_through :: "lfs_env \<Rightarrow> bool \<Rightarrow> string \<Rightarrow> ext_config list \<Rightarrow> string \<Rightarrow> lfs_error + string \<times> (string \<times> string \<times> string) list" where
  "pipe_through env cleaning file_name [] data = Inr (data, [])"
| "pipe_through env cleaning file_name (e # es) data =
     (case run_extension env cleaning file_name e data of
        SpawnError msg \<Rightarrow> Inl (new_error (''exec: '' @ go_quote (extension_command cleaning e) @ '': '' @ msg))
      | Ran success out err status \<Rightarrow>
          if \<not> success then
            Inl (new_error (if es \<noteq> [] then ''extension '' @ [CHR 0x27] @ xc_name e @ [CHR 0x27] @ '' failed with: '' @ from_utf8_lossy err else status))
          else case pipe_through env cleaning file_name es out of
              Inl x \<Rightarrow> Inl x
            | Inr (final, results) \<Rightarrow> Inr (final, (xc_name e, oid_of env data, oid_of env out) # results))"

definition pipe_extensions :: "lfs_env \<Rightarrow> bool \<Rightarrow> read_event list \<Rightarrow> string \<Rightarrow> ext_config list
    \<Rightarrow> lfs_error + string \<times> (string \<times> string \<times> string) list" where
  "pipe_extensions env cleaning input file_name exts =
     (case copy_with_progress [] input of
        Inl e \<Rightarrow> Inl (new_error e)
      | Inr data \<Rightarrow>
          (case pipe_through env cleaning file_name exts data of
             Inl e \<Rightarrow> Inl e
           | Inr r \<Rightarrow> (case le_temp env of Some e \<Rightarrow> Inl e | None \<Rightarrow> Inr r)))"

subsection \<open>Clean\<close>

datatype cleaned = Passthrough string | CleanedObject pointer string

fun changed_extensions :: "int \<Rightarrow> (string \<times> string \<times> string) list \<Rightarrow> extension list" where
  "changed_extensions n [] = []"
| "changed_extensions n ((name, oin, oout) # rest) =
     (if oin \<noteq> oout then \<lparr>ex_name = name, ex_priority = n, ex_oid = oin\<rparr> # changed_extensions (n + 1) rest else changed_extensions n rest)"

definition lfs_clean :: "lfs_env \<Rightarrow> read_event list \<Rightarrow> string \<Rightarrow> lfs_error + cleaned" where
  "lfs_clean env input file_name =
     (case sorted_extensions env of
        Inl e \<Rightarrow> Inl e
      | Inr exts \<Rightarrow>
          if exts \<noteq> [] then
            (case pipe_extensions env True input file_name exts of
               Inl e \<Rightarrow> Inl e
             | Inr (tmp, results) \<Rightarrow>
                 Inr (CleanedObject (new_pointer (snd (snd (last results))) (int (length tmp)) (changed_extensions 0 results)) tmp))
          else
            (case fill_head BLOB_SIZE_CUTOFF [] input of
               Inl e \<Rightarrow> Inl (new_error e)
             | Inr (head, rest) \<Rightarrow>
                 if head = [] \<or> \<not> isl (decode (le_tables env) head) \<and> length head < BLOB_SIZE_CUTOFF then Inr (Passthrough head)
                 else case le_temp env of
                     Some e \<Rightarrow> Inl e
                   | None \<Rightarrow>
                       (case copy_with_progress [] (ReadData head # rest) of
                          Inl e \<Rightarrow> Inl (new_error e)
                        | Inr data \<Rightarrow> Inr (CleanedObject (new_pointer (oid_of env data) (int (length data)) []) data))))"

subsection \<open>The object store\<close>

definition object_pathname :: "lfs_env \<Rightarrow> string \<Rightarrow> string" where
  "object_pathname env oid =
     (if oid = EMPTY_OBJECT_SHA256 then ''/dev/null''
      else le_objects env @ ''/'' @ take 2 oid @ ''/'' @ take 2 (drop 2 oid) @ ''/'' @ oid)"

definition object_path :: "lfs_env \<Rightarrow> string \<Rightarrow> lfs_error + string" where
  "object_path env oid =
     (if length oid < 4 then Inl (new_error (''too short object ID: '' @ go_quote oid))
      else if oid = EMPTY_OBJECT_SHA256 then Inr ''/dev/null''
      else
        let dir = le_objects env @ ''/'' @ take 2 oid @ ''/'' @ take 2 (drop 2 oid) in
        case le_mkdir env dir of
          Some e \<Rightarrow> Inl (new_error (''error trying to create local storage directory in '' @ go_quote dir @ '': mkdir '' @ dir @ '': '' @ e))
        | None \<Rightarrow> Inr (dir @ ''/'' @ oid))"

definition of_size :: "files \<Rightarrow> string \<Rightarrow> int \<Rightarrow> bool" where
  "of_size fs path sz = (case fs path of Some d \<Rightarrow> int (length d) = sz | None \<Rightarrow> False)"

fun try_alternates :: "lfs_env \<Rightarrow> int \<Rightarrow> string \<Rightarrow> string list \<Rightarrow> files \<Rightarrow> files" where
  "try_alternates env sz media [] fs = fs"
| "try_alternates env sz media (alt # alts) fs =
     (if of_size fs alt sz \<and> le_link env alt media then fs(media := fs alt) else try_alternates env sz media alts fs)"

definition link_or_copy_from_reference :: "lfs_env \<Rightarrow> string \<Rightarrow> int \<Rightarrow> files \<Rightarrow> files" where
  "link_or_copy_from_reference env oid sz fs =
     (if sz = 0 \<or> of_size fs (object_pathname env oid) sz then fs
      else case object_path env oid of
          Inl _ \<Rightarrow> fs
        | Inr media \<Rightarrow>
            try_alternates env sz media (map (\<lambda>r. r @ ''/'' @ take 2 oid @ ''/'' @ take 2 (drop 2 oid) @ ''/'' @ oid) (le_alternates env)) fs)"

subsection \<open>Smudge\<close>

fun named_extensions :: "lfs_env \<Rightarrow> extension list \<Rightarrow> lfs_error + ext_config list" where
  "named_extensions env [] = Inr []"
| "named_extensions env (pe # pes) =
     (case find (\<lambda>e. xc_name e = ex_name pe) (le_extensions env) of
        None \<Rightarrow> Inl (wrap_error ''smudge filter'' (new_error (''extension '' @ [CHR 0x27] @ ex_name pe @ [CHR 0x27] @ '' is not configured'')))
      | Some e \<Rightarrow> (case named_extensions env pes of Inl x \<Rightarrow> Inl x | Inr es \<Rightarrow> Inr (e\<lparr>xc_priority := ex_priority pe\<rparr> # es)))"

fun equal_neighbours :: "ext_config list \<Rightarrow> ext_config option" where
  "equal_neighbours (a # b # es) = (if xc_priority a = xc_priority b then Some b else equal_neighbours (b # es))"
| "equal_neighbours _ = None"

fun check_results :: "(string \<times> string \<times> string) list \<Rightarrow> extension list \<Rightarrow> lfs_error option" where
  "check_results results [] = None"
| "check_results results (x # xs) =
     (case find (\<lambda>r. fst r = ex_name x) results of
        None \<Rightarrow> Some (new_error (''actual extension name '' @ [CHR 0x27, CHR 0x27] @ '' does not match expected '' @ [CHR 0x27] @ ex_name x @ [CHR 0x27]))
      | Some r \<Rightarrow>
          if snd (snd r) \<noteq> ex_oid x then
            Some (new_error (''actual OID '' @ snd (snd r) @ '' for extension '' @ [CHR 0x27] @ ex_name x @ [CHR 0x27] @ '' does not match expected '' @ ex_oid x))
          else check_results results xs)"

definition smudge_extensions :: "lfs_env \<Rightarrow> pointer \<Rightarrow> string \<Rightarrow> string \<Rightarrow> lfs_error + string" where
  "smudge_extensions env p working_file data =
     (case named_extensions env (pt_extensions p) of
        Inl e \<Rightarrow> Inl e
      | Inr named \<Rightarrow>
          let exts = sort_key xc_priority named in
          case equal_neighbours exts of
            Some b \<Rightarrow> Inl (wrap_error ''smudge filter'' (new_error (''duplicate priority '' @ show_int (xc_priority b) @ '' on '' @ xc_name b)))
          | None \<Rightarrow>
              (case pipe_extensions env False [ReadData data] working_file (rev exts) of
                 Inl e \<Rightarrow> Inl (wrap_error ''smudge filter'' e)
               | Inr (final, results) \<Rightarrow>
                   if fst (snd (hd results)) \<noteq> pt_oid p then
                     Inl (wrap_error ''smudge filter''
                       (new_error (''actual OID '' @ fst (snd (hd results)) @ '' during smudge does not match expected '' @ pt_oid p)))
                   else (case check_results results (pt_extensions p) of
                       Some e \<Rightarrow> Inl (wrap_error ''smudge filter'' e)
                     | None \<Rightarrow> Inr final)))"

definition read_local_file :: "lfs_env \<Rightarrow> pointer \<Rightarrow> string \<Rightarrow> string \<Rightarrow> files \<Rightarrow> lfs_error + string" where
  "read_local_file env p media working_file fs =
     (case fs media of
        None \<Rightarrow> Inl (wrap_error ''error opening media file'' (new_error (''open '' @ media @ '': no such file or directory'')))
      | Some data \<Rightarrow>
          if pt_extensions p \<noteq> [] then smudge_extensions env p working_file data
          else (case copy_with_progress [] [ReadData data] of
              Inl e \<Rightarrow> Inl (new_error (''Error reading from media file: '' @ e))
            | Inr out \<Rightarrow> Inr out))"

definition fetched :: "lfs_env \<Rightarrow> pointer \<Rightarrow> string \<Rightarrow> string \<Rightarrow> lfs_error + string \<Rightarrow> files \<Rightarrow> files \<times> (lfs_error + string)" where
  "fetched env p media working_file arrived fs =
     (case arrived of
        Inl e \<Rightarrow> (fs, Inl e)
      | Inr data \<Rightarrow> let fs1 = fs(media \<mapsto> data) in (fs1, read_local_file env p media working_file fs1))"

definition lfs_smudge :: "lfs_env \<Rightarrow> pointer \<Rightarrow> string \<Rightarrow> bool \<Rightarrow> files \<Rightarrow> files \<times> (lfs_error + string)" where
  "lfs_smudge env p working_file download fs =
     (case object_path env (pt_oid p) of
        Inl e \<Rightarrow> (fs, Inl e)
      | Inr media \<Rightarrow>
          let fs1 = link_or_copy_from_reference env (pt_oid p) (pt_size p) fs;
              present = of_size fs1 media (pt_size p);
              fs2 = (if present then fs1 else fs1(media := None));
              smudged = (\<lambda>r. case r of Inl e \<Rightarrow> Inl (with_kind Smudge (wrap_error ''Smudge error'' e)) | Inr out \<Rightarrow> Inr out)
          in if pt_size p = 0 then (fs2, Inr [])
             else if present then (fs2, smudged (read_local_file env p media working_file fs2))
             else if download then
               (case fetched env p media working_file (le_download env p) fs2 of
                  (fs3, Inr out) \<Rightarrow> (fs3, Inr out)
                | (fs3, Inl e) \<Rightarrow>
                    (case le_fallback env p of
                       None \<Rightarrow> (fs3, smudged (Inl e))
                     | Some arrived \<Rightarrow> (case fetched env p media working_file arrived fs3 of (fs4, r) \<Rightarrow> (fs4, smudged r))))
             else
               (fs2, Inl (with_kind DownloadDeclined (wrap_error ''smudge filter'' (new_error (''stat '' @ media @ '': no such file or directory''))))))"

subsection \<open>The filters\<close>

datatype clean_end = CleanWrote string "pointer option" | CleanStopped string

definition do_clean :: "lfs_env \<Rightarrow> read_event list \<Rightarrow> string \<Rightarrow> files \<Rightarrow> files \<times> clean_end" where
  "do_clean env input file_name fs =
     (case lfs_clean env input file_name of
        Inl e \<Rightarrow> (fs, CleanStopped (show_error (wrap_error ''Error cleaning Git LFS object'' e)))
      | Inr (Passthrough b) \<Rightarrow> (fs, CleanWrote b None)
      | Inr (CleanedObject p tmp) \<Rightarrow>
          (case object_path env (pt_oid p) of
             Inl e \<Rightarrow> (fs, CleanStopped ''Unable to get local media path.'')
           | Inr media \<Rightarrow>
               (case fs media of
                  Some old \<Rightarrow>
                    if int (length old) \<noteq> pt_size p \<and> pt_extensions p = [] then
                      (fs, CleanStopped (''Files don'' @ [CHR 0x27] @ ''t match:'' @ [LF] @ media))
                    else (fs, CleanWrote (encoded p) (Some p))
                | None \<Rightarrow>
                    (case le_rename env of
                       Some e \<Rightarrow> (fs, CleanStopped (''Unable to move it to '' @ media))
                     | None \<Rightarrow> (fs(media \<mapsto> tmp), CleanWrote (encoded p) (Some p))))))"

datatype smudge_end = SmudgeWrote string | SmudgeNotPointer string lfs_error | SmudgeFailed string lfs_error

function decode_from :: "string \<Rightarrow> read_event list \<Rightarrow> string \<times> read_event list" where
  "decode_from acc rd =
     (if BLOB_SIZE_CUTOFF \<le> length acc then (acc, rd)
      else case read_some (BLOB_SIZE_CUTOFF - length acc) rd of
          (rd1, Got d) \<Rightarrow> if d = [] then (acc, rd1) else decode_from (acc @ d) rd1
        | (rd1, _) \<Rightarrow> (acc, rd1))"
  by pat_completeness auto
termination by (relation "measure (\<lambda>(acc, rd). reads_left rd)") (auto dest: read_some_left [OF sym])

declare decode_from.simps [simp del]

definition do_smudge :: "lfs_env \<Rightarrow> read_event list \<Rightarrow> string \<Rightarrow> bool \<Rightarrow> (string \<Rightarrow> bool) \<Rightarrow> files \<Rightarrow> files \<times> smudge_end" where
  "do_smudge env input file_name skip allows fs =
     (case decode_from [] input of
        (head, rest) \<Rightarrow>
          (case decode (le_tables env) head of
             Inl perr \<Rightarrow>
               (case std_copy head rest of
                  (out, Some e) \<Rightarrow> (fs, SmudgeNotPointer out (wrap_error (show_error perr) (new_error e)))
                | (out, None) \<Rightarrow>
                    if out \<noteq> [] then (fs, SmudgeNotPointer out (not_a_pointer (new_error (''Unable to parse pointer at: '' @ go_quote file_name))))
                    else (fs, SmudgeWrote []))
           | Inr p \<Rightarrow>
               let fs1 = link_or_copy_from_reference env (pt_oid p) (pt_size p) fs in
               if skip \<or> \<not> allows file_name then (fs1, SmudgeWrote (encoded p))
               else (case lfs_smudge env p file_name True fs1 of
                   (fs2, Inr out) \<Rightarrow> (fs2, SmudgeWrote out)
                 | (fs2, Inl e) \<Rightarrow> (fs2, SmudgeFailed (encoded p) e))))"

subsection \<open>Reading everything\<close>

fun plain_read :: "read_event \<Rightarrow> bool" where
  "plain_read (ReadData d) = (d \<noteq> [])"
| "plain_read Interrupted = True"
| "plain_read (ReadFails e) = False"

fun read_text :: "read_event list \<Rightarrow> string" where
  "read_text [] = []"
| "read_text (ReadData d # rd) = d @ read_text rd"
| "read_text (_ # rd) = read_text rd"

lemma read_some_plain:
  assumes "list_all plain_read rd" "0 < n"
  shows "(\<exists>rd1. read_some n rd = (rd1, GotInterrupted) \<and> list_all plain_read rd1 \<and> read_text rd1 = read_text rd) \<or>
    (\<exists>rd1 d. read_some n rd = (rd1, Got d) \<and> list_all plain_read rd1 \<and> d @ read_text rd1 = read_text rd \<and> length d \<le> n \<and>
      (d = [] \<longrightarrow> rd = [] \<and> rd1 = []))"
  using assms by (cases rd rule: read_text.cases) auto

lemma copy_plain: "list_all plain_read rd \<Longrightarrow> copy_with_progress out rd = Inr (out @ read_text rd)"
proof (induction "reads_left rd" arbitrary: out rd rule: less_induct)
  case less
  consider (again) rd1 where "read_some 65536 rd = (rd1, GotInterrupted)" "list_all plain_read rd1" "read_text rd1 = read_text rd"
    | (got) rd1 d where "read_some 65536 rd = (rd1, Got d)" "list_all plain_read rd1" "d @ read_text rd1 = read_text rd" "d = [] \<longrightarrow> rd = []"
    using read_some_plain [OF less.prems, of 65536] by auto
  then show ?case
  proof cases
    case again
    then show ?thesis using less.hyps [OF read_some_left(2) [OF again(1)] again(2), of out] by (subst copy_with_progress.simps) simp
  next
    case got
    show ?thesis
    proof (cases "d = []")
      case True
      then show ?thesis using got by (subst copy_with_progress.simps) simp
    next
      case False
      then show ?thesis using got less.hyps [OF read_some_left(1) [OF got(1) False] got(2), of "out @ d"]
        by (subst copy_with_progress.simps) (simp flip: got(3))
    qed
  qed
qed

lemma copy_data: "copy_with_progress [] [ReadData d] = Inr d"
proof (cases "d = []")
  case True
  then show ?thesis by (subst copy_with_progress.simps) simp
next
  case False
  then show ?thesis using copy_plain [of "[ReadData d]" "[]"] by simp
qed

lemma fill_plain:
  "\<lbrakk>list_all plain_read rd; length acc \<le> want\<rbrakk> \<Longrightarrow>
   \<exists>rest. fill_head want acc rd = Inr (take want (acc @ read_text rd), rest) \<and> list_all plain_read rest \<and>
     acc @ read_text rd = take want (acc @ read_text rd) @ read_text rest"
proof (induction "reads_left rd" arbitrary: acc rd rule: less_induct)
  case less
  show ?case
  proof (cases "want \<le> length acc")
    case True
    then have "length acc = want" using less.prems(2) by simp
    then show ?thesis using less.prems(1) by (subst fill_head.simps) simp
  next
    case False
    consider (again) rd1 where "read_some (want - length acc) rd = (rd1, GotInterrupted)" "list_all plain_read rd1" "read_text rd1 = read_text rd"
      | (got) rd1 d where "read_some (want - length acc) rd = (rd1, Got d)" "list_all plain_read rd1" "d @ read_text rd1 = read_text rd"
          "length d \<le> want - length acc" "d = [] \<longrightarrow> rd = [] \<and> rd1 = []"
      using read_some_plain [OF less.prems(1), of "want - length acc"] False by auto
    then show ?thesis
    proof cases
      case again
      then show ?thesis
        using less.hyps [OF read_some_left(2) [OF again(1)] again(2) less.prems(2)] False by (subst fill_head.simps) simp
    next
      case got
      show ?thesis
      proof (cases "d = []")
        case True
        then show ?thesis using got less.prems(2) False by (subst fill_head.simps) simp
      next
        case nonempty: False
        have "length (acc @ d) \<le> want" using got(4) less.prems(2) by simp
        note rec = less.hyps [OF read_some_left(1) [OF got(1) nonempty] got(2) this]
        have "fill_head want acc rd = fill_head want (acc @ d) rd1" using got(1) nonempty False by (subst fill_head.simps) simp
        moreover have "acc @ read_text rd = (acc @ d) @ read_text rd1" using got(3) by simp
        ultimately show ?thesis using rec by (simp only:)
      qed
    qed
  qed
qed

lemma decode_from_data:
  "\<lbrakk>list_all (\<lambda>e. \<exists>d. e = ReadData d \<and> d \<noteq> []) rd; length (acc @ read_text rd) \<le> BLOB_SIZE_CUTOFF\<rbrakk> \<Longrightarrow>
   \<exists>rest. decode_from acc rd = (acc @ read_text rd, rest)"
proof (induction rd arbitrary: acc)
  case Nil
  then show ?case by (subst decode_from.simps) auto
next
  case (Cons e rd)
  obtain d where d: "e = ReadData d" "d \<noteq> []" using Cons.prems(1) by auto
  then have fits: "length d \<le> BLOB_SIZE_CUTOFF - length acc" "0 < length d" using Cons.prems(2) by simp_all
  then have "read_some (BLOB_SIZE_CUTOFF - length acc) (e # rd) = (rd, Got d)" using d by simp
  then show ?case using Cons.IH [of "acc @ d"] Cons.prems d fits by (subst decode_from.simps) auto
qed

subsection \<open>Object names\<close>

lemma hexn_inject: "m < 16 ^ Suc n \<Longrightarrow> k < 16 ^ Suc n \<Longrightarrow> hexn (Suc n) m = hexn (Suc n) k \<Longrightarrow> m = k"
  using parse_hex_hexn [of n m] parse_hex_hexn [of n k] by simp

lemma hex_text_inject: "hex_text a = hex_text b \<Longrightarrow> a = b"
proof (induction a arbitrary: b)
  case Nil
  have "hexn 2 n \<noteq> []" for n using hexn_length [of 2 n] by force
  then show ?case using Nil by (cases b) (simp_all add: hex_text_def)
next
  case (Cons x a)
  have "hexn 2 n \<noteq> []" for n using hexn_length [of 2 n] by force
  then obtain y b' where b: "b = y # b'" using Cons.prems by (cases b) (simp_all add: hex_text_def)
  have eq: "hexn 2 (of_char x) @ hex_text a = hexn 2 (of_char y) @ hex_text b'" using Cons.prems b by (simp add: hex_text_def)
  then have "hexn 2 (of_char x) = hexn 2 (of_char y)" "hex_text a = hex_text b'" by (simp_all add: append_eq_append_conv del: hexn.simps)
  moreover have "(of_char x :: nat) = of_char y" using hexn_inject [of "of_char x" 1 "of_char y"] calculation(1) by (simp add: numeral_2_eq_2)
  ultimately show ?case using Cons.IH b by simp
qed

lemma hex_text_oid: "length bs = 32 \<Longrightarrow> is_oid (hex_text bs)"
proof -
  assume l: "length bs = 32"
  have len: "length (hex_text bs) = 2 * length bs" by (induction bs) (simp_all add: hex_text_def del: hexn.simps)
  have "hex_char d \<in> set ''0123456789abcdef''" if "d < 16" for d
  proof -
    have "list_all (\<lambda>d. hex_char d \<in> set ''0123456789abcdef'') [0..<16]" by code_simp
    then show ?thesis using that by (simp add: list_all_iff)
  qed
  then have "c \<in> set ''0123456789abcdef''" if "c \<in> set (hex_text bs)" for c
    using that hexn_chars [of c 2] by (auto simp: hex_text_def simp del: hexn.simps)
  then show ?thesis using l len by (simp add: is_oid_def list_all_iff)
qed

subsection \<open>Extensions undone\<close>

definition inverts :: "lfs_env \<Rightarrow> string \<Rightarrow> ext_config \<Rightarrow> bool" where
  "inverts env file_name e \<longleftrightarrow> (\<forall>d. \<exists>out err st err' st'.
     run_extension env True file_name e d = Ran True out err st \<and> run_extension env False file_name e out = Ran True d err' st')"

fun stages :: "lfs_env \<Rightarrow> string \<Rightarrow> ext_config list \<Rightarrow> string \<Rightarrow> string list" where
  "stages env file_name [] d = [d]"
| "stages env file_name (e # es) d =
     d # (case run_extension env True file_name e d of Ran _ out _ _ \<Rightarrow> stages env file_name es out | _ \<Rightarrow> [])"

lemma stages_hd: "hd (stages env file_name es d) = d" "d \<in> set (stages env file_name es d)"
  by (cases es; simp)+

lemma pipe_append:
  "\<lbrakk>pipe_through env cl f xs d = Inr (m, r1); pipe_through env cl f ys m = Inr (x, r2)\<rbrakk> \<Longrightarrow>
   pipe_through env cl f (xs @ ys) d = Inr (x, r1 @ r2)"
  by (induction xs arbitrary: d m r1) (auto split: run_result.splits if_splits sum.splits)

lemma priority_unused:
  "run_extension env cl f (e\<lparr>xc_priority := n\<rparr>) d = run_extension env cl f e d"
  "extension_command cl (e\<lparr>xc_priority := n\<rparr>) = extension_command cl e"
  by (simp_all add: run_extension_def extension_command_def)

lemma pipe_priority: "pipe_through env cl f (map (\<lambda>(e, n). e\<lparr>xc_priority := n\<rparr>) xs) d = pipe_through env cl f (map fst xs) d"
proof (induction xs arbitrary: d)
  case (Cons x xs)
  obtain e n where "x = (e, n)" by fastforce
  then show ?case by (cases "run_extension env cl f e d") (simp_all add: priority_unused Cons.IH split: sum.splits)
qed simp

definition changed :: "ext_config list \<Rightarrow> (string \<times> string \<times> string) list \<Rightarrow> (ext_config \<times> string \<times> string) list" where
  "changed es results = filter (\<lambda>(e, i, out). i \<noteq> out) (map2 (\<lambda>e (n, i, out). (e, i, out)) es results)"

lemma pipe_back:
  "\<lbrakk>\<forall>e\<in>set es. inverts env f e; inj_on (le_sha256 env) (set (stages env f es c))\<rbrakk> \<Longrightarrow>
   \<exists>final results. pipe_through env True f es c = Inr (final, results) \<and> length results = length es \<and> map fst results = map xc_name es \<and>
     (if results = [] then final = c else snd (snd (last results)) = oid_of env final) \<and> final \<in> set (stages env f es c) \<and>
     pipe_through env False f (rev (map fst (changed es results))) final =
       Inr (c, rev (map (\<lambda>(e, i, out). (xc_name e, out, i)) (changed es results)))"
proof (induction es arbitrary: c)
  case Nil
  then show ?case by (simp add: changed_def)
next
  case (Cons e es)
  obtain out err st err' st' where run: "run_extension env True f e c = Ran True out err st" "run_extension env False f e out = Ran True c err' st'"
    using Cons.prems(1) unfolding inverts_def by (meson list.set_intros(1))
  have stages: "stages env f (e # es) c = c # stages env f es out" using run(1) by simp
  have inj: "inj_on (le_sha256 env) (set (stages env f es out))" using Cons.prems(2) unfolding stages by (simp add: inj_on_def)
  obtain final results where rec: "pipe_through env True f es out = Inr (final, results)" "length results = length es" "map fst results = map xc_name es"
      "if results = [] then final = out else snd (snd (last results)) = oid_of env final" "final \<in> set (stages env f es out)"
      "pipe_through env False f (rev (map fst (changed es results))) final =
        Inr (out, rev (map (\<lambda>(e, i, out). (xc_name e, out, i)) (changed es results)))"
    using Cons.IH [OF _ inj] Cons.prems(1) by auto
  let ?results = "(xc_name e, oid_of env c, oid_of env out) # results"
  have step: "pipe_through env True f (e # es) c = Inr (final, ?results)" using run(1) rec(1) by simp
  have ch: "changed (e # es) ?results = (if oid_of env c \<noteq> oid_of env out then [(e, oid_of env c, oid_of env out)] else []) @ changed es results"
    by (simp add: changed_def)
  have "pipe_through env False f (rev (map fst (changed (e # es) ?results))) final =
      Inr (c, rev (map (\<lambda>(e, i, out). (xc_name e, out, i)) (changed (e # es) ?results)))"
  proof (cases "oid_of env c = oid_of env out")
    case True
    then have "le_sha256 env c = le_sha256 env out" using hex_text_inject by (simp add: oid_of_def)
    then have "c = out" using Cons.prems(2) stages_hd(2) [of out env f es] unfolding stages by (simp add: inj_on_def)
    then show ?thesis using rec(6) True unfolding ch by simp
  next
    case False
    have "pipe_through env False f [e] out = Inr (c, [(xc_name e, oid_of env out, oid_of env c)])" using run(2) by simp
    from pipe_append [OF rec(6) this] show ?thesis using False unfolding ch by simp
  qed
  then show ?case using step rec stages by (auto simp: oid_of_def)
qed

lemma changed_extensions_eq:
  "length results = length es \<Longrightarrow> map fst results = map xc_name es \<Longrightarrow>
   changed_extensions n results = map2 (\<lambda>(e, i, out) k. \<lparr>ex_name = xc_name e, ex_priority = n + int k, ex_oid = i\<rparr>)
     (changed es results) [0..<length (changed es results)]"
proof (induction results es arbitrary: n rule: list_induct2)
  case (Cons r results e es)
  obtain name i out where r: "r = (name, i, out)" by (metis prod.exhaust)
  have name: "name = xc_name e" using Cons.prems r by simp
  let ?c = "changed es results"
  have up: "map2 (\<lambda>(e, i, out) k. \<lparr>ex_name = xc_name e, ex_priority = (n + 1) + int k, ex_oid = i\<rparr>) ?c [0..<length ?c] =
      map2 (\<lambda>(e, i, out) k. \<lparr>ex_name = xc_name e, ex_priority = n + int k, ex_oid = i\<rparr>) ?c [1..<Suc (length ?c)]"
    by (simp add: map_Suc_upt [symmetric] zip_map2 comp_def case_prod_unfold add.assoc del: upt_Suc)
  show ?case
  proof (cases "i = out")
    case True
    then show ?thesis using Cons.IH [of n] Cons.prems r by (simp add: changed_def)
  next
    case False
    then have "changed (e # es) (r # results) = (e, i, out) # ?c" by (simp add: changed_def r)
    moreover have "[0..<Suc (length ?c)] = 0 # [1..<Suc (length ?c)]" by (simp add: upt_conv_Cons del: upt_Suc)
    ultimately show ?thesis using Cons.IH [of "n + 1"] Cons.prems r name up False by (simp del: upt_Suc)
  qed
qed (simp add: changed_def)

lemma named_back:
  "\<lbrakk>length ks = length ch; \<forall>x\<in>set ch. fst x \<in> set (le_extensions env); distinct (map xc_name (le_extensions env))\<rbrakk> \<Longrightarrow>
   named_extensions env (map2 (\<lambda>(e, i, out) k. \<lparr>ex_name = xc_name e, ex_priority = int k, ex_oid = i\<rparr>) ch ks) =
     Inr (map2 (\<lambda>(e, i, out) k. e\<lparr>xc_priority := int k\<rparr>) ch ks)"
proof (induction ks ch rule: list_induct2)
  case (Cons k ks x ch)
  obtain e i out where x: "x = (e, i, out)" by (metis prod.exhaust)
  have "find (\<lambda>e'. xc_name e' = xc_name e) es = Some e" if "e \<in> set es" "distinct (map xc_name es)" for es
    using that by (induction es) force+
  then have "find (\<lambda>e'. xc_name e' = xc_name e) (le_extensions env) = Some e" using Cons.prems x by simp
  then show ?case using Cons x by simp
qed simp

lemma neighbours_apart: "sorted_wrt (<) (map xc_priority es) \<Longrightarrow> equal_neighbours es = None"
  by (induction es rule: equal_neighbours.induct) auto

lemma find_by_name: "distinct (map fst rs) \<Longrightarrow> r \<in> set rs \<Longrightarrow> find (\<lambda>s. fst s = fst r) rs = Some r"
  by (induction rs) force+

lemma results_match: "\<forall>x\<in>set xs. \<exists>r\<in>set rs. fst r = ex_name x \<and> snd (snd r) = ex_oid x \<Longrightarrow> distinct (map fst rs) \<Longrightarrow> check_results rs xs = None"
proof (induction xs)
  case (Cons x xs)
  obtain r where r: "r \<in> set rs" "fst r = ex_name x" "snd (snd r) = ex_oid x" using Cons.prems(1) by auto
  then have "find (\<lambda>s. fst s = ex_name x) rs = Some r" using find_by_name [OF Cons.prems(2) r(1)] by simp
  then show ?case using Cons r(3) by simp
qed simp

lemma first_result: "pipe_through env cl f (e # es) d = Inr (x, rs) \<Longrightarrow> rs \<noteq> [] \<and> fst (snd (hd rs)) = oid_of env d"
  by (auto split: run_result.splits if_splits sum.splits)

lemma changed_set: "x \<in> set (changed es rs) \<Longrightarrow> fst x \<in> set es"
  by (auto simp: changed_def dest!: set_zip_leftD)

lemma changed_names:
  assumes "distinct (map xc_name es)"
  shows "distinct (map (\<lambda>x. xc_name (fst x)) (changed es rs))"
proof -
  have "distinct (map (\<lambda>x. xc_name (fst x)) (map2 (\<lambda>e (n, i, out). (e, i, out)) es rs))"
  proof -
    have "map (\<lambda>x. xc_name (fst x)) (map2 (\<lambda>e (n, i, out). (e, i, out)) es rs) = map xc_name (take (length rs) es)"
      by (rule nth_equalityI) (auto split: prod.splits)
    then show ?thesis using assms by (metis distinct_take take_map)
  qed
  then show ?thesis unfolding changed_def by (rule distinct_map_filter)
qed

lemma smudge_extensions_back:
  assumes undone: "pipe_through env False f (rev (map fst ch)) final = Inr (c, rev (map (\<lambda>(e, i, out). (xc_name e, out, i)) ch))"
    and ne: "ch \<noteq> []" and known: "\<forall>x\<in>set ch. fst x \<in> set (le_extensions env)" and names: "distinct (map xc_name (le_extensions env))"
      "distinct (map (\<lambda>x. xc_name (fst x)) ch)"
    and p: "pt_oid p = oid_of env final" "pt_extensions p =
      map2 (\<lambda>(e, i, out) k. \<lparr>ex_name = xc_name e, ex_priority = int k, ex_oid = i\<rparr>) ch [0..<length ch]"
    and temp: "le_temp env = None"
  shows "smudge_extensions env p f final = Inr c"
proof -
  let ?exts = "map2 (\<lambda>(e, i, out) k. e\<lparr>xc_priority := int k\<rparr>) ch [0..<length ch]"
  let ?rs = "rev (map (\<lambda>(e, i, out). (xc_name e, out, i)) ch)"
  have named: "named_extensions env (pt_extensions p) = Inr ?exts" unfolding p(2) by (rule named_back [OF _ known names(1)]) simp
  have prios: "map xc_priority ?exts = map int [0..<length ch]" by (rule nth_equalityI) (auto split: prod.splits)
  have strict: "sorted_wrt (<) (map xc_priority ?exts)" unfolding prios by (simp add: sorted_wrt_map)
  then have sorted: "sort_key xc_priority ?exts = ?exts"
    using sorted_wrt_mono_rel [of "map xc_priority ?exts" "(<)" "(\<le>)"] by (intro sort_key_id_if_sorted) simp
  have "rev ?exts = map (\<lambda>(e, n). e\<lparr>xc_priority := n\<rparr>) (rev (zip (map fst ch) (map int [0..<length ch])))"
    unfolding rev_map [symmetric] by (simp add: zip_map1 zip_map2 case_prod_unfold comp_def)
  moreover have "map fst (rev (zip (map fst ch) (map int [0..<length ch]))) = rev (map fst ch)" by (simp flip: rev_map)
  ultimately have "pipe_through env False f (rev ?exts) final = Inr (c, ?rs)" using undone pipe_priority by metis
  then have pipe: "pipe_extensions env False [ReadData final] f (rev ?exts) = Inr (c, ?rs)"
    by (simp add: pipe_extensions_def copy_data temp)
  obtain e es where "rev (map fst ch) = e # es" using ne by (cases "rev (map fst ch)") auto
  then have first: "fst (snd (hd ?rs)) = pt_oid p" using first_result [of env False f e es final c ?rs] undone p(1) by simp
  have "check_results ?rs (pt_extensions p) = None"
  proof (rule results_match)
    show "\<forall>x\<in>set (pt_extensions p). \<exists>r\<in>set ?rs. fst r = ex_name x \<and> snd (snd r) = ex_oid x"
      unfolding p(2) by (auto dest!: set_zip_leftD) force
    show "distinct (map fst ?rs)" using names(2) by (simp add: rev_map [symmetric] comp_def case_prod_unfold)
  qed
  then show ?thesis
    unfolding smudge_extensions_def named sum.case Let_def sorted neighbours_apart [OF strict] option.case pipe prod.case using first by simp
qed

subsection \<open>There and back\<close>

definition name_ok :: "tables \<Rightarrow> string \<Rightarrow> bool" where
  "name_ok tb name \<longleftrightarrow> from_utf8_ok name \<and> CHR '' '' \<notin> set name \<and> LF \<notin> set name \<and> name \<noteq> [] \<and> tb_word tb (hd (utf8_chars name))"

definition ext_room :: "string list \<Rightarrow> nat" where
  "ext_room names = sum_list (map (\<lambda>n. 79 + length n) names)"

definition lfs_ok :: "lfs_env \<Rightarrow> string \<Rightarrow> string \<Rightarrow> bool" where
  "lfs_ok env f c \<longleftrightarrow> tables_ok (le_tables env) \<and> le_temp env = None \<and> le_rename env = None \<and> le_mkdir env = (\<lambda>_. None) \<and>
     (\<forall>d. length (le_sha256 env d) = 32) \<and> length (le_extensions env) \<le> 10 \<and>
     ext_room (map xc_name (le_extensions env)) \<le> 880 \<and>
     distinct (map xc_name (le_extensions env)) \<and> distinct (map xc_priority (le_extensions env)) \<and>
     list_all (\<lambda>e. inverts env f e \<and> name_ok (le_tables env) (xc_name e)) (le_extensions env) \<and>
     inj_on (le_sha256 env) (set (stages env f (sort_key xc_priority (le_extensions env)) c))"

lemma oid_of_ok: "\<forall>d. length (le_sha256 env d) = 32 \<Longrightarrow> is_oid (oid_of env d)"
  by (simp add: oid_of_def hex_text_oid)

lemma none_taken: "\<lbrakk>distinct (map xc_priority es); \<forall>e\<in>set es. xc_priority e \<notin> set seen\<rbrakk> \<Longrightarrow> first_taken seen es = None"
proof (induction es arbitrary: seen)
  case (Cons e es)
  have "xc_priority e \<notin> xc_priority ` set es" "\<forall>x\<in>set es. xc_priority x \<notin> set seen" using Cons.prems by simp_all
  then have "\<forall>x\<in>set es. xc_priority x \<notin> set (xc_priority e # seen)" unfolding image_iff by auto
  then show ?case using Cons.prems Cons.IH [of "xc_priority e # seen"] by simp
qed simp

lemma pipe_oids: "pipe_through env cl f es d = Inr (x, rs) \<Longrightarrow> \<forall>r\<in>set rs. \<exists>d'. fst (snd r) = oid_of env d'"
  by (induction es arbitrary: d rs) (fastforce split: run_result.splits if_splits sum.splits)+

lemma changed_from: "x \<in> set (changed es rs) \<Longrightarrow> \<exists>r\<in>set rs. fst (snd r) = fst (snd x)"
  by (force simp: changed_def dest!: set_zip_rightD)

definition cleaned_well :: "lfs_env \<Rightarrow> string \<Rightarrow> string \<Rightarrow> pointer \<Rightarrow> string \<Rightarrow> bool" where
  "cleaned_well env f c p final \<longleftrightarrow> final \<in> set (stages env f (sort_key xc_priority (le_extensions env)) c) \<and>
     pt_oid p = oid_of env final \<and> pt_size p = int (length final) \<and>
     ext_room (map ex_name (pt_extensions p)) \<le> ext_room (map xc_name (le_extensions env)) \<and>
     (0 < length final \<and> length final < 2 ^ 63 \<longrightarrow> pointer_ok (le_tables env) p) \<and>
     (\<forall>media fs. fs media = Some final \<longrightarrow> read_local_file env p media f fs = Inr c)"

lemma changed_length: "length (changed es rs) \<le> length es"
proof -
  have "length (changed es rs) \<le> length (map2 (\<lambda>e (n, i, out). (e, i, out)) es rs)" unfolding changed_def by (rule length_filter_le)
  then show ?thesis by simp
qed

lemma changed_room: "ext_room (map (\<lambda>x. xc_name (fst x)) (changed es rs)) \<le> ext_room (map xc_name es)"
proof (induction es arbitrary: rs)
  case (Cons e es)
  show ?case
  proof (cases rs)
    case (Cons r rs')
    then show ?thesis using Cons.IH [of rs'] by (auto simp: changed_def ext_room_def split: prod.splits)
  qed (simp add: changed_def ext_room_def)
qed (simp add: changed_def)

lemma sorted_room: "ext_room (map xc_name (sort_key xc_priority es)) = ext_room (map xc_name es)"
proof -
  have "mset (map (\<lambda>n. 79 + length n) (map xc_name (sort_key xc_priority es))) = mset (map (\<lambda>n. 79 + length n) (map xc_name es))"
    by (simp only: mset_map mset_sort)
  then show ?thesis unfolding ext_room_def by (metis sum_mset_sum_list)
qed

lemma sorted_names:
  assumes "distinct (map f xs)"
  shows "distinct (map f (sort_key g xs))"
  using assms by (simp add: distinct_map)

lemma changed_pointer_ok:
  assumes ok: "lfs_ok env f c" and known: "\<forall>x\<in>set ch. fst x \<in> set (le_extensions env)" and few: "length ch \<le> 10"
    and oids: "\<forall>x\<in>set ch. \<exists>d. fst (snd x) = oid_of env d"
    and p: "pt_oid p = oid_of env final" "pt_size p = int (length final)" "pt_canonical p" "pt_extensions p =
      map2 (\<lambda>(e, i, out) k. \<lparr>ex_name = xc_name e, ex_priority = int k, ex_oid = i\<rparr>) ch [0..<length ch]"
    and size: "0 < length final" "length final < 2 ^ 63"
  shows "pointer_ok (le_tables env) p"
proof -
  have sha: "\<forall>d. length (le_sha256 env d) = 32" using ok by (simp add: lfs_ok_def)
  have "ext_ok (le_tables env) x" if mem: "x \<in> set (pt_extensions p)" for x
  proof -
    obtain e i out k where x: "x = \<lparr>ex_name = xc_name e, ex_priority = int k, ex_oid = i\<rparr>" "(e, i, out) \<in> set ch" "k < length ch"
      using mem unfolding p(4) by (fastforce dest: set_zip_leftD set_zip_rightD)
    have "is_oid i" using oids x(2) oid_of_ok [OF sha] by fastforce
    moreover have "name_ok (le_tables env) (xc_name e)" using known x(2) ok by (force simp: lfs_ok_def list_all_iff)
    ultimately show ?thesis using x(1,3) few by (simp add: ext_ok_def name_ok_def)
  qed
  moreover have prios: "map ex_priority (pt_extensions p) = map int [0..<length ch]"
    unfolding p(4) by (rule nth_equalityI) (auto split: prod.splits)
  have "sorted_wrt (<) (map ex_priority (pt_extensions p))" unfolding prios by (simp add: sorted_wrt_map)
  moreover have "int (length final) < 2 ^ 63" using size(2) by (simp add: nat_less_iff flip: of_nat_less_iff)
  ultimately show ?thesis using oid_of_ok [OF sha] size(1) by (simp add: pointer_ok_def p list_all_iff)
qed

lemma changed_read:
  assumes ok: "lfs_ok env f c" and known: "\<forall>x\<in>set ch. fst x \<in> set (le_extensions env)"
    and names: "distinct (map (\<lambda>x. xc_name (fst x)) ch)"
    and undone: "pipe_through env False f (rev (map fst ch)) final = Inr (c, rev (map (\<lambda>(e, i, out). (xc_name e, out, i)) ch))"
    and p: "pt_oid p = oid_of env final" "pt_extensions p =
      map2 (\<lambda>(e, i, out) k. \<lparr>ex_name = xc_name e, ex_priority = int k, ex_oid = i\<rparr>) ch [0..<length ch]"
    and stored: "fs media = Some final"
  shows "read_local_file env p media f fs = Inr c"
proof (cases "ch = []")
  case True
  then have "pt_extensions p = []" "final = c" using p(2) undone by simp_all
  then show ?thesis using stored copy_data by (simp add: read_local_file_def)
next
  case False
  have "distinct (map xc_name (le_extensions env))" "le_temp env = None" using ok by (simp_all add: lfs_ok_def)
  then have "smudge_extensions env p f final = Inr c" using smudge_extensions_back [OF undone False known _ names p] by simp
  moreover have "pt_extensions p \<noteq> []" using p(2) False by simp
  ultimately show ?thesis using stored by (simp add: read_local_file_def)
qed

lemma clean_piped:
  assumes ok: "lfs_ok env f c" and ne: "le_extensions env \<noteq> []" and rd: "list_all plain_read rd" "read_text rd = c"
  shows "\<exists>p final. lfs_clean env rd f = Inr (CleanedObject p final) \<and> cleaned_well env f c p final"
proof -
  define es where "es = sort_key xc_priority (le_extensions env)"
  have es: "set es = set (le_extensions env)" "length es \<le> 10" using ok by (simp_all add: es_def lfs_ok_def)
  then have some: "es \<noteq> []" using ne by auto
  have names: "distinct (map xc_name es)" unfolding es_def using ok by (intro sorted_names) (simp add: lfs_ok_def)
  have sorted: "sorted_extensions env = Inr es"
    using ok none_taken [of "le_extensions env" "[]"] by (simp add: sorted_extensions_def es_def lfs_ok_def)
  have "\<forall>e\<in>set es. inverts env f e" "inj_on (le_sha256 env) (set (stages env f es c))"
    using ok es(1) by (simp_all add: lfs_ok_def list_all_iff es_def)
  from pipe_back [OF this] obtain final results where pipe: "pipe_through env True f es c = Inr (final, results)"
    and res: "length results = length es" "map fst results = map xc_name es"
    and last: "if results = [] then final = c else snd (snd (last results)) = oid_of env final"
    and stage: "final \<in> set (stages env f es c)"
    and undone: "pipe_through env False f (rev (map fst (changed es results))) final =
       Inr (c, rev (map (\<lambda>(e, i, out). (xc_name e, out, i)) (changed es results)))" by blast
  let ?ch = "changed es results"
  define p where "p = new_pointer (oid_of env final) (int (length final)) (changed_extensions 0 results)"
  have p: "pt_oid p = oid_of env final" "pt_size p = int (length final)" "pt_canonical p" by (simp_all add: p_def new_pointer_def)
  have "results \<noteq> []" using res(1) some by auto
  then have clean: "lfs_clean env rd f = Inr (CleanedObject p final)"
    using ok some last copy_plain [OF rd(1), of "[]"] rd(2) pipe sorted by (simp add: lfs_clean_def pipe_extensions_def lfs_ok_def p_def)
  have exts: "pt_extensions p = map2 (\<lambda>(e, i, out) k. \<lparr>ex_name = xc_name e, ex_priority = int k, ex_oid = i\<rparr>) ?ch [0..<length ?ch]"
    using changed_extensions_eq [OF res, of 0] by (simp add: p_def new_pointer_def)
  have known: "\<forall>x\<in>set ?ch. fst x \<in> set (le_extensions env)" using changed_set es(1) by blast
  have few: "length ?ch \<le> 10" using changed_length [of es results] es(2) by linarith
  have oids: "\<forall>x\<in>set ?ch. \<exists>d. fst (snd x) = oid_of env d" using changed_from pipe_oids [OF pipe] by metis
  have "map ex_name (pt_extensions p) = map (\<lambda>x. xc_name (fst x)) ?ch" unfolding exts by (rule nth_equalityI) (auto split: prod.splits)
  then have room: "ext_room (map ex_name (pt_extensions p)) \<le> ext_room (map xc_name (le_extensions env))"
    using changed_room [of es results] sorted_room [of "le_extensions env"] by (simp add: es_def)
  have "cleaned_well env f c p final" unfolding cleaned_well_def
    using room stage [unfolded es_def] p changed_pointer_ok [OF ok known few oids p exts] changed_read [OF ok known changed_names [OF names] undone p(1) exts] by blast
  then show ?thesis using clean by blast
qed

definition passed_on :: "lfs_env \<Rightarrow> string \<Rightarrow> bool" where
  "passed_on env c \<longleftrightarrow> le_extensions env = [] \<and> (c = [] \<or> length c < BLOB_SIZE_CUTOFF \<and> \<not> isl (decode (le_tables env) c))"

lemma clean_unpiped:
  assumes temp: "le_temp env = None" and none: "le_extensions env = []" and rd: "list_all plain_read rd" "read_text rd = c"
  shows "lfs_clean env rd f =
    Inr (if passed_on env c then Passthrough c else CleanedObject (new_pointer (oid_of env c) (int (length c)) []) c)"
proof -
  let ?head = "take BLOB_SIZE_CUTOFF c"
  obtain rest where rest: "fill_head BLOB_SIZE_CUTOFF [] rd = Inr (?head, rest)" "list_all plain_read rest" "c = ?head @ read_text rest"
    using fill_plain [OF rd(1), of "[]" BLOB_SIZE_CUTOFF] rd(2) by auto
  have exts: "sorted_extensions env = Inr []" using none by (simp add: sorted_extensions_def)
  have pos: "0 < BLOB_SIZE_CUTOFF" by (simp add: BLOB_SIZE_CUTOFF_def)
  have passed: "passed_on env c \<longleftrightarrow> ?head = [] \<or> \<not> isl (decode (le_tables env) ?head) \<and> length ?head < BLOB_SIZE_CUTOFF"
  proof (cases "length c < BLOB_SIZE_CUTOFF")
    case True
    then show ?thesis using none by (auto simp: passed_on_def)
  next
    case False
    then have "c \<noteq> []" "?head \<noteq> []" "length ?head = BLOB_SIZE_CUTOFF" using pos by auto
    then show ?thesis using False by (simp add: passed_on_def)
  qed
  show ?thesis
  proof (cases "passed_on env c")
    case True
    then have "?head = c" using pos by (auto simp: passed_on_def)
    then show ?thesis unfolding lfs_clean_def exts sum.case rest(1) prod.case passed [symmetric] using True by simp
  next
    case False
    then have "?head \<noteq> []" using passed by blast
    then have "copy_with_progress [] (ReadData ?head # rest) = Inr c"
      using copy_plain [of "ReadData ?head # rest" "[]"] rest(2) rest(3) [symmetric] by simp
    then show ?thesis unfolding lfs_clean_def exts sum.case rest(1) prod.case passed [symmetric] using False temp by simp
  qed
qed

lemma whole_well:
  assumes ok: "lfs_ok env f c" and none: "le_extensions env = []"
  shows "cleaned_well env f c (new_pointer (oid_of env c) (int (length c)) []) c"
proof -
  let ?p = "new_pointer (oid_of env c) (int (length c)) []"
  have "pointer_ok (le_tables env) ?p" if "0 < length c" "length c < 2 ^ 63"
    by (rule changed_pointer_ok [OF ok, of "[]"]) (use that in \<open>simp_all add: new_pointer_def\<close>)
  moreover have "read_local_file env ?p media f fs = Inr c" if "fs media = Some c" for media fs
    using that copy_data by (simp add: read_local_file_def new_pointer_def)
  ultimately show ?thesis using none by (simp add: cleaned_well_def new_pointer_def ext_room_def)
qed

lemma clean_well:
  assumes "lfs_ok env f c" "\<not> passed_on env c" "list_all plain_read rd" "read_text rd = c"
  shows "\<exists>p final. lfs_clean env rd f = Inr (CleanedObject p final) \<and> cleaned_well env f c p final"
proof (cases "le_extensions env = []")
  case True
  have "le_temp env = None" using assms(1) by (simp add: lfs_ok_def)
  from clean_unpiped [OF this True assms(3,4)] show ?thesis using whole_well [OF assms(1) True] assms(2) by simp
next
  case False
  then show ?thesis using clean_piped assms by blast
qed

definition content_ok :: "lfs_env \<Rightarrow> string \<Rightarrow> files \<Rightarrow> string \<Rightarrow> bool" where
  "content_ok env f fs c \<longleftrightarrow> list_all (\<lambda>d. d \<noteq> [] \<and> length d < 2 ^ 63 \<and> oid_of env d \<noteq> EMPTY_OBJECT_SHA256 \<and>
     (case fs (object_pathname env (oid_of env d)) of None \<Rightarrow> True | Some old \<Rightarrow> old = d))
     (stages env f (sort_key xc_priority (le_extensions env)) c)"

lemma object_path_ok:
  assumes "le_mkdir env = (\<lambda>_. None)" "is_oid oid"
  shows "object_path env oid = Inr (object_pathname env oid)"
  using assms by (simp add: object_path_def object_pathname_def is_oid_def Let_def)

lemma do_clean_stores:
  assumes ok: "lfs_ok env f c" and content: "content_ok env f fs c" and new: "\<not> passed_on env c"
    and rd: "list_all plain_read rd" "read_text rd = c"
  shows "\<exists>p final. do_clean env rd f fs = (fs(object_pathname env (pt_oid p) \<mapsto> final), CleanWrote (encoded p) (Some p)) \<and>
    cleaned_well env f c p final \<and> 0 < length final \<and> length final < 2 ^ 63"
proof -
  obtain p final where clean: "lfs_clean env rd f = Inr (CleanedObject p final)" and well: "cleaned_well env f c p final"
    using clean_well [OF ok new rd] by blast
  have p: "pt_oid p = oid_of env final" "pt_size p = int (length final)" using well by (simp_all add: cleaned_well_def)
  let ?media = "object_pathname env (oid_of env final)"
  have stage: "final \<noteq> []" "length final < 2 ^ 63" and old: "case fs ?media of None \<Rightarrow> True | Some old \<Rightarrow> old = final"
    using content well by (auto simp: content_ok_def cleaned_well_def list_all_iff)
  have path: "object_path env (pt_oid p) = Inr ?media" unfolding p(1) using ok by (intro object_path_ok oid_of_ok) (simp_all add: lfs_ok_def)
  have rename: "le_rename env = None" using ok by (simp add: lfs_ok_def)
  have "do_clean env rd f fs = (fs(?media \<mapsto> final), CleanWrote (encoded p) (Some p))"
  proof (cases "fs ?media")
    case None
    then show ?thesis by (simp add: do_clean_def clean path rename)
  next
    case (Some d)
    then have "d = final" using old by simp
    then show ?thesis using Some fun_upd_triv [of fs ?media] by (simp add: do_clean_def clean path p(2))
  qed
  then show ?thesis using well stage p(1) by auto
qed

lemma smudge_stored:
  assumes oid: "object_path env (pt_oid p) = Inr (object_pathname env (pt_oid p))" and size: "pt_size p \<noteq> 0"
    and stored: "of_size fs (object_pathname env (pt_oid p)) (pt_size p)"
    and read: "read_local_file env p (object_pathname env (pt_oid p)) f fs = Inr c"
  shows "lfs_smudge env p f download fs = (fs, Inr c)" "link_or_copy_from_reference env (pt_oid p) (pt_size p) fs = fs"
proof -
  show link: "link_or_copy_from_reference env (pt_oid p) (pt_size p) fs = fs" using stored by (simp add: link_or_copy_from_reference_def)
  show "lfs_smudge env p f download fs = (fs, Inr c)" using size stored read by (simp add: lfs_smudge_def oid link Let_def)
qed

subsection \<open>What the filters promise\<close>

definition data_reads :: "read_event list \<Rightarrow> bool" where
  "data_reads rd \<longleftrightarrow> list_all (\<lambda>e. case e of ReadData d \<Rightarrow> d \<noteq> [] | _ \<Rightarrow> False) rd"

lemma data_reads_data: "data_reads rd \<Longrightarrow> list_all (\<lambda>e. \<exists>d. e = ReadData d \<and> d \<noteq> []) rd"
  by (induction rd) (auto simp: data_reads_def split: read_event.splits)

lemma extension_line_length: "ext_ok tb e \<Longrightarrow> length (extension_line e) = 79 + length (ex_name e)"
  by (simp add: extension_line_def ext_ok_def is_oid_def show_digit)

lemma encoded_length:
  assumes "pointer_ok tb p"
  shows "length (encoded p) \<le> 144 + ext_room (map ex_name (pt_extensions p))"
proof -
  have "list_all (ext_ok tb) es \<Longrightarrow> length (concat (map extension_line es)) = ext_room (map ex_name es)" for es
    by (induction es) (auto simp: ext_room_def dest: extension_line_length)
  then have exts: "length (concat (map extension_line (pt_extensions p))) = ext_room (map ex_name (pt_extensions p))"
    using assms by (simp add: pointer_ok_def)
  have p: "length (pt_oid p) = 64" "0 < pt_size p" "pt_size p < 2 ^ 63" using assms by (simp_all add: pointer_ok_def is_oid_def)
  have "length (decimal (nat (pt_size p))) \<le> 19" using p(2,3) by (intro length_decimal) auto
  then have "length (show_int (pt_size p)) \<le> 19" using p(2) by (simp add: show_int_def)
  moreover have "length LATEST = 34" by code_simp
  ultimately show ?thesis using p(1,2) exts by (simp add: encoded_def)
qed

lemma cleaned_fits:
  assumes "lfs_ok env f c" "cleaned_well env f c p final" "0 < length final" "length final < 2 ^ 63"
  shows "length (encoded p) \<le> BLOB_SIZE_CUTOFF"
proof -
  have "pointer_ok (le_tables env) p" "ext_room (map ex_name (pt_extensions p)) \<le> 880" using assms unfolding cleaned_well_def lfs_ok_def by (blast, linarith)
  then show ?thesis using encoded_length [of "le_tables env" p] by (simp add: BLOB_SIZE_CUTOFF_def)
qed

lemma do_smudge_stored:
  assumes ok: "lfs_ok env f c" and well: "cleaned_well env f c p final" and size: "0 < length final" "length final < 2 ^ 63"
    and stored: "fs (object_pathname env (pt_oid p)) = Some final"
    and rd: "data_reads rd" "read_text rd = encoded p" and allowed: "allows f"
  shows "do_smudge env rd f False allows fs = (fs, SmudgeWrote c)"
proof -
  have p: "pt_oid p = oid_of env final" "pt_size p = int (length final)" "pointer_ok (le_tables env) p"
      "read_local_file env p (object_pathname env (pt_oid p)) f fs = Inr c"
    using well size stored by (simp_all add: cleaned_well_def)
  have env: "tables_ok (le_tables env)" "le_mkdir env = (\<lambda>_. None)" "\<forall>d. length (le_sha256 env d) = 32" using ok by (simp_all add: lfs_ok_def)
  have "list_all (\<lambda>e. \<exists>d. e = ReadData d \<and> d \<noteq> []) rd" using rd(1) by (rule data_reads_data)
  then obtain rest where head: "decode_from [] rd = (encoded p, rest)" using decode_from_data [of rd "[]"] rd(2) cleaned_fits [OF ok well size] by auto
  have path: "object_path env (pt_oid p) = Inr (object_pathname env (pt_oid p))"
    unfolding p(1) by (rule object_path_ok [OF env(2) oid_of_ok [OF env(3)]])
  have nonzero: "pt_size p \<noteq> 0" using size(1) p(2) by simp
  have here: "of_size fs (object_pathname env (pt_oid p)) (pt_size p)" using stored p(2) by (simp add: of_size_def)
  note there = smudge_stored [OF path nonzero here p(4)]
  show ?thesis using allowed by (simp add: do_smudge_def head decode_encoded [OF p(3) env(1)] there Let_def)
qed

text \<open>C27: Content comes back from the filters. Cleaning content that is not itself handed on (see the next property), read in any pieces and with any
  interruptions, stores one object under its SHA-256 name and writes a well-formed pointer; smudging that pointer from the
  store it left, for a file the fetch filter allows, changes no file and writes exactly the original content. This holds through up to ten
  configured extensions, as long as each one's smudge program undoes its clean program, SHA-256 does not collide on the stages of this
  content, the system calls succeed, the objects already stored under these names are these stages, and the names of the extensions are short
  enough together for the pointer to fit 1024 bytes.\<close>

theorem lfs_filter_roundtrip:
  assumes "lfs_ok env f c" "content_ok env f fs c" "\<not> passed_on env c" "list_all plain_read rd" "read_text rd = c"
  shows "\<exists>p final. do_clean env rd f fs = (fs(object_pathname env (pt_oid p) \<mapsto> final), CleanWrote (encoded p) (Some p)) \<and>
    pointer_ok (le_tables env) p \<and> pt_oid p = oid_of env final \<and>
    (\<forall>rd2 allows. data_reads rd2 \<and> read_text rd2 = encoded p \<and> allows f \<longrightarrow>
      do_smudge env rd2 f False allows (fs(object_pathname env (pt_oid p) \<mapsto> final)) =
        (fs(object_pathname env (pt_oid p) \<mapsto> final), SmudgeWrote c))"
proof -
  obtain p final where clean: "do_clean env rd f fs = (fs(object_pathname env (pt_oid p) \<mapsto> final), CleanWrote (encoded p) (Some p))"
    and well: "cleaned_well env f c p final" and size: "0 < length final" "length final < 2 ^ 63"
    using do_clean_stores [OF assms] by blast
  have "pointer_ok (le_tables env) p" "pt_oid p = oid_of env final" using well size by (simp_all add: cleaned_well_def)
  then show ?thesis using clean do_smudge_stored [OF assms(1) well size] by (intro exI [of _ p] exI [of _ final]) simp
qed

definition rev_env :: lfs_env where
  "rev_env = \<lparr>le_extensions = [\<lparr>xc_name = ''rev'', xc_clean = ''rev %f'', xc_smudge = ''rev'', xc_priority = 3\<rparr>],
     le_run = (\<lambda>prog args d. Ran True (rev d) [] []), le_sha256 = (\<lambda>d. take 32 (d @ replicate 32 CHR ''0'')), le_tables = ascii_tables,
     le_objects = ''/lfs'', le_temp = None, le_mkdir = (\<lambda>_. None), le_alternates = [], le_link = (\<lambda>_ _. False),
     le_download = (\<lambda>_. Inl (new_error ''offline'')), le_fallback = (\<lambda>_. None), le_rename = None\<rparr>"

lemma rev_env_stages: "stages rev_env f (sort_key xc_priority (le_extensions rev_env)) ''hello'' = [''hello'', ''olleh'']"
  by (simp add: rev_env_def run_extension_def)

lemma rev_env_name: "name_ok ascii_tables ''rev''"
proof -
  have "from_utf8_ok ''rev''" "tb_word ascii_tables (hd (utf8_chars ''rev''))" by code_simp+
  then show ?thesis by (simp add: name_ok_def LF_def)
qed

lemma rev_env_sha:
  "length (le_sha256 rev_env d) = 32" "inj_on (le_sha256 rev_env) {''hello'', ''olleh''}"
  by (simp_all add: rev_env_def)

lemma rev_env_inverts: "inverts rev_env f e"
  by (simp add: inverts_def rev_env_def run_extension_def Let_def)

lemma rev_env_oids: "oid_of rev_env ''hello'' \<noteq> EMPTY_OBJECT_SHA256" "oid_of rev_env ''olleh'' \<noteq> EMPTY_OBJECT_SHA256"
proof -
  have h: "hexn 2 104 = ''68''" "hexn 2 111 = ''6f''" by code_simp+
  obtain s t where st: "le_sha256 rev_env ''hello'' = CHR ''h'' # s" "le_sha256 rev_env ''olleh'' = CHR ''o'' # t" by (simp add: rev_env_def)
  have "oid_of rev_env ''hello'' = ''68'' @ hex_text s" "oid_of rev_env ''olleh'' = ''6f'' @ hex_text t"
    unfolding oid_of_def st hex_text_def by (simp_all add: h del: hexn.simps)
  then show "oid_of rev_env ''hello'' \<noteq> EMPTY_OBJECT_SHA256" "oid_of rev_env ''olleh'' \<noteq> EMPTY_OBJECT_SHA256"
    by (simp_all add: EMPTY_OBJECT_SHA256_def)
qed

lemma rev_env_content: "content_ok rev_env f Map.empty ''hello''"
  unfolding content_ok_def rev_env_stages using rev_env_oids by simp

lemma rev_env_ok: "lfs_ok rev_env f ''hello''"
  unfolding lfs_ok_def rev_env_stages using rev_env_sha rev_env_inverts rev_env_name ascii_tables_ok by (simp add: rev_env_def ext_room_def)

lemma rev_env_new: "\<not> passed_on rev_env ''hello''"
  by (simp add: passed_on_def rev_env_def)

theorem lfs_filter_roundtrip_witness:
  "\<exists>p fs. do_clean rev_env [ReadData ''hel'', Interrupted, ReadData ''lo''] ''a.bin'' Map.empty = (fs, CleanWrote (encoded p) (Some p)) \<and>
     do_smudge rev_env [ReadData (encoded p)] ''a.bin'' False (\<lambda>_. True) fs = (fs, SmudgeWrote ''hello'')"
proof -
  let ?rd = "[ReadData ''hel'', Interrupted, ReadData ''lo'']"
  have "list_all plain_read ?rd" "read_text ?rd = ''hello''" by simp_all
  then obtain p final where p: "do_clean rev_env ?rd ''a.bin'' Map.empty = ([object_pathname rev_env (pt_oid p) \<mapsto> final], CleanWrote (encoded p) (Some p))"
      "pointer_ok (le_tables rev_env) p" "\<And>rd2 allows. data_reads rd2 \<Longrightarrow> read_text rd2 = encoded p \<Longrightarrow> allows ''a.bin'' \<Longrightarrow>
      do_smudge rev_env rd2 ''a.bin'' False allows [object_pathname rev_env (pt_oid p) \<mapsto> final] =
        ([object_pathname rev_env (pt_oid p) \<mapsto> final], SmudgeWrote ''hello'')"
    using lfs_filter_roundtrip [of rev_env "''a.bin''" "''hello''" Map.empty ?rd] rev_env_ok rev_env_content rev_env_new by blast
  have "encoded p \<noteq> []" using p(2) by (simp add: pointer_ok_def encoded_def)
  then show ?thesis using p(1) p(3) [of "[ReadData (encoded p)]" "\<lambda>_. True"] by (auto simp: data_reads_def)
qed

text \<open>Cleaning is idempotent on pointers. Without extensions, input that is a pointer of less than 1024 bytes, or empty, is written back byte for byte
  and nothing is stored; in particular a pointer file that \<open>encoded\<close> wrote is kept as it is.\<close>

theorem lfs_clean_keeps_pointers:
  assumes "le_extensions env = []" "le_temp env = None" "list_all plain_read rd" "passed_on env (read_text rd) \<or>
    read_text rd = encoded p \<and> tables_ok (le_tables env) \<and> pointer_ok (le_tables env) p \<and> length (encoded p) < BLOB_SIZE_CUTOFF"
  shows "do_clean env rd f fs = (fs, CleanWrote (read_text rd) None)"
proof -
  have "passed_on env (read_text rd)" using assms(1,4) decode_encoded by (auto simp: passed_on_def)
  then show ?thesis using clean_unpiped [OF assms(2,1,3) refl] by (simp add: do_clean_def)
qed

theorem lfs_clean_keeps_pointers_witness:
  "let p = new_pointer (concat (replicate 32 ''4d'')) 5 []; env = rev_env\<lparr>le_extensions := []\<rparr> in
   do_clean env [Interrupted, ReadData (encoded p)] ''a.bin'' Map.empty = (Map.empty, CleanWrote (encoded p) None)"
proof -
  let ?p = "new_pointer (concat (replicate 32 ''4d'')) 5 []" and ?env = "rev_env\<lparr>le_extensions := []\<rparr>"
  have "is_oid (concat (replicate 32 ''4d''))" by code_simp
  then have ok: "pointer_ok ascii_tables ?p" by (simp add: pointer_ok_def new_pointer_def)
  have "length (encoded ?p) \<le> 144" using encoded_length [OF ok] by (simp add: new_pointer_def ext_room_def)
  then have "length (encoded ?p) < BLOB_SIZE_CUTOFF" by (simp add: BLOB_SIZE_CUTOFF_def)
  moreover have "encoded ?p \<noteq> []" by (simp add: encoded_def new_pointer_def)
  moreover have "le_temp ?env = None" "le_tables ?env = ascii_tables" by (simp_all add: rev_env_def)
  ultimately show ?thesis using lfs_clean_keeps_pointers [of ?env "[Interrupted, ReadData (encoded ?p)]" ?p "''a.bin''" Map.empty] ok ascii_tables_ok
    by (simp add: Let_def)
qed

subsection \<open>Where the filters go wrong\<close>

lemma smudge_interrupted:
  assumes "fs ''/dev/null'' = Some []" "allows f"
  shows "do_smudge env (Interrupted # rd) f False allows fs = (fs, SmudgeWrote [])"
proof -
  have "decode_from [] (Interrupted # rd) = ([], rd)" by (subst decode_from.simps) (simp add: BLOB_SIZE_CUTOFF_def)
  moreover have "object_path env EMPTY_OBJECT_SHA256 = Inr ''/dev/null''" by (simp add: object_path_def EMPTY_OBJECT_SHA256_def)
  ultimately show ?thesis using assms
    by (simp add: do_smudge_def decode_def empty_pointer_def new_pointer_def lfs_smudge_def link_or_copy_from_reference_def of_size_def Let_def)
qed

lemma smudge_removes_dev_null:
  assumes "fs ''/dev/null'' = Some []" "pt_oid p = EMPTY_OBJECT_SHA256" "0 < pt_size p" "le_alternates env = []"
  shows "fst (lfs_smudge env p f False fs) ''/dev/null'' = None"
proof -
  have path: "object_path env EMPTY_OBJECT_SHA256 = Inr ''/dev/null''" by (simp add: object_path_def EMPTY_OBJECT_SHA256_def)
  have link: "link_or_copy_from_reference env EMPTY_OBJECT_SHA256 (pt_size p) fs = fs"
    using assms(4) path by (simp add: link_or_copy_from_reference_def)
  show ?thesis using assms(1,3) by (simp add: lfs_smudge_def assms(2) path link of_size_def Let_def)
qed

lemma eleventh_extension_unread:
  "let results = map (\<lambda>n. (''k'', ''a'', ''b'')) [0..<11] in
   ext_text (last (changed_extensions 0 results)) = ''ext-10-k'' \<and> \<not> ext_key ascii_tables ''ext-10-k''"
proof -
  have "utf8_chars ''ext-10-k'' = [''e'', ''x'', ''t'', ''-'', ''1'', ''0'', ''-'', ''k'']" by code_simp
  then have "\<not> ext_key ascii_tables ''ext-10-k''" by (simp add: ext_key_def)
  moreover have "ext_text (last (changed_extensions 0 (map (\<lambda>n. (''k'', ''a'', ''b'')) [0..<11]))) = ''ext-10-k''" by code_simp
  ultimately show ?thesis by (simp add: Let_def)
qed

end
